(* ===== verification/Prelude.thy ===== *)
theory Prelude
  imports Main "HOL-Library.Monad_Syntax"
begin

text \<open>
  Shared vocabulary of the development: the three-way result of a fallible Rust function
  (a value, an \<open>Err\<close> or a panic), checked indexing, and the generic list and map lemmas
  the component theories rely on.

  Conventions used everywhere.
  \<^item> A Rust function that can only panic returns an \<open>option\<close>: \<open>None\<close> is the panic.
  \<^item> A Rust function that returns a \<open>Result\<close> and can also panic returns an \<open>outcome\<close>.
  \<^item> A Rust function that returns a \<open>Result\<close> and cannot panic returns a sum, \<open>Inl\<close> the error.
  \<^item> \<open>u32\<close> variable identifiers and \<open>usize\<close> wire indices are natural numbers; where the
    source checks their range the check is written out.
\<close>

section \<open>Results\<close>

datatype ('e, 'a) outcome = Ok 'a | Err 'e | Panic

fun obind :: "('e, 'a) outcome \<Rightarrow> ('a \<Rightarrow> ('e, 'b) outcome) \<Rightarrow> ('e, 'b) outcome" where
  "obind (Ok x) f = f x"
| "obind (Err e) f = Err e"
| "obind Panic f = Panic"

fun of_option :: "'a option \<Rightarrow> ('e, 'a) outcome" where
  "of_option None = Panic"
| "of_option (Some x) = Ok x"

fun of_result :: "'e + 'a \<Rightarrow> ('e, 'a) outcome" where
  "of_result (Inl e) = Err e"
| "of_result (Inr x) = Ok x"

lemma obind_eq_Ok [simp]: "obind m f = Ok y \<longleftrightarrow> (\<exists>x. m = Ok x \<and> f x = Ok y)"
  by (cases m) auto

lemma of_option_eq_Ok [simp]: "of_option m = Ok y \<longleftrightarrow> m = Some y"
  by (cases m) auto

lemma of_result_eq_Ok [simp]: "of_result m = Ok y \<longleftrightarrow> m = Inr y"
  by (cases m) auto

fun rbind :: "'e + 'a \<Rightarrow> ('a \<Rightarrow> 'e + 'b) \<Rightarrow> 'e + 'b" where
  "rbind (Inr x) f = f x"
| "rbind (Inl e) f = Inl e"

lemma rbind_eq_Inr [simp]: "rbind m f = Inr y \<longleftrightarrow> (\<exists>x. m = Inr x \<and> f x = Inr y)"
  by (cases m) auto

section \<open>Checked indexing\<close>

definition nth_opt :: "'a list \<Rightarrow> nat \<Rightarrow> 'a option" where
  "nth_opt xs i = (if i < length xs then Some (xs ! i) else None)"

definition nths_opt :: "'a list \<Rightarrow> nat list \<Rightarrow> 'a list option" where
  "nths_opt xs is = those (map (nth_opt xs) is)"

lemma nth_opt_Some [simp]: "i < length xs \<Longrightarrow> nth_opt xs i = Some (xs ! i)"
  by (simp add: nth_opt_def)

lemma nth_opt_eq_Some: "nth_opt xs i = Some x \<longleftrightarrow> i < length xs \<and> xs ! i = x"
  by (simp add: nth_opt_def)

lemma nth_opt_eq_None: "nth_opt xs i = None \<longleftrightarrow> length xs \<le> i"
  by (simp add: nth_opt_def)

lemma nth_opt_append: "i < length xs \<Longrightarrow> nth_opt (xs @ ys) i = nth_opt xs i"
  by (simp add: nth_opt_def nth_append)

lemma nths_opt_Nil [simp]: "nths_opt xs [] = Some []"
  by (simp add: nths_opt_def)

lemma nths_opt_Cons:
  "nths_opt xs (i # is) = do { x \<leftarrow> nth_opt xs i; r \<leftarrow> nths_opt xs is; Some (x # r) }"
  by (cases "nth_opt xs i"; cases "nths_opt xs is") (auto simp: nths_opt_def)

lemma nths_opt_Some [simp]:
  "\<forall>i\<in>set is. i < length xs \<Longrightarrow> nths_opt xs is = Some (map ((!) xs) is)"
  by (induction "is") (auto simp: nths_opt_Cons)

lemma nths_opt_eq_Some:
  "nths_opt xs is = Some r \<longleftrightarrow> (\<forall>i\<in>set is. i < length xs) \<and> r = map ((!) xs) is"
proof (induction "is" arbitrary: r)
  case (Cons a "is")
  then show ?case
    by (cases "nth_opt xs a") (auto simp: nths_opt_Cons nth_opt_eq_Some nth_opt_eq_None bind_eq_Some_conv)
qed auto

lemma nth_opt_extend: "nth_opt xs i = Some x \<Longrightarrow> nth_opt (xs @ ys) i = Some x"
  by (auto simp: nth_opt_eq_Some nth_append)

lemma nth_opt_length [simp]: "nth_opt (xs @ x # ys) (length xs) = Some x"
  by (simp add: nth_opt_def)

lemma nths_opt_extend: "nths_opt xs is = Some r \<Longrightarrow> nths_opt (xs @ ys) is = Some r"
  by (auto simp: nths_opt_eq_Some nth_append)

lemma option_eqI: "(\<And>r. x = Some r \<longleftrightarrow> y = Some r) \<Longrightarrow> x = y"
  by (cases x; cases y) auto

section \<open>Lists\<close>

lemma map_nth_append:
  "\<forall>i\<in>set is. i < length xs \<Longrightarrow> map ((!) (xs @ ys)) is = map ((!) xs) is"
  by (auto simp: nth_append)

lemma map_nth_upd_notin:
  "t \<notin> set is \<Longrightarrow> map ((!) (xs[t := b])) is = map ((!) xs) is"
  by (rule map_cong [OF refl]) (metis nth_list_update_neq)

lemma list_all_index_snoc:
  "(\<forall>i < Suc n. P i) \<longleftrightarrow> (\<forall>i < n. P i) \<and> P n"
  using less_Suc_eq by auto

end
