(* ===== verification/Boolar.thy ===== *)
theory Boolar
  imports Prelude
begin

text \<open>
  The data model of Boolar IR (\<open>volar-ir/src/boolar.rs\<close>, \<open>boolar/generated.rs\<close>) and of its
  circuit-fused form \<open>BCircuit\<close> (\<open>volar-ir/src/circuit.rs\<close>): statements, targets, terminators,
  blocks, pre-initialised storage segments; the fallible operand map; and the fusion and
  un-fusion functions with their validation errors.
\<close>

section \<open>Identifiers\<close>

type_synonym ir_var = nat       \<comment> \<open>\<open>IRVarId(u32)\<close>\<close>
type_synonym block_id = nat     \<comment> \<open>\<open>IRBlockId(u32)\<close>\<close>
type_synonym storage_id = nat   \<comment> \<open>\<open>StorageId(u32)\<close>\<close>
type_synonym lane_id = nat      \<comment> \<open>\<open>LaneId(u32)\<close>\<close>
type_synonym side_id = nat      \<comment> \<open>\<open>SideId\<close>\<close>

section \<open>Statements\<close>

text \<open>
  The Boolean gates carry the prefix \<open>B\<close>, since \<open>Not\<close> and \<open>One\<close> name HOL constants.
\<close>

datatype ('v, 's) BIrStmt =
    BZero
  | BOne
  | BAnd 'v 'v
  | BOr 'v 'v
  | BXor 'v 'v
  | BNot 'v
  | OracleCall string "'v list" nat
  | OracleBit string "'v list" nat nat
  | OracleProjectedBit 'v nat
  | ActionCall string 'v "'v list" "'v list" nat
  | ActionBit 'v nat
  | ActionStoreBit string 'v "'v list" 'v 's lane_id "'v list" nat nat
  | Rng string
  | RngBit string nat nat
  | StorageRead 's lane_id "'v list"
  | StorageWrite 's lane_id 'v "'v list"

type_synonym bstmt = "(ir_var, storage_id) BIrStmt"

text \<open>
  \<open>BIrStmt::map\<close>: the operand and storage callbacks thread a mutable context and may fail;
  the first failure is returned, with the context as the failing callback left it.
\<close>

type_synonym ('c, 'e, 'a) fallible = "'c \<Rightarrow> ('e + 'a) \<times> 'c"

fun fbind :: "('c, 'e, 'a) fallible \<Rightarrow> ('a \<Rightarrow> ('c, 'e, 'b) fallible) \<Rightarrow> ('c, 'e, 'b) fallible" where
  "fbind m f c = (case m c of (Inl e, c') \<Rightarrow> (Inl e, c') | (Inr x, c') \<Rightarrow> f x c')"

definition freturn :: "'a \<Rightarrow> ('c, 'e, 'a) fallible" where
  "freturn x = (\<lambda>c. (Inr x, c))"

fun fmap_list :: "('v \<Rightarrow> ('c, 'e, 'w) fallible) \<Rightarrow> 'v list \<Rightarrow> ('c, 'e, 'w list) fallible" where
  "fmap_list f [] = freturn []"
| "fmap_list f (v # vs) =
     fbind (f v) (\<lambda>w. fbind (fmap_list f vs) (\<lambda>ws. freturn (w # ws)))"

fun stmt_map ::
  "('v \<Rightarrow> ('c, 'e, 'w) fallible) \<Rightarrow> ('s \<Rightarrow> ('c, 'e, 't) fallible)
   \<Rightarrow> ('v, 's) BIrStmt \<Rightarrow> ('c, 'e, ('w, 't) BIrStmt) fallible" where
  "stmt_map f g BZero = freturn BZero"
| "stmt_map f g BOne = freturn BOne"
| "stmt_map f g (BAnd a b) = fbind (f a) (\<lambda>a'. fbind (f b) (\<lambda>b'. freturn (BAnd a' b')))"
| "stmt_map f g (BOr a b) = fbind (f a) (\<lambda>a'. fbind (f b) (\<lambda>b'. freturn (BOr a' b')))"
| "stmt_map f g (BXor a b) = fbind (f a) (\<lambda>a'. fbind (f b) (\<lambda>b'. freturn (BXor a' b')))"
| "stmt_map f g (BNot v) = fbind (f v) (\<lambda>v'. freturn (BNot v'))"
| "stmt_map f g (OracleCall name args num_bits) =
     fbind (fmap_list f args) (\<lambda>args'. freturn (OracleCall name args' num_bits))"
| "stmt_map f g (OracleBit name args ix occ) =
     fbind (fmap_list f args) (\<lambda>args'. freturn (OracleBit name args' ix occ))"
| "stmt_map f g (OracleProjectedBit call ix) =
     fbind (f call) (\<lambda>call'. freturn (OracleProjectedBit call' ix))"
| "stmt_map f g (ActionCall name guard args fallback num_bits) =
     fbind (f guard) (\<lambda>guard'. fbind (fmap_list f args) (\<lambda>args'.
     fbind (fmap_list f fallback) (\<lambda>fallback'.
       freturn (ActionCall name guard' args' fallback' num_bits))))"
| "stmt_map f g (ActionBit call ix) = fbind (f call) (\<lambda>call'. freturn (ActionBit call' ix))"
| "stmt_map f g (ActionStoreBit name guard args fallback storage lane addr ix occ) =
     fbind (f guard) (\<lambda>guard'. fbind (fmap_list f args) (\<lambda>args'.
     fbind (f fallback) (\<lambda>fallback'. fbind (g storage) (\<lambda>storage'.
     fbind (fmap_list f addr) (\<lambda>addr'.
       freturn (ActionStoreBit name guard' args' fallback' storage' lane addr' ix occ))))))"
| "stmt_map f g (Rng name) = freturn (Rng name)"
| "stmt_map f g (RngBit name ix occ) = freturn (RngBit name ix occ)"
| "stmt_map f g (StorageRead storage lane addr) =
     fbind (g storage) (\<lambda>storage'. fbind (fmap_list f addr) (\<lambda>addr'.
       freturn (StorageRead storage' lane addr')))"
| "stmt_map f g (StorageWrite storage lane src addr) =
     fbind (g storage) (\<lambda>storage'. fbind (f src) (\<lambda>src'. fbind (fmap_list f addr) (\<lambda>addr'.
       freturn (StorageWrite storage' lane src' addr'))))"

text \<open>The operands a statement reads, in the order of its fields.\<close>

fun operands :: "('v, 's) BIrStmt \<Rightarrow> 'v list" where
  "operands BZero = []"
| "operands BOne = []"
| "operands (BAnd a b) = [a, b]"
| "operands (BOr a b) = [a, b]"
| "operands (BXor a b) = [a, b]"
| "operands (BNot a) = [a]"
| "operands (OracleCall _ args _) = args"
| "operands (OracleBit _ args _ _) = args"
| "operands (OracleProjectedBit call _) = [call]"
| "operands (ActionCall _ guard args fallback _) = guard # args @ fallback"
| "operands (ActionBit call _) = [call]"
| "operands (ActionStoreBit _ guard args fallback _ _ addr _ _) = guard # args @ fallback # addr"
| "operands (Rng _) = []"
| "operands (RngBit _ _ _) = []"
| "operands (StorageRead _ _ addr) = addr"
| "operands (StorageWrite _ _ src addr) = src # addr"

section \<open>Targets, terminators, blocks\<close>

datatype 'v IRBlockTargetId = Block block_id | Return | Dyn 'v

record 'v BIrTarget =
  tgt_block :: "'v IRBlockTargetId"
  tgt_args :: "'v list"

datatype 'v BIrTerminator =
    Jmp "'v BIrTarget"
  | CondJmp 'v "'v BIrTarget" "'v BIrTarget"

fun target_id_map ::
  "('v \<Rightarrow> ('c, 'e, 'w) fallible) \<Rightarrow> 'v IRBlockTargetId \<Rightarrow> ('c, 'e, 'w IRBlockTargetId) fallible" where
  "target_id_map f (Block b) = freturn (Block b)"
| "target_id_map f Return = freturn Return"
| "target_id_map f (Dyn v) = fbind (f v) (\<lambda>v'. freturn (Dyn v'))"

definition target_map ::
  "('v \<Rightarrow> ('c, 'e, 'w) fallible) \<Rightarrow> 'v BIrTarget \<Rightarrow> ('c, 'e, 'w BIrTarget) fallible" where
  "target_map f t = fbind (target_id_map f (tgt_block t)) (\<lambda>b.
     fbind (fmap_list f (tgt_args t)) (\<lambda>args. freturn \<lparr>tgt_block = b, tgt_args = args\<rparr>))"

fun terminator_map ::
  "('v \<Rightarrow> ('c, 'e, 'w) fallible) \<Rightarrow> 'v BIrTerminator \<Rightarrow> ('c, 'e, 'w BIrTerminator) fallible" where
  "terminator_map f (Jmp t) = fbind (target_map f t) (\<lambda>t'. freturn (Jmp t'))"
| "terminator_map f (CondJmp val then_target else_target) =
     fbind (f val) (\<lambda>val'. fbind (target_map f then_target) (\<lambda>then'.
     fbind (target_map f else_target) (\<lambda>else'. freturn (CondJmp val' then' else'))))"

record 'p node =
  kind :: bstmt
  prov :: 'p
  side :: "side_id option"

definition Node_new :: "bstmt \<Rightarrow> 'p \<Rightarrow> side_id option \<Rightarrow> 'p node" where
  "Node_new k p s = \<lparr>kind = k, prov = p, side = s\<rparr>"

record BIrPreInitSegment =
  seg_storage :: storage_id
  seg_lane :: lane_id
  seg_addr :: "bool list"
  seg_data :: "bool list"

record 'p BIrBlock =
  params :: nat
  stmts :: "'p node list"
  terminator :: "ir_var BIrTerminator"

record 'p BIrBlocks =
  blocks :: "'p BIrBlock list"
  pre_init :: "BIrPreInitSegment list"

definition is_movfuscated :: "'p BIrBlocks \<Rightarrow> bool" where
  "is_movfuscated bs \<longleftrightarrow> length (blocks bs) = 1"

fun is_return_jump :: "'v BIrTerminator \<Rightarrow> bool" where
  "is_return_jump (Jmp t) = (case tgt_block t of Return \<Rightarrow> True | _ \<Rightarrow> False)"
| "is_return_jump (CondJmp _ _ _) = False"

definition is_circuit :: "'p BIrBlocks \<Rightarrow> bool" where
  "is_circuit bs \<longleftrightarrow> is_movfuscated bs \<and> is_return_jump (terminator (blocks bs ! 0))"

definition block_push_stmt :: "'p BIrBlock \<Rightarrow> bstmt \<Rightarrow> 'p \<Rightarrow> side_id option \<Rightarrow> 'p BIrBlock" where
  "block_push_stmt b s p sd = b\<lparr>stmts := stmts b @ [Node_new s p sd]\<rparr>"

definition block_map_prov :: "('p \<Rightarrow> 'q) \<Rightarrow> 'p BIrBlock \<Rightarrow> 'q BIrBlock" where
  "block_map_prov h b =
     \<lparr>params = params b,
      stmts = map (\<lambda>n. \<lparr>kind = kind n, prov = h (prov n), side = side n\<rparr>) (stmts b),
      terminator = terminator b\<rparr>"

definition blocks_map_prov :: "('p \<Rightarrow> 'q) \<Rightarrow> 'p BIrBlocks \<Rightarrow> 'q BIrBlocks" where
  "blocks_map_prov h bs = \<lparr>blocks = map (block_map_prov h) (blocks bs), pre_init = pre_init bs\<rparr>"

section \<open>Fused circuits\<close>

record 'p BCircuit =
  bc_params :: nat
  bc_stmts :: "'p node list"
  bc_pre_init :: "BIrPreInitSegment list"
  bc_outputs :: "ir_var list"

datatype CircuitFusionError =
    NotSingleBlock nat
  | NotReturnTerminator
  | ModuleLevelStateUnsupported
  | OutputVarOutOfRange nat nat

definition BCircuit_new :: "nat \<Rightarrow> 'p BCircuit" where
  "BCircuit_new n = \<lparr>bc_params = n, bc_stmts = [], bc_pre_init = [], bc_outputs = []\<rparr>"

definition var_space :: "'p BCircuit \<Rightarrow> nat" where
  "var_space c = bc_params c + length (bc_stmts c)"

definition circuit_push_stmt ::
  "'p BCircuit \<Rightarrow> bstmt \<Rightarrow> 'p \<Rightarrow> side_id option \<Rightarrow> ir_var \<times> 'p BCircuit" where
  "circuit_push_stmt c s p sd =
     (bc_params c + length (bc_stmts c), c\<lparr>bc_stmts := bc_stmts c @ [Node_new s p sd]\<rparr>)"

text \<open>The validation of the outputs stops at the first one outside the variable space.\<close>

fun check_outputs :: "nat \<Rightarrow> ir_var list \<Rightarrow> CircuitFusionError + unit" where
  "check_outputs n [] = Inr ()"
| "check_outputs n (v # vs) =
     (if v \<ge> n then Inl (OutputVarOutOfRange v n) else check_outputs n vs)"

definition try_from_ir :: "'p BIrBlocks \<Rightarrow> CircuitFusionError + 'p BCircuit" where
  "try_from_ir bs =
     (case blocks bs of
        [b] \<Rightarrow>
          (case terminator b of
             Jmp t \<Rightarrow>
               (case tgt_block t of
                  Return \<Rightarrow>
                    rbind (check_outputs (params b + length (stmts b)) (tgt_args t)) (\<lambda>_.
                      Inr \<lparr>bc_params = params b, bc_stmts = stmts b,
                           bc_pre_init = pre_init bs, bc_outputs = tgt_args t\<rparr>)
                | _ \<Rightarrow> Inl NotReturnTerminator)
           | _ \<Rightarrow> Inl NotReturnTerminator)
      | _ \<Rightarrow> Inl (NotSingleBlock (length (blocks bs))))"

definition to_bir_blocks :: "'p BCircuit \<Rightarrow> 'p BIrBlocks" where
  "to_bir_blocks c =
     \<lparr>blocks = [\<lparr>params = bc_params c, stmts = bc_stmts c,
                 terminator = Jmp \<lparr>tgt_block = Return, tgt_args = bc_outputs c\<rparr>\<rparr>],
      pre_init = bc_pre_init c\<rparr>"

definition circuit_map_prov :: "('p \<Rightarrow> 'q) \<Rightarrow> 'p BCircuit \<Rightarrow> 'q BCircuit" where
  "circuit_map_prov h c =
     \<lparr>bc_params = bc_params c,
      bc_stmts = map (\<lambda>n. \<lparr>kind = kind n, prov = h (prov n), side = side n\<rparr>) (bc_stmts c),
      bc_pre_init = bc_pre_init c, bc_outputs = bc_outputs c\<rparr>"


section \<open>Laws of the operand map\<close>

lemma fbind_freturn [simp]: "fbind (freturn x) f = f x"
  by (auto simp: freturn_def fun_eq_iff)

text \<open>
  Where the callback succeeds on every operand of a statement, without touching the context,
  the map is the functorial one.
\<close>

lemma fmap_list_pure:
  "(\<And>v. v \<in> set vs \<Longrightarrow> f v = freturn (h v)) \<Longrightarrow> fmap_list f vs = freturn (map h vs)"
  by (induction vs) (auto simp del: fbind.simps)

lemma stmt_map_pure:
  assumes "\<And>v. v \<in> set (operands s) \<Longrightarrow> f v = freturn (h v)"
  shows "stmt_map f freturn s = freturn (map_BIrStmt h id s)"
  using assms by (cases s) (auto simp: fmap_list_pure simp del: fbind.simps)

text \<open>A statement whose every operand fails to map, or one of them, does not map.\<close>

definition fails_or :: "('v \<Rightarrow> 'e + 'w) \<Rightarrow> 'v \<Rightarrow> ('c, 'e, 'w) fallible" where
  "fails_or f v = (\<lambda>c. (f v, c))"

lemma fails_or_Inr [simp]: "f v = Inr w \<Longrightarrow> fails_or f v = freturn w"
  by (auto simp: fails_or_def freturn_def)

lemma fbind_fst_Inr:
  "fst (fbind m f c) = Inr y \<longleftrightarrow> (\<exists>x c'. m c = (Inr x, c') \<and> fst (f x c') = Inr y)"
  by (cases "m c") (auto split: sum.splits)

lemma fmap_list_fails_or:
  "fst (fmap_list (fails_or f) vs c) = Inr ws \<Longrightarrow> v \<in> set vs \<Longrightarrow> \<exists>w. f v = Inr w"
proof (induction vs arbitrary: ws c)
  case (Cons u vs)
  then show ?case
    by (auto simp: fbind_fst_Inr fails_or_def freturn_def simp del: fbind.simps) (metis fst_conv)
qed simp

lemma operands_map: "operands (map_BIrStmt h k s) = map h (operands s)"
  by (cases s) auto

lemma map_BIrStmt_id_on:
  "(\<And>v. v \<in> set (operands s) \<Longrightarrow> h v = v) \<Longrightarrow> map_BIrStmt h id s = s"
  by (cases s) (auto intro: map_idI)

lemma map_BIrStmt_cong_operands:
  "(\<And>v. v \<in> set (operands s) \<Longrightarrow> h v = h' v) \<Longrightarrow> map_BIrStmt h id s = map_BIrStmt h' id s"
  by (cases s) auto

section \<open>Fusion\<close>

lemma check_outputs_ok: "check_outputs n vs = Inr () \<longleftrightarrow> (\<forall>v\<in>set vs. v < n)"
  by (induction vs) auto

lemma check_outputs_cases:
  "check_outputs n vs = Inr () \<or>
   (\<exists>v\<in>set vs. v \<ge> n \<and> check_outputs n vs = Inl (OutputVarOutOfRange v n))"
  by (induction vs) auto

end
