(* ===== verification/BoolarEval.thy ===== *)
theory BoolarEval
  imports Boolar "HOL-Library.Word"
begin

unbundle bit_operations_syntax

text \<open>
  The concrete evaluator of Boolar programs
  (\<open>volar-fuzz/src/interpreter/biir.rs\<close>) with the deterministic hash oracle of the fuzzers
  (\<open>volar-fuzz/src/generators/oracle.rs\<close>), which is the reference semantics of every pass
  of this development. The evaluator is parametrised by the external sources a program
  calls; \<open>hash_externals\<close> is the fuzzers' instance, under which action and randomness
  statements panic as they do in the source.
\<close>

section \<open>The hash oracle\<close>

definition FNV_OFFSET :: "64 word" where
  "FNV_OFFSET = 14695981039346656037"

definition FNV_PRIME :: "64 word" where
  "FNV_PRIME = 1099511628211"

definition fnv_mix :: "64 word \<Rightarrow> 8 word \<Rightarrow> 64 word" where
  "fnv_mix h byte = (h XOR ucast byte) * FNV_PRIME"

definition to_le_bytes :: "32 word \<Rightarrow> 8 word list" where
  "to_le_bytes w = map (\<lambda>i. ucast (drop_bit (8 * i) w)) [0, 1, 2, 3]"

text \<open>The loop that packs the input bits into bytes; its state is \<open>h\<close>, \<open>pending\<close> and
  \<open>pending_bits\<close>.\<close>

fun mix_inputs :: "64 word \<Rightarrow> 8 word \<Rightarrow> nat \<Rightarrow> bool list \<Rightarrow> 64 word" where
  "mix_inputs h pending pending_bits [] =
     (if pending_bits > 0 then fnv_mix h pending else h)"
| "mix_inputs h pending pending_bits (b # bs) =
     (let pending' = pending OR push_bit pending_bits (of_bool b)
      in if pending_bits + 1 = 8 then mix_inputs (fnv_mix h pending') 0 0 bs
         else mix_inputs h pending' (pending_bits + 1) bs)"

fun expand_seed :: "64 word \<Rightarrow> nat \<Rightarrow> bool list" where
  "expand_seed seed n =
     (if n = 0 then []
      else let seed' = seed * FNV_PRIME XOR FNV_OFFSET
           in map (\<lambda>i. bit seed' i) [0..<min 64 n] @ expand_seed seed' (n - 64))"

declare expand_seed.simps [simp del]

definition hash_oracle :: "32 word \<Rightarrow> bool list \<Rightarrow> nat \<Rightarrow> bool list" where
  "hash_oracle oracle_idx flat_inputs output_width =
     expand_seed (mix_inputs (foldl fnv_mix FNV_OFFSET (to_le_bytes oracle_idx)) 0 0 flat_inputs)
       output_width"

definition oracle_name_seed :: "string \<Rightarrow> 32 word" where
  "oracle_name_seed name = foldl (\<lambda>h b. h * 31 + of_char b) 0 name"

section \<open>External sources\<close>

text \<open>
  The trait \<open>ReversibleExternalRegistry\<close> of \<open>rcircuit.rs\<close>: its contract is that the same
  arguments always give the same bit, which is what makes it a record of functions.
\<close>

record registry =
  oracle_bit_fn :: "string \<Rightarrow> bool list \<Rightarrow> nat \<Rightarrow> nat \<Rightarrow> bool"
  rng_bit_fn :: "string \<Rightarrow> nat \<Rightarrow> nat \<Rightarrow> bool"
  action_bit_fn :: "string \<Rightarrow> bool list \<Rightarrow> nat \<Rightarrow> nat \<Rightarrow> bool"

text \<open>
  What a program is evaluated against: the aggregate oracle, the bit-granular sources, and
  whether action and randomness statements are supported at all.
\<close>

record externals =
  oracle_call_fn :: "string \<Rightarrow> bool list \<Rightarrow> nat \<Rightarrow> bool list"
  ext_registry :: registry
  ext_effects :: bool

definition hash_externals :: externals where
  "hash_externals =
     \<lparr>oracle_call_fn = (\<lambda>name args num_bits. hash_oracle (oracle_name_seed name) args num_bits),
      ext_registry =
        \<lparr>oracle_bit_fn = (\<lambda>name args b _.
           case nth_opt (hash_oracle (oracle_name_seed name) args (b + 1)) b of
             None \<Rightarrow> False | Some x \<Rightarrow> x),
         rng_bit_fn = (\<lambda>_ _ _. False),
         action_bit_fn = (\<lambda>_ _ _ _. False)\<rparr>,
      ext_effects = False\<rparr>"

section \<open>Storage\<close>

type_synonym cell = "(storage_id \<times> lane_id) \<times> bool list"
type_synonym bstorage = "cell \<rightharpoonup> bool"

text \<open>An absent cell reads as \<open>false\<close>.\<close>

definition sread :: "bstorage \<Rightarrow> cell \<Rightarrow> bool" where
  "sread st c = (case st c of None \<Rightarrow> False | Some b \<Rightarrow> b)"

text \<open>
  \<open>add_to_address\<close>: the inner loop propagates a carry from position \<open>at\<close>, growing the
  address when it runs off its end; the outer one walks the bits of the addend.
\<close>

function carry_at :: "nat \<Rightarrow> bool list \<Rightarrow> bool list" where
  "carry_at at out =
     (if at < length out then
        (if out ! at then carry_at (Suc at) (out[at := False]) else out[at := True])
      else out @ [True])"
  by pat_completeness auto
termination by (relation "measure (\<lambda>(at, out). length out - at)") auto

function add_loop :: "bool list \<Rightarrow> nat \<Rightarrow> nat \<Rightarrow> bool list" where
  "add_loop out addend pos =
     (if addend = 0 then out
      else let out1 = (if pos = length out then out @ [False] else out);
               out2 = (if odd addend then carry_at pos out1 else out1)
           in add_loop out2 (addend div 2) (Suc pos))"
  by pat_completeness auto
termination by (relation "measure (\<lambda>(out, addend, pos). addend)") auto

declare carry_at.simps [simp del] add_loop.simps [simp del]

definition add_to_address :: "bool list \<Rightarrow> nat \<Rightarrow> bool list" where
  "add_to_address addr addend = add_loop addr addend 0"

fun init_cells_from ::
  "bstorage \<Rightarrow> storage_id \<Rightarrow> lane_id \<Rightarrow> bool list \<Rightarrow> nat \<Rightarrow> bool list \<Rightarrow> bstorage" where
  "init_cells_from st s l addr i [] = st"
| "init_cells_from st s l addr i (b # bs) =
     init_cells_from (st(((s, l), add_to_address addr i) \<mapsto> b)) s l addr (Suc i) bs"

definition apply_pre_init :: "bstorage \<Rightarrow> BIrPreInitSegment list \<Rightarrow> bstorage" where
  "apply_pre_init st segs =
     foldl (\<lambda>st seg. init_cells_from st (seg_storage seg) (seg_lane seg) (seg_addr seg) 0
                       (seg_data seg)) st segs"

section \<open>Statements and blocks\<close>

type_synonym oracle_agg = "nat \<rightharpoonup> bool list"
type_synonym estate = "bool list \<times> oracle_agg \<times> bstorage"

text \<open>
  \<open>eval_stmt E s rv vs ag st\<close>: the value of statement \<open>s\<close> with result variable \<open>rv\<close>, over
  the variable table \<open>vs\<close>, the aggregate side table \<open>ag\<close> and the storage \<open>st\<close>; \<open>None\<close> is a
  panic. The arms guarded by \<open>ext_effects\<close> panic in the fuzzers' evaluator; their meaning
  under a replayable registry is that of the variants' documentation in \<open>boolar.rs\<close>.
\<close>

fun eval_stmt ::
  "externals \<Rightarrow> bstmt \<Rightarrow> nat \<Rightarrow> bool list \<Rightarrow> oracle_agg \<Rightarrow> bstorage
   \<Rightarrow> (bool \<times> oracle_agg \<times> bstorage) option" where
  "eval_stmt E BZero rv vs ag st = Some (False, ag, st)"
| "eval_stmt E BOne rv vs ag st = Some (True, ag, st)"
| "eval_stmt E (BAnd a b) rv vs ag st =
     do { x \<leftarrow> nth_opt vs a; y \<leftarrow> nth_opt vs b; Some (x \<and> y, ag, st) }"
| "eval_stmt E (BOr a b) rv vs ag st =
     do { x \<leftarrow> nth_opt vs a; y \<leftarrow> nth_opt vs b; Some (x \<or> y, ag, st) }"
| "eval_stmt E (BXor a b) rv vs ag st =
     do { x \<leftarrow> nth_opt vs a; y \<leftarrow> nth_opt vs b; Some (x \<noteq> y, ag, st) }"
| "eval_stmt E (BNot a) rv vs ag st = do { x \<leftarrow> nth_opt vs a; Some (\<not> x, ag, st) }"
| "eval_stmt E (OracleCall name args num_bits) rv vs ag st =
     do { xs \<leftarrow> nths_opt vs args;
          Some (False, ag(rv \<mapsto> oracle_call_fn E name xs num_bits), st) }"
| "eval_stmt E (OracleProjectedBit call b) rv vs ag st =
     Some (case Option.bind (ag call) (\<lambda>bits. nth_opt bits b) of
             None \<Rightarrow> False | Some x \<Rightarrow> x, ag, st)"
| "eval_stmt E (OracleBit name args b occ) rv vs ag st =
     do { xs \<leftarrow> nths_opt vs args;
          Some (oracle_bit_fn (ext_registry E) name xs b occ, ag, st) }"
| "eval_stmt E (ActionCall name guard args fallback num_bits) rv vs ag st =
     (if \<not> ext_effects E then None
      else do { g \<leftarrow> nth_opt vs guard;
                bits \<leftarrow> (if g then do { xs \<leftarrow> nths_opt vs args;
                            Some (map (\<lambda>b. action_bit_fn (ext_registry E) name xs b 0) [0..<num_bits]) }
                         else nths_opt vs fallback);
                Some (False, ag(rv \<mapsto> bits), st) })"
| "eval_stmt E (ActionBit call b) rv vs ag st =
     (if \<not> ext_effects E then None
      else do { bits \<leftarrow> ag call; x \<leftarrow> nth_opt bits b; Some (x, ag, st) })"
| "eval_stmt E (ActionStoreBit name guard args fallback storage lane addr b occ) rv vs ag st =
     (if \<not> ext_effects E then None
      else do { g \<leftarrow> nth_opt vs guard; xs \<leftarrow> nths_opt vs args; f \<leftarrow> nth_opt vs fallback;
                addr_bits \<leftarrow> nths_opt vs addr;
                Some (False, ag, st(((storage, lane), addr_bits) \<mapsto>
                  (if g then action_bit_fn (ext_registry E) name xs b occ else f))) })"
| "eval_stmt E (Rng name) rv vs ag st = None"
| "eval_stmt E (RngBit name b occ) rv vs ag st =
     (if \<not> ext_effects E then None
      else Some (rng_bit_fn (ext_registry E) name b occ, ag, st))"
| "eval_stmt E (StorageRead storage lane addr) rv vs ag st =
     do { addr_bits \<leftarrow> nths_opt vs addr; Some (sread st ((storage, lane), addr_bits), ag, st) }"
| "eval_stmt E (StorageWrite storage lane src addr) rv vs ag st =
     do { x \<leftarrow> nth_opt vs src; addr_bits \<leftarrow> nths_opt vs addr;
          Some (False, ag, st(((storage, lane), addr_bits) \<mapsto> x)) }"

fun eval_stmts :: "externals \<Rightarrow> 'p node list \<Rightarrow> nat \<Rightarrow> estate \<Rightarrow> estate option" where
  "eval_stmts E [] rv s = Some s"
| "eval_stmts E (n # ns) rv (vs, ag, st) =
     do { (v, ag', st') \<leftarrow> eval_stmt E (kind n) rv vs ag st;
          eval_stmts E ns (Suc rv) (vs @ [v], ag', st') }"

datatype block_result = BReturn "bool list" | BJump block_id "bool list"

definition resolve_target :: "ir_var BIrTarget \<Rightarrow> bool list \<Rightarrow> block_result option" where
  "resolve_target t vs =
     do { args \<leftarrow> nths_opt vs (tgt_args t);
          case tgt_block t of
            Return \<Rightarrow> Some (BReturn args)
          | Block b \<Rightarrow> Some (BJump b args)
          | Dyn _ \<Rightarrow> None }"

fun eval_terminator :: "ir_var BIrTerminator \<Rightarrow> bool list \<Rightarrow> block_result option" where
  "eval_terminator (Jmp t) vs = resolve_target t vs"
| "eval_terminator (CondJmp val then_target else_target) vs =
     do { c \<leftarrow> nth_opt vs val; resolve_target (if c then then_target else else_target) vs }"

definition eval_block ::
  "externals \<Rightarrow> 'p BIrBlock \<Rightarrow> bool list \<Rightarrow> bstorage \<Rightarrow> (block_result \<times> bstorage) option" where
  "eval_block E b ins st =
     (if length ins \<noteq> params b then None
      else do { (vs, ag, st') \<leftarrow> eval_stmts E (stmts b) (params b) (ins, Map.empty, st);
                r \<leftarrow> eval_terminator (terminator b) vs;
                Some (r, st') })"

section \<open>The block loop\<close>

datatype eval_result = Returned "bool list" | LimitExceeded | Panicked

text \<open>
  The driver counts entries of block 0 only, so a cycle that avoids it runs for ever:
  \<open>None\<close> is not returning.
\<close>

partial_function (option) eval_loop ::
  "externals \<Rightarrow> 'p BIrBlock list \<Rightarrow> nat \<Rightarrow> nat \<Rightarrow> block_id \<Rightarrow> bool list \<Rightarrow> bstorage
   \<Rightarrow> eval_result option" where
  "eval_loop E bs max_iters loop_count cur ins st =
     (let loop_count' = (if cur = 0 then Suc loop_count else loop_count) in
      if cur = 0 \<and> loop_count' > max_iters then Some LimitExceeded
      else case nth_opt bs cur of
             None \<Rightarrow> Some Panicked
           | Some b \<Rightarrow>
               (case eval_block E b ins st of
                  None \<Rightarrow> Some Panicked
                | Some (BReturn bits, st') \<Rightarrow> Some (Returned bits)
                | Some (BJump target args, st') \<Rightarrow>
                    eval_loop E bs max_iters loop_count' target args st'))"

definition eval_biir_with_limit ::
  "externals \<Rightarrow> 'p BIrBlocks \<Rightarrow> bool list \<Rightarrow> nat \<Rightarrow> eval_result option" where
  "eval_biir_with_limit E bs inputs max_iters =
     eval_loop E (blocks bs) max_iters 0 0 inputs (apply_pre_init Map.empty (pre_init bs))"

definition MAX_ITERS :: nat where
  "MAX_ITERS = 512"

definition eval_biir :: "externals \<Rightarrow> 'p BIrBlocks \<Rightarrow> bool list \<Rightarrow> eval_result option" where
  "eval_biir E bs inputs = eval_biir_with_limit E bs inputs MAX_ITERS"

text \<open>The same for a fused circuit: one block, straight to its outputs.\<close>

definition eval_circuit ::
  "externals \<Rightarrow> 'p BCircuit \<Rightarrow> bool list \<Rightarrow> bstorage \<Rightarrow> (bool list \<times> bstorage) option" where
  "eval_circuit E c ins st =
     (if length ins \<noteq> bc_params c then None
      else do { (vs, ag, st') \<leftarrow> eval_stmts E (bc_stmts c) (bc_params c) (ins, Map.empty, st);
                outs \<leftarrow> nths_opt vs (bc_outputs c);
                Some (outs, st') })"


section \<open>The oracle stream\<close>

lemma length_expand_seed [simp]: "length (expand_seed seed n) = n"
  by (induction seed n rule: expand_seed.induct)
    (subst expand_seed.simps, auto simp: Let_def min_def)

lemma length_hash_oracle [simp]: "length (hash_oracle i xs n) = n"
  by (simp add: hash_oracle_def)

lemma expand_seed_prefix: "n \<le> m \<Longrightarrow> expand_seed seed n = take n (expand_seed seed m)"
proof (induction seed n arbitrary: m rule: expand_seed.induct)
  case (1 seed n)
  show ?case
  proof (cases "n = 0")
    case True
    then show ?thesis by (simp add: expand_seed.simps [of seed 0])
  next
    case False
    let ?s = "seed * FNV_PRIME XOR FNV_OFFSET"
    from False "1.IH" [OF _ refl, of "m - 64"] "1.prems"
    have IH: "expand_seed ?s (n - 64) = take (n - 64) (expand_seed ?s (m - 64))" by simp
    have "take n (expand_seed seed m)
            = take n (map (bit ?s) [0..<min 64 m]) @ take (n - min 64 m) (expand_seed ?s (m - 64))"
      using False "1.prems" by (subst expand_seed.simps [of seed m]) (simp add: Let_def)
    also have "take n (map (bit ?s) [0..<min 64 m]) = map (bit ?s) [0..<min 64 n]"
      using "1.prems" by (simp add: take_map min_def)
    also have "take (n - min 64 m) (expand_seed ?s (m - 64)) = expand_seed ?s (n - 64)"
    proof (cases "64 \<le> m")
      case True
      then show ?thesis using IH by (simp add: min_def)
    next
      case F: False
      then show ?thesis using "1.prems" by (simp add: expand_seed.simps [of _ 0])
    qed
    finally show ?thesis
      using False by (subst expand_seed.simps [of seed n]) (simp add: Let_def)
  qed
qed

section \<open>Addresses as numbers\<close>

text \<open>The number an address denotes, least significant bit first.\<close>

fun addr_val :: "bool list \<Rightarrow> nat" where
  "addr_val [] = 0"
| "addr_val (b # bs) = of_bool b + 2 * addr_val bs"

lemma addr_val_append: "addr_val (xs @ ys) = addr_val xs + 2 ^ length xs * addr_val ys"
  by (induction xs) (auto simp: algebra_simps)

lemma addr_val_update:
  "i < length xs \<Longrightarrow>
   addr_val (xs[i := b]) + of_bool (xs ! i) * 2 ^ i = addr_val xs + of_bool b * 2 ^ i"
proof (induction xs arbitrary: i)
  case (Cons x xs)
  show ?case
  proof (cases i)
    case (Suc k)
    with Cons show ?thesis by (fastforce simp: algebra_simps)
  qed (simp add: algebra_simps)
qed simp

lemma addr_val_bound: "addr_val xs < 2 ^ length xs"
  by (induction xs) auto

lemma addr_val_inj: "length xs = length ys \<Longrightarrow> addr_val xs = addr_val ys \<Longrightarrow> xs = ys"
proof (induction xs ys rule: list_induct2)
  case (Cons x xs y ys)
  then have "of_bool x + 2 * addr_val xs = (of_bool y + 2 * addr_val ys :: nat)" by simp
  then have "x = y \<and> addr_val xs = addr_val ys"
    by (cases x; cases y; simp; presburger)
  with Cons show ?case by simp
qed simp

lemma carry_at_val:
  "at \<le> length out \<Longrightarrow>
   addr_val (carry_at at out) = addr_val out + 2 ^ at \<and> length out \<le> length (carry_at at out)"
proof (induction at out rule: carry_at.induct)
  case (1 at out)
  show ?case
  proof (cases "at < length out \<and> out ! at")
    case True
    from True have "addr_val (out[at := False]) + 2 ^ at = addr_val out"
      using addr_val_update [of at out False] by simp
    with True "1.IH" show ?thesis by (subst (1 2) carry_at.simps) simp
  next
    case False
    then show ?thesis
      using "1.prems" addr_val_update [of at out True]
      by (subst (1 2) carry_at.simps) (auto simp: addr_val_append)
  qed
qed

lemma add_loop_val:
  "pos \<le> length out \<Longrightarrow>
   addr_val (add_loop out addend pos) = addr_val out + addend * 2 ^ pos
   \<and> length out \<le> length (add_loop out addend pos)"
proof (induction out addend pos rule: add_loop.induct)
  case (1 out addend pos)
  show ?case
  proof (cases "addend = 0")
    case True
    then show ?thesis by (simp add: add_loop.simps)
  next
    case False
    define out1 where "out1 = (if pos = length out then out @ [False] else out)"
    define out2 where "out2 = (if odd addend then carry_at pos out1 else out1)"
    have out1: "addr_val out1 = addr_val out" "length out \<le> length out1" "pos < length out1"
      using "1.prems" by (auto simp: out1_def addr_val_append)
    have out2: "addr_val out2 = addr_val out1 + of_bool (odd addend) * 2 ^ pos"
      "length out1 \<le> length out2"
      using carry_at_val [of pos out1] out1(3) by (auto simp: out2_def)
    have IH: "addr_val (add_loop out2 (addend div 2) (Suc pos))
                = addr_val out2 + addend div 2 * 2 ^ Suc pos
              \<and> length out2 \<le> length (add_loop out2 (addend div 2) (Suc pos))"
      using "1.IH" [OF False out1_def out2_def] out1 out2 by simp
    have "of_bool (odd addend) * 2 ^ pos + addend div 2 * 2 ^ Suc pos = addend * 2 ^ pos"
    proof -
      have "addend = of_bool (odd addend) + 2 * (addend div 2)" by (cases "odd addend") auto
      then show ?thesis by (metis add_mult_distrib mult.assoc mult.commute power_Suc)
    qed
    moreover have "add_loop out addend pos = add_loop out2 (addend div 2) (Suc pos)"
      using False by (subst add_loop.simps) (simp add: out1_def out2_def Let_def)
    ultimately show ?thesis using IH out1 out2 by simp
  qed
qed

lemma add_to_address_val [simp]: "addr_val (add_to_address addr n) = addr_val addr + n"
  using add_loop_val [of 0 addr n] by (simp add: add_to_address_def)

lemma length_add_to_address: "length addr \<le> length (add_to_address addr n)"
  using add_loop_val [of 0 addr n] by (simp add: add_to_address_def)

lemma add_to_address_inj: "add_to_address addr i = add_to_address addr j \<Longrightarrow> i = j"
  by (metis add_left_cancel add_to_address_val)

section \<open>Evaluation of statement lists\<close>

lemma eval_stmts_append:
  "eval_stmts E (ns @ ms) rv s =
     do { s' \<leftarrow> eval_stmts E ns rv s; eval_stmts E ms (rv + length ns) s' }"
proof (induction ns arbitrary: rv s)
  case (Cons n ns)
  show ?case
    by (cases s) (auto simp: Cons.IH split: Option.bind_splits prod.splits)
qed simp

lemma eval_stmts_snoc:
  "eval_stmts E (ns @ [n]) rv s =
     do { (vs, ag, st) \<leftarrow> eval_stmts E ns rv s;
          (v, ag', st') \<leftarrow> eval_stmt E (kind n) (rv + length ns) vs ag st;
          Some (vs @ [v], ag', st') }"
  by (cases s) (auto simp: eval_stmts_append split: Option.bind_splits prod.splits)

lemma eval_stmts_prefix:
  "eval_stmts E ns rv (vs, ag, st) = Some (vs', ag', st') \<Longrightarrow>
   length vs' = length vs + length ns \<and> take (length vs) vs' = vs"
proof (induction ns arbitrary: rv vs ag st)
  case (Cons n ns)
  then obtain v ag1 st1 where
    "eval_stmts E ns (Suc rv) (vs @ [v], ag1, st1) = Some (vs', ag', st')"
    by (auto simp: bind_eq_Some_conv)
  from Cons.IH [OF this] show ?case
    by (metis add_Suc_right add_Suc_shift append_eq_conv_conj length_Cons length_append_singleton
        take_add append.assoc append_take_drop_id)
qed auto

lemma eval_stmts_length:
  "eval_stmts E ns rv (vs, ag, st) = Some (vs', ag', st') \<Longrightarrow>
   length vs' = length vs + length ns"
  using eval_stmts_prefix by blast

lemma eval_stmts_nth:
  "eval_stmts E ns rv (vs, ag, st) = Some (vs', ag', st') \<Longrightarrow> i < length vs \<Longrightarrow> vs' ! i = vs ! i"
  using eval_stmts_prefix [of E ns rv vs ag st] by (metis nth_take)


section \<open>Well-formed programs\<close>

text \<open>
  SSA order within a block: every operand is a parameter or the result of an earlier
  statement. The call-handle projections must name an earlier call of their kind.
\<close>

definition ssa_ordered :: "nat \<Rightarrow> 'p node list \<Rightarrow> bool" where
  "ssa_ordered base ns \<longleftrightarrow>
     (\<forall>i < length ns. \<forall>v \<in> set (operands (kind (ns ! i))). v < base + i)"

fun is_oracle_call :: "bstmt \<Rightarrow> bool" where
  "is_oracle_call (OracleCall _ _ _) = True"
| "is_oracle_call _ = False"

definition handles_ok :: "nat \<Rightarrow> 'p node list \<Rightarrow> bool" where
  "handles_ok base ns \<longleftrightarrow>
     (\<forall>i < length ns. \<forall>c b. kind (ns ! i) = OracleProjectedBit c b \<longrightarrow>
        base \<le> c \<and> c - base < length ns \<and> is_oracle_call (kind (ns ! (c - base))))"

fun terminator_operands :: "ir_var BIrTerminator \<Rightarrow> ir_var list" where
  "terminator_operands (Jmp t) = tgt_args t"
| "terminator_operands (CondJmp val t e) = val # tgt_args t @ tgt_args e"

definition wf_block :: "'p BIrBlock \<Rightarrow> bool" where
  "wf_block b \<longleftrightarrow> ssa_ordered (params b) (stmts b) \<and> handles_ok (params b) (stmts b)
     \<and> (\<forall>v \<in> set (terminator_operands (terminator b)). v < params b + length (stmts b))"

definition wf_circuit :: "'p BCircuit \<Rightarrow> bool" where
  "wf_circuit c \<longleftrightarrow> ssa_ordered (bc_params c) (bc_stmts c) \<and> handles_ok (bc_params c) (bc_stmts c)
     \<and> (\<forall>v \<in> set (bc_outputs c). v < var_space c)"

lemma ssa_ordered_snoc:
  "ssa_ordered base (ns @ [n]) \<longleftrightarrow>
     ssa_ordered base ns \<and> (\<forall>v \<in> set (operands (kind n)). v < base + length ns)"
  by (auto simp: ssa_ordered_def nth_append less_Suc_eq)

lemma ssa_ordered_Nil [simp]: "ssa_ordered base []"
  by (simp add: ssa_ordered_def)

text \<open>The statements whose evaluation needs no effect support.\<close>

fun is_pure_stmt :: "bstmt \<Rightarrow> bool" where
  "is_pure_stmt (ActionCall _ _ _ _ _) = False"
| "is_pure_stmt (ActionBit _ _) = False"
| "is_pure_stmt (ActionStoreBit _ _ _ _ _ _ _ _ _) = False"
| "is_pure_stmt (Rng _) = False"
| "is_pure_stmt (RngBit _ _ _) = False"
| "is_pure_stmt _ = True"

lemma eval_stmt_total:
  assumes "\<forall>v \<in> set (operands s). v < length vs" and "is_pure_stmt s"
  shows "\<exists>r. eval_stmt E s rv vs ag st = Some r"
  using assms by (cases s) auto

lemma eval_stmts_total:
  assumes "ssa_ordered (length vs) ns" and "\<forall>n \<in> set ns. is_pure_stmt (kind n)"
  shows "\<exists>s'. eval_stmts E ns rv (vs, ag, st) = Some s'"
  using assms
proof (induction ns rule: rev_induct)
  case (snoc n ns)
  then obtain vs1 ag1 st1 where ev: "eval_stmts E ns rv (vs, ag, st) = Some (vs1, ag1, st1)"
    by (auto simp: ssa_ordered_snoc)
  then have "length vs1 = length vs + length ns" by (rule eval_stmts_length)
  with snoc.prems eval_stmt_total [of "kind n" vs1 E "rv + length ns" ag1 st1]
  show ?case by (auto simp: ev eval_stmts_snoc ssa_ordered_snoc)
qed auto

section \<open>Fused circuits and their block form\<close>

lemma eval_block_of_circuit:
  "eval_block E (blocks (to_bir_blocks c) ! 0) ins st =
     map_option (\<lambda>(outs, st'). (BReturn outs, st')) (eval_circuit E c ins st)"
  by (auto simp: eval_block_def eval_circuit_def to_bir_blocks_def resolve_target_def
      split: Option.bind_splits)

definition result_of_block ::
  "(bool list \<times> bstorage) option \<Rightarrow> eval_result" where
  "result_of_block r = (case r of None \<Rightarrow> Panicked | Some (outs, _) \<Rightarrow> Returned outs)"

text \<open>Running a fused circuit through the block loop is running it directly.\<close>

lemma eval_to_bir_blocks:
  assumes "0 < max_iters"
  shows "eval_biir_with_limit E (to_bir_blocks c) ins max_iters =
     Some (result_of_block (eval_circuit E c ins (apply_pre_init Map.empty (bc_pre_init c))))"
proof -
  let ?st = "apply_pre_init Map.empty (bc_pre_init c)"
  have "nth_opt (blocks (to_bir_blocks c)) 0 = Some (blocks (to_bir_blocks c) ! 0)"
    by (simp add: to_bir_blocks_def)
  moreover have "pre_init (to_bir_blocks c) = bc_pre_init c"
    by (simp add: to_bir_blocks_def)
  ultimately show ?thesis
    using assms unfolding eval_biir_with_limit_def
    by (subst eval_loop.simps)
      (auto simp: eval_block_of_circuit result_of_block_def Let_def split: option.splits prod.splits)
qed

lemma try_from_ir_to_bir_blocks:
  "try_from_ir (to_bir_blocks c) =
     rbind (check_outputs (var_space c) (bc_outputs c)) (\<lambda>_. Inr c)"
  by (cases c) (simp add: try_from_ir_def to_bir_blocks_def var_space_def)

lemma try_from_ir_Inr:
  "try_from_ir bs = Inr c \<Longrightarrow>
     is_circuit bs \<and> to_bir_blocks c = bs \<and> (\<forall>v \<in> set (bc_outputs c). v < var_space c)"
  by (auto simp: try_from_ir_def to_bir_blocks_def is_circuit_def is_movfuscated_def var_space_def
      check_outputs_ok split: list.splits BIrTerminator.splits IRBlockTargetId.splits)

lemma try_from_ir_Inl:
  "try_from_ir bs = Inl e \<longleftrightarrow>
     (length (blocks bs) \<noteq> 1 \<and> e = NotSingleBlock (length (blocks bs)))
   \<or> (length (blocks bs) = 1 \<and> \<not> is_circuit bs \<and> e = NotReturnTerminator)
   \<or> (is_circuit bs \<and> (\<exists>b t. blocks bs = [b] \<and> terminator b = Jmp t
        \<and> check_outputs (params b + length (stmts b)) (tgt_args t) = Inl e))"
proof (cases "blocks bs")
  case (Cons b rest)
  show ?thesis
  proof (cases rest)
    case Nil
    show ?thesis
    proof (cases "terminator b")
      case (Jmp t)
      then show ?thesis
        using Cons Nil
        by (cases "check_outputs (params b + length (stmts b)) (tgt_args t)")
          (auto simp: try_from_ir_def is_circuit_def is_movfuscated_def
            split: IRBlockTargetId.splits)
    next
      case (CondJmp v t1 t2)
      then show ?thesis
        using Cons Nil by (auto simp: try_from_ir_def is_circuit_def is_movfuscated_def)
    qed
  qed (auto simp: Cons try_from_ir_def is_circuit_def is_movfuscated_def)
qed (auto simp: try_from_ir_def is_circuit_def is_movfuscated_def)

section \<open>The block loop depends on its blocks through their evaluation only\<close>

definition blocks_equiv :: "externals \<Rightarrow> 'p BIrBlock list \<Rightarrow> 'q BIrBlock list \<Rightarrow> bool" where
  "blocks_equiv E bs bs' \<longleftrightarrow> length bs = length bs' \<and>
     (\<forall>i < length bs. \<forall>ins st. eval_block E (bs ! i) ins st = eval_block E (bs' ! i) ins st)"

lemma blocks_equiv_sym: "blocks_equiv E bs bs' \<Longrightarrow> blocks_equiv E bs' bs"
  by (simp add: blocks_equiv_def)

lemma blocks_equiv_trans:
  "blocks_equiv E bs bs' \<Longrightarrow> blocks_equiv E bs' bs'' \<Longrightarrow> blocks_equiv E bs bs''"
  by (simp add: blocks_equiv_def)

lemma blocks_equiv_refl: "blocks_equiv E bs bs"
  by (simp add: blocks_equiv_def)

text \<open>One round of the loop, over an arbitrary continuation \<open>g\<close>.\<close>

definition loop_round ::
  "externals \<Rightarrow> 'p BIrBlock list \<Rightarrow> nat \<Rightarrow> (nat \<Rightarrow> block_id \<Rightarrow> bool list \<Rightarrow> bstorage \<Rightarrow> eval_result option)
   \<Rightarrow> nat \<Rightarrow> block_id \<Rightarrow> bool list \<Rightarrow> bstorage \<Rightarrow> eval_result option" where
  "loop_round E bs m g k cur ins st =
     (let k' = (if cur = 0 then Suc k else k) in
      if cur = 0 \<and> k' > m then Some LimitExceeded
      else case nth_opt bs cur of
             None \<Rightarrow> Some Panicked
           | Some b \<Rightarrow>
               (case eval_block E b ins st of
                  None \<Rightarrow> Some Panicked
                | Some (BReturn bits, st') \<Rightarrow> Some (Returned bits)
                | Some (BJump target args, st') \<Rightarrow> g k' target args st'))"

lemma eval_loop_round:
  "eval_loop E bs m k cur ins st = loop_round E bs m (eval_loop E bs m) k cur ins st"
  by (subst eval_loop.simps) (simp only: loop_round_def)

text \<open>
  The general form: the blocks agree, and keep, on the storages an invariant \<open>I\<close> describes.
\<close>

definition blocks_equiv_on ::
  "(bstorage \<Rightarrow> bool) \<Rightarrow> externals \<Rightarrow> 'p BIrBlock list \<Rightarrow> 'q BIrBlock list \<Rightarrow> bool" where
  "blocks_equiv_on I E bs bs' \<longleftrightarrow> length bs = length bs' \<and>
     (\<forall>i < length bs. \<forall>ins st. I st \<longrightarrow> eval_block E (bs ! i) ins st = eval_block E (bs' ! i) ins st
        \<and> (\<forall>r st'. eval_block E (bs ! i) ins st = Some (r, st') \<longrightarrow> I st'))"

lemma blocks_equiv_on_sym: "blocks_equiv_on I E bs bs' \<Longrightarrow> blocks_equiv_on I E bs' bs"
  unfolding blocks_equiv_on_def by metis

lemma blocks_equiv_on_all: "blocks_equiv E bs bs' \<Longrightarrow> blocks_equiv_on (\<lambda>_. True) E bs bs'"
  by (simp add: blocks_equiv_def blocks_equiv_on_def)

lemma loop_round_equiv_on:
  assumes eq: "blocks_equiv_on I E bs bs'" and I: "I st"
    and le: "\<And>k cur ins st r. I st \<Longrightarrow> f k cur ins st = Some r \<Longrightarrow> g k cur ins st = Some r"
    and ret: "loop_round E bs m f k cur ins st = Some r"
  shows "loop_round E bs' m g k cur ins st = Some r"
proof (cases "cur < length bs")
  case True
  have lt: "cur < length bs'" and same: "eval_block E (bs ! cur) ins st = eval_block E (bs' ! cur) ins st"
    and keep: "\<And>r st'. eval_block E (bs ! cur) ins st = Some (r, st') \<Longrightarrow> I st'"
    using eq True I unfolding blocks_equiv_on_def by auto
  show ?thesis
  proof (cases "eval_block E (bs ! cur) ins st")
    case None
    then show ?thesis using ret True lt same by (simp add: loop_round_def Let_def split: if_splits)
  next
    case (Some p)
    obtain res st' where p: "p = (res, st')" by (cases p) auto
    have "I st'" using keep Some p by blast
    then show ?thesis
      using ret True lt Some p le [of st'] by (cases res) (auto simp: loop_round_def Let_def same [symmetric] split: if_splits)
  qed
next
  case False
  then have "nth_opt bs cur = None" and "nth_opt bs' cur = None"
    using eq by (auto simp: blocks_equiv_on_def nth_opt_def)
  then show ?thesis using ret by (simp only: loop_round_def option.case)
qed

lemma eval_loop_equiv_le:
  assumes eq: "blocks_equiv_on I E bs bs'" and I: "I st"
    and ret: "eval_loop E bs m k cur ins st = Some r"
  shows "eval_loop E bs' m k cur ins st = Some r"
proof -
  have "E = E \<and> bs = bs \<and> m = m \<and> I st \<longrightarrow> eval_loop E bs' m k cur ins st = Some r"
  proof (rule eval_loop.raw_induct
      [where P = "\<lambda>E1 bs1 m1 k cur ins st r.
         E1 = E \<and> bs1 = bs \<and> m1 = m \<and> I st \<longrightarrow> eval_loop E bs' m k cur ins st = Some r", OF _ ret],
      fold loop_round_def, intro impI, elim conjE)
    fix f E1 bs1 m1 k1 cur1 ins1 st1 r1
    assume IH: "\<And>E1 bs1 m1 k cur ins st r. f E1 bs1 m1 k cur ins st = Some r \<Longrightarrow>
        E1 = E \<and> bs1 = bs \<and> m1 = m \<and> I st \<longrightarrow> eval_loop E bs' m k cur ins st = Some r"
      and round: "loop_round E1 bs1 m1 (f E1 bs1 m1) k1 cur1 ins1 st1 = Some r1"
      and same: "E1 = E" "bs1 = bs" "m1 = m" and I1: "I st1"
    have "loop_round E bs' m (eval_loop E bs' m) k1 cur1 ins1 st1 = Some r1"
      by (rule loop_round_equiv_on [OF eq I1 _ round [unfolded same]]) (use IH in blast)
    then show "eval_loop E bs' m k1 cur1 ins1 st1 = Some r1"
      by (simp only: eval_loop_round [symmetric])
  qed
  then show ?thesis using I by simp
qed

lemma eval_loop_equiv_on:
  assumes "blocks_equiv_on I E bs bs'" and "I st"
  shows "eval_loop E bs m k cur ins st = eval_loop E bs' m k cur ins st"
  by (rule option_eqI)
    (blast intro: eval_loop_equiv_le [OF assms(1)] eval_loop_equiv_le [OF blocks_equiv_on_sym [OF assms(1)]] assms(2))

lemma eval_loop_equiv:
  assumes "blocks_equiv E bs bs'"
  shows "eval_loop E bs m k cur ins st = eval_loop E bs' m k cur ins st"
  by (rule eval_loop_equiv_on [OF blocks_equiv_on_all [OF assms]]) simp

lemma eval_biir_equiv:
  assumes "blocks_equiv E (blocks bs) (blocks bs')" and "pre_init bs = pre_init bs'"
  shows "eval_biir_with_limit E bs ins m = eval_biir_with_limit E bs' ins m"
  by (simp only: eval_biir_with_limit_def eval_loop_equiv [OF assms(1)] assms(2))

end
