(* ===== verification/RCircuit.thy ===== *)
theory RCircuit
  imports BoolarEval
begin

text \<open>
  Reversible circuits (\<open>volar-ir/src/rcircuit.rs\<close>, \<open>rcircuit/generated.rs\<close>): the gate set, the
  validating constructor, the three evaluators over a wire vector and a storage state,
  inversion and composition.
\<close>

section \<open>Gates and circuits\<close>

datatype RExternalKind = ROracle | RRng

datatype RGate =
    X nat
  | Cnot nat nat                                   \<comment> \<open>\<open>ctrl\<close>, \<open>target\<close>\<close>
  | Ccnot nat nat nat                              \<comment> \<open>\<open>c1\<close>, \<open>c2\<close>, \<open>target\<close>\<close>
  | StorageSwap storage_id lane_id "nat list" nat  \<comment> \<open>\<open>storage\<close>, \<open>lane\<close>, \<open>addr\<close>, \<open>target\<close>\<close>
  | XorLut2 nat nat nat "8 word"                   \<comment> \<open>\<open>controls[0]\<close>, \<open>controls[1]\<close>, \<open>target\<close>, \<open>table\<close>\<close>
  | ExternalXor RExternalKind string "nat list" nat nat nat
      \<comment> \<open>\<open>kind\<close>, \<open>name\<close>, \<open>args\<close>, \<open>target\<close>, \<open>bit\<close>, \<open>occurrence\<close>\<close>
  | ExternalStorageXor string nat "nat list" nat storage_id lane_id "nat list" nat nat
      \<comment> \<open>\<open>name\<close>, \<open>guard\<close>, \<open>args\<close>, \<open>fallback\<close>, \<open>storage\<close>, \<open>lane\<close>, \<open>addr\<close>, \<open>bit\<close>, \<open>occurrence\<close>\<close>

record RCircuit =
  num_wires :: nat
  gates :: "RGate list"

datatype RCircuitError =
    IndexOutOfRange nat nat
  | TargetAliased nat nat
  | ControlAliased nat nat
  | InvalidTruthTable nat "8 word"
  | WireCountMismatch nat nat
  | StorageOpsUnsupported
  | ExternalOpsUnsupported

section \<open>Validation\<close>

definition check_wire :: "nat \<Rightarrow> nat \<Rightarrow> nat \<Rightarrow> RCircuitError + unit" where
  "check_wire n i w = (if w < n then Inr () else Inl (IndexOutOfRange i w))"

text \<open>The loops over address and argument wires, with and without the aliasing check.\<close>

fun check_unaliased :: "nat \<Rightarrow> nat \<Rightarrow> nat \<Rightarrow> nat list \<Rightarrow> RCircuitError + unit" where
  "check_unaliased n i target [] = Inr ()"
| "check_unaliased n i target (w # ws) =
     rbind (check_wire n i w) (\<lambda>_.
       if w = target then Inl (TargetAliased i w) else check_unaliased n i target ws)"

fun check_wires :: "nat \<Rightarrow> nat \<Rightarrow> nat list \<Rightarrow> RCircuitError + unit" where
  "check_wires n i [] = Inr ()"
| "check_wires n i (w # ws) = rbind (check_wire n i w) (\<lambda>_. check_wires n i ws)"

fun validate_gate_at :: "nat \<Rightarrow> nat \<Rightarrow> RGate \<Rightarrow> RCircuitError + unit" where
  "validate_gate_at n i (X w) = check_wire n i w"
| "validate_gate_at n i (Cnot ctrl target) =
     rbind (check_wire n i ctrl) (\<lambda>_. rbind (check_wire n i target) (\<lambda>_.
       if ctrl = target then Inl (TargetAliased i ctrl) else Inr ()))"
| "validate_gate_at n i (Ccnot c1 c2 target) =
     rbind (check_wire n i c1) (\<lambda>_. rbind (check_wire n i c2) (\<lambda>_.
     rbind (check_wire n i target) (\<lambda>_.
       if target = c1 \<or> target = c2 then Inl (TargetAliased i target) else Inr ())))"
| "validate_gate_at n i (XorLut2 c0 c1 target table) =
     rbind (check_wire n i c0) (\<lambda>_. rbind (check_wire n i c1) (\<lambda>_.
     rbind (check_wire n i target) (\<lambda>_.
       if target = c0 \<or> target = c1 then Inl (TargetAliased i target)
       else if c0 = c1 then Inl (ControlAliased i c0)
       else if table AND NOT 0x0f \<noteq> 0 then Inl (InvalidTruthTable i table)
       else Inr ())))"
| "validate_gate_at n i (StorageSwap storage lane addr target) =
     rbind (check_wire n i target) (\<lambda>_. check_unaliased n i target addr)"
| "validate_gate_at n i (ExternalXor k name args target b occ) =
     rbind (check_wire n i target) (\<lambda>_. check_unaliased n i target args)"
| "validate_gate_at n i (ExternalStorageXor name guard args fallback storage lane addr b occ) =
     rbind (check_wire n i guard) (\<lambda>_. rbind (check_wire n i fallback) (\<lambda>_.
       check_wires n i (args @ addr)))"

fun validate_from :: "nat \<Rightarrow> nat \<Rightarrow> RGate list \<Rightarrow> RCircuitError + unit" where
  "validate_from n i [] = Inr ()"
| "validate_from n i (g # gs) = rbind (validate_gate_at n i g) (\<lambda>_. validate_from n (Suc i) gs)"

definition validate :: "RCircuit \<Rightarrow> RCircuitError + unit" where
  "validate c = validate_from (num_wires c) 0 (gates c)"

definition RCircuit_new :: "nat \<Rightarrow> RGate list \<Rightarrow> RCircuitError + RCircuit" where
  "RCircuit_new n gs =
     (let c = \<lparr>num_wires = n, gates = gs\<rparr> in rbind (validate c) (\<lambda>_. Inr c))"

definition RCircuit_empty :: "nat \<Rightarrow> RCircuit" where
  "RCircuit_empty n = \<lparr>num_wires = n, gates = []\<rparr>"

definition push_gate :: "RCircuit \<Rightarrow> RGate \<Rightarrow> RCircuitError + RCircuit" where
  "push_gate c g =
     rbind (validate_gate_at (num_wires c) (length (gates c)) g) (\<lambda>_.
       Inr (c\<lparr>gates := gates c @ [g]\<rparr>))"

fun is_storage_gate :: "RGate \<Rightarrow> bool" where
  "is_storage_gate (StorageSwap _ _ _ _) = True"
| "is_storage_gate (ExternalStorageXor _ _ _ _ _ _ _ _ _) = True"
| "is_storage_gate _ = False"

fun is_external_gate :: "RGate \<Rightarrow> bool" where
  "is_external_gate (ExternalXor _ _ _ _ _ _) = True"
| "is_external_gate (ExternalStorageXor _ _ _ _ _ _ _ _ _) = True"
| "is_external_gate _ = False"

definition uses_storage :: "RCircuit \<Rightarrow> bool" where
  "uses_storage c \<longleftrightarrow> list_ex is_storage_gate (gates c)"

definition uses_externals :: "RCircuit \<Rightarrow> bool" where
  "uses_externals c \<longleftrightarrow> list_ex is_external_gate (gates c)"

section \<open>Evaluation\<close>

type_synonym rstate = "bool list \<times> bstorage"

definition addr_cell_index :: "nat list \<Rightarrow> bool list \<Rightarrow> bool list option" where
  "addr_cell_index addr_wires ws = nths_opt ws addr_wires"

definition lut_bit :: "8 word \<Rightarrow> bool \<Rightarrow> bool \<Rightarrow> bool" where
  "lut_bit table a b =
     (let input = 2 * of_bool a + of_bool b :: nat in drop_bit (3 - input) table AND 1 = 1)"

text \<open>One gate of \<open>RCircuit::apply\<close>; the external gates are unreachable there.\<close>

fun apply_gate :: "RGate \<Rightarrow> rstate \<Rightarrow> rstate option" where
  "apply_gate (X w) (ws, st) = do { x \<leftarrow> nth_opt ws w; Some (ws[w := \<not> x], st) }"
| "apply_gate (Cnot ctrl target) (ws, st) =
     do { x \<leftarrow> nth_opt ws target; y \<leftarrow> nth_opt ws ctrl; Some (ws[target := (x \<noteq> y)], st) }"
| "apply_gate (Ccnot c1 c2 target) (ws, st) =
     do { x \<leftarrow> nth_opt ws target; y \<leftarrow> nth_opt ws c1; z \<leftarrow> nth_opt ws c2;
          Some (ws[target := (x \<noteq> (y \<and> z))], st) }"
| "apply_gate (XorLut2 c0 c1 target table) (ws, st) =
     do { y \<leftarrow> nth_opt ws c0; z \<leftarrow> nth_opt ws c1; x \<leftarrow> nth_opt ws target;
          Some (ws[target := (x \<noteq> lut_bit table y z)], st) }"
| "apply_gate (StorageSwap sid lane addr target) (ws, st) =
     do { a \<leftarrow> addr_cell_index addr ws; x \<leftarrow> nth_opt ws target;
          let c = ((sid, lane), a);
          Some (ws[target := sread st c], st(c \<mapsto> x)) }"
| "apply_gate (ExternalXor _ _ _ _ _ _) s = None"
| "apply_gate (ExternalStorageXor _ _ _ _ _ _ _ _ _) s = None"

text \<open>One gate of \<open>apply_with_externals\<close>.\<close>

fun apply_gate_ext :: "registry \<Rightarrow> RGate \<Rightarrow> rstate \<Rightarrow> rstate option" where
  "apply_gate_ext R (X w) (ws, st) = do { x \<leftarrow> nth_opt ws w; Some (ws[w := \<not> x], st) }"
| "apply_gate_ext R (Cnot ctrl target) (ws, st) =
     do { x \<leftarrow> nth_opt ws target; y \<leftarrow> nth_opt ws ctrl; Some (ws[target := (x \<noteq> y)], st) }"
| "apply_gate_ext R (Ccnot c1 c2 target) (ws, st) =
     do { x \<leftarrow> nth_opt ws target; y \<leftarrow> nth_opt ws c1; z \<leftarrow> nth_opt ws c2;
          Some (ws[target := (x \<noteq> (y \<and> z))], st) }"
| "apply_gate_ext R (XorLut2 c0 c1 target table) (ws, st) =
     do { y \<leftarrow> nth_opt ws c0; z \<leftarrow> nth_opt ws c1; x \<leftarrow> nth_opt ws target;
          Some (ws[target := (x \<noteq> lut_bit table y z)], st) }"
| "apply_gate_ext R (StorageSwap sid lane addr target) (ws, st) =
     do { a \<leftarrow> addr_cell_index addr ws; x \<leftarrow> nth_opt ws target;
          let c = ((sid, lane), a);
          Some (ws[target := sread st c], st(c \<mapsto> x)) }"
| "apply_gate_ext R (ExternalXor k name args target b occ) (ws, st) =
     do { xs \<leftarrow> nths_opt ws args; x \<leftarrow> nth_opt ws target;
          let value = (case k of ROracle \<Rightarrow> oracle_bit_fn R name xs b occ
                               | RRng \<Rightarrow> rng_bit_fn R name b occ);
          Some (ws[target := (x \<noteq> value)], st) }"
| "apply_gate_ext R (ExternalStorageXor name guard args fallback sid lane addr b occ) (ws, st) =
     do { g \<leftarrow> nth_opt ws guard;
          value \<leftarrow> (if g then do { xs \<leftarrow> nths_opt ws args; Some (action_bit_fn R name xs b occ) }
                    else nth_opt ws fallback);
          a \<leftarrow> addr_cell_index addr ws;
          let c = ((sid, lane), a);
          let nxt = (sread st c \<noteq> value);
          Some (ws, if nxt then st(c \<mapsto> True) else st(c := None)) }"

fun run_gates :: "(RGate \<Rightarrow> rstate \<Rightarrow> rstate option) \<Rightarrow> RGate list \<Rightarrow> rstate \<Rightarrow> rstate option" where
  "run_gates f [] s = Some s"
| "run_gates f (g # gs) s = do { s' \<leftarrow> f g s; run_gates f gs s' }"

definition apply_circuit :: "RCircuit \<Rightarrow> bool list \<Rightarrow> bstorage \<Rightarrow> rstate option" where
  "apply_circuit c ws st =
     (if length ws \<noteq> num_wires c \<or> uses_externals c then None
      else run_gates apply_gate (gates c) (ws, st))"

definition apply_with_externals ::
  "registry \<Rightarrow> RCircuit \<Rightarrow> bool list \<Rightarrow> bstorage \<Rightarrow> rstate option" where
  "apply_with_externals R c ws st =
     (if length ws \<noteq> num_wires c then None else run_gates (apply_gate_ext R) (gates c) (ws, st))"

definition apply_pure :: "RCircuit \<Rightarrow> bool list \<Rightarrow> (RCircuitError, bool list) outcome" where
  "apply_pure c ws =
     (if uses_externals c then Err ExternalOpsUnsupported
      else if uses_storage c then Err StorageOpsUnsupported
      else obind (of_option (apply_circuit c ws Map.empty)) (\<lambda>(ws', _). Ok ws'))"

definition inverse :: "RCircuit \<Rightarrow> RCircuit" where
  "inverse c = \<lparr>num_wires = num_wires c, gates = rev (gates c)\<rparr>"

definition then_circuit :: "RCircuit \<Rightarrow> RCircuit \<Rightarrow> RCircuitError + RCircuit" where
  "then_circuit c d =
     (if num_wires c \<noteq> num_wires d then Inl (WireCountMismatch (num_wires c) (num_wires d))
      else RCircuit_new (num_wires c) (gates c @ gates d))"

section \<open>Valid gates\<close>

text \<open>
  The wires a gate only reads, and the wire it writes, if any. Every gate but the two
  storage ones XORs a function of its controls into its target.
\<close>

fun gate_controls :: "RGate \<Rightarrow> nat list" where
  "gate_controls (X w) = []"
| "gate_controls (Cnot c t) = [c]"
| "gate_controls (Ccnot c1 c2 t) = [c1, c2]"
| "gate_controls (XorLut2 c0 c1 t table) = [c0, c1]"
| "gate_controls (StorageSwap s l addr t) = addr"
| "gate_controls (ExternalXor k name args t b occ) = args"
| "gate_controls (ExternalStorageXor name guard args fallback s l addr b occ) =
     guard # fallback # args @ addr"

fun gate_target :: "RGate \<Rightarrow> nat option" where
  "gate_target (X w) = Some w"
| "gate_target (Cnot c t) = Some t"
| "gate_target (Ccnot c1 c2 t) = Some t"
| "gate_target (XorLut2 c0 c1 t table) = Some t"
| "gate_target (StorageSwap s l addr t) = Some t"
| "gate_target (ExternalXor k name args t b occ) = Some t"
| "gate_target (ExternalStorageXor name guard args fallback s l addr b occ) = None"

definition touches :: "RGate \<Rightarrow> nat set" where
  "touches g = set (gate_controls g) \<union> set_option (gate_target g)"

fun lut_ok :: "RGate \<Rightarrow> bool" where
  "lut_ok (XorLut2 c0 c1 t table) \<longleftrightarrow> c0 \<noteq> c1 \<and> table AND NOT 0x0f = 0"
| "lut_ok _ \<longleftrightarrow> True"

definition gate_ok :: "nat \<Rightarrow> RGate \<Rightarrow> bool" where
  "gate_ok n g \<longleftrightarrow> (\<forall>w \<in> touches g. w < n) \<and> (\<forall>t. gate_target g = Some t \<longrightarrow> t \<notin> set (gate_controls g)) \<and> lut_ok g"

definition circuit_ok :: "RCircuit \<Rightarrow> bool" where
  "circuit_ok c \<longleftrightarrow> (\<forall>g \<in> set (gates c). gate_ok (num_wires c) g)"

lemma check_wire_Inr [simp]: "check_wire n i w = Inr () \<longleftrightarrow> w < n"
  by (simp add: check_wire_def)

lemma check_unaliased_Inr [simp]:
  "check_unaliased n i t ws = Inr () \<longleftrightarrow> (\<forall>w \<in> set ws. w < n \<and> w \<noteq> t)"
  by (induction ws) auto

lemma check_wires_Inr [simp]: "check_wires n i ws = Inr () \<longleftrightarrow> (\<forall>w \<in> set ws. w < n)"
  by (induction ws) auto

lemma validate_gate_at_Inr: "validate_gate_at n i g = Inr () \<longleftrightarrow> gate_ok n g"
  by (cases g) (auto simp: gate_ok_def touches_def)

lemma validate_from_Inr: "validate_from n i gs = Inr () \<longleftrightarrow> (\<forall>g \<in> set gs. gate_ok n g)"
  by (induction gs arbitrary: i) (auto simp: validate_gate_at_Inr)

lemma validate_Inr: "validate c = Inr () \<longleftrightarrow> circuit_ok c"
  by (simp add: validate_def validate_from_Inr circuit_ok_def)

lemma RCircuit_new_Inr:
  "RCircuit_new n gs = Inr c \<longleftrightarrow> c = \<lparr>num_wires = n, gates = gs\<rparr> \<and> circuit_ok c"
  by (auto simp: RCircuit_new_def validate_Inr Let_def)

text \<open>The first bad gate is the one reported.\<close>

lemma validate_from_Inl:
  "validate_from n i gs = Inl e \<longleftrightarrow>
     (\<exists>k < length gs. (\<forall>j < k. gate_ok n (gs ! j)) \<and> validate_gate_at n (i + k) (gs ! k) = Inl e)"
proof (induction gs arbitrary: i)
  case (Cons g gs)
  show ?case
  proof (cases "validate_gate_at n i g")
    case (Inl e')
    then have "\<not> gate_ok n g" using validate_gate_at_Inr [of n i g] by simp
    then show ?thesis
      using Inl by (auto simp: gr0_conv_Suc intro!: exI [of _ 0]) (metis less_nat_zero_code nth_Cons_0
          not0_implies_Suc add.right_neutral sum.inject(1) zero_less_Suc)+
  next
    case (Inr u)
    then have ok: "gate_ok n g" using validate_gate_at_Inr [of n i g] by simp
    have "validate_from n i (g # gs) = Inl e \<longleftrightarrow>
        (\<exists>k < length gs. (\<forall>j < k. gate_ok n (gs ! j)) \<and> validate_gate_at n (Suc i + k) (gs ! k) = Inl e)"
      using Inr Cons.IH [of "Suc i"] by simp
    also have "\<dots> \<longleftrightarrow> (\<exists>k < length (g # gs). (\<forall>j < k. gate_ok n ((g # gs) ! j))
        \<and> validate_gate_at n (i + k) ((g # gs) ! k) = Inl e)" (is "?L \<longleftrightarrow> ?R")
    proof
      assume ?L
      then obtain k where "k < length gs" "\<forall>j < k. gate_ok n (gs ! j)"
        "validate_gate_at n (Suc i + k) (gs ! k) = Inl e" by blast
      then show ?R using ok by (intro exI [of _ "Suc k"]) (auto simp: less_Suc_eq_0_disj)
    next
      assume ?R
      then obtain k where k: "k < length (g # gs)" "\<forall>j < k. gate_ok n ((g # gs) ! j)"
        "validate_gate_at n (i + k) ((g # gs) ! k) = Inl e" by blast
      with Inr obtain k' where "k = Suc k'" by (cases k) auto
      with k show ?L by (intro exI [of _ k']) (auto simp: less_Suc_eq_0_disj)
    qed
    finally show ?thesis .
  qed
qed simp


section \<open>The total gate step\<close>

text \<open>
  On valid gates and wire vectors of the right length evaluation cannot panic: it is the
  total step below. \<open>delta\<close> is what an XOR-type gate adds to its target.
\<close>

fun delta :: "registry \<Rightarrow> RGate \<Rightarrow> bool list \<Rightarrow> bool" where
  "delta R (X w) ws = True"
| "delta R (Cnot c t) ws = ws ! c"
| "delta R (Ccnot c1 c2 t) ws = (ws ! c1 \<and> ws ! c2)"
| "delta R (XorLut2 c0 c1 t table) ws = lut_bit table (ws ! c0) (ws ! c1)"
| "delta R (ExternalXor k name args t b occ) ws =
     (case k of ROracle \<Rightarrow> oracle_bit_fn R name (map ((!) ws) args) b occ
              | RRng \<Rightarrow> rng_bit_fn R name b occ)"
| "delta R (ExternalStorageXor name guard args fallback s l addr b occ) ws =
     (if ws ! guard then action_bit_fn R name (map ((!) ws) args) b occ else ws ! fallback)"
| "delta R (StorageSwap s l addr t) ws = False"

fun gate_cell :: "RGate \<Rightarrow> bool list \<Rightarrow> cell" where
  "gate_cell (StorageSwap s l addr t) ws = ((s, l), map ((!) ws) addr)"
| "gate_cell (ExternalStorageXor name guard args fallback s l addr b occ) ws =
     ((s, l), map ((!) ws) addr)"
| "gate_cell _ ws = ((0, 0), [])"

fun gate_step :: "registry \<Rightarrow> RGate \<Rightarrow> rstate \<Rightarrow> rstate" where
  "gate_step R (StorageSwap s l addr t) (ws, st) =
     (let c = gate_cell (StorageSwap s l addr t) ws in (ws[t := sread st c], st(c \<mapsto> ws ! t)))"
| "gate_step R (ExternalStorageXor name guard args fallback s l addr b occ) (ws, st) =
     (let g = ExternalStorageXor name guard args fallback s l addr b occ; c = gate_cell g ws
      in (ws, if sread st c \<noteq> delta R g ws then st(c \<mapsto> True) else st(c := None)))"
| "gate_step R g (ws, st) =
     (case gate_target g of None \<Rightarrow> (ws, st) | Some t \<Rightarrow> (ws[t := (ws ! t \<noteq> delta R g ws)], st))"

definition run :: "registry \<Rightarrow> RGate list \<Rightarrow> rstate \<Rightarrow> rstate" where
  "run R gs s = fold (gate_step R) gs s"

lemma run_Nil [simp]: "run R [] s = s"
  by (simp add: run_def)

lemma run_Cons [simp]: "run R (g # gs) s = run R gs (gate_step R g s)"
  by (simp add: run_def)

lemma run_append [simp]: "run R (gs @ hs) s = run R hs (run R gs s)"
  by (simp add: run_def)

lemma length_gate_step [simp]: "length (fst (gate_step R g s)) = length (fst s)"
  by (cases s; cases g) (auto simp: Let_def)

lemma length_run [simp]: "length (fst (run R gs s)) = length (fst s)"
  by (induction gs arbitrary: s) auto

lemma apply_gate_ext_step:
  "gate_ok (length ws) g \<Longrightarrow> apply_gate_ext R g (ws, st) = Some (gate_step R g (ws, st))"
  by (cases g) (auto simp: gate_ok_def touches_def addr_cell_index_def Let_def)

lemma apply_gate_eq_ext:
  "\<not> is_external_gate g \<Longrightarrow> apply_gate g s = apply_gate_ext R g s"
  by (cases s; cases g) auto

lemma run_gates_ext:
  "(\<forall>g \<in> set gs. gate_ok (length (fst s)) g) \<Longrightarrow>
   run_gates (apply_gate_ext R) gs s = Some (run R gs s)"
proof (induction gs arbitrary: s)
  case (Cons g gs)
  then show ?case by (cases s) (simp add: apply_gate_ext_step)
qed simp

lemma run_gates_no_ext:
  "list_all (\<lambda>g. \<not> is_external_gate g) gs \<Longrightarrow> run_gates apply_gate gs s = run_gates (apply_gate_ext R) gs s"
proof (induction gs arbitrary: s)
  case (Cons g gs)
  then have "apply_gate g s = apply_gate_ext R g s" by (simp add: apply_gate_eq_ext)
  with Cons show ?case by (cases "apply_gate_ext R g s") auto
qed simp

lemma apply_with_externals_run:
  assumes "circuit_ok c" and "length ws = num_wires c"
  shows "apply_with_externals R c ws st = Some (run R (gates c) (ws, st))"
  using assms by (simp add: apply_with_externals_def run_gates_ext circuit_ok_def)

lemma apply_circuit_run:
  assumes "circuit_ok c" and "length ws = num_wires c" and "\<not> uses_externals c"
  shows "apply_circuit c ws st = Some (run R (gates c) (ws, st))"
proof -
  have "list_all (\<lambda>g. \<not> is_external_gate g) (gates c)"
    using assms(3) by (auto simp: uses_externals_def list_ex_iff list_all_iff)
  then show ?thesis
    using assms by (simp add: apply_circuit_def run_gates_no_ext [of _ _ R] run_gates_ext circuit_ok_def)
qed

section \<open>Storage up to absent cells\<close>

definition storage_eq :: "bstorage \<Rightarrow> bstorage \<Rightarrow> bool" where
  "storage_eq st st' \<longleftrightarrow> (\<forall>c. sread st c = sread st' c)"

lemma storage_eq_refl [simp]: "storage_eq st st"
  by (simp add: storage_eq_def)

lemma storage_eq_sym: "storage_eq st st' \<Longrightarrow> storage_eq st' st"
  by (simp add: storage_eq_def)

lemma storage_eq_trans: "storage_eq st st' \<Longrightarrow> storage_eq st' st'' \<Longrightarrow> storage_eq st st''"
  by (simp add: storage_eq_def)

lemma storage_eqD: "storage_eq st st' \<Longrightarrow> sread st c = sread st' c"
  by (simp add: storage_eq_def del: split_paired_All)

lemma sread_upd [simp]: "sread (st(c \<mapsto> b)) c' = (if c' = c then b else sread st c')"
  by (simp add: sread_def)

lemma sread_del [simp]: "sread (st(c := None)) c' = (if c' = c then False else sread st c')"
  by (simp add: sread_def)

lemma sread_put_bit [simp]:
  "sread (if v then st(c \<mapsto> True) else st(c := None)) c' = (if c' = c then v else sread st c')"
  by simp

lemma sread_empty [simp]: "sread Map.empty c = False"
  by (simp add: sread_def)

lemma storage_eq_upd: "storage_eq st st' \<Longrightarrow> storage_eq (st(c \<mapsto> b)) (st'(c \<mapsto> b))"
  by (simp add: storage_eq_def)

definition rstate_eq :: "rstate \<Rightarrow> rstate \<Rightarrow> bool" where
  "rstate_eq s s' \<longleftrightarrow> fst s = fst s' \<and> storage_eq (snd s) (snd s')"

lemma rstate_eq_refl [simp]: "rstate_eq s s"
  by (simp add: rstate_eq_def)

lemma rstate_eq_sym: "rstate_eq s s' \<Longrightarrow> rstate_eq s' s"
  by (auto simp: rstate_eq_def intro: storage_eq_sym)

lemma rstate_eq_trans [trans]: "rstate_eq s s' \<Longrightarrow> rstate_eq s' s'' \<Longrightarrow> rstate_eq s s''"
  by (auto simp: rstate_eq_def intro: storage_eq_trans)

lemma gate_step_cong: "rstate_eq s s' \<Longrightarrow> rstate_eq (gate_step R g s) (gate_step R g s')"
  by (cases s; cases s'; cases g)
    (auto simp: rstate_eq_def storage_eq_def Let_def simp del: split_paired_All)

lemma run_cong: "rstate_eq s s' \<Longrightarrow> rstate_eq (run R gs s) (run R gs s')"
proof (induction gs arbitrary: s s')
  case (Cons g gs)
  show ?case unfolding run_Cons by (rule Cons.IH [OF gate_step_cong [OF Cons.prems]])
qed simp

section \<open>Frames\<close>

lemma delta_cong:
  "(\<And>w. w \<in> set (gate_controls g) \<Longrightarrow> ws ! w = ws' ! w) \<Longrightarrow> delta R g ws = delta R g ws'"
proof (cases g)
  case (ExternalXor k name args t b occ)
  assume "\<And>w. w \<in> set (gate_controls g) \<Longrightarrow> ws ! w = ws' ! w"
  then have "map ((!) ws) args = map ((!) ws') args" by (simp add: ExternalXor)
  then show ?thesis by (simp only: ExternalXor delta.simps)
next
  case (ExternalStorageXor name guard args fallback s l addr b occ)
  assume eq: "\<And>w. w \<in> set (gate_controls g) \<Longrightarrow> ws ! w = ws' ! w"
  then have "map ((!) ws) args = map ((!) ws') args" by (simp add: ExternalStorageXor)
  moreover have "ws ! guard = ws' ! guard" and "ws ! fallback = ws' ! fallback"
    using eq by (simp_all add: ExternalStorageXor)
  ultimately show ?thesis by (simp only: ExternalStorageXor delta.simps)
qed auto

lemma delta_upd:
  "t \<notin> set (gate_controls g) \<Longrightarrow> delta R g (ws[t := b]) = delta R g ws"
  by (rule delta_cong) (metis nth_list_update_neq)

lemma gate_cell_cong:
  "(\<And>w. w \<in> set (gate_controls g) \<Longrightarrow> ws ! w = ws' ! w) \<Longrightarrow> gate_cell g ws = gate_cell g ws'"
  by (cases g) auto

lemma gate_cell_upd:
  "t \<notin> set (gate_controls g) \<Longrightarrow> gate_cell g (ws[t := b]) = gate_cell g ws"
  by (rule gate_cell_cong) (metis nth_list_update_neq)

lemma gate_step_nontarget:
  "gate_target g \<noteq> Some w \<Longrightarrow> fst (gate_step R g s) ! w = fst s ! w"
  by (cases s; cases g) (auto simp: Let_def nth_list_update_neq)

lemma run_nontarget:
  "(\<forall>g \<in> set gs. gate_target g \<noteq> Some w) \<Longrightarrow> fst (run R gs s) ! w = fst s ! w"
  by (induction gs arbitrary: s) (auto simp: gate_step_nontarget)

lemma gate_step_storage_free:
  "\<not> is_storage_gate g \<Longrightarrow> snd (gate_step R g s) = snd s"
  by (cases s; cases g) auto

lemma run_storage_free:
  "(\<forall>g \<in> set gs. \<not> is_storage_gate g) \<Longrightarrow> snd (run R gs s) = snd s"
  by (induction gs arbitrary: s) (auto simp: gate_step_storage_free)

text \<open>An XOR-type gate in one equation.\<close>

lemma gate_step_xor:
  assumes "\<not> is_storage_gate g"
  obtains t where "gate_target g = Some t"
    and "\<And>ws st. gate_step R g (ws, st) = (ws[t := (ws ! t \<noteq> delta R g ws)], st)"
  using assms by (cases g) auto

section \<open>Involution, inversion and composition\<close>

text \<open>Every valid gate undoes itself, up to cells that hold \<open>false\<close> explicitly or by absence.\<close>

lemma gate_step_involutive:
  assumes ok: "gate_ok (length (fst s)) g"
  shows "rstate_eq (gate_step R g (gate_step R g s)) s"
proof -
  obtain ws st where s: "s = (ws, st)" by (cases s)
  have ctl: "t \<notin> set (gate_controls g)" "t < length ws" if "gate_target g = Some t" for t
    using ok that by (auto simp: s gate_ok_def touches_def)
  show ?thesis
  proof (cases "is_storage_gate g")
    case False
    then obtain t where t: "gate_target g = Some t"
      and step: "\<And>ws st. gate_step R g (ws, st) = (ws[t := (ws ! t \<noteq> delta R g ws)], st)"
      by (rule gate_step_xor [where R = R]) blast
    let ?ws = "ws[t := (ws ! t \<noteq> delta R g ws)]"
    have "?ws[t := (?ws ! t \<noteq> delta R g ?ws)] = ?ws[t := ws ! t]"
    proof -
      have "delta R g ?ws = delta R g ws" by (rule delta_upd [OF ctl(1) [OF t]])
      moreover have "?ws ! t = (ws ! t \<noteq> delta R g ws)" using ctl [OF t] by simp
      ultimately have "(?ws ! t \<noteq> delta R g ?ws) = ws ! t" by blast
      then show ?thesis by (simp only:)
    qed
    then show ?thesis
      by (simp add: s step rstate_eq_def)
  next
    case True
    then show ?thesis
    proof (cases g)
      case (StorageSwap sid l addr t)
      then have "t \<notin> set addr" "t < length ws" using ctl by auto
      then show ?thesis
        by (simp add: s StorageSwap rstate_eq_def storage_eq_def Let_def map_nth_upd_notin
            del: split_paired_All)
    next
      case (ExternalStorageXor name guard args fallback sid l addr b occ)
      then have "gate_step R g (ws, st) =
          (ws, if sread st (gate_cell g ws) \<noteq> delta R g ws
               then st(gate_cell g ws \<mapsto> True) else st(gate_cell g ws := None))" for st
        by (simp only: gate_step.simps Let_def)
      then show ?thesis
        by (simp only: s rstate_eq_def storage_eq_def fst_conv snd_conv sread_put_bit)
          (simp add: eq_commute [of "gate_cell g ws"] del: split_paired_All, blast)
    qed auto
  qed
qed

lemma run_rev_run:
  "(\<forall>g \<in> set gs. gate_ok (length (fst s)) g) \<Longrightarrow> rstate_eq (run R (rev gs) (run R gs s)) s"
proof (induction gs arbitrary: s)
  case (Cons g gs)
  let ?s = "gate_step R g s"
  have "rstate_eq (run R (rev gs) (run R gs ?s)) ?s"
    using Cons by simp
  then have "rstate_eq (gate_step R g (run R (rev gs) (run R gs ?s))) (gate_step R g ?s)"
    by (rule gate_step_cong)
  also have "rstate_eq (gate_step R g ?s) s"
    using Cons.prems by (simp add: gate_step_involutive)
  finally show ?case by simp
qed simp

lemma circuit_ok_inverse [simp]: "circuit_ok (inverse c) \<longleftrightarrow> circuit_ok c"
  by (simp add: circuit_ok_def inverse_def)

lemma num_wires_inverse [simp]: "num_wires (inverse c) = num_wires c"
  by (simp add: inverse_def)

lemma inverse_inverse [simp]: "inverse (inverse c) = c"
  by (simp add: inverse_def)

text \<open>
  Storage-free runs are functions of the wires alone; \<open>wrun\<close> names them. They are injective
  on wire vectors of the circuit's width.
\<close>

definition wrun :: "registry \<Rightarrow> RGate list \<Rightarrow> bool list \<Rightarrow> bool list" where
  "wrun R gs ws = fst (run R gs (ws, Map.empty))"

lemma gate_step_wires_indep:
  "\<not> is_storage_gate g \<Longrightarrow> fst (gate_step R g (ws, st)) = fst (gate_step R g (ws, st'))"
  by (cases g) auto

lemma run_wrun:
  "(\<forall>g \<in> set gs. \<not> is_storage_gate g) \<Longrightarrow> run R gs (ws, st) = (wrun R gs ws, st)"
proof (induction gs arbitrary: ws)
  case (Cons g gs)
  then have "\<not> is_storage_gate g" by simp
  then obtain t where "gate_target g = Some t"
    and step: "\<And>ws st. gate_step R g (ws, st) = (ws[t := (ws ! t \<noteq> delta R g ws)], st)"
    by (rule gate_step_xor [where R = R]) blast
  with Cons show ?case by (simp add: wrun_def)
qed (simp add: wrun_def)

lemma wrun_Nil [simp]: "wrun R [] ws = ws"
  by (simp add: wrun_def)

lemma wrun_append:
  "(\<forall>g \<in> set gs. \<not> is_storage_gate g) \<Longrightarrow> wrun R (gs @ hs) ws = wrun R hs (wrun R gs ws)"
  by (simp only: wrun_def [of R "gs @ hs"] wrun_def [of R hs] run_append run_wrun)

lemma length_wrun [simp]: "length (wrun R gs ws) = length ws"
  by (simp add: wrun_def)

lemma wrun_nontarget:
  "(\<forall>g \<in> set gs. gate_target g \<noteq> Some w) \<Longrightarrow> wrun R gs ws ! w = ws ! w"
  by (simp add: wrun_def run_nontarget)

lemma wrun_rev:
  assumes "\<forall>g \<in> set gs. gate_ok (length ws) g" and "\<forall>g \<in> set gs. \<not> is_storage_gate g"
  shows "wrun R (rev gs) (wrun R gs ws) = ws"
  using run_rev_run [of gs "(ws, Map.empty)" R] assms
  by (simp add: run_wrun rstate_eq_def)

end
