(* ===== verification/AncillaPool.thy ===== *)
theory AncillaPool
  imports Prelude
begin

text \<open>
  The borrow/restore allocator of ancilla wires (\<open>volar-ir/src/rcircuit/ancilla.rs\<close>): a free
  list over the wire region from \<open>base\<close> upward. \<open>release\<close> panics (\<open>None\<close>) on structural
  misuse. The two \<open>debug_assert!\<close>s of \<open>acquire\<close> are theorems here: under the pool invariant
  an issued wire was not live.
\<close>

record AncillaPool =
  base :: nat
  next_fresh :: nat
  free :: "nat list"
  live :: "nat set"

definition pool_new :: "nat \<Rightarrow> AncillaPool" where
  "pool_new b = \<lparr>base = b, next_fresh = b, free = [], live = {}\<rparr>"

definition acquire :: "AncillaPool \<Rightarrow> nat \<times> AncillaPool" where
  "acquire p =
     (if free p \<noteq> [] then
        let wire = last (free p)
        in (wire, p\<lparr>free := butlast (free p), live := insert wire (live p)\<rparr>)
      else
        let wire = next_fresh p
        in (wire, p\<lparr>next_fresh := next_fresh p + 1, live := insert wire (live p)\<rparr>))"

definition release :: "nat \<Rightarrow> AncillaPool \<Rightarrow> AncillaPool option" where
  "release wire p =
     (if \<not> (wire \<ge> base p \<and> wire < next_fresh p) then None
      else if wire \<notin> live p then None
      else Some (p\<lparr>live := live p - {wire}, free := free p @ [wire]\<rparr>))"

definition peak_allocated :: "AncillaPool \<Rightarrow> nat" where
  "peak_allocated p = next_fresh p - base p"

definition live_count :: "AncillaPool \<Rightarrow> nat" where
  "live_count p = card (live p)"

text \<open>
  The invariant: every wire of the issued region is either borrowed or on the free list,
  and not both.
\<close>

definition pool_inv :: "AncillaPool \<Rightarrow> bool" where
  "pool_inv p \<longleftrightarrow> base p \<le> next_fresh p \<and> distinct (free p) \<and> set (free p) \<inter> live p = {}
     \<and> set (free p) \<union> live p = {base p ..< next_fresh p}"

lemma pool_inv_new [simp]: "pool_inv (pool_new b)"
  by (auto simp: pool_inv_def pool_new_def)

lemma pool_free_region: "pool_inv p \<Longrightarrow> w \<in> set (free p) \<Longrightarrow> base p \<le> w \<and> w < next_fresh p"
  by (auto simp: pool_inv_def)

lemma pool_inv_le: "pool_inv p \<Longrightarrow> base p \<le> next_fresh p"
  by (simp add: pool_inv_def)

lemma butlast_last_set:
  "xs \<noteq> [] \<Longrightarrow> distinct xs \<Longrightarrow> set xs = insert (last xs) (set (butlast xs)) \<and> last xs \<notin> set (butlast xs)"
  by (cases xs rule: rev_cases) auto

lemma acquire_props:
  assumes "pool_inv p" and "acquire p = (w, p')"
  shows "pool_inv p'" and "w \<notin> live p" and "live p' = insert w (live p)"
    and "base p' = base p" and "base p \<le> w" and "w < next_fresh p'"
    and "next_fresh p \<le> next_fresh p'" and "next_fresh p' \<le> next_fresh p + 1"
    and "set (free p') \<subseteq> set (free p)" and "w \<notin> set (free p')"
    and "w \<in> set (free p) \<or> w = next_fresh p \<and> next_fresh p' = next_fresh p + 1"
proof -
  have inv: "distinct (free p)" "set (free p) \<inter> live p = {}"
    "set (free p) \<union> live p = {base p ..< next_fresh p}" "base p \<le> next_fresh p"
    using assms(1) by (auto simp: pool_inv_def)
  note split = butlast_last_set [OF _ inv(1)]
  show "w \<notin> live p" "live p' = insert w (live p)" "base p' = base p"
    "next_fresh p \<le> next_fresh p'" "next_fresh p' \<le> next_fresh p + 1"
    "set (free p') \<subseteq> set (free p)" "base p \<le> w" "w < next_fresh p'"
    "w \<notin> set (free p')"
    "w \<in> set (free p) \<or> w = next_fresh p \<and> next_fresh p' = next_fresh p + 1"
    using assms(2) inv split by (auto simp: acquire_def Let_def split: if_splits dest: in_set_butlastD)
  show "pool_inv p'"
  proof (cases "free p = []")
    case True
    then show ?thesis
      using assms(2) inv by (auto simp: acquire_def pool_inv_def Let_def)
  next
    case False
    then have "set (free p) = insert w (set (butlast (free p)))" "w \<notin> set (butlast (free p))"
      using assms(2) split by (auto simp: acquire_def Let_def)
    then show ?thesis
      using False assms(2) inv
      by (auto simp: acquire_def pool_inv_def Let_def distinct_butlast dest: in_set_butlastD)
  qed
qed

lemma release_props:
  assumes "pool_inv p" and "w \<in> live p"
  obtains p' where "release w p = Some p'" and "pool_inv p'" and "live p' = live p - {w}"
    and "set (free p') = insert w (set (free p))" and "base p' = base p"
    and "next_fresh p' = next_fresh p"
proof -
  have "base p \<le> w" "w < next_fresh p"
    using assms by (auto simp: pool_inv_def)
  moreover have "pool_inv (p\<lparr>live := live p - {w}, free := free p @ [w]\<rparr>)"
    using assms by (auto simp: pool_inv_def)
  ultimately show thesis
    using assms(2) by (intro that [of "p\<lparr>live := live p - {w}, free := free p @ [w]\<rparr>"])
      (auto simp: release_def)
qed

lemma live_count_peak:
  assumes "pool_inv p"
  shows "live_count p + length (free p) = peak_allocated p"
proof -
  have "card (set (free p) \<union> live p) = card (set (free p)) + card (live p)"
  proof (rule card_Un_disjoint)
    show "finite (live p)"
      using assms by (metis finite_Un finite_atLeastLessThan pool_inv_def)
  qed (use assms in \<open>auto simp: pool_inv_def\<close>)
  then show ?thesis
    using assms by (simp add: pool_inv_def live_count_def peak_allocated_def distinct_card)
qed

end
