(* ===== verification/ToReversible.thy ===== *)
theory ToReversible
  imports RCircuit AncillaPool
begin

text \<open>
  The transform from a fused Boolar circuit to a reversible circuit
  (\<open>volar-ir-passes/src/to_reversible.rs\<close>): use counts, on-demand wire allocation with the
  in-place XOR, per-statement synthesis, compaction, the output phase, and the hardened
  embedding with its dirty-wire zero test. Only definitions; the theorems are in
  \<open>SynthCorrect\<close> and \<open>Hardened\<close>.
\<close>

datatype ToReversibleError =
    UnsupportedStmt nat
  | UseBeforeDef nat nat
  | StatefulStmtInHardenedMode nat

datatype ReversibleMode = Naive | Hardened

record VarWireMap =
  vw_map :: "nat list"
  vw_num_wires :: nat
  vw_y_base :: nat
  vw_workspace :: "nat list"
  vw_borrowed :: "nat list"
  vw_mode :: ReversibleMode

definition wire_of :: "VarWireMap \<Rightarrow> ir_var \<Rightarrow> nat option" where
  "wire_of m v = nth_opt (vw_map m) v"

section \<open>Watchlists\<close>

text \<open>
  A value watchlist is an ordered set of variables (its ascending list here); the
  translation fails on the first variable without a wire and sorts by wire, stably.
\<close>

record WireWatchEntry =
  we_wire :: nat
  we_var :: nat

fun watch_entries :: "nat list \<Rightarrow> VarWireMap \<Rightarrow> nat + WireWatchEntry list" where
  "watch_entries [] m = Inr []"
| "watch_entries (v # vs) m =
     (case wire_of m v of
        None \<Rightarrow> Inl v
      | Some w \<Rightarrow> rbind (watch_entries vs m) (\<lambda>es. Inr (\<lparr>we_wire = w, we_var = v\<rparr> # es)))"

definition translate_watchlist :: "nat list \<Rightarrow> VarWireMap \<Rightarrow> nat + WireWatchEntry list" where
  "translate_watchlist vars m = rbind (watch_entries vars m) (\<lambda>es. Inr (sort_key we_wire es))"

section \<open>Use counts\<close>

text \<open>The operands that count as uses; the remaining variants are rejected by synthesis.\<close>

fun counted_operands :: "bstmt \<Rightarrow> ir_var list" where
  "counted_operands (BXor a b) = [a, b]"
| "counted_operands (BAnd a b) = [a, b]"
| "counted_operands (BOr a b) = [a, b]"
| "counted_operands (BNot a) = [a]"
| "counted_operands (StorageRead s l addr) = addr"
| "counted_operands (StorageWrite s l src addr) = src # addr"
| "counted_operands (OracleBit name args b occ) = args"
| "counted_operands (ActionStoreBit name guard args fallback s l addr b occ) =
     guard # args @ fallback # addr"
| "counted_operands _ = []"

definition bump :: "nat list \<Rightarrow> ir_var \<Rightarrow> nat list option" where
  "bump uses v = (if v < length uses then Some (uses[v := uses ! v + 1]) else None)"

fun bump_all :: "nat list \<Rightarrow> ir_var list \<Rightarrow> nat list option" where
  "bump_all uses [] = Some uses"
| "bump_all uses (v # vs) = do { uses' \<leftarrow> bump uses v; bump_all uses' vs }"

definition counted_vars :: "'p BCircuit \<Rightarrow> ir_var list" where
  "counted_vars c = concat (map (\<lambda>n. counted_operands (kind n)) (bc_stmts c)) @ bc_outputs c"

definition use_counts :: "'p BCircuit \<Rightarrow> nat list option" where
  "use_counts c = bump_all (replicate (bc_params c + length (bc_stmts c)) 0) (counted_vars c)"

section \<open>Statement synthesis\<close>

record synth =
  map_vec :: "nat list"
  sgates :: "RGate list"
  scratch :: AncillaPool
  next_anc :: nat

type_synonym 'a synth_result = "(ToReversibleError, 'a) outcome"

text \<open>
  \<open>check_operand\<close> of the statement with result variable \<open>r = params + i\<close>. It lets the
  statement's own result pass; the wire lookup that follows then panics.
\<close>

definition check_operand :: "nat \<Rightarrow> nat \<Rightarrow> ir_var \<Rightarrow> unit synth_result" where
  "check_operand ps i v =
     (if v > ps + i then Err (UseBeforeDef (ps + i) v)
      else if v \<ge> ps + i \<and> v \<noteq> ps + i then Err (UseBeforeDef (ps + i) v)
      else Ok ())"

fun check_operand_list :: "nat \<Rightarrow> nat \<Rightarrow> ir_var list \<Rightarrow> unit synth_result" where
  "check_operand_list ps i [] = Ok ()"
| "check_operand_list ps i (v # vs) =
     obind (check_operand ps i v) (\<lambda>_. check_operand_list ps i vs)"

definition wire_at :: "synth \<Rightarrow> ir_var \<Rightarrow> nat synth_result" where
  "wire_at \<sigma> v = of_option (nth_opt (map_vec \<sigma>) v)"

definition wires_at :: "synth \<Rightarrow> ir_var list \<Rightarrow> nat list synth_result" where
  "wires_at \<sigma> vs = of_option (nths_opt (map_vec \<sigma>) vs)"

text \<open>Allocating the next ancilla for the result, with the gates that compute it.\<close>

definition emit_fresh :: "RGate list \<Rightarrow> synth \<Rightarrow> synth" where
  "emit_fresh gs \<sigma> =
     \<sigma>\<lparr>map_vec := map_vec \<sigma> @ [next_anc \<sigma>], sgates := sgates \<sigma> @ gs, next_anc := next_anc \<sigma> + 1\<rparr>"

definition emit_at :: "nat \<Rightarrow> RGate list \<Rightarrow> synth \<Rightarrow> synth" where
  "emit_at w gs \<sigma> = \<sigma>\<lparr>map_vec := map_vec \<sigma> @ [w], sgates := sgates \<sigma> @ gs\<rparr>"

definition xor_candidate ::
  "nat \<Rightarrow> nat list \<Rightarrow> ir_var \<Rightarrow> ir_var \<Rightarrow> nat \<Rightarrow> nat \<Rightarrow> ir_var option" where
  "xor_candidate ps uses a b wa wb =
     (let sa = (a \<ge> ps \<and> uses ! a = 1); sb = (b \<ge> ps \<and> uses ! b = 1)
      in if sa \<and> \<not> sb then Some a
         else if sb \<and> \<not> sa then Some b
         else if sa \<and> sb \<and> a \<noteq> b \<and> wa \<noteq> wb then Some a
         else None)"

definition synth_xor ::
  "nat \<Rightarrow> nat \<Rightarrow> nat list \<Rightarrow> ir_var \<Rightarrow> ir_var \<Rightarrow> synth \<Rightarrow> synth synth_result" where
  "synth_xor ps i uses a b \<sigma> =
     obind (check_operand ps i a) (\<lambda>_. obind (check_operand ps i b) (\<lambda>_.
     obind (wire_at \<sigma> a) (\<lambda>wa. obind (wire_at \<sigma> b) (\<lambda>wb.
       case xor_candidate ps uses a b wa wb of
         Some c \<Rightarrow>
           obind (wire_at \<sigma> c) (\<lambda>wc.
             let other_wire = (if c = a then wb else wa)
             in Ok (emit_at wc [Cnot other_wire wc] \<sigma>))
       | None \<Rightarrow>
           let wr = next_anc \<sigma> in Ok (emit_fresh [Cnot wa wr, Cnot wb wr] \<sigma>)))))"

definition synth_and :: "nat \<Rightarrow> nat \<Rightarrow> ir_var \<Rightarrow> ir_var \<Rightarrow> synth \<Rightarrow> synth synth_result" where
  "synth_and ps i a b \<sigma> =
     obind (check_operand ps i a) (\<lambda>_. obind (check_operand ps i b) (\<lambda>_.
     obind (wire_at \<sigma> a) (\<lambda>wa. obind (wire_at \<sigma> b) (\<lambda>wb.
       Ok (emit_fresh [Ccnot wa wb (next_anc \<sigma>)] \<sigma>)))))"

definition synth_not :: "nat \<Rightarrow> nat \<Rightarrow> ir_var \<Rightarrow> synth \<Rightarrow> synth synth_result" where
  "synth_not ps i a \<sigma> =
     obind (check_operand ps i a) (\<lambda>_. obind (wire_at \<sigma> a) (\<lambda>wa.
       let wr = next_anc \<sigma> in Ok (emit_fresh [Cnot wa wr, X wr] \<sigma>)))"

definition or_gates :: "bool \<Rightarrow> nat \<Rightarrow> nat \<Rightarrow> nat \<Rightarrow> nat \<Rightarrow> nat \<Rightarrow> RGate list" where
  "or_gates share_scratch wa wb na nb wr =
     [Cnot wa na, X na, Cnot wb nb, X nb, Ccnot na nb wr, X wr]
     @ (if share_scratch then [X nb, Cnot wb nb, X na, Cnot wa na] else [])"

definition synth_or ::
  "bool \<Rightarrow> nat \<Rightarrow> nat \<Rightarrow> ir_var \<Rightarrow> ir_var \<Rightarrow> synth \<Rightarrow> synth synth_result" where
  "synth_or share_scratch ps i a b \<sigma> =
     obind (check_operand ps i a) (\<lambda>_. obind (check_operand ps i b) (\<lambda>_.
       let wr = next_anc \<sigma>;
           (na, sc1) = acquire (scratch \<sigma>);
           (nb, sc2) = acquire sc1
       in obind (wire_at \<sigma> a) (\<lambda>wa. obind (wire_at \<sigma> b) (\<lambda>wb.
          obind (if share_scratch
                 then of_option (do { sc3 \<leftarrow> release na sc2; release nb sc3 })
                 else Ok sc2) (\<lambda>sc.
            Ok ((emit_fresh (or_gates share_scratch wa wb na nb wr) \<sigma>)\<lparr>scratch := sc\<rparr>))))))"

definition synth_storage_read ::
  "bool \<Rightarrow> nat \<Rightarrow> nat \<Rightarrow> storage_id \<Rightarrow> lane_id \<Rightarrow> ir_var list \<Rightarrow> synth \<Rightarrow> synth synth_result" where
  "synth_storage_read share_scratch ps i storage lane addr \<sigma> =
     obind (check_operand_list ps i addr) (\<lambda>_.
       let (s, sc1) = acquire (scratch \<sigma>)
       in obind (wires_at \<sigma> addr) (\<lambda>addr_wires.
          let wr = next_anc \<sigma>; swap = StorageSwap storage lane addr_wires s
          in obind (if share_scratch then of_option (release s sc1) else Ok sc1) (\<lambda>sc.
               Ok ((emit_fresh [swap, Cnot s wr, swap] \<sigma>)\<lparr>scratch := sc\<rparr>))))"

definition synth_storage_write ::
  "nat \<Rightarrow> nat \<Rightarrow> storage_id \<Rightarrow> lane_id \<Rightarrow> ir_var \<Rightarrow> ir_var list \<Rightarrow> synth \<Rightarrow> synth synth_result" where
  "synth_storage_write ps i storage lane src addr \<sigma> =
     obind (check_operand ps i src) (\<lambda>_. obind (check_operand_list ps i addr) (\<lambda>_.
       let (t, sc) = acquire (scratch \<sigma>)
       in obind (wire_at \<sigma> src) (\<lambda>ws. obind (wires_at \<sigma> addr) (\<lambda>addr_wires.
            Ok ((emit_fresh [Cnot ws t, StorageSwap storage lane addr_wires t] \<sigma>)\<lparr>scratch := sc\<rparr>)))))"

definition synth_oracle_bit ::
  "nat \<Rightarrow> nat \<Rightarrow> string \<Rightarrow> ir_var list \<Rightarrow> nat \<Rightarrow> nat \<Rightarrow> synth \<Rightarrow> synth synth_result" where
  "synth_oracle_bit ps i name args b occ \<sigma> =
     obind (check_operand_list ps i args) (\<lambda>_. obind (wires_at \<sigma> args) (\<lambda>arg_wires.
       Ok (emit_fresh [ExternalXor ROracle name arg_wires (next_anc \<sigma>) b occ] \<sigma>)))"

definition synth_action_store ::
  "nat \<Rightarrow> nat \<Rightarrow> string \<Rightarrow> ir_var \<Rightarrow> ir_var list \<Rightarrow> ir_var \<Rightarrow> storage_id \<Rightarrow> lane_id \<Rightarrow> ir_var list
   \<Rightarrow> nat \<Rightarrow> nat \<Rightarrow> synth \<Rightarrow> synth synth_result" where
  "synth_action_store ps i name guard args fallback storage lane addr b occ \<sigma> =
     obind (check_operand ps i guard) (\<lambda>_. obind (check_operand_list ps i args) (\<lambda>_.
     obind (check_operand ps i fallback) (\<lambda>_. obind (check_operand_list ps i addr) (\<lambda>_.
     obind (wire_at \<sigma> guard) (\<lambda>wg. obind (wires_at \<sigma> args) (\<lambda>wargs.
     obind (wire_at \<sigma> fallback) (\<lambda>wf. obind (wires_at \<sigma> addr) (\<lambda>waddr.
       Ok (emit_fresh [ExternalStorageXor name wg wargs wf storage lane waddr b occ] \<sigma>)))))))))"

fun synth_stmt ::
  "bool \<Rightarrow> nat \<Rightarrow> nat list \<Rightarrow> nat \<Rightarrow> bstmt \<Rightarrow> synth \<Rightarrow> synth synth_result" where
  "synth_stmt share ps uses i BZero \<sigma> = Ok (emit_fresh [] \<sigma>)"
| "synth_stmt share ps uses i BOne \<sigma> = Ok (emit_fresh [X (next_anc \<sigma>)] \<sigma>)"
| "synth_stmt share ps uses i (BXor a b) \<sigma> = synth_xor ps i uses a b \<sigma>"
| "synth_stmt share ps uses i (BAnd a b) \<sigma> = synth_and ps i a b \<sigma>"
| "synth_stmt share ps uses i (BNot a) \<sigma> = synth_not ps i a \<sigma>"
| "synth_stmt share ps uses i (BOr a b) \<sigma> = synth_or share ps i a b \<sigma>"
| "synth_stmt share ps uses i (StorageRead storage lane addr) \<sigma> =
     synth_storage_read share ps i storage lane addr \<sigma>"
| "synth_stmt share ps uses i (StorageWrite storage lane src addr) \<sigma> =
     synth_storage_write ps i storage lane src addr \<sigma>"
| "synth_stmt share ps uses i (OracleBit name args b occ) \<sigma> =
     synth_oracle_bit ps i name args b occ \<sigma>"
| "synth_stmt share ps uses i (RngBit name b occ) \<sigma> =
     Ok (emit_fresh [ExternalXor RRng name [] (next_anc \<sigma>) b occ] \<sigma>)"
| "synth_stmt share ps uses i (ActionStoreBit name guard args fallback storage lane addr b occ) \<sigma> =
     synth_action_store ps i name guard args fallback storage lane addr b occ \<sigma>"
| "synth_stmt share ps uses i _ \<sigma> = Err (UnsupportedStmt (ps + i))"

fun synth_stmts ::
  "bool \<Rightarrow> nat \<Rightarrow> nat list \<Rightarrow> nat \<Rightarrow> 'p node list \<Rightarrow> synth \<Rightarrow> synth synth_result" where
  "synth_stmts share ps uses i [] \<sigma> = Ok \<sigma>"
| "synth_stmts share ps uses i (n # ns) \<sigma> =
     obind (synth_stmt share ps uses i (kind n) \<sigma>) (\<lambda>\<sigma>'. synth_stmts share ps uses (Suc i) ns \<sigma>')"

section \<open>Compaction and the output phase\<close>

definition shift :: "nat \<Rightarrow> nat \<Rightarrow> nat \<Rightarrow> nat" where
  "shift y_base_prov d w = (if w \<ge> y_base_prov then w - d else w)"

fun rename_gate :: "(nat \<Rightarrow> nat) \<Rightarrow> RGate \<Rightarrow> RGate" where
  "rename_gate f (X w) = X (f w)"
| "rename_gate f (Cnot ctrl target) = Cnot (f ctrl) (f target)"
| "rename_gate f (Ccnot c1 c2 target) = Ccnot (f c1) (f c2) (f target)"
| "rename_gate f (XorLut2 c0 c1 target table) = XorLut2 (f c0) (f c1) (f target) table"
| "rename_gate f (StorageSwap s l addr target) = StorageSwap s l (map f addr) (f target)"
| "rename_gate f (ExternalXor k name args target b occ) =
     ExternalXor k name (map f args) (f target) b occ"
| "rename_gate f (ExternalStorageXor name guard args fallback s l addr b occ) =
     ExternalStorageXor name (f guard) (map f args) (f fallback) s l (map f addr) b occ"

fun output_gates :: "nat list \<Rightarrow> nat \<Rightarrow> nat \<Rightarrow> ir_var list \<Rightarrow> RGate list option" where
  "output_gates mv y_base k [] = Some []"
| "output_gates mv y_base k (out # outs) =
     do { w \<leftarrow> nth_opt mv out; gs \<leftarrow> output_gates mv y_base (Suc k) outs;
          Some (Cnot w (y_base + k) # gs) }"

definition synth_init :: "'p BCircuit \<Rightarrow> synth" where
  "synth_init c =
     \<lparr>map_vec = [0..<bc_params c], sgates = [],
      scratch = pool_new (bc_params c + length (bc_stmts c) + length (bc_outputs c)),
      next_anc = bc_params c\<rparr>"

text \<open>Everything after the statement loop: compaction, output CNOTs, the validated circuit.\<close>

definition synth_finish :: "'p BCircuit \<Rightarrow> synth \<Rightarrow> (RCircuit \<times> VarWireMap) synth_result" where
  "synth_finish c \<sigma> =
     (let y_base_prov = bc_params c + length (bc_stmts c);
          y_base = next_anc \<sigma>;
          d = y_base_prov - y_base;
          gs = (if d > 0 then map (rename_gate (shift y_base_prov d)) (sgates \<sigma>) else sgates \<sigma>);
          mv = (if d > 0 then map (shift y_base_prov d) (map_vec \<sigma>) else map_vec \<sigma>);
          total = y_base_prov + length (bc_outputs c) + peak_allocated (scratch \<sigma>) - d
      in obind (of_option (output_gates mv y_base 0 (bc_outputs c))) (\<lambda>outs.
         case RCircuit_new total (gs @ outs) of
           Inl _ \<Rightarrow> Panic
         | Inr circuit \<Rightarrow>
             Ok (circuit,
                 \<lparr>vw_map = mv, vw_num_wires = total, vw_y_base = y_base,
                  vw_workspace = [bc_params c..<y_base] @ [y_base + length (bc_outputs c)..<total],
                  vw_borrowed = [], vw_mode = Naive\<rparr>)))"

definition synthesize_naive ::
  "'p BCircuit \<Rightarrow> bool \<Rightarrow> (RCircuit \<times> VarWireMap) synth_result" where
  "synthesize_naive c share_scratch =
     obind (of_option (use_counts c)) (\<lambda>uses.
     obind (synth_stmts share_scratch (bc_params c) uses 0 (bc_stmts c) (synth_init c)) (\<lambda>\<sigma>.
       synth_finish c \<sigma>))"

section \<open>The hardened embedding\<close>

definition ladder_rung :: "nat list \<Rightarrow> nat list \<Rightarrow> nat \<Rightarrow> RGate" where
  "ladder_rung cs dirty i =
     (let (c1, c2) = (if i = 0 then (cs ! 0, cs ! 1) else (dirty ! (i - 1), cs ! (i + 1)))
      in Ccnot c1 c2 (dirty ! i))"

text \<open>\<open>None\<close> is the panic on an empty ladder or on controls too short for the rungs.\<close>

definition append_dirty_ladder ::
  "nat list \<Rightarrow> nat \<Rightarrow> nat list \<Rightarrow> bool \<Rightarrow> RGate list option" where
  "append_dirty_ladder cs t dirty include_first =
     (let first = (if include_first then 0 else 1)
      in if dirty = [] \<or> cs = [] \<or> (first < length dirty \<and> length cs \<le> length dirty) then None
         else Some (map (ladder_rung cs dirty) [first..<length dirty]
                @ [Ccnot (last dirty) (last cs) t]
                @ map (ladder_rung cs dirty) (rev [first..<length dirty])))"

definition append_mcx_with_dirty :: "nat list \<Rightarrow> nat \<Rightarrow> nat list \<Rightarrow> RGate list option" where
  "append_mcx_with_dirty cs t dirty =
     (case cs of
        [c] \<Rightarrow> Some [Cnot c t]
      | [c1, c2] \<Rightarrow> Some [Ccnot c1 c2 t]
      | _ \<Rightarrow>
         (if length cs < 2 \<or> length dirty < length cs - 2 then None
          else let ladder = take (length cs - 2) dirty
               in do { gs1 \<leftarrow> append_dirty_ladder cs t ladder True;
                       gs2 \<leftarrow> append_dirty_ladder cs t ladder False;
                       Some (gs1 @ gs2) }))"

definition append_zero_test :: "nat list \<Rightarrow> nat \<Rightarrow> nat list \<Rightarrow> RGate list option" where
  "append_zero_test cs t dirty =
     do { gs \<leftarrow> append_mcx_with_dirty cs t dirty; Some (map X cs @ gs @ map X cs) }"

fun controlled_outputs :: "nat list \<Rightarrow> nat \<Rightarrow> nat \<Rightarrow> nat \<Rightarrow> ir_var list \<Rightarrow> RGate list option" where
  "controlled_outputs mv selector y_base k [] = Some []"
| "controlled_outputs mv selector y_base k (out # outs) =
     do { w \<leftarrow> nth_opt mv out; gs \<leftarrow> controlled_outputs mv selector y_base (Suc k) outs;
          Some (Ccnot w selector (y_base + k) # gs) }"

definition harden ::
  "'p BCircuit \<Rightarrow> RCircuit \<Rightarrow> VarWireMap \<Rightarrow> (RCircuit \<times> VarWireMap) option" where
  "harden c circuit m =
     (let output_count = length (bc_outputs c);
          compute = take (length (gates circuit) - output_count) (gates circuit)
      in if vw_workspace m = [] then Some (circuit, m\<lparr>vw_mode := Hardened\<rparr>)
         else
           let borrowed_base = num_wires circuit;
               borrowed_count = max ((length (vw_workspace m) - 2) + 1) 1;
               borrowed = [borrowed_base..<borrowed_base + borrowed_count];
               selector = last borrowed
           in do { outs \<leftarrow> controlled_outputs (vw_map m) selector (vw_y_base m) 0 (bc_outputs c);
                   zero_test \<leftarrow> append_zero_test (vw_workspace m) selector (butlast borrowed);
                   let clean_copy = compute @ outs @ rev compute;
                   let n = borrowed_base + length borrowed;
                   case RCircuit_new n (clean_copy @ zero_test @ clean_copy @ zero_test) of
                     Inl _ \<Rightarrow> None
                   | Inr hardened \<Rightarrow>
                       Some (hardened, m\<lparr>vw_num_wires := n, vw_borrowed := borrowed,
                                         vw_mode := Hardened\<rparr>) })"

record ReversibleOptions =
  opt_mode :: ReversibleMode
  opt_share_scratch :: bool

fun is_stateful :: "bstmt \<Rightarrow> bool" where
  "is_stateful (StorageRead _ _ _) = True"
| "is_stateful (StorageWrite _ _ _ _) = True"
| "is_stateful (ActionStoreBit _ _ _ _ _ _ _ _ _) = True"
| "is_stateful _ = False"

fun find_stateful :: "nat \<Rightarrow> nat \<Rightarrow> 'p node list \<Rightarrow> nat option" where
  "find_stateful ps i [] = None"
| "find_stateful ps i (n # ns) =
     (if is_stateful (kind n) then Some (ps + i) else find_stateful ps (Suc i) ns)"

definition to_reversible_with_options ::
  "'p BCircuit \<Rightarrow> ReversibleOptions \<Rightarrow> (RCircuit \<times> VarWireMap) synth_result" where
  "to_reversible_with_options c opts =
     (case (if opt_mode opts = Hardened then find_stateful (bc_params c) 0 (bc_stmts c) else None) of
        Some v \<Rightarrow> Err (StatefulStmtInHardenedMode v)
      | None \<Rightarrow>
          obind (synthesize_naive c (opt_share_scratch opts)) (\<lambda>(circuit, m).
            case opt_mode opts of
              Naive \<Rightarrow> Ok (circuit, m)
            | Hardened \<Rightarrow> of_option (harden c circuit m)))"

definition to_reversible_with_mode ::
  "'p BCircuit \<Rightarrow> ReversibleMode \<Rightarrow> (RCircuit \<times> VarWireMap) synth_result" where
  "to_reversible_with_mode c mode =
     to_reversible_with_options c \<lparr>opt_mode = mode, opt_share_scratch = False\<rparr>"

definition to_reversible :: "'p BCircuit \<Rightarrow> (RCircuit \<times> VarWireMap) synth_result" where
  "to_reversible c = to_reversible_with_mode c Naive"

end
