(* ===== verification/SynthCorrect.thy ===== *)
theory SynthCorrect
  imports ToReversible
begin

text \<open>
  Correctness of the naive reversible synthesis: the structural invariant of the statement
  loop (wire map, allocator, validity of the emitted gates), its semantic invariant (every
  live value sits on its wire), and the transfer of both across compaction.
\<close>

section \<open>Use counts\<close>

lemma bump_all_Some:
  "\<forall>v \<in> set vs. v < length uses \<Longrightarrow>
   bump_all uses vs = Some (map (\<lambda>v. uses ! v + count_list vs v) [0..<length uses])"
proof (induction vs arbitrary: uses)
  case Nil
  then show ?case by (simp add: map_nth)
next
  case (Cons v vs)
  then have "bump_all (uses[v := uses ! v + 1]) vs =
      Some (map (\<lambda>w. uses[v := uses ! v + 1] ! w + count_list vs w) [0..<length uses])"
    by simp
  moreover have "map (\<lambda>w. uses[v := uses ! v + 1] ! w + count_list vs w) [0..<length uses]
      = map (\<lambda>w. uses ! w + count_list (v # vs) w) [0..<length uses]"
    by (auto simp: nth_list_update)
  ultimately show ?case using Cons.prems by (simp add: bump_def)
qed

lemma use_counts_Some:
  assumes "\<forall>v \<in> set (counted_vars c). v < bc_params c + length (bc_stmts c)"
  shows "use_counts c = Some (map (count_list (counted_vars c)) [0..<bc_params c + length (bc_stmts c)])"
  using assms by (simp add: use_counts_def bump_all_Some cong: map_cong)

text \<open>The variables still to be read from statement \<open>k\<close> on.\<close>

definition reads_from :: "'p BCircuit \<Rightarrow> nat \<Rightarrow> ir_var set" where
  "reads_from c k = (\<Union>n \<in> set (drop k (bc_stmts c)). set (counted_operands (kind n))) \<union> set (bc_outputs c)"

text \<open>
  The values that are on their wires before statement \<open>k\<close>: all but those with a single use
  that has passed, whose wire an XOR may have consumed.
\<close>

definition kept :: "'p BCircuit \<Rightarrow> nat \<Rightarrow> ir_var \<Rightarrow> bool" where
  "kept c k v \<longleftrightarrow> v < bc_params c \<or> count_list (counted_vars c) v \<noteq> 1 \<or> v \<in> reads_from c k"

lemma kept_mono: "kept c (Suc k) v \<Longrightarrow> kept c k v"
  by (auto simp: kept_def reads_from_def dest: set_drop_subset_set_drop [of k "Suc k", THEN subsetD, rotated])

lemma kept_operand:
  assumes "k < length (bc_stmts c)" and "v \<in> set (counted_operands (kind (bc_stmts c ! k)))"
  shows "kept c k v"
proof -
  have "bc_stmts c ! k \<in> set (drop k (bc_stmts c))"
    using assms(1) by (metis Cons_nth_drop_Suc list.set_intros(1))
  then show ?thesis using assms(2) by (auto simp: kept_def reads_from_def)
qed

lemma counted_vars_split:
  assumes "k < length (bc_stmts c)"
  shows "count_list (counted_vars c) v =
    count_list (concat (map (\<lambda>n. counted_operands (kind n)) (take k (bc_stmts c)))) v
    + count_list (counted_operands (kind (bc_stmts c ! k))) v
    + count_list (concat (map (\<lambda>n. counted_operands (kind n)) (drop (Suc k) (bc_stmts c)))) v
    + count_list (bc_outputs c) v"
proof -
  have "bc_stmts c = take k (bc_stmts c) @ bc_stmts c ! k # drop (Suc k) (bc_stmts c)"
    using assms by (simp add: Cons_nth_drop_Suc)
  then have "counted_vars c =
      concat (map (\<lambda>n. counted_operands (kind n)) (take k (bc_stmts c)))
      @ counted_operands (kind (bc_stmts c ! k))
      @ concat (map (\<lambda>n. counted_operands (kind n)) (drop (Suc k) (bc_stmts c))) @ bc_outputs c"
    unfolding counted_vars_def
    by (rule ssubst [where P = "\<lambda>ns. concat (map (\<lambda>n. counted_operands (kind n)) ns) @ _ = _"]) simp
  then show ?thesis by simp
qed

lemma single_use_not_kept:
  assumes "k < length (bc_stmts c)" and "v \<in> set (counted_operands (kind (bc_stmts c ! k)))"
    and "bc_params c \<le> v" and "count_list (counted_vars c) v = 1"
  shows "\<not> kept c (Suc k) v" and "count_list (counted_operands (kind (bc_stmts c ! k))) v = 1"
proof -
  let ?ops = "\<lambda>ns. concat (map (\<lambda>n. counted_operands (kind n)) ns)"
  have "count_list (counted_operands (kind (bc_stmts c ! k))) v \<noteq> 0"
    using assms(2) by (simp add: count_list_0_iff)
  with counted_vars_split [OF assms(1), of v] assms(4)
  have zero: "count_list (?ops (drop (Suc k) (bc_stmts c))) v = 0" "count_list (bc_outputs c) v = 0"
    and one: "count_list (counted_operands (kind (bc_stmts c ! k))) v = 1"
    by auto
  from zero have "v \<notin> reads_from c (Suc k)"
    by (auto simp: reads_from_def count_list_0_iff)
  with assms(3,4) show "\<not> kept c (Suc k) v" by (simp add: kept_def)
  show "count_list (counted_operands (kind (bc_stmts c ! k))) v = 1" by (rule one)
qed

section \<open>The structural invariant\<close>

definition gate_wf :: "RGate \<Rightarrow> bool" where
  "gate_wf g \<longleftrightarrow> (\<forall>t. gate_target g = Some t \<longrightarrow> t \<notin> set (gate_controls g)) \<and> lut_ok g"

lemma gate_ok_wf: "gate_ok n g \<longleftrightarrow> (\<forall>w \<in> touches g. w < n) \<and> gate_wf g"
  by (auto simp: gate_ok_def gate_wf_def)

definition scratch_base :: "'p BCircuit \<Rightarrow> nat" where
  "scratch_base c = bc_params c + length (bc_stmts c) + length (bc_outputs c)"

definition wire_dom :: "'p BCircuit \<Rightarrow> synth \<Rightarrow> nat set" where
  "wire_dom c \<sigma> = {..<next_anc \<sigma>} \<union> {scratch_base c..<next_fresh (scratch \<sigma>)}"

definition gates_shaped :: "'p BCircuit \<Rightarrow> synth \<Rightarrow> RGate list \<Rightarrow> bool" where
  "gates_shaped c \<sigma> gs \<longleftrightarrow> (\<forall>g \<in> set gs. gate_wf g \<and> touches g \<subseteq> wire_dom c \<sigma>
     \<and> (\<forall>t. gate_target g = Some t \<longrightarrow> bc_params c \<le> t))"

definition shape :: "'p BCircuit \<Rightarrow> nat \<Rightarrow> synth \<Rightarrow> bool" where
  "shape c i \<sigma> \<longleftrightarrow>
     length (map_vec \<sigma>) = bc_params c + i
   \<and> (\<forall>v < bc_params c. map_vec \<sigma> ! v = v)
   \<and> (\<forall>v. bc_params c \<le> v \<longrightarrow> v < bc_params c + i \<longrightarrow>
        bc_params c \<le> map_vec \<sigma> ! v \<and> map_vec \<sigma> ! v < next_anc \<sigma>)
   \<and> bc_params c \<le> next_anc \<sigma> \<and> next_anc \<sigma> \<le> bc_params c + i
   \<and> (\<forall>v < bc_params c + i. \<forall>v' < bc_params c + i.
        kept c i v \<longrightarrow> kept c i v' \<longrightarrow> v \<noteq> v' \<longrightarrow> map_vec \<sigma> ! v \<noteq> map_vec \<sigma> ! v')
   \<and> pool_inv (scratch \<sigma>) \<and> base (scratch \<sigma>) = scratch_base c
   \<and> next_fresh (scratch \<sigma>) \<le> scratch_base c + 2 * i
   \<and> gates_shaped c \<sigma> (sgates \<sigma>)"

lemma shapeD:
  assumes "shape c i \<sigma>"
  shows "length (map_vec \<sigma>) = bc_params c + i"
    and "v < bc_params c \<Longrightarrow> map_vec \<sigma> ! v = v"
    and "bc_params c \<le> v \<Longrightarrow> v < bc_params c + i \<Longrightarrow> bc_params c \<le> map_vec \<sigma> ! v"
    and "v < bc_params c + i \<Longrightarrow> map_vec \<sigma> ! v < next_anc \<sigma>"
    and "bc_params c \<le> next_anc \<sigma>" and "next_anc \<sigma> \<le> bc_params c + i"
    and "v < bc_params c + i \<Longrightarrow> v' < bc_params c + i \<Longrightarrow> kept c i v \<Longrightarrow> kept c i v' \<Longrightarrow>
         v \<noteq> v' \<Longrightarrow> map_vec \<sigma> ! v \<noteq> map_vec \<sigma> ! v'"
    and "pool_inv (scratch \<sigma>)" and "base (scratch \<sigma>) = scratch_base c"
    and "next_fresh (scratch \<sigma>) \<le> scratch_base c + 2 * i"
    and "gates_shaped c \<sigma> (sgates \<sigma>)"
proof -
  note inv = assms [unfolded shape_def]
  show "v < bc_params c + i \<Longrightarrow> map_vec \<sigma> ! v < next_anc \<sigma>"
    using inv by (cases "v < bc_params c") auto
qed (use assms in \<open>auto simp: shape_def\<close>)

lemma shape_init: "shape c 0 (synth_init c)"
  by (auto simp: shape_def synth_init_def scratch_base_def pool_new_def gates_shaped_def pool_inv_def)

lemma gates_shaped_mono:
  assumes "gates_shaped c \<sigma> gs" and "next_anc \<sigma> \<le> next_anc \<sigma>'"
    and "next_fresh (scratch \<sigma>) \<le> next_fresh (scratch \<sigma>')"
  shows "gates_shaped c \<sigma>' gs"
proof -
  have "wire_dom c \<sigma> \<subseteq> wire_dom c \<sigma>'"
    using assms(2,3) by (auto simp: wire_dom_def)
  then show ?thesis using assms(1) by (auto simp: gates_shaped_def)
qed

lemma shape_fresh:
  assumes inv: "shape c i \<sigma>" and i: "i < length (bc_stmts c)"
    and pool: "pool_inv sc" "base sc = scratch_base c"
      "next_fresh (scratch \<sigma>) \<le> next_fresh sc" "next_fresh sc \<le> next_fresh (scratch \<sigma>) + 2"
    and gs: "gates_shaped c ((emit_fresh gs \<sigma>)\<lparr>scratch := sc\<rparr>) gs"
  shows "shape c (Suc i) ((emit_fresh gs \<sigma>)\<lparr>scratch := sc\<rparr>)" (is "shape c _ ?\<sigma>'")
proof -
  note D = shapeD [OF inv]
  have mv: "map_vec ?\<sigma>' = map_vec \<sigma> @ [next_anc \<sigma>]" "next_anc ?\<sigma>' = Suc (next_anc \<sigma>)"
    "scratch ?\<sigma>' = sc" "sgates ?\<sigma>' = sgates \<sigma> @ gs"
    by (simp_all add: emit_fresh_def)
  have "gates_shaped c ?\<sigma>' (sgates \<sigma>)"
    using D(11) by (rule gates_shaped_mono) (use pool mv in auto)
  with gs have gates: "gates_shaped c ?\<sigma>' (sgates ?\<sigma>')"
    unfolding mv by (auto simp: gates_shaped_def)
  have dist: "map_vec ?\<sigma>' ! v \<noteq> map_vec ?\<sigma>' ! v'"
    if "v < bc_params c + Suc i" "v' < bc_params c + Suc i" "kept c (Suc i) v" "kept c (Suc i) v'" "v \<noteq> v'"
    for v v'
    using that D(1) D(4) [of v] D(4) [of v'] D(7) [of v v'] kept_mono [of c i]
    by (auto simp: mv nth_append less_Suc_eq)
  show ?thesis
    unfolding shape_def
    using D(1-6,10) pool gates dist by (auto simp: mv nth_append less_Suc_eq)
qed

lemma shape_consume:
  assumes inv: "shape c i \<sigma>" and i: "i < length (bc_stmts c)"
    and v: "v \<in> set (counted_operands (kind (bc_stmts c ! i)))" "bc_params c \<le> v"
      "v < bc_params c + i" "count_list (counted_vars c) v = 1"
    and u: "u \<in> set (counted_operands (kind (bc_stmts c ! i)))" "u < bc_params c + i" "u \<noteq> v"
  shows "shape c (Suc i) (emit_at (map_vec \<sigma> ! v) [Cnot (map_vec \<sigma> ! u) (map_vec \<sigma> ! v)] \<sigma>)"
    (is "shape c _ ?\<sigma>'")
proof -
  note D = shapeD [OF inv]
  have mv: "map_vec ?\<sigma>' = map_vec \<sigma> @ [map_vec \<sigma> ! v]" "next_anc ?\<sigma>' = next_anc \<sigma>"
    "scratch ?\<sigma>' = scratch \<sigma>"
    "sgates ?\<sigma>' = sgates \<sigma> @ [Cnot (map_vec \<sigma> ! u) (map_vec \<sigma> ! v)]"
    by (simp_all add: emit_at_def)
  have dom: "wire_dom c ?\<sigma>' = wire_dom c \<sigma>" by (simp add: wire_dom_def mv)
  have kv: "kept c i v" and ku: "kept c i u" using kept_operand [OF i] v u by auto
  have nk: "\<not> kept c (Suc i) v" by (rule single_use_not_kept(1) [OF i v(1,2,4)])
  have ne: "map_vec \<sigma> ! u \<noteq> map_vec \<sigma> ! v" using D(7) [OF u(2) v(3) ku kv u(3)] .
  have gates: "gates_shaped c ?\<sigma>' (sgates ?\<sigma>')"
    using D(11) D(3) [OF v(2,3)] D(4) [OF v(3)] D(4) [OF u(2)] ne
    by (auto simp: gates_shaped_def mv dom gate_wf_def touches_def wire_dom_def)
  have dist: "map_vec ?\<sigma>' ! w \<noteq> map_vec ?\<sigma>' ! w'"
    if "w < bc_params c + Suc i" "w' < bc_params c + Suc i" "kept c (Suc i) w" "kept c (Suc i) w'" "w \<noteq> w'"
    for w w'
  proof -
    have kept_i: "kept c i w" "kept c i w'" "w \<noteq> v" "w' \<noteq> v"
      using that nk kept_mono by auto
    show ?thesis
      using that D(1) D(7) [of w w'] D(7) [of w v] D(7) [of v w'] kept_i kv v(3)
      by (auto simp: mv nth_append less_Suc_eq)
  qed
  show ?thesis
    unfolding shape_def
    using D(1-6,8-10) D(3) [OF v(2,3)] D(4) [OF v(3)] gates dist
    by (auto simp: mv nth_append less_Suc_eq)
qed

section \<open>The semantic invariant\<close>

text \<open>
  \<open>sem c i \<sigma> vs stb s\<close>: after the first \<open>i\<close> statements gave the values \<open>vs\<close> and the storage
  \<open>stb\<close>, the machine state \<open>s\<close> holds every kept value on its wire, the wires still to be
  allocated and the restored scratch wires are clean, and the storages agree.
\<close>

definition prov_wires :: "'p BCircuit \<Rightarrow> nat" where
  "prov_wires c = scratch_base c + 2 * length (bc_stmts c)"

definition sem :: "'p BCircuit \<Rightarrow> nat \<Rightarrow> synth \<Rightarrow> bool list \<Rightarrow> bstorage \<Rightarrow> rstate \<Rightarrow> bool" where
  "sem c i \<sigma> vs stb s \<longleftrightarrow>
     length vs = bc_params c + i \<and> length (fst s) = prov_wires c
   \<and> (\<forall>v < bc_params c + i. kept c i v \<longrightarrow> fst s ! (map_vec \<sigma> ! v) = vs ! v)
   \<and> (\<forall>w. next_anc \<sigma> \<le> w \<longrightarrow> w < bc_params c + length (bc_stmts c) \<longrightarrow> \<not> fst s ! w)
   \<and> (\<forall>w \<in> set (free (scratch \<sigma>)). \<not> fst s ! w)
   \<and> (\<forall>w. next_fresh (scratch \<sigma>) \<le> w \<longrightarrow> w < prov_wires c \<longrightarrow> \<not> fst s ! w)
   \<and> storage_eq (snd s) stb"

text \<open>What one synthesis step must establish: the structure, and the step's semantics.\<close>

definition step_ok ::
  "registry \<Rightarrow> 'p BCircuit \<Rightarrow> nat \<Rightarrow> synth \<Rightarrow> (bool list \<Rightarrow> bstorage \<Rightarrow> bool \<times> bstorage) \<Rightarrow> synth \<Rightarrow> bool" where
  "step_ok R c i \<sigma> upd \<sigma>' \<longleftrightarrow> shape c (Suc i) \<sigma>' \<and>
     (\<exists>gs. sgates \<sigma>' = sgates \<sigma> @ gs \<and>
       (\<forall>vs stb ws st. sem c i \<sigma> vs stb (ws, st) \<longrightarrow>
          sem c (Suc i) \<sigma>' (vs @ [fst (upd vs stb)]) (snd (upd vs stb)) (run R gs (ws, st))))"

lemma step_fresh:
  assumes inv: "shape c i \<sigma>" and i: "i < length (bc_stmts c)"
    and pool: "pool_inv sc" "base sc = scratch_base c"
      "next_fresh (scratch \<sigma>) \<le> next_fresh sc" "next_fresh sc \<le> next_fresh (scratch \<sigma>) + 2"
    and gs: "gates_shaped c ((emit_fresh gs \<sigma>)\<lparr>scratch := sc\<rparr>) gs"
    and sem: "\<And>vs stb ws st ws' st'. sem c i \<sigma> vs stb (ws, st) \<Longrightarrow> run R gs (ws, st) = (ws', st') \<Longrightarrow>
        (\<forall>w < scratch_base c. w \<noteq> next_anc \<sigma> \<longrightarrow> ws' ! w = ws ! w)
        \<and> ws' ! next_anc \<sigma> = fst (upd vs stb)
        \<and> (\<forall>w \<in> set (free sc). \<not> ws' ! w)
        \<and> (\<forall>w. next_fresh sc \<le> w \<longrightarrow> w < prov_wires c \<longrightarrow> \<not> ws' ! w)
        \<and> storage_eq st' (snd (upd vs stb))"
  shows "step_ok R c i \<sigma> upd ((emit_fresh gs \<sigma>)\<lparr>scratch := sc\<rparr>)" (is "step_ok R c i \<sigma> upd ?\<sigma>'")
proof -
  note D = shapeD [OF inv]
  have mv: "map_vec ?\<sigma>' = map_vec \<sigma> @ [next_anc \<sigma>]" "next_anc ?\<sigma>' = Suc (next_anc \<sigma>)"
    "scratch ?\<sigma>' = sc" "sgates ?\<sigma>' = sgates \<sigma> @ gs"
    by (simp_all add: emit_fresh_def)
  have "sem c (Suc i) ?\<sigma>' (vs @ [fst (upd vs stb)]) (snd (upd vs stb)) (run R gs (ws, st))"
    if s: "sem c i \<sigma> vs stb (ws, st)" for vs stb ws st
  proof -
    obtain ws' st' where r: "run R gs (ws, st) = (ws', st')" by fastforce
    have len: "length vs = bc_params c + i" "length ws = prov_wires c"
      using s by (simp_all add: sem_def)
    have len': "length ws' = length ws" using length_run [of R gs "(ws, st)"] r by simp
    have old: "ws ! (map_vec \<sigma> ! v) = vs ! v" if "v < bc_params c + i" "kept c i v" for v
      using s that by (simp add: sem_def)
    have clean: "\<not> ws ! w" if "next_anc \<sigma> \<le> w" "w < bc_params c + length (bc_stmts c)" for w
      using s that by (simp add: sem_def)
    note new = sem [OF s r]
    have lt: "map_vec \<sigma> ! v < scratch_base c" "map_vec \<sigma> ! v \<noteq> next_anc \<sigma>" if "v < bc_params c + i" for v
      using D(4) [OF that] D(6) i by (simp_all add: scratch_base_def)
    have vals: "ws' ! (map_vec ?\<sigma>' ! v) = (vs @ [fst (upd vs stb)]) ! v"
      if "v < bc_params c + Suc i" "kept c (Suc i) v" for v
      using that new old [of v] lt [of v] kept_mono [of c i v]
      by (auto simp: mv nth_append D(1) len less_Suc_eq)
    have "\<not> ws' ! w" if "Suc (next_anc \<sigma>) \<le> w" "w < bc_params c + length (bc_stmts c)" for w
      using new clean [of w] that by (simp add: scratch_base_def)
    with vals new len len' show ?thesis
      by (simp add: sem_def mv r)
  qed
  then show ?thesis
    using shape_fresh [OF inv i pool gs] mv(4) by (auto simp: step_ok_def)
qed

lemma step_consume:
  assumes inv: "shape c i \<sigma>" and i: "i < length (bc_stmts c)"
    and v: "v \<in> set (counted_operands (kind (bc_stmts c ! i)))" "bc_params c \<le> v"
      "v < bc_params c + i" "count_list (counted_vars c) v = 1"
    and u: "u \<in> set (counted_operands (kind (bc_stmts c ! i)))" "u < bc_params c + i" "u \<noteq> v"
  shows "step_ok R c i \<sigma> (\<lambda>vs stb. (vs ! v \<noteq> vs ! u, stb))
    (emit_at (map_vec \<sigma> ! v) [Cnot (map_vec \<sigma> ! u) (map_vec \<sigma> ! v)] \<sigma>)"
    (is "step_ok R c i \<sigma> ?upd ?\<sigma>'")
proof -
  note D = shapeD [OF inv]
  let ?t = "map_vec \<sigma> ! v" and ?u = "map_vec \<sigma> ! u"
  have mv: "map_vec ?\<sigma>' = map_vec \<sigma> @ [?t]" "next_anc ?\<sigma>' = next_anc \<sigma>"
    "scratch ?\<sigma>' = scratch \<sigma>" "sgates ?\<sigma>' = sgates \<sigma> @ [Cnot ?u ?t]"
    by (simp_all add: emit_at_def)
  have kv: "kept c i v" and ku: "kept c i u" using kept_operand [OF i] v u by auto
  have nk: "\<not> kept c (Suc i) v" by (rule single_use_not_kept(1) [OF i v(1,2,4)])
  have t: "?t < next_anc \<sigma>" "?t < scratch_base c" "?t < bc_params c + length (bc_stmts c)"
    using D(4) [OF v(3)] D(6) i by (auto simp: scratch_base_def)
  have free: "scratch_base c \<le> w" if "w \<in> set (free (scratch \<sigma>))" for w
    using D(8,9) that by (auto simp: pool_inv_def)
  have nf: "scratch_base c \<le> next_fresh (scratch \<sigma>)"
    using D(8,9) by (auto simp: pool_inv_def)
  have "sem c (Suc i) ?\<sigma>' (vs @ [fst (?upd vs stb)]) (snd (?upd vs stb)) (run R [Cnot ?u ?t] (ws, st))"
    if s: "sem c i \<sigma> vs stb (ws, st)" for vs stb ws st
  proof -
    have len: "length vs = bc_params c + i" "length ws = prov_wires c"
      using s by (simp_all add: sem_def)
    have old: "ws ! (map_vec \<sigma> ! w) = vs ! w" if "w < bc_params c + i" "kept c i w" for w
      using s that by (simp add: sem_def)
    have tl: "?t < length ws" using t len by (simp add: prov_wires_def)
    have vals: "ws[?t := (ws ! ?t \<noteq> ws ! ?u)] ! (map_vec ?\<sigma>' ! w) = (vs @ [vs ! v \<noteq> vs ! u]) ! w"
      if "w < bc_params c + Suc i" "kept c (Suc i) w" for w
    proof (cases "w = bc_params c + i")
      case True
      then show ?thesis using old [OF v(3) kv] old [OF u(2) ku] tl by (simp add: mv nth_append D(1) len)
    next
      case False
      then have w: "w < bc_params c + i" "kept c i w" "w \<noteq> v"
        using that nk kept_mono by auto
      then have "map_vec \<sigma> ! w \<noteq> ?t" using D(7) [of w v] v(3) kv by blast
      then show ?thesis using w old [of w] by (simp add: mv nth_append D(1) len)
    qed
    have frame: "ws[?t := b] ! w = ws ! w" if "w \<in> set (free (scratch \<sigma>)) \<or> next_anc \<sigma> \<le> w
        \<and> w < bc_params c + length (bc_stmts c) \<or> next_fresh (scratch \<sigma>) \<le> w" for w b
      using that t free nf by (intro nth_list_update_neq) force
    have r: "run R [Cnot ?u ?t] (ws, st) = (ws[?t := (ws ! ?t \<noteq> ws ! ?u)], st)" by simp
    show ?thesis
      unfolding sem_def r fst_conv snd_conv mv
    proof (intro conjI allI ballI impI)
      show "length (vs @ [vs ! v \<noteq> vs ! u]) = bc_params c + Suc i" by (simp add: len)
      show "length (ws[?t := (ws ! ?t \<noteq> ws ! ?u)]) = prov_wires c" by (simp add: len)
    qed (use s vals frame in \<open>auto simp: sem_def mv\<close>)
  qed
  then show ?thesis
    unfolding step_ok_def using shape_consume [OF inv i v u] mv(4) by blast
qed

section \<open>The statement arms\<close>

lemma semD:
  assumes "sem c i \<sigma> vs stb (ws, st)"
  shows "length vs = bc_params c + i" and "length ws = prov_wires c"
    and "v < bc_params c + i \<Longrightarrow> kept c i v \<Longrightarrow> ws ! (map_vec \<sigma> ! v) = vs ! v"
    and "next_anc \<sigma> \<le> w \<Longrightarrow> w < bc_params c + length (bc_stmts c) \<Longrightarrow> \<not> ws ! w"
    and "w \<in> set (free (scratch \<sigma>)) \<Longrightarrow> \<not> ws ! w"
    and "next_fresh (scratch \<sigma>) \<le> w \<Longrightarrow> w < prov_wires c \<Longrightarrow> \<not> ws ! w"
    and "storage_eq st stb"
  using assms by (auto simp: sem_def)

text \<open>Arms that write the result wire only.\<close>

lemma step_plain:
  assumes inv: "shape c i \<sigma>" and i: "i < length (bc_stmts c)"
    and gs: "\<forall>g \<in> set gs. gate_wf g \<and> gate_target g = Some (next_anc \<sigma>)
        \<and> set (gate_controls g) \<subseteq> {..<next_anc \<sigma>} \<and> \<not> is_storage_gate g"
    and val: "\<And>vs stb ws st. sem c i \<sigma> vs stb (ws, st) \<Longrightarrow> \<not> ws ! next_anc \<sigma> \<Longrightarrow>
        next_anc \<sigma> < length ws \<Longrightarrow> fst (run R gs (ws, st)) ! next_anc \<sigma> = f vs"
  shows "step_ok R c i \<sigma> (\<lambda>vs stb. (f vs, stb)) (emit_fresh gs \<sigma>)"
proof -
  note D = shapeD [OF inv]
  have same: "(emit_fresh gs \<sigma>)\<lparr>scratch := scratch \<sigma>\<rparr> = emit_fresh gs \<sigma>"
    by (simp add: emit_fresh_def)
  have r: "next_anc \<sigma> < scratch_base c" "next_anc \<sigma> < bc_params c + length (bc_stmts c)"
    using D(6) i by (simp_all add: scratch_base_def)
  have free: "scratch_base c \<le> w" if "w \<in> set (free (scratch \<sigma>)) \<or> next_fresh (scratch \<sigma>) \<le> w" for w
    using D(8,9) that by (auto simp: pool_inv_def)
  have shaped: "gates_shaped c ((emit_fresh gs \<sigma>)\<lparr>scratch := scratch \<sigma>\<rparr>) gs"
    unfolding gates_shaped_def
  proof (intro ballI conjI allI impI)
    fix g assume g: "g \<in> set gs"
    then show "touches g \<subseteq> wire_dom c ((emit_fresh gs \<sigma>)\<lparr>scratch := scratch \<sigma>\<rparr>)"
      using gs by (force simp: touches_def wire_dom_def emit_fresh_def)
    show "bc_params c \<le> t" if "gate_target g = Some t" for t using gs g that D(5) by auto
  qed (use gs in auto)
  have "step_ok R c i \<sigma> (\<lambda>vs stb. (f vs, stb)) ((emit_fresh gs \<sigma>)\<lparr>scratch := scratch \<sigma>\<rparr>)"
  proof (rule step_fresh [OF inv i D(8,9) le_refl _ shaped])
    fix vs stb ws st ws' st'
    assume s: "sem c i \<sigma> vs stb (ws, st)" and run: "run R gs (ws, st) = (ws', st')"
    note S = semD [OF s]
    have st: "st' = st" using run_storage_free [of gs R "(ws, st)"] gs run by auto
    have frame: "ws' ! w = ws ! w" if "w \<noteq> next_anc \<sigma>" for w
      using run_nontarget [of gs w R "(ws, st)"] gs run that by auto
    have "ws' ! next_anc \<sigma> = f vs"
      using val [OF s] S(4) [of "next_anc \<sigma>"] r S(2) run by (simp add: prov_wires_def)
    then show "(\<forall>w < scratch_base c. w \<noteq> next_anc \<sigma> \<longrightarrow> ws' ! w = ws ! w)
        \<and> ws' ! next_anc \<sigma> = fst (f vs, stb)
        \<and> (\<forall>w \<in> set (free (scratch \<sigma>)). \<not> ws' ! w)
        \<and> (\<forall>w. next_fresh (scratch \<sigma>) \<le> w \<longrightarrow> w < prov_wires c \<longrightarrow> \<not> ws' ! w)
        \<and> storage_eq st' (snd (f vs, stb))"
      using frame S(5-7) free r by (metis fst_conv leD snd_conv st)
  qed simp
  then show ?thesis by (simp only: same)
qed

lemma check_operand_Ok: "v < ps + i \<Longrightarrow> check_operand ps i v = Ok ()"
  by (simp add: check_operand_def)

lemma check_operand_list_Ok: "\<forall>v \<in> set vs. v < ps + i \<Longrightarrow> check_operand_list ps i vs = Ok ()"
  by (induction vs) (auto simp: check_operand_Ok)

lemma wire_at_Ok: "v < length (map_vec \<sigma>) \<Longrightarrow> wire_at \<sigma> v = Ok (map_vec \<sigma> ! v)"
  by (simp add: wire_at_def)

lemma wires_at_Ok:
  "\<forall>v \<in> set vs. v < length (map_vec \<sigma>) \<Longrightarrow> wires_at \<sigma> vs = Ok (map ((!) (map_vec \<sigma>)) vs)"
  by (simp add: wires_at_def)

lemmas operand_simps = check_operand_Ok check_operand_list_Ok wire_at_Ok wires_at_Ok

lemma synth_const_ok:
  assumes "shape c i \<sigma>" and "i < length (bc_stmts c)"
  shows "step_ok R c i \<sigma> (\<lambda>vs stb. (False, stb)) (emit_fresh [] \<sigma>)"
    and "step_ok R c i \<sigma> (\<lambda>vs stb. (True, stb)) (emit_fresh [X (next_anc \<sigma>)] \<sigma>)"
    and "step_ok R c i \<sigma> (\<lambda>vs stb. (rng_bit_fn R name b occ, stb))
       (emit_fresh [ExternalXor RRng name [] (next_anc \<sigma>) b occ] \<sigma>)"
  by (rule step_plain [OF assms]; auto simp: gate_wf_def)+

lemma synth_and_ok:
  assumes inv: "shape c i \<sigma>" and i: "i < length (bc_stmts c)"
    and ops: "a < bc_params c + i" "b < bc_params c + i" "kept c i a" "kept c i b"
  shows "\<exists>\<sigma>'. synth_and (bc_params c) i a b \<sigma> = Ok \<sigma>'
    \<and> step_ok R c i \<sigma> (\<lambda>vs stb. (vs ! a \<and> vs ! b, stb)) \<sigma>'"
proof -
  note D = shapeD [OF inv]
  have "step_ok R c i \<sigma> (\<lambda>vs stb. (vs ! a \<and> vs ! b, stb))
      (emit_fresh [Ccnot (map_vec \<sigma> ! a) (map_vec \<sigma> ! b) (next_anc \<sigma>)] \<sigma>)"
    using D(4) [OF ops(1)] D(4) [OF ops(2)] ops
    by (intro step_plain [OF inv i]) (auto simp: gate_wf_def semD(3))
  then show ?thesis using ops by (simp add: synth_and_def operand_simps D(1))
qed

lemma synth_not_ok:
  assumes inv: "shape c i \<sigma>" and i: "i < length (bc_stmts c)"
    and ops: "a < bc_params c + i" "kept c i a"
  shows "\<exists>\<sigma>'. synth_not (bc_params c) i a \<sigma> = Ok \<sigma>'
    \<and> step_ok R c i \<sigma> (\<lambda>vs stb. (\<not> vs ! a, stb)) \<sigma>'"
proof -
  note D = shapeD [OF inv]
  have "step_ok R c i \<sigma> (\<lambda>vs stb. (\<not> vs ! a, stb))
      (emit_fresh [Cnot (map_vec \<sigma> ! a) (next_anc \<sigma>), X (next_anc \<sigma>)] \<sigma>)"
    using D(4) [OF ops(1)] ops
    by (intro step_plain [OF inv i]) (auto simp: gate_wf_def semD(3))
  then show ?thesis using ops by (simp add: synth_not_def operand_simps D(1) Let_def)
qed

lemma synth_oracle_bit_ok:
  assumes inv: "shape c i \<sigma>" and i: "i < length (bc_stmts c)"
    and ops: "\<forall>v \<in> set args. v < bc_params c + i \<and> kept c i v"
  shows "\<exists>\<sigma>'. synth_oracle_bit (bc_params c) i name args b occ \<sigma> = Ok \<sigma>'
    \<and> step_ok R c i \<sigma> (\<lambda>vs stb. (oracle_bit_fn R name (map ((!) vs) args) b occ, stb)) \<sigma>'"
proof -
  note D = shapeD [OF inv]
  have eq: "map ((!) ws) (map ((!) (map_vec \<sigma>)) args) = map ((!) vs) args"
    if "sem c i \<sigma> vs stb (ws, st)" for vs stb ws st
    using ops semD(3) [OF that] by simp
  have "step_ok R c i \<sigma> (\<lambda>vs stb. (oracle_bit_fn R name (map ((!) vs) args) b occ, stb))
      (emit_fresh [ExternalXor ROracle name (map ((!) (map_vec \<sigma>)) args) (next_anc \<sigma>) b occ] \<sigma>)"
  proof (rule step_plain [OF inv i])
    show "\<forall>g \<in> set [ExternalXor ROracle name (map ((!) (map_vec \<sigma>)) args) (next_anc \<sigma>) b occ].
        gate_wf g \<and> gate_target g = Some (next_anc \<sigma>)
        \<and> set (gate_controls g) \<subseteq> {..<next_anc \<sigma>} \<and> \<not> is_storage_gate g"
      using D(4) ops by (fastforce simp: gate_wf_def)
  next
    fix vs stb ws st assume "sem c i \<sigma> vs stb (ws, st)" "\<not> ws ! next_anc \<sigma>" "next_anc \<sigma> < length ws"
    then show "fst (run R [ExternalXor ROracle name (map ((!) (map_vec \<sigma>)) args) (next_anc \<sigma>) b occ]
        (ws, st)) ! next_anc \<sigma> = oracle_bit_fn R name (map ((!) vs) args) b occ"
      using eq by (simp del: map_map)
  qed
  then show ?thesis using ops by (simp add: synth_oracle_bit_def operand_simps D(1))
qed

lemma synth_xor_ok:
  assumes inv: "shape c i \<sigma>" and i: "i < length (bc_stmts c)"
    and stmt: "kind (bc_stmts c ! i) = BXor a b"
    and ops: "a < bc_params c + i" "b < bc_params c + i"
    and uses: "use_counts c = Some uses"
      "\<forall>v \<in> set (counted_vars c). v < bc_params c + length (bc_stmts c)"
  shows "\<exists>\<sigma>'. synth_xor (bc_params c) i uses a b \<sigma> = Ok \<sigma>'
    \<and> step_ok R c i \<sigma> (\<lambda>vs stb. (vs ! a \<noteq> vs ! b, stb)) \<sigma>'"
proof -
  note D = shapeD [OF inv]
  let ?wa = "map_vec \<sigma> ! a" and ?wb = "map_vec \<sigma> ! b"
  have kept: "kept c i a" "kept c i b" using kept_operand [OF i] stmt by auto
  have counted: "a \<in> set (counted_operands (kind (bc_stmts c ! i)))"
    "b \<in> set (counted_operands (kind (bc_stmts c ! i)))" by (simp_all add: stmt)
  have use: "uses ! v = count_list (counted_vars c) v" if "v < bc_params c + i" for v
  proof -
    have "uses = map (count_list (counted_vars c)) [0..<bc_params c + length (bc_stmts c)]"
      using uses(1) use_counts_Some [OF uses(2)] by simp
    then show ?thesis using that i by simp
  qed
  have once: "a \<noteq> b" if "bc_params c \<le> v" "count_list (counted_vars c) v = 1" "v = a \<or> v = b" for v
    using single_use_not_kept(2) [OF i _ that(1,2)] that(3) counted by (auto simp: stmt)
  have ok: "wire_at \<sigma> a = Ok ?wa" "wire_at \<sigma> b = Ok ?wb"
    "check_operand (bc_params c) i a = Ok ()" "check_operand (bc_params c) i b = Ok ()"
    using ops by (simp_all add: operand_simps D(1))
  show ?thesis
  proof (cases "xor_candidate (bc_params c) uses a b ?wa ?wb")
    case None
    have "step_ok R c i \<sigma> (\<lambda>vs stb. (vs ! a \<noteq> vs ! b, stb))
        (emit_fresh [Cnot ?wa (next_anc \<sigma>), Cnot ?wb (next_anc \<sigma>)] \<sigma>)"
      using D(4) [OF ops(1)] D(4) [OF ops(2)] ops kept
      by (intro step_plain [OF inv i]) (auto simp: gate_wf_def semD(3))
    then show ?thesis by (simp add: synth_xor_def ok None Let_def)
  next
    case (Some v)
    then have v: "v = a \<or> v = b" "bc_params c \<le> v" "uses ! v = 1"
      by (auto simp: xor_candidate_def Let_def split: if_splits)
    then have one: "count_list (counted_vars c) v = 1" using use ops by auto
    have ab: "a \<noteq> b" by (rule once [OF v(2) one v(1)])
    show ?thesis
    proof (cases "v = a")
      case True
      have "step_ok R c i \<sigma> (\<lambda>vs stb. (vs ! a \<noteq> vs ! b, stb)) (emit_at ?wa [Cnot ?wb ?wa] \<sigma>)"
        using step_consume [OF inv i counted(1) _ ops(1) _ counted(2) ops(2), of R] v one ab True by auto
      then show ?thesis using True by (simp add: synth_xor_def ok Some)
    next
      case False
      then have vb: "v = b" using v by blast
      have "step_ok R c i \<sigma> (\<lambda>vs stb. (vs ! b \<noteq> vs ! a, stb)) (emit_at ?wb [Cnot ?wa ?wb] \<sigma>)"
        using step_consume [OF inv i counted(2) _ ops(2) _ counted(1) ops(1), of R] v one ab vb by auto
      then have "step_ok R c i \<sigma> (\<lambda>vs stb. (vs ! a \<noteq> vs ! b, stb)) (emit_at ?wb [Cnot ?wa ?wb] \<sigma>)"
        by (simp add: eq_commute)
      then show ?thesis using False vb ab by (simp add: synth_xor_def ok Some)
    qed
  qed
qed

text \<open>
  Arms that borrow scratch wires. A fresh scratch wire is in the region above the outputs,
  clean, and different from every allocated wire.
\<close>

lemma scratch_clean:
  assumes "shape c i \<sigma>" and "i < length (bc_stmts c)" and "sem c i \<sigma> vs stb (ws, st)"
    and "acquire (scratch \<sigma>) = (w, sc)"
  shows "\<not> ws ! w"
proof -
  note D = shapeD [OF assms(1)] and S = semD [OF assms(3)]
  have "next_fresh (scratch \<sigma>) < prov_wires c"
    using D(10) assms(2) by (simp add: prov_wires_def)
  then show ?thesis
    using acquire_props(11) [OF D(8) assms(4)] S(5) [of w] S(6) [of w] by auto
qed

lemma run_negate:
  assumes "a \<noteq> t" and "t < length ws" and "x = (ws ! t = ws ! a)"
  shows "run R (Cnot a t # X t # gs) (ws, st) = run R gs (ws[t := x], st)"
    and "run R (X t # Cnot a t # gs) (ws, st) = run R gs (ws[t := x], st)"
  using assms by (simp_all add: eq_commute)

lemma run_and_into:
  assumes "a \<noteq> t" "b \<noteq> t" and "t < length ws" and "x = (ws ! t = (ws ! a \<and> ws ! b))"
  shows "run R (Ccnot a b t # X t # gs) (ws, st) = run R gs (ws[t := x], st)"
  using assms by simp

lemma or_gates_run:
  assumes dist: "distinct [na, nb, wr]" "wa \<notin> {na, nb, wr}" "wb \<notin> {na, nb, wr}"
    and len: "na < length ws" "nb < length ws" "wr < length ws"
    and clean: "\<not> ws ! na" "\<not> ws ! nb" "\<not> ws ! wr"
    and run: "run R (or_gates share wa wb na nb wr) (ws, st) = (ws', st')"
  shows "st' = st" and "ws' ! wr = (ws ! wa \<or> ws ! wb)"
    and "w \<notin> {na, nb, wr} \<Longrightarrow> ws' ! w = ws ! w"
    and "share \<Longrightarrow> \<not> ws' ! na" and "share \<Longrightarrow> \<not> ws' ! nb"
proof -
  have ne: "wa \<noteq> na" "wa \<noteq> nb" "wb \<noteq> na" "wb \<noteq> nb" "wa \<noteq> wr" "wb \<noteq> wr" "na \<noteq> nb" "na \<noteq> wr" "nb \<noteq> wr"
    using dist by simp_all
  let ?w1 = "ws[na := \<not> ws ! wa]" let ?w2 = "?w1[nb := \<not> ws ! wb]"
  let ?w3 = "?w2[wr := (ws ! wa \<or> ws ! wb)]" let ?w4 = "?w3[nb := False]" let ?w5 = "?w4[na := False]"
  have "run R (Cnot wa na # X na # hs) (ws, st) = run R hs (?w1, st)" for hs
    by (rule run_negate(1)) (simp_all add: ne ne [symmetric] len clean)
  moreover have "run R (Cnot wb nb # X nb # hs) (?w1, st) = run R hs (?w2, st)" for hs
    by (rule run_negate(1)) (simp_all add: ne ne [symmetric] len clean)
  moreover have "run R (Ccnot na nb wr # X wr # hs) (?w2, st) = run R hs (?w3, st)" for hs
    by (rule run_and_into) (simp_all add: ne ne [symmetric] len clean)
  ultimately have compute: "run R (Cnot wa na # X na # Cnot wb nb # X nb # Ccnot na nb wr # X wr # hs) (ws, st)
      = run R hs (?w3, st)" for hs by (simp only:)
  have "run R (X nb # Cnot wb nb # hs) (?w3, st) = run R hs (?w4, st)" for hs
    by (rule run_negate(2)) (simp_all add: ne ne [symmetric] len)
  moreover have "run R (X na # Cnot wa na # hs) (?w4, st) = run R hs (?w5, st)" for hs
    by (rule run_negate(2)) (simp_all add: ne ne [symmetric] len)
  ultimately have restore: "run R [X nb, Cnot wb nb, X na, Cnot wa na] (?w3, st) = (?w5, st)"
    by (simp only: run_Nil)
  have "(ws', st') = (if share then ?w5 else ?w3, st)"
    using run compute restore by (cases share) (simp_all only: or_gates_def append.simps if_True if_False run_Nil)
  then have eq: "ws' = (if share then ?w5 else ?w3)" and st: "st' = st"
    by (simp_all only: prod.inject)
  show "st' = st" by (rule st)
  show "ws' ! wr = (ws ! wa \<or> ws ! wb)" by (simp add: eq ne ne [symmetric] len)
  show "share \<Longrightarrow> \<not> ws' ! na" "share \<Longrightarrow> \<not> ws' ! nb"
    by (simp_all add: eq ne ne [symmetric] len)
  show "ws' ! w = ws ! w" if "w \<notin> {na, nb, wr}"
  proof -
    have "na \<noteq> w" "nb \<noteq> w" "wr \<noteq> w" using that by auto
    then show ?thesis by (simp only: eq nth_list_update_neq split: if_split) simp
  qed
qed

lemma or_gates_shape:
  assumes "g \<in> set (or_gates share wa wb na nb wr)"
    and "distinct [na, nb, wr]" "wa \<notin> {na, nb, wr}" "wb \<notin> {na, nb, wr}"
  shows "gate_wf g" and "touches g \<subseteq> {wa, wb, na, nb, wr}"
    and "gate_target g = Some t \<Longrightarrow> t \<in> {na, nb, wr}"
proof -
  have "g \<in> {Cnot wa na, X na, Cnot wb nb, X nb, Ccnot na nb wr, X wr}"
    using assms(1) by (auto simp: or_gates_def split: if_splits)
  then consider "g = Cnot wa na" | "g = X na" | "g = Cnot wb nb" | "g = X nb" | "g = Ccnot na nb wr" | "g = X wr"
    by blast
  note cs = this
  from assms(2-) have ne: "wa \<noteq> na" "wb \<noteq> nb" "na \<noteq> wr" "nb \<noteq> wr" by auto
  show "gate_wf g" by (rule cs) (use ne in \<open>simp_all add: gate_wf_def\<close>)
  show "touches g \<subseteq> {wa, wb, na, nb, wr}" by (rule cs) (simp_all add: touches_def)
  show "gate_target g = Some t \<Longrightarrow> t \<in> {na, nb, wr}" by (rule cs) simp_all
qed

lemma synth_or_ok:
  assumes inv: "shape c i \<sigma>" and i: "i < length (bc_stmts c)"
    and ops: "a < bc_params c + i" "b < bc_params c + i" "kept c i a" "kept c i b"
  shows "\<exists>\<sigma>'. synth_or share (bc_params c) i a b \<sigma> = Ok \<sigma>'
    \<and> step_ok R c i \<sigma> (\<lambda>vs stb. (vs ! a \<or> vs ! b, stb)) \<sigma>'"
proof -
  note D = shapeD [OF inv]
  obtain na sc1 where acq1: "acquire (scratch \<sigma>) = (na, sc1)" by fastforce
  obtain nb sc2 where acq2: "acquire sc1 = (nb, sc2)" by fastforce
  note A = acquire_props [OF D(8) acq1]
  note B = acquire_props [OF A(1) acq2]
  have live2: "na \<in> live sc2" "nb \<in> live sc2" "na \<noteq> nb" using A B by auto
  obtain sc where sc: "(if share then of_option (do { sc3 \<leftarrow> release na sc2; release nb sc3 })
        else Ok sc2) = (Ok sc :: AncillaPool synth_result)"
    "pool_inv sc" "base sc = base sc2" "next_fresh sc = next_fresh sc2"
    "set (free sc) = (if share then {na, nb} else {}) \<union> set (free sc2)"
  proof (cases share)
    case True
    obtain sc3 where 3: "release na sc2 = Some sc3" "pool_inv sc3" "live sc3 = live sc2 - {na}"
      "set (free sc3) = insert na (set (free sc2))" "base sc3 = base sc2" "next_fresh sc3 = next_fresh sc2"
      using release_props [OF B(1) live2(1)] by blast
    then have "nb \<in> live sc3" using live2 by simp
    then obtain sc4 where "release nb sc3 = Some sc4" "pool_inv sc4"
      "set (free sc4) = insert nb (set (free sc3))" "base sc4 = base sc3" "next_fresh sc4 = next_fresh sc3"
      using release_props [OF 3(2)] by blast
    with 3 True show thesis by (intro that [of sc4]) auto
  next
    case False
    then show thesis using B(1) by (intro that [of sc2]) auto
  qed
  let ?wa = "map_vec \<sigma> ! a" and ?wb = "map_vec \<sigma> ! b" and ?wr = "next_anc \<sigma>"
  let ?gs = "or_gates share ?wa ?wb na nb ?wr"
  have wr: "?wr < scratch_base c" using D(6) i by (simp add: scratch_base_def)
  have region: "scratch_base c \<le> na" "scratch_base c \<le> nb" "na < next_fresh sc2" "nb < next_fresh sc2"
    using A(5,6,4) B(4-7) D(9) by auto
  have bound: "next_fresh sc2 \<le> prov_wires c"
    using A(8) B(8) D(10) i by (simp add: prov_wires_def)
  have dist: "distinct [na, nb, ?wr]" "?wa \<notin> {na, nb, ?wr}" "?wb \<notin> {na, nb, ?wr}"
    using live2(3) region wr D(4) [OF ops(1)] D(4) [OF ops(2)] by auto
  have shaped: "gates_shaped c ((emit_fresh ?gs \<sigma>)\<lparr>scratch := sc\<rparr>) ?gs"
    unfolding gates_shaped_def
  proof (intro ballI conjI allI impI)
    fix g assume g: "g \<in> set ?gs"
    have "{?wa, ?wb, na, nb, ?wr} \<subseteq> wire_dom c ((emit_fresh ?gs \<sigma>)\<lparr>scratch := sc\<rparr>)"
      using D(4) [OF ops(1)] D(4) [OF ops(2)] region sc(4) by (auto simp: wire_dom_def emit_fresh_def)
    then show "touches g \<subseteq> wire_dom c ((emit_fresh ?gs \<sigma>)\<lparr>scratch := sc\<rparr>)"
      using or_gates_shape(2) [OF g dist] by (rule subset_trans [rotated])
    show "gate_wf g" by (rule or_gates_shape(1) [OF g dist])
    show "bc_params c \<le> t" if "gate_target g = Some t" for t
      using or_gates_shape(3) [OF g dist that] D(5) region by (auto simp: scratch_base_def)
  qed
  have "step_ok R c i \<sigma> (\<lambda>vs stb. (vs ! a \<or> vs ! b, stb)) ((emit_fresh ?gs \<sigma>)\<lparr>scratch := sc\<rparr>)"
  proof (rule step_fresh [OF inv i sc(2) _ _ _ shaped])
    show "base sc = scratch_base c" using sc(3) A(4) B(4) D(9) by simp
    show "next_fresh (scratch \<sigma>) \<le> next_fresh sc" "next_fresh sc \<le> next_fresh (scratch \<sigma>) + 2"
      using sc(4) A(7,8) B(7,8) by auto
  next
    fix vs stb ws st ws' st'
    assume s: "sem c i \<sigma> vs stb (ws, st)" and run: "run R ?gs (ws, st) = (ws', st')"
    note S = semD [OF s]
    have clean: "\<not> ws ! na" "\<not> ws ! nb" "\<not> ws ! ?wr"
    proof -
      show "\<not> ws ! na" by (rule scratch_clean [OF inv i s acq1])
      show "\<not> ws ! nb" 
        using B(11) A(7,9) S(5) [of nb] S(6) [of nb] bound region(4) by auto
      show "\<not> ws ! ?wr" using S(4) [of ?wr] D(6) i by simp
    qed
    have len: "na < length ws" "nb < length ws" "?wr < length ws"
      using region bound S(2) wr by (auto simp: prov_wires_def)
    note G = or_gates_run [OF dist len clean run]
    have na2: "na \<notin> set (free sc2)" "nb \<notin> set (free sc2)" using A(10) B(9,10) by auto
    have fr: "\<not> ws' ! w" if "w \<in> set (free sc)" for w
    proof (cases "share \<and> w \<in> {na, nb}")
      case False
      then have w: "w \<in> set (free sc2)" using that sc(5) by (auto split: if_splits)
      then have "w \<in> set (free (scratch \<sigma>))" using A(9) B(9) by blast
      moreover from this have "w \<noteq> ?wr" using pool_free_region [OF D(8)] D(9) wr by fastforce
      ultimately show ?thesis using G(3) [of w] S(5) w na2 by auto
    qed (use G(4,5) in auto)
    have "\<not> ws' ! w" if "next_fresh sc \<le> w" "w < prov_wires c" for w
      using G(3) [of w] S(6) [of w] that sc(4) region wr A(7) B(7) by auto
    moreover have "ws' ! w = ws ! w" if "w < scratch_base c" "w \<noteq> ?wr" for w
      using G(3) [of w] region that by force
    moreover have "ws' ! ?wr = (vs ! a \<or> vs ! b)"
      using G(2) S(3) [OF ops(1,3)] S(3) [OF ops(2,4)] by simp
    ultimately show "(\<forall>w < scratch_base c. w \<noteq> ?wr \<longrightarrow> ws' ! w = ws ! w)
        \<and> ws' ! ?wr = fst (vs ! a \<or> vs ! b, stb)
        \<and> (\<forall>w \<in> set (free sc). \<not> ws' ! w)
        \<and> (\<forall>w. next_fresh sc \<le> w \<longrightarrow> w < prov_wires c \<longrightarrow> \<not> ws' ! w)
        \<and> storage_eq st' (snd (vs ! a \<or> vs ! b, stb))"
      using fr G(1) S(7) by simp
  qed
  then show ?thesis
    using ops sc(1) by (simp add: synth_or_def operand_simps D(1) acq1 acq2 Let_def)
qed

text \<open>The storage arms borrow one wire \<open>t\<close>; a read gives it back clean when wires are shared.\<close>

lemma acquired:
  assumes inv: "shape c i \<sigma>" and i: "i < length (bc_stmts c)"
    and acq: "acquire (scratch \<sigma>) = (t, sc)"
  shows "scratch_base c \<le> t" "t < prov_wires c" "next_anc \<sigma> < t" "t \<notin> set (free sc)"
    and "base sc = scratch_base c" "t < next_fresh sc"
    and "next_fresh (scratch \<sigma>) \<le> next_fresh sc" "next_fresh sc \<le> next_fresh (scratch \<sigma>) + 2"
proof -
  note D = shapeD [OF inv] and A = acquire_props [OF shapeD(8) [OF inv] acq]
  show "scratch_base c \<le> t" using A(5) D(9) by simp
  then show "next_anc \<sigma> < t" using D(6) i by (simp add: scratch_base_def)
  show "t < prov_wires c" using A(6,8) D(10) i by (simp add: prov_wires_def)
  show "t \<notin> set (free sc)" "base sc = scratch_base c" "t < next_fresh sc"
    "next_fresh (scratch \<sigma>) \<le> next_fresh sc" "next_fresh sc \<le> next_fresh (scratch \<sigma>) + 2"
    using A(4,6,7,8,10) D(9) by auto
qed

lemma map_wires_eq:
  assumes "sem c i \<sigma> vs stb (ws, st)" and "\<forall>v \<in> set addr. v < bc_params c + i \<and> kept c i v"
  shows "map ((!) ws) (map ((!) (map_vec \<sigma>)) addr) = map ((!) vs) addr"
  using assms(2) semD(3) [OF assms(1)] by simp

lemma storage_read_run:
  assumes "t \<notin> set addr" "r \<notin> set addr" "t \<noteq> r" "t < length ws" "r < length ws" "\<not> ws ! t" "\<not> ws ! r"
  shows "run R [StorageSwap s l addr t, Cnot t r, StorageSwap s l addr t] (ws, st)
    = (ws[r := sread st ((s, l), map ((!) ws) addr)],
       st(((s, l), map ((!) ws) addr) \<mapsto> sread st ((s, l), map ((!) ws) addr)))"
proof -
  let ?b = "sread st ((s, l), map ((!) ws) addr)"
  have "ws[t := ?b, r := ?b, t := False] = ws[r := ?b]"
    using list_update_id [of "ws[r := ?b]" t] assms by (simp add: list_update_swap [of t r ws])
  then show ?thesis using assms by (simp add: Let_def map_nth_upd_notin)
qed

lemma synth_storage_read_ok:
  assumes inv: "shape c i \<sigma>" and i: "i < length (bc_stmts c)"
    and ops: "\<forall>v \<in> set addr. v < bc_params c + i \<and> kept c i v"
  shows "\<exists>\<sigma>'. synth_storage_read share (bc_params c) i s l addr \<sigma> = Ok \<sigma>'
    \<and> step_ok R c i \<sigma> (\<lambda>vs stb. (sread stb ((s, l), map ((!) vs) addr), stb)) \<sigma>'"
proof -
  note D = shapeD [OF inv]
  obtain t sc1 where acq: "acquire (scratch \<sigma>) = (t, sc1)" by fastforce
  note A = acquire_props [OF D(8) acq] and T = acquired [OF inv i acq]
  obtain sc where sc: "(if share then of_option (release t sc1) else Ok sc1) = (Ok sc :: AncillaPool synth_result)"
    "pool_inv sc" "base sc = base sc1" "next_fresh sc = next_fresh sc1" "set (free sc) \<subseteq> insert t (set (free sc1))"
  proof (cases share)
    case True
    have "t \<in> live sc1" using A(3) by simp
    then obtain sc2 where "release t sc1 = Some sc2" "pool_inv sc2"
      "set (free sc2) = insert t (set (free sc1))" "base sc2 = base sc1" "next_fresh sc2 = next_fresh sc1"
      using release_props [OF A(1)] by blast
    with True show thesis by (intro that [of sc2]) simp_all
  next
    case False
    then show thesis using A(1) by (intro that [of sc1]) auto
  qed
  let ?addr = "map ((!) (map_vec \<sigma>)) addr" and ?r = "next_anc \<sigma>"
  let ?swap = "StorageSwap s l ?addr t"
  let ?gs = "[?swap, Cnot t ?r, ?swap]"
  have lt: "w < ?r" if "w \<in> set ?addr" for w using that ops D(4) by auto
  then have notin: "t \<notin> set ?addr" "?r \<notin> set ?addr" using T(3) by (meson less_asym, blast)
  have shaped: "gates_shaped c ((emit_fresh ?gs \<sigma>)\<lparr>scratch := sc\<rparr>) ?gs"
    unfolding gates_shaped_def
  proof (intro ballI conjI allI impI)
    fix g assume g: "g \<in> set ?gs"
    have dom: "insert t (insert ?r (set ?addr)) \<subseteq> wire_dom c ((emit_fresh ?gs \<sigma>)\<lparr>scratch := sc\<rparr>)"
      using lt T(1,6) sc(4) by (fastforce simp: wire_dom_def emit_fresh_def)
    from g have "g = ?swap \<or> g = Cnot t ?r" by auto
    then show "touches g \<subseteq> wire_dom c ((emit_fresh ?gs \<sigma>)\<lparr>scratch := sc\<rparr>)"
      by (rule disjE) (use dom in \<open>simp_all add: touches_def\<close>)
    show "gate_wf g" using g notin T(3) by (auto simp: gate_wf_def)
    show "bc_params c \<le> u" if "gate_target g = Some u" for u
      using g that T(1,3) D(5) by auto
  qed
  have "step_ok R c i \<sigma> (\<lambda>vs stb. (sread stb ((s, l), map ((!) vs) addr), stb)) ((emit_fresh ?gs \<sigma>)\<lparr>scratch := sc\<rparr>)"
  proof (rule step_fresh [OF inv i sc(2) _ _ _ shaped])
    show "base sc = scratch_base c" using sc(3) T(5) by simp
    show "next_fresh (scratch \<sigma>) \<le> next_fresh sc" "next_fresh sc \<le> next_fresh (scratch \<sigma>) + 2"
      using sc(4) T(7,8) by simp_all
  next
    fix vs stb ws st ws' st'
    assume sm: "sem c i \<sigma> vs stb (ws, st)" and run: "run R ?gs (ws, st) = (ws', st')"
    note S = semD [OF sm]
    let ?c = "((s, l), map ((!) vs) addr)"
    have clean: "\<not> ws ! t" "\<not> ws ! ?r"
      using scratch_clean [OF inv i sm acq] S(4) [of ?r] D(6) i by simp_all
    have cell: "map ((!) ws) ?addr = map ((!) vs) addr" by (rule map_wires_eq [OF sm ops])
    have side: "t \<noteq> ?r" "t < length ws" "?r < length ws" using T(2,3) S(2) by simp_all
    have "(ws', st') = (ws[?r := sread st ?c], st(?c \<mapsto> sread st ?c))"
      by (rule trans [OF run [symmetric] storage_read_run [OF notin side clean, of R s l st, unfolded cell]])
    then have eq: "ws' = ws[?r := sread st ?c]" "st' = st(?c \<mapsto> sread st ?c)" by simp_all
    have rd: "sread st ?c = sread stb ?c" by (rule storage_eqD [OF S(7)])
    have frame: "ws' ! w = ws ! w" if "w \<noteq> ?r" for w using that by (simp add: eq)
    have fr: "\<not> ws' ! w" if "w \<in> set (free sc)" for w
    proof (cases "w = t")
      case True
      then show ?thesis using frame [of t] clean(1) T(3) by simp
    next
      case False
      then have "w \<in> set (free (scratch \<sigma>))" using that sc(5) A(9) by blast
      moreover from this have "w \<noteq> ?r" using pool_free_region [OF D(8)] D(6,9) i by (fastforce simp: scratch_base_def)
      ultimately show ?thesis using S(5) frame by simp
    qed
    have "\<not> ws' ! w" if "next_fresh sc \<le> w" "w < prov_wires c" for w
      using frame [of w] S(6) [of w] that sc(4) T(3,6,7) by simp
    moreover have "storage_eq st' stb"
      using S(7) by (simp add: eq storage_eq_def del: split_paired_All)
    ultimately show "(\<forall>w < scratch_base c. w \<noteq> ?r \<longrightarrow> ws' ! w = ws ! w)
        \<and> ws' ! ?r = fst (sread stb ?c, stb)
        \<and> (\<forall>w \<in> set (free sc). \<not> ws' ! w)
        \<and> (\<forall>w. next_fresh sc \<le> w \<longrightarrow> w < prov_wires c \<longrightarrow> \<not> ws' ! w)
        \<and> storage_eq st' (snd (sread stb ?c, stb))"
      using fr frame T(2,3) S(2) rd by (simp add: eq)
  qed
  then show ?thesis
    using ops sc(1) by (auto simp: synth_storage_read_def operand_simps D(1) acq Let_def)
qed

lemma storage_write_run:
  assumes "t \<notin> set addr" "src \<noteq> t" "t < length ws" "\<not> ws ! t"
  shows "run R [Cnot src t, StorageSwap s l addr t] (ws, st)
    = (ws[t := sread st ((s, l), map ((!) ws) addr)], st(((s, l), map ((!) ws) addr) \<mapsto> ws ! src))"
  using assms by (simp add: Let_def map_nth_upd_notin)

lemma synth_storage_write_ok:
  assumes inv: "shape c i \<sigma>" and i: "i < length (bc_stmts c)"
    and src: "src < bc_params c + i" "kept c i src"
    and ops: "\<forall>v \<in> set addr. v < bc_params c + i \<and> kept c i v"
  shows "\<exists>\<sigma>'. synth_storage_write (bc_params c) i s l src addr \<sigma> = Ok \<sigma>'
    \<and> step_ok R c i \<sigma> (\<lambda>vs stb. (False, stb(((s, l), map ((!) vs) addr) \<mapsto> vs ! src))) \<sigma>'"
proof -
  note D = shapeD [OF inv]
  obtain t sc where acq: "acquire (scratch \<sigma>) = (t, sc)" by fastforce
  note A = acquire_props [OF D(8) acq] and T = acquired [OF inv i acq]
  let ?addr = "map ((!) (map_vec \<sigma>)) addr" and ?r = "next_anc \<sigma>" and ?src = "map_vec \<sigma> ! src"
  let ?swap = "StorageSwap s l ?addr t"
  let ?gs = "[Cnot ?src t, ?swap]"
  have lt: "w < ?r" if "w \<in> set ?addr" for w using that ops D(4) by auto
  have src_lt: "?src < ?r" by (rule D(4) [OF src(1)])
  have notin: "t \<notin> set ?addr" "?src \<noteq> t" using lt src_lt T(3) by (meson less_asym, simp)
  have shaped: "gates_shaped c ((emit_fresh ?gs \<sigma>)\<lparr>scratch := sc\<rparr>) ?gs"
    unfolding gates_shaped_def
  proof (intro ballI conjI allI impI)
    fix g assume g: "g \<in> set ?gs"
    have dom: "insert t (insert ?src (set ?addr)) \<subseteq> wire_dom c ((emit_fresh ?gs \<sigma>)\<lparr>scratch := sc\<rparr>)"
      using lt src_lt T(1,6) by (fastforce simp: wire_dom_def emit_fresh_def)
    from g have "g = ?swap \<or> g = Cnot ?src t" by auto
    then show "touches g \<subseteq> wire_dom c ((emit_fresh ?gs \<sigma>)\<lparr>scratch := sc\<rparr>)"
      by (rule disjE) (use dom in \<open>simp_all add: touches_def\<close>)
    show "gate_wf g" using g notin by (auto simp: gate_wf_def)
    show "bc_params c \<le> u" if "gate_target g = Some u" for u
      using g that T(3) D(5) by auto
  qed
  have "step_ok R c i \<sigma> (\<lambda>vs stb. (False, stb(((s, l), map ((!) vs) addr) \<mapsto> vs ! src)))
      ((emit_fresh ?gs \<sigma>)\<lparr>scratch := sc\<rparr>)"
  proof (rule step_fresh [OF inv i A(1) T(5,7,8) shaped])
    fix vs stb ws st ws' st'
    assume sm: "sem c i \<sigma> vs stb (ws, st)" and run: "run R ?gs (ws, st) = (ws', st')"
    note S = semD [OF sm]
    let ?c = "((s, l), map ((!) vs) addr)"
    have clean: "\<not> ws ! t" "\<not> ws ! ?r"
      using scratch_clean [OF inv i sm acq] S(4) [of ?r] D(6) i by simp_all
    have cell: "map ((!) ws) ?addr = map ((!) vs) addr" by (rule map_wires_eq [OF sm ops])
    have tl: "t < length ws" using T(2) S(2) by simp
    have "(ws', st') = (ws[t := sread st ?c], st(?c \<mapsto> ws ! ?src))"
      by (rule trans [OF run [symmetric] storage_write_run [OF notin tl clean(1), of R s l st, unfolded cell]])
    then have eq: "ws' = ws[t := sread st ?c]" "st' = st(?c \<mapsto> ws ! ?src)" by simp_all
    have frame: "ws' ! w = ws ! w" if "w \<noteq> t" for w using that by (simp add: eq)
    have "\<not> ws' ! w" if "w \<in> set (free sc)" for w
      using that frame [of w] S(5) [of w] A(9) T(4) by auto
    moreover have "\<not> ws' ! w" if "next_fresh sc \<le> w" "w < prov_wires c" for w
      using frame [of w] S(6) [of w] that T(6,7) by simp
    moreover have "storage_eq st' (stb(?c \<mapsto> vs ! src))"
      unfolding eq S(3) [OF src] by (rule storage_eq_upd [OF S(7)])
    ultimately show "(\<forall>w < scratch_base c. w \<noteq> ?r \<longrightarrow> ws' ! w = ws ! w)
        \<and> ws' ! ?r = fst (False, stb(?c \<mapsto> vs ! src))
        \<and> (\<forall>w \<in> set (free sc). \<not> ws' ! w)
        \<and> (\<forall>w. next_fresh sc \<le> w \<longrightarrow> w < prov_wires c \<longrightarrow> \<not> ws' ! w)
        \<and> storage_eq st' (snd (False, stb(?c \<mapsto> vs ! src)))"
      using frame clean(2) T(1,3) by simp
  qed
  then show ?thesis
    using ops src(1) by (auto simp: synth_storage_write_def operand_simps D(1) acq Let_def)
qed

text \<open>
  The action arm is structural only: the gate XORs the selected bit into the cell, which is
  the store of the source statement when the cell is clear.
\<close>

lemma synth_action_store_shape:
  assumes inv: "shape c i \<sigma>" and i: "i < length (bc_stmts c)"
    and ops: "\<forall>v \<in> set (guard # args @ fallback # addr). v < bc_params c + i"
  shows "\<exists>\<sigma>'. synth_action_store (bc_params c) i name guard args fallback s l addr b occ \<sigma> = Ok \<sigma>'
    \<and> shape c (Suc i) \<sigma>'"
proof -
  note D = shapeD [OF inv]
  let ?w = "\<lambda>v. map_vec \<sigma> ! v"
  let ?gs = "[ExternalStorageXor name (?w guard) (map ?w args) (?w fallback) s l (map ?w addr) b occ]"
  have "touches (hd ?gs) \<subseteq> {..<next_anc \<sigma>}"
    using ops D(4) by (auto simp: touches_def)
  then have "gates_shaped c ((emit_fresh ?gs \<sigma>)\<lparr>scratch := scratch \<sigma>\<rparr>) ?gs"
    by (auto simp: gates_shaped_def gate_wf_def wire_dom_def emit_fresh_def)
  then have "shape c (Suc i) ((emit_fresh ?gs \<sigma>)\<lparr>scratch := scratch \<sigma>\<rparr>)"
    by (intro shape_fresh [OF inv i D(8,9)]) simp_all
  then have "shape c (Suc i) (emit_fresh ?gs \<sigma>)" by (simp add: emit_fresh_def)
  then show ?thesis using ops by (simp add: synth_action_store_def operand_simps D(1))
qed

section \<open>The statement loop\<close>

fun synthesizable :: "bstmt \<Rightarrow> bool" where
  "synthesizable (OracleCall _ _ _) = False"
| "synthesizable (OracleProjectedBit _ _) = False"
| "synthesizable (ActionCall _ _ _ _ _) = False"
| "synthesizable (ActionBit _ _) = False"
| "synthesizable (Rng _) = False"
| "synthesizable _ = True"

fun is_action_store :: "bstmt \<Rightarrow> bool" where
  "is_action_store (ActionStoreBit _ _ _ _ _ _ _ _ _) = True"
| "is_action_store _ = False"

lemma counted_operands_subset: "set (counted_operands s) \<subseteq> set (operands s)"
  by (cases s) auto

lemma counted_vars_range:
  assumes "wf_circuit c"
  shows "\<forall>v \<in> set (counted_vars c). v < bc_params c + length (bc_stmts c)"
proof
  fix v assume "v \<in> set (counted_vars c)"
  then consider n where "n \<in> set (bc_stmts c)" "v \<in> set (counted_operands (kind n))"
    | "v \<in> set (bc_outputs c)"
    by (auto simp: counted_vars_def)
  then show "v < bc_params c + length (bc_stmts c)"
  proof cases
    case 1
    then obtain i where "i < length (bc_stmts c)" "v \<in> set (operands (kind (bc_stmts c ! i)))"
      using counted_operands_subset by (metis in_set_conv_nth subsetD)
    then have "v < bc_params c + i" and "i < length (bc_stmts c)"
      using assms by (auto simp: wf_circuit_def ssa_ordered_def)
    then show ?thesis by simp
  next
    case 2
    then show ?thesis using assms by (auto simp: wf_circuit_def var_space_def)
  qed
qed

text \<open>The value and the storage of one statement the synthesis accepts.\<close>

fun stmt_effect :: "registry \<Rightarrow> bstmt \<Rightarrow> bool list \<Rightarrow> bstorage \<Rightarrow> bool \<times> bstorage" where
  "stmt_effect R BOne vs st = (True, st)"
| "stmt_effect R (BXor a b) vs st = (vs ! a \<noteq> vs ! b, st)"
| "stmt_effect R (BAnd a b) vs st = (vs ! a \<and> vs ! b, st)"
| "stmt_effect R (BOr a b) vs st = (vs ! a \<or> vs ! b, st)"
| "stmt_effect R (BNot a) vs st = (\<not> vs ! a, st)"
| "stmt_effect R (OracleBit name args b occ) vs st = (oracle_bit_fn R name (map ((!) vs) args) b occ, st)"
| "stmt_effect R (RngBit name b occ) vs st = (rng_bit_fn R name b occ, st)"
| "stmt_effect R (StorageRead s l addr) vs st = (sread st ((s, l), map ((!) vs) addr), st)"
| "stmt_effect R (StorageWrite s l src addr) vs st = (False, st(((s, l), map ((!) vs) addr) \<mapsto> vs ! src))"
| "stmt_effect R _ vs st = (False, st)"

lemma eval_stmt_effect:
  assumes "synthesizable s" and "\<not> is_action_store s" and "ext_effects E \<or> is_pure_stmt s"
    and "\<forall>v \<in> set (operands s). v < length vs"
  shows "eval_stmt E s rv vs ag st = Some (fst (stmt_effect (ext_registry E) s vs st), ag, snd (stmt_effect (ext_registry E) s vs st))"
  using assms by (cases s) auto

lemma synth_stmt_ok:
  assumes inv: "shape c i \<sigma>" and i: "i < length (bc_stmts c)"
    and s: "s = kind (bc_stmts c ! i)" "synthesizable s"
    and ops: "\<forall>v \<in> set (operands s). v < bc_params c + i"
    and uses: "use_counts c = Some uses"
      "\<forall>v \<in> set (counted_vars c). v < bc_params c + length (bc_stmts c)"
  shows "\<exists>\<sigma>'. synth_stmt share (bc_params c) uses i s \<sigma> = Ok \<sigma>' \<and> shape c (Suc i) \<sigma>'
    \<and> (\<not> is_action_store s \<longrightarrow> step_ok R c i \<sigma> (stmt_effect R s) \<sigma>')"
proof -
  have kept: "kept c i v" if "v \<in> set (counted_operands s)" for v
    using kept_operand [OF i] that s(1) by blast
  have step: ?thesis
    if m: "\<exists>\<sigma>'. m = Ok \<sigma>' \<and> step_ok R c i \<sigma> f \<sigma>'"
      and eq: "synth_stmt share (bc_params c) uses i s \<sigma> = m" "\<And>vs stb. f vs stb = stmt_effect R s vs stb"
    for m f
  proof -
    have "f = stmt_effect R s" using eq(2) by (intro ext)
    with m eq(1) show ?thesis by (auto simp: step_ok_def)
  qed
  show ?thesis
  proof (cases s)
    case BZero
    show ?thesis by (rule step [of "Ok (emit_fresh [] \<sigma>)"]) (use BZero synth_const_ok(1) [OF inv i] in auto)
  next
    case BOne
    show ?thesis by (rule step [of "Ok (emit_fresh [X (next_anc \<sigma>)] \<sigma>)"]) (use BOne synth_const_ok(2) [OF inv i] in auto)
  next
    case (RngBit name b occ)
    show ?thesis
      by (rule step [of "Ok (emit_fresh [ExternalXor RRng name [] (next_anc \<sigma>) b occ] \<sigma>)"])
        (use RngBit synth_const_ok(3) [OF inv i] in auto)
  next
    case (BXor a b)
    show ?thesis by (rule step [OF synth_xor_ok [OF inv i _ _ _ uses, of a b]]) (use BXor ops s(1) in simp_all)
  next
    case (BAnd a b)
    show ?thesis by (rule step [OF synth_and_ok [OF inv i, of a b]]) (use BAnd ops kept in simp_all)
  next
    case (BOr a b)
    show ?thesis by (rule step [OF synth_or_ok [OF inv i, of a b share]]) (use BOr ops kept in simp_all)
  next
    case (BNot a)
    show ?thesis by (rule step [OF synth_not_ok [OF inv i, of a]]) (use BNot ops kept in simp_all)
  next
    case (OracleBit name args b occ)
    show ?thesis by (rule step [OF synth_oracle_bit_ok [OF inv i, of args name b occ]]) (use OracleBit ops kept in simp_all)
  next
    case (StorageRead sid l addr)
    show ?thesis by (rule step [OF synth_storage_read_ok [OF inv i, of addr share sid l]]) (use StorageRead ops kept in simp_all)
  next
    case (StorageWrite sid l src addr)
    show ?thesis by (rule step [OF synth_storage_write_ok [OF inv i, of src addr sid l]]) (use StorageWrite ops kept in simp_all)
  next
    case (ActionStoreBit name guard args fallback sid l addr b occ)
    then show ?thesis using synth_action_store_shape [OF inv i, of guard args fallback addr] ops by auto
  qed (use s(2) in auto)
qed

end
