(* ===== verification/Samples.thy ===== *)
theory Samples
  imports BoolarEval
begin

text \<open>
  Small concrete programs, used to show that the hypotheses of the theorems can hold: a half
  adder, a circuit whose single-use XOR chain is consumed in place, and one that reads and
  writes storage.
\<close>

definition half_adder :: "unit BCircuit" where
  "half_adder = \<lparr>bc_params = 2, bc_stmts = map (\<lambda>s. Node_new s () None) [BXor 0 1, BAnd 0 1],
     bc_pre_init = [], bc_outputs = [2, 3]\<rparr>"

definition xor_chain :: "unit BCircuit" where
  "xor_chain = \<lparr>bc_params = 3, bc_stmts = map (\<lambda>s. Node_new s () None)
       [BXor 0 1, BXor 3 2, BOr 4 0, BNot 5],
     bc_pre_init = [], bc_outputs = [6]\<rparr>"

definition memory_cell :: "unit BCircuit" where
  "memory_cell = \<lparr>bc_params = 2, bc_stmts = map (\<lambda>s. Node_new s () None)
       [StorageWrite 0 0 1 [0], StorageRead 0 0 [0]],
     bc_pre_init = [], bc_outputs = [3]\<rparr>"

lemma all_less_numeral:
  "(\<forall>i < Suc n. P i) \<longleftrightarrow> P n \<and> (\<forall>i < n. P i)"
  by (auto simp: less_Suc_eq)

lemmas sample_defs = half_adder_def xor_chain_def memory_cell_def

lemmas wf_sample_simps = wf_circuit_def ssa_ordered_def handles_ok_def var_space_def Node_new_def
  all_less_numeral eval_nat_numeral

lemma wf_samples [simp]: "wf_circuit half_adder" "wf_circuit xor_chain" "wf_circuit memory_cell"
  by (simp_all add: wf_sample_simps sample_defs)

lemma bc_params_samples [simp]: "bc_params half_adder = 2" "bc_params xor_chain = 3" "bc_params memory_cell = 2"
  by (simp_all add: sample_defs)

lemma bc_outputs_samples [simp]:
  "bc_outputs half_adder = [2, 3]" "bc_outputs xor_chain = [6]" "bc_outputs memory_cell = [3]"
  by (simp_all add: sample_defs)

lemma eval_samples [simp]:
  "eval_circuit E half_adder [a, b] st = Some ([a \<noteq> b, a \<and> b], st)"
  "eval_circuit E memory_cell [a, b] st = Some ([b], st(((0, 0), [a]) \<mapsto> b))"
  "eval_circuit E xor_chain [a, b, d] st = Some ([\<not> (((a \<noteq> b) \<noteq> d) \<or> a)], st)"
  by (simp_all add: eval_circuit_def sample_defs Node_new_def nth_opt_def nths_opt_Cons sread_def)

end
