(* ===== verification/NaiveEmbedding.thy ===== *)
theory NaiveEmbedding
  imports SynthCorrect Samples
begin

text \<open>
  The statement loop as a whole, the renaming of wires by compaction, and the correctness of
  the naive embedding \<open>(x, y, 0) \<mapsto> (x, y \<oplus> f(x), garbage)\<close> against the evaluator.
\<close>

section \<open>The statement loop\<close>

lemma synth_stmts_ok:
  assumes wf: "wf_circuit c" and syn: "\<forall>n \<in> set (bc_stmts c). synthesizable (kind n)"
    and uses: "use_counts c = Some uses"
    and inv: "shape c i \<sigma>" and i: "i \<le> length (bc_stmts c)"
  shows "\<exists>\<sigma>'. synth_stmts share (bc_params c) uses i (drop i (bc_stmts c)) \<sigma> = Ok \<sigma>'
    \<and> shape c (length (bc_stmts c)) \<sigma>'
    \<and> ((\<forall>n \<in> set (bc_stmts c). \<not> is_action_store (kind n)
          \<and> (ext_effects E \<or> is_pure_stmt (kind n))) \<longrightarrow>
       (\<exists>gs. sgates \<sigma>' = sgates \<sigma> @ gs \<and>
         (\<forall>vs ag stb vs' ag' stb' s. sem c i \<sigma> vs stb s \<longrightarrow>
            eval_stmts E (drop i (bc_stmts c)) (bc_params c + i) (vs, ag, stb) = Some (vs', ag', stb') \<longrightarrow>
            sem c (length (bc_stmts c)) \<sigma>' vs' stb' (run (ext_registry E) gs s))))"
  using inv i
proof (induction "drop i (bc_stmts c)" arbitrary: i \<sigma>)
  case Nil
  then have "i = length (bc_stmts c)" by simp
  with Nil show ?case by (auto intro!: exI [of _ "[]"])
next
  case (Cons n ns)
  let ?R = "ext_registry E" and ?P = "bc_params c"
  have lt: "i < length (bc_stmts c)" using Cons.hyps(2) by (metis drop_all leI list.distinct(1))
  have n: "n = bc_stmts c ! i" and ns: "ns = drop (Suc i) (bc_stmts c)"
    using Cons.hyps(2) lt by (simp_all add: Cons_nth_drop_Suc [symmetric])
  have mem: "n \<in> set (bc_stmts c)" using lt n by simp
  have ops: "\<forall>v \<in> set (operands (kind n)). v < ?P + i"
    using wf lt by (auto simp: n wf_circuit_def ssa_ordered_def)
  obtain \<sigma>1 where s1: "synth_stmt share ?P uses i (kind n) \<sigma> = Ok \<sigma>1" "shape c (Suc i) \<sigma>1"
    "\<not> is_action_store (kind n) \<longrightarrow> step_ok ?R c i \<sigma> (stmt_effect ?R (kind n)) \<sigma>1"
    using synth_stmt_ok [OF Cons.prems(1) lt _ _ ops uses counted_vars_range [OF wf], of share ?R] syn mem n by blast
  obtain \<sigma>2 where s2: "synth_stmts share ?P uses (Suc i) ns \<sigma>1 = Ok \<sigma>2" "shape c (length (bc_stmts c)) \<sigma>2"
    and sem2: "(\<forall>n \<in> set (bc_stmts c). \<not> is_action_store (kind n) \<and> (ext_effects E \<or> is_pure_stmt (kind n))) \<longrightarrow>
       (\<exists>gs. sgates \<sigma>2 = sgates \<sigma>1 @ gs \<and>
         (\<forall>vs ag stb vs' ag' stb' s. sem c (Suc i) \<sigma>1 vs stb s \<longrightarrow>
            eval_stmts E ns (?P + Suc i) (vs, ag, stb) = Some (vs', ag', stb') \<longrightarrow>
            sem c (length (bc_stmts c)) \<sigma>2 vs' stb' (run ?R gs s)))"
    using Cons.hyps(1) [OF ns s1(2)] lt ns by auto
  have run: "synth_stmts share ?P uses i (drop i (bc_stmts c)) \<sigma> = Ok \<sigma>2"
    unfolding Cons.hyps(2) [symmetric] using s1(1) s2(1) by simp
  moreover have "\<exists>gs. sgates \<sigma>2 = sgates \<sigma> @ gs \<and>
         (\<forall>vs ag stb vs' ag' stb' s. sem c i \<sigma> vs stb s \<longrightarrow>
            eval_stmts E (drop i (bc_stmts c)) (?P + i) (vs, ag, stb) = Some (vs', ag', stb') \<longrightarrow>
            sem c (length (bc_stmts c)) \<sigma>2 vs' stb' (run ?R gs s))"
    if pure: "\<forall>n \<in> set (bc_stmts c). \<not> is_action_store (kind n) \<and> (ext_effects E \<or> is_pure_stmt (kind n))"
  proof -
    obtain gs1 where g1: "sgates \<sigma>1 = sgates \<sigma> @ gs1"
      and m1: "\<And>vs stb ws st. sem c i \<sigma> vs stb (ws, st) \<Longrightarrow>
        sem c (Suc i) \<sigma>1 (vs @ [fst (stmt_effect ?R (kind n) vs stb)])
          (snd (stmt_effect ?R (kind n) vs stb)) (run ?R gs1 (ws, st))"
      using s1(3) pure mem by (auto simp: step_ok_def)
    obtain gs2 where g2: "sgates \<sigma>2 = sgates \<sigma>1 @ gs2"
      and m2: "\<And>vs ag stb vs' ag' stb' s. sem c (Suc i) \<sigma>1 vs stb s \<Longrightarrow>
            eval_stmts E ns (?P + Suc i) (vs, ag, stb) = Some (vs', ag', stb') \<Longrightarrow>
            sem c (length (bc_stmts c)) \<sigma>2 vs' stb' (run ?R gs2 s)"
      using sem2 pure by blast
    have "sem c (length (bc_stmts c)) \<sigma>2 vs' stb' (run ?R (gs1 @ gs2) (ws, st))"
      if s: "sem c i \<sigma> vs stb (ws, st)"
        and ev: "eval_stmts E (n # ns) (?P + i) (vs, ag, stb) = Some (vs', ag', stb')"
      for vs ag stb vs' ag' stb' ws st
    proof -
      have "\<forall>v \<in> set (operands (kind n)). v < length vs" using ops semD(1) [OF s] by simp
      then have "eval_stmt E (kind n) (?P + i) vs ag stb
          = Some (fst (stmt_effect ?R (kind n) vs stb), ag, snd (stmt_effect ?R (kind n) vs stb))"
        using eval_stmt_effect syn mem pure by blast
      then have "eval_stmts E ns (?P + Suc i) (vs @ [fst (stmt_effect ?R (kind n) vs stb)], ag,
          snd (stmt_effect ?R (kind n) vs stb)) = Some (vs', ag', stb')"
        using ev by simp
      from m2 [OF m1 [OF s] this] show ?thesis by simp
    qed
    then show ?thesis
      unfolding Cons.hyps(2) [symmetric] using g1 g2 by (intro exI [of _ "gs1 @ gs2"]) auto
  qed
  ultimately show ?case using s2(2) by blast
qed

text \<open>Stateless statements are synthesised without storage gates.\<close>

lemma sgates_emit [simp]:
  "sgates (emit_fresh gs \<sigma>) = sgates \<sigma> @ gs" "sgates (emit_at w gs \<sigma>) = sgates \<sigma> @ gs"
  by (simp_all add: emit_fresh_def emit_at_def)

lemma synth_xor_emits:
  assumes "synth_xor ps i uses a b \<sigma> = Ok \<sigma>'"
  obtains u w where "sgates \<sigma>' = sgates \<sigma> @ [Cnot u w]"
  | wa wb where "sgates \<sigma>' = sgates \<sigma> @ [Cnot wa (next_anc \<sigma>), Cnot wb (next_anc \<sigma>)]"
proof -
  from assms obtain wa wb where
    "(case xor_candidate ps uses a b wa wb of
         Some c \<Rightarrow> obind (wire_at \<sigma> c) (\<lambda>wc. let other_wire = (if c = a then wb else wa)
             in Ok (emit_at wc [Cnot other_wire wc] \<sigma>))
       | None \<Rightarrow> let wr = next_anc \<sigma> in Ok (emit_fresh [Cnot wa wr, Cnot wb wr] \<sigma>)) = Ok \<sigma>'"
    unfolding synth_xor_def obind_eq_Ok by blast
  then show thesis using that by (cases "xor_candidate ps uses a b wa wb") (auto simp: Let_def)
qed

lemma synth_or_emits:
  assumes "synth_or share ps i a b \<sigma> = Ok \<sigma>'"
  shows "\<exists>wa wb na nb wr. sgates \<sigma>' = sgates \<sigma> @ or_gates share wa wb na nb wr"
proof -
  obtain na sc1 nb sc2 where "acquire (scratch \<sigma>) = (na, sc1)" "acquire sc1 = (nb, sc2)" by (metis surj_pair)
  with assms obtain wa wb sc where "\<sigma>' = (emit_fresh (or_gates share wa wb na nb (next_anc \<sigma>)) \<sigma>)\<lparr>scratch := sc\<rparr>"
    by (auto simp: synth_or_def Let_def)
  then have "sgates \<sigma>' = sgates \<sigma> @ or_gates share wa wb na nb (next_anc \<sigma>)" by simp
  then show ?thesis by blast
qed

lemma synth_stmt_storage_free:
  assumes ok: "synth_stmt share ps uses i s \<sigma> = Ok \<sigma>'" and pure: "\<not> is_stateful s"
    and old: "\<forall>g \<in> set (sgates \<sigma>). \<not> is_storage_gate g"
  shows "\<forall>g \<in> set (sgates \<sigma>'). \<not> is_storage_gate g"
proof -
  have "\<exists>gs. sgates \<sigma>' = sgates \<sigma> @ gs \<and> (\<forall>g \<in> set gs. \<not> is_storage_gate g)"
  proof (cases s)
    case (BXor a b)
    then have "synth_xor ps i uses a b \<sigma> = Ok \<sigma>'" using ok by simp
    then show ?thesis by (rule synth_xor_emits) auto
  next
    case (BOr a b)
    then have "synth_or share ps i a b \<sigma> = Ok \<sigma>'" using ok by simp
    from synth_or_emits [OF this] show ?thesis by (auto simp: or_gates_def)
  next
    case (BAnd a b)
    then show ?thesis using ok by (auto simp: synth_and_def)
  next
    case (BNot a)
    then show ?thesis using ok by (auto simp: synth_not_def Let_def)
  next
    case (OracleBit name args b occ)
    then show ?thesis using ok by (auto simp: synth_oracle_bit_def)
  qed (use ok pure in auto)
  then show ?thesis using old by auto
qed

lemma synth_stmts_storage_free:
  assumes "synth_stmts share ps uses i ns \<sigma> = Ok \<sigma>'" and "\<forall>n \<in> set ns. \<not> is_stateful (kind n)"
    and "\<forall>g \<in> set (sgates \<sigma>). \<not> is_storage_gate g"
  shows "\<forall>g \<in> set (sgates \<sigma>'). \<not> is_storage_gate g"
  using assms
proof (induction ns arbitrary: i \<sigma>)
  case (Cons n ns)
  then obtain \<sigma>1 where "synth_stmt share ps uses i (kind n) \<sigma> = Ok \<sigma>1"
    and rest: "synth_stmts share ps uses (Suc i) ns \<sigma>1 = Ok \<sigma>'" by auto
  then have "\<forall>g \<in> set (sgates \<sigma>1). \<not> is_storage_gate g"
    using synth_stmt_storage_free Cons.prems by simp
  then show ?case using Cons.IH [OF rest] Cons.prems(2) by simp
qed simp

section \<open>Renaming wires\<close>

lemma gate_controls_rename [simp]: "gate_controls (rename_gate f g) = map f (gate_controls g)"
  by (cases g) auto

lemma gate_target_rename [simp]: "gate_target (rename_gate f g) = map_option f (gate_target g)"
  by (cases g) auto

lemma is_storage_gate_rename [simp]: "is_storage_gate (rename_gate f g) = is_storage_gate g"
  by (cases g) auto

lemma touches_rename: "touches (rename_gate f g) = f ` touches g"
  by (cases "gate_target g") (auto simp: touches_def)

lemma gate_wf_rename:
  assumes "gate_wf g" and "inj_on f (touches g)"
  shows "gate_wf (rename_gate f g)"
proof -
  have "f t \<notin> f ` set (gate_controls g)" if "gate_target g = Some t" for t
    using assms that by (auto simp: gate_wf_def touches_def inj_on_def)
  moreover have "lut_ok (rename_gate f g)"
    using assms by (cases g) (auto simp: gate_wf_def touches_def inj_on_def)
  ultimately show ?thesis by (auto simp: gate_wf_def)
qed

text \<open>Two wire vectors that agree along a renaming of a set of wires.\<close>

definition renamed :: "(nat \<Rightarrow> nat) \<Rightarrow> nat set \<Rightarrow> bool list \<Rightarrow> bool list \<Rightarrow> bool" where
  "renamed f D ws ws' \<longleftrightarrow> (\<forall>w \<in> D. w < length ws \<and> f w < length ws' \<and> ws' ! f w = ws ! w)"

lemma renamed_map: "renamed f D ws ws' \<Longrightarrow> set xs \<subseteq> D \<Longrightarrow> map ((!) ws') (map f xs) = map ((!) ws) xs"
  by (auto simp: renamed_def)

lemma renamed_upd:
  assumes "renamed f D ws ws'" and "inj_on f D" and "t \<in> D"
  shows "renamed f D (ws[t := b]) (ws'[f t := b])"
  using assms by (auto simp: renamed_def nth_list_update inj_on_def)

lemma delta_rename:
  assumes "renamed f D ws ws'" and "touches g \<subseteq> D"
  shows "delta R (rename_gate f g) ws' = delta R g ws"
proof (cases g)
  case (ExternalXor k name args t b occ)
  then have "map ((!) ws') (map f args) = map ((!) ws) args"
    using assms(2) by (intro renamed_map [OF assms(1)]) (auto simp: touches_def)
  then show ?thesis by (simp only: ExternalXor rename_gate.simps delta.simps)
next
  case (ExternalStorageXor name guard args fallback s l addr b occ)
  then have "set args \<subseteq> D" "guard \<in> D" "fallback \<in> D" using assms(2) by (auto simp: touches_def)
  then have "map ((!) ws') (map f args) = map ((!) ws) args"
    "ws' ! f guard = ws ! guard" "ws' ! f fallback = ws ! fallback"
    using renamed_map [OF assms(1)] assms(1) by (simp_all add: renamed_def)
  then show ?thesis by (simp only: ExternalStorageXor rename_gate.simps delta.simps)
qed (use assms in \<open>auto simp: touches_def renamed_def\<close>)

lemma gate_step_rename:
  assumes ren: "renamed f D ws ws'" and inj: "inj_on f D" and sub: "touches g \<subseteq> D"
  shows "\<exists>ws1 ws1' st1. gate_step R g (ws, st) = (ws1, st1)
    \<and> gate_step R (rename_gate f g) (ws', st) = (ws1', st1) \<and> renamed f D ws1 ws1'"
proof (cases "is_storage_gate g")
  case False
  then obtain t where t: "gate_target g = Some t"
    and step: "\<And>ws st. gate_step R g (ws, st) = (ws[t := (ws ! t \<noteq> delta R g ws)], st)"
    by (rule gate_step_xor [where R = R]) blast
  have "\<not> is_storage_gate (rename_gate f g)" using False by simp
  then obtain u where "gate_target (rename_gate f g) = Some u"
    and step': "\<And>ws st. gate_step R (rename_gate f g) (ws, st) = (ws[u := (ws ! u \<noteq> delta R (rename_gate f g) ws)], st)"
    by (rule gate_step_xor [where R = R]) blast
  then have u: "u = f t" using t by simp
  have tD: "t \<in> D" using t sub by (auto simp: touches_def)
  then have "ws' ! f t = ws ! t" using ren by (simp add: renamed_def)
  then show ?thesis
    using renamed_upd [OF ren inj tD] by (simp add: step step' u delta_rename [OF ren sub])
next
  case True
  then show ?thesis
  proof (cases g)
    case (StorageSwap s l addr t)
    then have tD: "t \<in> D" and "set addr \<subseteq> D" using sub by (auto simp: touches_def)
    then have addr: "map ((!) ws') (map f addr) = map ((!) ws) addr" and t': "ws' ! f t = ws ! t"
      using ren renamed_map [OF ren, of addr] by (simp_all add: renamed_def)
    then show ?thesis
      using renamed_upd [OF ren inj tD] by (simp add: StorageSwap Let_def del: map_map)
  next
    case (ExternalStorageXor name guard args fallback s l addr b occ)
    then have "set addr \<subseteq> D" using sub by (auto simp: touches_def)
    then have "map ((!) ws') (map f addr) = map ((!) ws) addr" by (rule renamed_map [OF ren])
    moreover have "delta R (rename_gate f g) ws' = delta R g ws" by (rule delta_rename [OF ren sub])
    ultimately show ?thesis
      using ren unfolding ExternalStorageXor rename_gate.simps gate_step.simps gate_cell.simps Let_def
      by (simp only: ) blast
  qed auto
qed

lemma run_rename:
  assumes "renamed f D ws ws'" and "inj_on f D" and "\<forall>g \<in> set gs. touches g \<subseteq> D"
    and "run R gs (ws, st) = (ws1, st1)"
  shows "\<exists>ws1'. run R (map (rename_gate f) gs) (ws', st) = (ws1', st1) \<and> renamed f D ws1 ws1'"
  using assms
proof (induction gs arbitrary: ws ws' st)
  case (Cons g gs)
  obtain ws2 ws2' st2 where "gate_step R g (ws, st) = (ws2, st2)"
    and "gate_step R (rename_gate f g) (ws', st) = (ws2', st2)" and "renamed f D ws2 ws2'"
    using gate_step_rename [OF Cons.prems(1,2), of g R st] Cons.prems(3) by auto
  with Cons.IH [of ws2 ws2' st2] Cons.prems show ?case by simp
qed simp

section \<open>Output gates\<close>

text \<open>XOR gates with distinct targets that no gate of the list reads act independently.\<close>

abbreviation tgt :: "RGate \<Rightarrow> nat" where
  "tgt g \<equiv> the (gate_target g)"

lemma wrun_independent:
  assumes "\<forall>g \<in> set gs. \<not> is_storage_gate g" and "distinct (map tgt gs)"
    and "\<forall>g \<in> set gs. \<forall>h \<in> set gs. tgt g \<notin> set (gate_controls h)"
    and "\<forall>g \<in> set gs. tgt g < length ws" and "g \<in> set gs"
  shows "wrun R gs ws ! tgt g = (ws ! tgt g \<noteq> delta R g ws)"
  using assms
proof (induction gs arbitrary: ws)
  case (Cons h gs)
  obtain t where t: "gate_target h = Some t"
    and step: "\<And>ws st. gate_step R h (ws, st) = (ws[t := (ws ! t \<noteq> delta R h ws)], st)"
    using Cons.prems(1) by (elim ballE [of _ _ h] gate_step_xor [where R = R]) auto
  let ?ws = "ws[t := (ws ! t \<noteq> delta R h ws)]"
  have wrun: "wrun R (h # gs) ws = wrun R gs ?ws" by (simp add: wrun_def step)
  show ?case
  proof (cases "g = h")
    case True
    have "\<forall>g' \<in> set gs. gate_target g' \<noteq> Some t"
    proof (intro ballI notI)
      fix g' assume g': "g' \<in> set gs" and "gate_target g' = Some t"
      then have "tgt g' = tgt h" using t by simp
      moreover have "tgt h \<notin> tgt ` set gs" using Cons.prems(2) by simp
      ultimately show False using g' by (metis imageI)
    qed
    then have "wrun R gs ?ws ! t = ?ws ! t" by (rule wrun_nontarget)
    then show ?thesis using Cons.prems(4) t by (simp add: wrun True)
  next
    case False
    then have g: "g \<in> set gs" using Cons.prems(5) by simp
    have "wrun R gs ?ws ! tgt g = (?ws ! tgt g \<noteq> delta R g ?ws)"
      using Cons.prems g by (intro Cons.IH) auto
    moreover have "?ws ! tgt g = ws ! tgt g"
      using Cons.prems(2) g t by (force simp: image_iff)
    moreover have "delta R g ?ws = delta R g ws"
      using Cons.prems(3) g t by (intro delta_upd) auto
    ultimately show ?thesis by (simp add: wrun)
  qed
qed simp

lemma output_gates_Some:
  "\<forall>v \<in> set outs. v < length mv \<Longrightarrow>
   output_gates mv yb k outs = Some (map (\<lambda>(j, v). Cnot (mv ! v) (yb + j)) (enumerate k outs))"
  by (induction outs arbitrary: k) auto

lemma controlled_outputs_Some:
  "\<forall>v \<in> set outs. v < length mv \<Longrightarrow>
   controlled_outputs mv sel yb k outs = Some (map (\<lambda>(j, v). Ccnot (mv ! v) sel (yb + j)) (enumerate k outs))"
  by (induction outs arbitrary: k) auto

text \<open>
  The output phase adds the value on the wire of output \<open>k\<close> to wire \<open>yb + k\<close> and changes
  nothing else.
\<close>

lemma wrun_output_gates:
  assumes below: "\<forall>v \<in> set outs. mv ! v < yb" and len: "yb + length outs \<le> length ws"
    and gs: "gs = map (\<lambda>(j, v). Cnot (mv ! v) (yb + j)) (enumerate 0 outs)"
  shows "k < length outs \<Longrightarrow> wrun R gs ws ! (yb + k) = (ws ! (yb + k) \<noteq> ws ! (mv ! (outs ! k)))"
    and "w < yb \<or> yb + length outs \<le> w \<Longrightarrow> wrun R gs ws ! w = ws ! w"
proof -
  have targets: "map tgt gs = map ((+) yb) [0..<length outs]"
    by (rule nth_equalityI) (auto simp: gs nth_enumerate_eq)
  have gates: "\<exists>v \<in> set outs. \<exists>j < length outs. g = Cnot (mv ! v) (yb + j)" if "g \<in> set gs" for g
    using that by (auto simp: gs in_set_enumerate_eq)
  show "wrun R gs ws ! (yb + k) = (ws ! (yb + k) \<noteq> ws ! (mv ! (outs ! k)))" if k: "k < length outs"
  proof -
    have "(k, outs ! k) \<in> set (enumerate 0 outs)" using k by (simp add: in_set_enumerate_eq)
    then have g: "Cnot (mv ! (outs ! k)) (yb + k) \<in> set gs" by (auto simp: gs)
    have "wrun R gs ws ! tgt (Cnot (mv ! (outs ! k)) (yb + k))
        = (ws ! tgt (Cnot (mv ! (outs ! k)) (yb + k)) \<noteq> delta R (Cnot (mv ! (outs ! k)) (yb + k)) ws)"
    proof (rule wrun_independent [OF _ _ _ _ g])
      show "distinct (map tgt gs)" by (simp add: targets distinct_map)
      show "\<forall>g \<in> set gs. tgt g < length ws" using gates len by fastforce
      show "\<forall>g \<in> set gs. \<forall>h \<in> set gs. tgt g \<notin> set (gate_controls h)"
      proof (intro ballI)
        fix g h assume "g \<in> set gs" "h \<in> set gs"
        then obtain v j v' j' where "g = Cnot (mv ! v) (yb + j)" "h = Cnot (mv ! v') (yb + j')" "v' \<in> set outs"
          using gates by meson
        then show "tgt g \<notin> set (gate_controls h)" using below by fastforce
      qed
      show "\<forall>g \<in> set gs. \<not> is_storage_gate g" using gates by fastforce
    qed
    then show ?thesis by simp
  qed
  show "wrun R gs ws ! w = ws ! w" if "w < yb \<or> yb + length outs \<le> w"
    by (rule wrun_nontarget) (use gates that in fastforce)
qed

section \<open>Compaction\<close>

lemma rename_gate_id: "(\<And>w. f w = w) \<Longrightarrow> rename_gate f g = g"
  by (cases g) (auto simp: map_idI)

definition compacted :: "'p BCircuit \<Rightarrow> synth \<Rightarrow> nat \<Rightarrow> nat" where
  "compacted c \<sigma> = shift (bc_params c + length (bc_stmts c)) (bc_params c + length (bc_stmts c) - next_anc \<sigma>)"

text \<open>The wires that survive compaction: allocated ones, outputs, issued scratch.\<close>

definition live_wires :: "'p BCircuit \<Rightarrow> synth \<Rightarrow> nat set" where
  "live_wires c \<sigma> = {..<next_anc \<sigma>} \<union> {bc_params c + length (bc_stmts c)..<next_fresh (scratch \<sigma>)}"

definition total_wires :: "'p BCircuit \<Rightarrow> synth \<Rightarrow> nat" where
  "total_wires c \<sigma> = next_anc \<sigma> + length (bc_outputs c) + peak_allocated (scratch \<sigma>)"

lemma compacted_simps:
  assumes "shape c (length (bc_stmts c)) \<sigma>"
  shows "w < next_anc \<sigma> \<Longrightarrow> compacted c \<sigma> w = w"
    and "compacted c \<sigma> (bc_params c + length (bc_stmts c) + k) = next_anc \<sigma> + k"
    and "bc_params c + length (bc_stmts c) \<le> w \<Longrightarrow> compacted c \<sigma> w = next_anc \<sigma> + (w - (bc_params c + length (bc_stmts c)))"
  using shapeD(6) [OF assms] by (auto simp: compacted_def shift_def)

lemma compacted_inj:
  assumes "shape c (length (bc_stmts c)) \<sigma>"
  shows "inj_on (compacted c \<sigma>) (live_wires c \<sigma>)"
  using shapeD(6) [OF assms] by (auto simp: inj_on_def compacted_def shift_def live_wires_def)

lemma compacted_lt:
  assumes "shape c (length (bc_stmts c)) \<sigma>" and "w \<in> live_wires c \<sigma>"
  shows "compacted c \<sigma> w < total_wires c \<sigma>"
  using assms(2) shapeD(6,9) [OF assms(1)] pool_inv_le [OF shapeD(8) [OF assms(1)]]
  by (auto simp: compacted_def shift_def live_wires_def total_wires_def peak_allocated_def scratch_base_def)

lemma wire_dom_live: "shape c (length (bc_stmts c)) \<sigma> \<Longrightarrow> wire_dom c \<sigma> \<subseteq> live_wires c \<sigma>"
  by (auto simp: wire_dom_def live_wires_def scratch_base_def)

definition final_map :: "'p BCircuit \<Rightarrow> synth \<Rightarrow> VarWireMap" where
  "final_map c \<sigma> =
     \<lparr>vw_map = map_vec \<sigma>, vw_num_wires = total_wires c \<sigma>, vw_y_base = next_anc \<sigma>,
      vw_workspace = [bc_params c..<next_anc \<sigma>] @ [next_anc \<sigma> + length (bc_outputs c)..<total_wires c \<sigma>],
      vw_borrowed = [], vw_mode = Naive\<rparr>"

definition final_gates :: "'p BCircuit \<Rightarrow> synth \<Rightarrow> RGate list" where
  "final_gates c \<sigma> = map (rename_gate (compacted c \<sigma>)) (sgates \<sigma>)"

definition final_outs :: "'p BCircuit \<Rightarrow> synth \<Rightarrow> RGate list" where
  "final_outs c \<sigma> = map (\<lambda>(j, v). Cnot (map_vec \<sigma> ! v) (next_anc \<sigma> + j)) (enumerate 0 (bc_outputs c))"

lemma final_gates_ok:
  assumes inv: "shape c (length (bc_stmts c)) \<sigma>" and g: "g \<in> set (final_gates c \<sigma>)"
  shows "gate_ok (total_wires c \<sigma>) g"
    and "gate_target g = Some t \<Longrightarrow> bc_params c \<le> t \<and> (t < next_anc \<sigma> \<or> next_anc \<sigma> + length (bc_outputs c) \<le> t)"
    and "w \<in> touches g \<Longrightarrow> w < next_anc \<sigma> \<or> next_anc \<sigma> + length (bc_outputs c) \<le> w"
proof -
  note D = shapeD [OF inv] and C = compacted_simps [OF inv]
  obtain h where h: "h \<in> set (sgates \<sigma>)" "g = rename_gate (compacted c \<sigma>) h"
    using g by (auto simp: final_gates_def)
  then have sh: "gate_wf h" "touches h \<subseteq> wire_dom c \<sigma>" "\<And>t. gate_target h = Some t \<Longrightarrow> bc_params c \<le> t"
    using D(11) by (auto simp: gates_shaped_def)
  then have live: "touches h \<subseteq> live_wires c \<sigma>" using wire_dom_live [OF inv] by blast
  then show "gate_ok (total_wires c \<sigma>) g"
    unfolding gate_ok_wf using gate_wf_rename [OF sh(1) inj_on_subset [OF compacted_inj [OF inv] live]]
      compacted_lt [OF inv] by (auto simp: h(2) touches_rename)
  have reg: "compacted c \<sigma> w < next_anc \<sigma> \<and> compacted c \<sigma> w = w \<or> next_anc \<sigma> + length (bc_outputs c) \<le> compacted c \<sigma> w"
    if "w \<in> wire_dom c \<sigma>" for w
    using that C(1) [of w] C(3) [of w] by (auto simp: wire_dom_def scratch_base_def)
  show "w \<in> touches g \<Longrightarrow> w < next_anc \<sigma> \<or> next_anc \<sigma> + length (bc_outputs c) \<le> w"
    using sh(2) reg by (auto simp: h(2) touches_rename)
  show "bc_params c \<le> t \<and> (t < next_anc \<sigma> \<or> next_anc \<sigma> + length (bc_outputs c) \<le> t)" if tg: "gate_target g = Some t"
  proof -
    obtain u where u: "gate_target h = Some u" "t = compacted c \<sigma> u" using tg h(2) by auto
    then have "u \<in> wire_dom c \<sigma>" using sh(2) by (auto simp: touches_def)
    then show ?thesis using reg [of u] sh(3) [OF u(1)] u(2) D(5) by auto
  qed
qed

lemma synth_finish_ok:
  assumes inv: "shape c (length (bc_stmts c)) \<sigma>" and outs: "\<forall>v \<in> set (bc_outputs c). v < var_space c"
  shows "synth_finish c \<sigma> = Ok (\<lparr>num_wires = total_wires c \<sigma>, gates = final_gates c \<sigma> @ final_outs c \<sigma>\<rparr>, final_map c \<sigma>)"
    and "circuit_ok \<lparr>num_wires = total_wires c \<sigma>, gates = final_gates c \<sigma> @ final_outs c \<sigma>\<rparr>"
proof -
  note D = shapeD [OF inv] and C = compacted_simps [OF inv]
  let ?yp = "bc_params c + length (bc_stmts c)" let ?d = "?yp - next_anc \<sigma>"
  have gs: "(if ?d > 0 then map (rename_gate (shift ?yp ?d)) (sgates \<sigma>) else sgates \<sigma>) = final_gates c \<sigma>"
    by (auto simp: final_gates_def compacted_def shift_def intro!: map_idI [symmetric] rename_gate_id)
  have wire: "v < ?yp \<Longrightarrow> map_vec \<sigma> ! v < next_anc \<sigma>" for v by (rule D(4))
  have "map (compacted c \<sigma>) (map_vec \<sigma>) = map_vec \<sigma>"
    using C(1) wire D(1) by (intro map_idI) (auto simp: in_set_conv_nth)
  then have mv: "(if ?d > 0 then map (shift ?yp ?d) (map_vec \<sigma>) else map_vec \<sigma>) = map_vec \<sigma>"
    by (simp add: compacted_def)
  have total: "?yp + length (bc_outputs c) + peak_allocated (scratch \<sigma>) - ?d = total_wires c \<sigma>"
    using D(6) by (simp add: total_wires_def)
  have og: "output_gates (map_vec \<sigma>) (next_anc \<sigma>) 0 (bc_outputs c) = Some (final_outs c \<sigma>)"
    using outs D(1) by (simp add: output_gates_Some final_outs_def var_space_def)
  have "gate_ok (total_wires c \<sigma>) g" if g: "g \<in> set (final_outs c \<sigma>)" for g
  proof -
    obtain j v where "g = Cnot (map_vec \<sigma> ! v) (next_anc \<sigma> + j)" "v \<in> set (bc_outputs c)" "j < length (bc_outputs c)"
      using g by (auto simp: final_outs_def in_set_enumerate_eq)
    moreover from this have "map_vec \<sigma> ! v < next_anc \<sigma>" using wire outs by (simp add: var_space_def)
    ultimately show ?thesis by (auto simp: gate_ok_def touches_def total_wires_def)
  qed
  then show ok: "circuit_ok \<lparr>num_wires = total_wires c \<sigma>, gates = final_gates c \<sigma> @ final_outs c \<sigma>\<rparr>"
    using final_gates_ok(1) [OF inv] by (auto simp: circuit_ok_def)
  then have "RCircuit_new (total_wires c \<sigma>) (final_gates c \<sigma> @ final_outs c \<sigma>)
      = Inr \<lparr>num_wires = total_wires c \<sigma>, gates = final_gates c \<sigma> @ final_outs c \<sigma>\<rparr>"
    by (simp add: RCircuit_new_Inr)
  then show "synth_finish c \<sigma> = Ok (\<lparr>num_wires = total_wires c \<sigma>, gates = final_gates c \<sigma> @ final_outs c \<sigma>\<rparr>, final_map c \<sigma>)"
    unfolding synth_finish_def Let_def gs mv total og by (simp add: final_map_def)
qed

section \<open>The compute phase\<close>

text \<open>
  Real wire vectors: inputs on the first wires, clean ancilla and scratch wires, anything on
  the output wires and above the circuit's own wires.
\<close>

definition ready :: "'p BCircuit \<Rightarrow> synth \<Rightarrow> bool list \<Rightarrow> bool list \<Rightarrow> bool" where
  "ready c \<sigma> xs ws \<longleftrightarrow> length xs = bc_params c \<and> total_wires c \<sigma> \<le> length ws
   \<and> (\<forall>w < bc_params c. ws ! w = xs ! w)
   \<and> (\<forall>w. bc_params c \<le> w \<longrightarrow> w < next_anc \<sigma> \<longrightarrow> \<not> ws ! w)
   \<and> (\<forall>w. next_anc \<sigma> + length (bc_outputs c) \<le> w \<longrightarrow> w < total_wires c \<sigma> \<longrightarrow> \<not> ws ! w)"

definition prov_start :: "'p BCircuit \<Rightarrow> bool list \<Rightarrow> bool list" where
  "prov_start c xs = xs @ replicate (prov_wires c - bc_params c) False"

lemma prov_start_nth:
  assumes "length xs = bc_params c"
  shows "length (prov_start c xs) = prov_wires c"
    and "w < bc_params c \<Longrightarrow> prov_start c xs ! w = xs ! w"
    and "bc_params c \<le> w \<Longrightarrow> w < prov_wires c \<Longrightarrow> \<not> prov_start c xs ! w"
  using assms by (auto simp: prov_start_def nth_append prov_wires_def scratch_base_def)

lemma sem_init:
  assumes "length xs = bc_params c"
  shows "sem c 0 (synth_init c) xs st (prov_start c xs, st)"
  using prov_start_nth [OF assms] assms
  by (auto simp: sem_def synth_init_def pool_new_def prov_wires_def scratch_base_def)

lemma compute_phase:
  assumes inv: "shape c (length (bc_stmts c)) \<sigma>" and rdy: "ready c \<sigma> xs ws"
    and sem: "sem c (length (bc_stmts c)) \<sigma> vs stb (run R (sgates \<sigma>) (prov_start c xs, st))"
  shows "\<exists>ws1 st1. run R (final_gates c \<sigma>) (ws, st) = (ws1, st1) \<and> storage_eq st1 stb
    \<and> (\<forall>v < bc_params c + length (bc_stmts c). kept c (length (bc_stmts c)) v \<longrightarrow> ws1 ! (map_vec \<sigma> ! v) = vs ! v)"
proof -
  note D = shapeD [OF inv] and C = compacted_simps [OF inv] and S = prov_start_nth [of xs c]
  have len: "length xs = bc_params c" using rdy by (simp add: ready_def)
  obtain ws0 st0 where r0: "run R (sgates \<sigma>) (prov_start c xs, st) = (ws0, st0)" by fastforce
  have "renamed (compacted c \<sigma>) (wire_dom c \<sigma>) (prov_start c xs) ws"
    unfolding renamed_def
  proof
    fix w assume w: "w \<in> wire_dom c \<sigma>"
    then have w_lt: "w < prov_wires c" using D(6,10) by (auto simp: wire_dom_def prov_wires_def scratch_base_def)
    have c_lt: "compacted c \<sigma> w < total_wires c \<sigma>"
      using compacted_lt [OF inv] wire_dom_live [OF inv] w by blast
    have "ws ! compacted c \<sigma> w = prov_start c xs ! w"
    proof (cases "w < next_anc \<sigma>")
      case True
      then show ?thesis
        using rdy S(2,3) [OF len, of w] w_lt C(1) [OF True] by (cases "w < bc_params c") (auto simp: ready_def)
    next
      case False
      then have ge: "scratch_base c \<le> w" using w by (simp add: wire_dom_def)
      then have "compacted c \<sigma> w = next_anc \<sigma> + (w - (bc_params c + length (bc_stmts c)))"
        by (intro C(3)) (simp add: scratch_base_def)
      then have "next_anc \<sigma> + length (bc_outputs c) \<le> compacted c \<sigma> w" using ge by (simp add: scratch_base_def)
      then have "\<not> ws ! compacted c \<sigma> w" using rdy c_lt by (simp add: ready_def)
      then show ?thesis using S(3) [OF len, of w] ge w_lt by (simp add: scratch_base_def)
    qed
    then show "w < length (prov_start c xs) \<and> compacted c \<sigma> w < length ws \<and> ws ! compacted c \<sigma> w = prov_start c xs ! w"
      using w_lt c_lt S(1) [OF len] rdy by (simp add: ready_def)
  qed
  moreover have "inj_on (compacted c \<sigma>) (wire_dom c \<sigma>)"
    by (rule inj_on_subset [OF compacted_inj [OF inv] wire_dom_live [OF inv]])
  moreover have "\<forall>g \<in> set (sgates \<sigma>). touches g \<subseteq> wire_dom c \<sigma>" using D(11) by (simp add: gates_shaped_def)
  ultimately obtain ws1 where r1: "run R (final_gates c \<sigma>) (ws, st) = (ws1, st0)"
    and ren: "renamed (compacted c \<sigma>) (wire_dom c \<sigma>) ws0 ws1"
    using run_rename [OF _ _ _ r0] unfolding final_gates_def by blast
  have "ws1 ! (map_vec \<sigma> ! v) = vs ! v"
    if v: "v < bc_params c + length (bc_stmts c)" and k: "kept c (length (bc_stmts c)) v" for v
  proof -
    have "map_vec \<sigma> ! v < next_anc \<sigma>" by (rule D(4) [OF v])
    then have "ws1 ! (map_vec \<sigma> ! v) = ws0 ! (map_vec \<sigma> ! v)"
      using ren C(1) [of "map_vec \<sigma> ! v"] unfolding renamed_def wire_dom_def
      by (metis UnI1 lessThan_iff)
    then show ?thesis using sem v k by (simp add: r0 sem_def)
  qed
  moreover have "storage_eq st0 stb" using sem by (simp add: r0 sem_def)
  ultimately show ?thesis using r1 by blast
qed

text \<open>Synthesis succeeds, and its loop has the semantics of the evaluator.\<close>

definition synth_supported :: "externals \<Rightarrow> 'p BCircuit \<Rightarrow> bool" where
  "synth_supported E c \<longleftrightarrow> (\<forall>n \<in> set (bc_stmts c). synthesizable (kind n)
     \<and> \<not> is_action_store (kind n) \<and> (ext_effects E \<or> is_pure_stmt (kind n)))"

lemma synthesize_naive_ok:
  assumes wf: "wf_circuit c" and syn: "\<forall>n \<in> set (bc_stmts c). synthesizable (kind n)"
  obtains \<sigma> where "shape c (length (bc_stmts c)) \<sigma>"
    and "synthesize_naive c share =
      Ok (\<lparr>num_wires = total_wires c \<sigma>, gates = final_gates c \<sigma> @ final_outs c \<sigma>\<rparr>, final_map c \<sigma>)"
    and "circuit_ok \<lparr>num_wires = total_wires c \<sigma>, gates = final_gates c \<sigma> @ final_outs c \<sigma>\<rparr>"
    and "\<And>E xs st vs ag st'. synth_supported E c \<Longrightarrow> length xs = bc_params c \<Longrightarrow>
      eval_stmts E (bc_stmts c) (bc_params c) (xs, Map.empty, st) = Some (vs, ag, st') \<Longrightarrow>
      sem c (length (bc_stmts c)) \<sigma> vs st' (run (ext_registry E) (sgates \<sigma>) (prov_start c xs, st))"
    and "(\<forall>n \<in> set (bc_stmts c). \<not> is_stateful (kind n)) \<Longrightarrow> \<forall>g \<in> set (sgates \<sigma>). \<not> is_storage_gate g"
proof -
  let ?n = "length (bc_stmts c)"
  have uses: "use_counts c = Some (map (count_list (counted_vars c)) [0..<bc_params c + ?n])"
    by (rule use_counts_Some [OF counted_vars_range [OF wf]])
  let ?uses = "map (count_list (counted_vars c)) [0..<bc_params c + ?n]"
  note loop = synth_stmts_ok [OF wf syn uses shape_init le0, of share, simplified]
  obtain \<sigma> where \<sigma>: "synth_stmts share (bc_params c) ?uses 0 (bc_stmts c) (synth_init c) = Ok \<sigma>" "shape c ?n \<sigma>"
    using loop by blast
  have outs: "\<forall>v \<in> set (bc_outputs c). v < var_space c" using wf by (simp add: wf_circuit_def)
  show thesis
  proof (rule that [of \<sigma>])
    show "shape c ?n \<sigma>" by (rule \<sigma>(2))
    show "synthesize_naive c share =
      Ok (\<lparr>num_wires = total_wires c \<sigma>, gates = final_gates c \<sigma> @ final_outs c \<sigma>\<rparr>, final_map c \<sigma>)"
      by (simp add: synthesize_naive_def uses \<sigma>(1) synth_finish_ok(1) [OF \<sigma>(2) outs])
    show "circuit_ok \<lparr>num_wires = total_wires c \<sigma>, gates = final_gates c \<sigma> @ final_outs c \<sigma>\<rparr>"
      by (rule synth_finish_ok(2) [OF \<sigma>(2) outs])
    show "\<forall>g \<in> set (sgates \<sigma>). \<not> is_storage_gate g" if "\<forall>n \<in> set (bc_stmts c). \<not> is_stateful (kind n)"
      by (rule synth_stmts_storage_free [OF \<sigma>(1) that]) (simp add: synth_init_def)
  next
    fix E xs st vs ag st'
    assume sup: "synth_supported E c" and len: "length xs = bc_params c"
      and ev: "eval_stmts E (bc_stmts c) (bc_params c) (xs, Map.empty, st) = Some (vs, ag, st')"
    have sup': "\<forall>n \<in> set (bc_stmts c). \<not> is_action_store (kind n) \<and> (ext_effects E \<or> is_pure_stmt (kind n))"
      using sup by (simp add: synth_supported_def)
    have g0: "sgates (synth_init c) = []" by (simp add: synth_init_def)
    from loop [of E] \<sigma>(1) sup' g0
    have "\<forall>vs ag stb vs' ag' stb' s. sem c 0 (synth_init c) vs stb s \<longrightarrow>
            eval_stmts E (bc_stmts c) (bc_params c) (vs, ag, stb) = Some (vs', ag', stb') \<longrightarrow>
            sem c ?n \<sigma> vs' stb' (run (ext_registry E) (sgates \<sigma>) s)"
      by (auto simp del: split_paired_All)
    then show "sem c ?n \<sigma> vs st' (run (ext_registry E) (sgates \<sigma>) (prov_start c xs, st))"
      using sem_init [OF len] ev by blast
  qed
qed

section \<open>The naive embedding\<close>

text \<open>The circuit's wire vector for inputs \<open>xs\<close>, output wires \<open>ys\<close> and a clean workspace.\<close>

definition embed :: "VarWireMap \<Rightarrow> bool list \<Rightarrow> bool list \<Rightarrow> bool list" where
  "embed m xs ys = xs @ replicate (vw_y_base m - length xs) False @ ys
     @ replicate (vw_num_wires m - vw_y_base m - length ys) False"

lemma embed_ready:
  assumes inv: "shape c (length (bc_stmts c)) \<sigma>"
    and len: "length xs = bc_params c" "length ys = length (bc_outputs c)"
  shows "ready c \<sigma> xs (embed (final_map c \<sigma>) xs ys)"
    and "length (embed (final_map c \<sigma>) xs ys) = total_wires c \<sigma>"
    and "k < length ys \<Longrightarrow> embed (final_map c \<sigma>) xs ys ! (next_anc \<sigma> + k) = ys ! k"
proof -
  have le: "bc_params c \<le> next_anc \<sigma>" by (rule shapeD(5) [OF inv])
  show "length (embed (final_map c \<sigma>) xs ys) = total_wires c \<sigma>"
    using le len by (simp add: embed_def final_map_def total_wires_def)
  then show "ready c \<sigma> xs (embed (final_map c \<sigma>) xs ys)"
    using le len by (auto simp: ready_def embed_def final_map_def nth_append total_wires_def)
  show "k < length ys \<Longrightarrow> embed (final_map c \<sigma>) xs ys ! (next_anc \<sigma> + k) = ys ! k"
    using le len by (auto simp: embed_def final_map_def nth_append)
qed

lemma eval_circuit_Some:
  assumes "eval_circuit E c xs st = Some (outs, st')"
  obtains vs ag where "length xs = bc_params c"
    and "eval_stmts E (bc_stmts c) (bc_params c) (xs, Map.empty, st) = Some (vs, ag, st')"
    and "outs = map ((!) vs) (bc_outputs c)" and "length vs = bc_params c + length (bc_stmts c)"
proof -
  from assms have len: "length xs = bc_params c" by (simp add: eval_circuit_def split: if_splits)
  with assms obtain vs ag where ev: "eval_stmts E (bc_stmts c) (bc_params c) (xs, Map.empty, st) = Some (vs, ag, st')"
    and "outs = map ((!) vs) (bc_outputs c)"
    by (auto simp: eval_circuit_def bind_eq_Some_conv nths_opt_eq_Some)
  moreover have "length vs = bc_params c + length (bc_stmts c)" using eval_stmts_length [OF ev] len by simp
  ultimately show thesis using len that by blast
qed

text \<open>What a run of a synthesised circuit leaves behind, in one lemma.\<close>

lemma naive_run:
  assumes wf: "wf_circuit c" and sup: "synth_supported E c"
    and len: "length ys = length (bc_outputs c)" "length xs = bc_params c"
    and ev: "eval_stmts E (bc_stmts c) (bc_params c) (xs, Map.empty, st) = Some (vs, ag, st')"
  shows "\<exists>rc m ws' st''. synthesize_naive c share = Ok (rc, m)
    \<and> apply_with_externals (ext_registry E) rc (embed m xs ys) st = Some (ws', st'')
    \<and> take (bc_params c) ws' = xs
    \<and> (\<forall>k < length ys. ws' ! (vw_y_base m + k) = (ys ! k \<noteq> vs ! (bc_outputs c ! k)))
    \<and> (\<forall>v < var_space c. kept c (length (bc_stmts c)) v \<longrightarrow> (\<exists>w. wire_of m v = Some w \<and> ws' ! w = vs ! v))
    \<and> storage_eq st'' st'"
proof -
  let ?R = "ext_registry E" and ?n = "length (bc_stmts c)"
  have syn: "\<forall>n \<in> set (bc_stmts c). synthesizable (kind n)" using sup by (simp add: synth_supported_def)
  obtain \<sigma> where inv: "shape c ?n \<sigma>"
    and res: "synthesize_naive c share =
      Ok (\<lparr>num_wires = total_wires c \<sigma>, gates = final_gates c \<sigma> @ final_outs c \<sigma>\<rparr>, final_map c \<sigma>)"
    and ok: "circuit_ok \<lparr>num_wires = total_wires c \<sigma>, gates = final_gates c \<sigma> @ final_outs c \<sigma>\<rparr>"
    and sem: "sem c ?n \<sigma> vs st' (run ?R (sgates \<sigma>) (prov_start c xs, st))"
    using synthesize_naive_ok [OF wf syn, of share] sup len(2) ev by metis
  note D = shapeD [OF inv]
  let ?rc = "\<lparr>num_wires = total_wires c \<sigma>, gates = final_gates c \<sigma> @ final_outs c \<sigma>\<rparr>"
  let ?ws = "embed (final_map c \<sigma>) xs ys" and ?y = "next_anc \<sigma>"
  note emb = embed_ready [OF inv len(2,1)]
  obtain ws1 st1 where r1: "run ?R (final_gates c \<sigma>) (?ws, st) = (ws1, st1)" and st1: "storage_eq st1 st'"
    and val: "\<And>v. v < bc_params c + ?n \<Longrightarrow> kept c ?n v \<Longrightarrow> ws1 ! (map_vec \<sigma> ! v) = vs ! v"
    using compute_phase [OF inv emb(1) sem] by blast
  have len1: "length ws1 = total_wires c \<sigma>"
    using length_run [of ?R "final_gates c \<sigma>" "(?ws, st)"] r1 emb(2) by simp
  let ?ws' = "wrun ?R (final_outs c \<sigma>) ws1"
  have "\<forall>g \<in> set (final_outs c \<sigma>). \<not> is_storage_gate g" by (auto simp: final_outs_def)
  then have r2: "run ?R (final_gates c \<sigma> @ final_outs c \<sigma>) (?ws, st) = (?ws', st1)"
    by (simp add: r1 run_wrun)
  then have app: "apply_with_externals ?R ?rc ?ws st = Some (?ws', st1)"
    using apply_with_externals_run [OF ok] emb(2) by simp
  have outs: "v < bc_params c + ?n" "kept c ?n v" if "v \<in> set (bc_outputs c)" for v
    using wf that by (auto simp: wf_circuit_def var_space_def kept_def reads_from_def)
  have below: "\<forall>v \<in> set (bc_outputs c). map_vec \<sigma> ! v < ?y" using D(4) outs(1) by blast
  have room: "?y + length (bc_outputs c) \<le> length ws1" by (simp add: len1 total_wires_def)
  note O = wrun_output_gates [OF below room final_outs_def, of _ ?R]
  have y_keep: "fst (run ?R (final_gates c \<sigma>) (?ws, st)) ! w = ?ws ! w"
    if w: "w < bc_params c \<or> ?y \<le> w \<and> w < ?y + length (bc_outputs c)" for w
  proof -
    have "\<forall>g \<in> set (final_gates c \<sigma>). gate_target g \<noteq> Some w"
      using final_gates_ok(2) [OF inv, of _ w] w by auto
    then show ?thesis using run_nontarget [of "final_gates c \<sigma>" w ?R "(?ws, st)"] by simp
  qed
  have "?ws' ! (?y + k) = (ys ! k \<noteq> vs ! (bc_outputs c ! k))" if "k < length ys" for k
  proof -
    have k: "k < length (bc_outputs c)" using that len(1) by simp
    have "ws1 ! (?y + k) = ys ! k" using y_keep [of "?y + k"] k r1 emb(3) [OF that] by simp
    moreover have "ws1 ! (map_vec \<sigma> ! (bc_outputs c ! k)) = vs ! (bc_outputs c ! k)"
      using val outs k by simp
    ultimately show ?thesis using O(1) [OF k] by simp
  qed
  moreover have "take (bc_params c) ?ws' = xs"
  proof (rule nth_equalityI)
    have P: "bc_params c \<le> total_wires c \<sigma>" using D(5) by (simp add: total_wires_def)
    then show "length (take (bc_params c) ?ws') = length xs" by (simp add: len1 len)
    fix i assume "i < length (take (bc_params c) ?ws')"
    then have i: "i < bc_params c" by simp
    have "?ws' ! i = ws1 ! i" using O(2) [of i] i D(5) by simp
    also have "\<dots> = ?ws ! i" using y_keep [of i] i r1 by simp
    also have "\<dots> = xs ! i" using emb(1) i by (simp add: ready_def)
    finally show "take (bc_params c) ?ws' ! i = xs ! i" using i by simp
  qed
  moreover have "\<exists>w. wire_of (final_map c \<sigma>) v = Some w \<and> ?ws' ! w = vs ! v"
    if "v < var_space c" "kept c ?n v" for v
    using that val [of v] D(1) D(4) [of v] O(2) [of "map_vec \<sigma> ! v"]
    by (simp add: wire_of_def final_map_def var_space_def)
  ultimately show ?thesis
    using res app st1 by (intro exI [of _ ?rc] exI [of _ "final_map c \<sigma>"] exI [of _ ?ws'] exI [of _ st1])
      (simp add: final_map_def)
qed

section \<open>Theorems\<close>

lemma to_reversible_naive:
  "to_reversible_with_options c \<lparr>opt_mode = Naive, opt_share_scratch = share\<rparr> = synthesize_naive c share"
  by (cases "synthesize_naive c share") (auto simp: to_reversible_with_options_def)

text \<open>C3. The naive embedding computes the circuit: for every SSA-ordered circuit of supported
  statements, running the synthesised reversible circuit on inputs \<open>xs\<close>, output wires \<open>ys\<close> and
  clean workspace keeps \<open>xs\<close>, adds the outputs of the reference evaluator to \<open>ys\<close> bit by bit,
  and leaves the storage the evaluator leaves; with and without scratch sharing.\<close>

theorem naive_embedding_correct:
  assumes "wf_circuit c" and "synth_supported E c" and "length ys = length (bc_outputs c)"
    and "eval_circuit E c xs st = Some (outs, st')"
  shows "\<exists>rc m ws' st''.
    to_reversible_with_options c \<lparr>opt_mode = Naive, opt_share_scratch = share\<rparr> = Ok (rc, m)
    \<and> apply_with_externals (ext_registry E) rc (embed m xs ys) st = Some (ws', st'')
    \<and> take (bc_params c) ws' = xs
    \<and> (\<forall>k < length ys. ws' ! (vw_y_base m + k) = (ys ! k \<noteq> outs ! k))
    \<and> storage_eq st'' st'"
proof -
  obtain vs ag where ev: "length xs = bc_params c"
      "eval_stmts E (bc_stmts c) (bc_params c) (xs, Map.empty, st) = Some (vs, ag, st')"
    and outs: "outs = map ((!) vs) (bc_outputs c)"
    using eval_circuit_Some [OF assms(4)] by metis
  show ?thesis
    using naive_run [OF assms(1,2,3) ev, of share] assms(3)
    unfolding to_reversible_naive by (auto simp: outs)
qed

theorem naive_embedding_correct_witness:
  "\<exists>rc m ws' st''.
    to_reversible_with_options memory_cell \<lparr>opt_mode = Naive, opt_share_scratch = True\<rparr> = Ok (rc, m)
    \<and> apply_with_externals (ext_registry hash_externals) rc (embed m [True, True] [True]) Map.empty = Some (ws', st'')
    \<and> take 2 ws' = [True, True] \<and> \<not> ws' ! vw_y_base m \<and> sread st'' ((0, 0), [True])"
proof -
  have "synth_supported hash_externals memory_cell"
    by (simp add: synth_supported_def memory_cell_def Node_new_def)
  moreover have "length [True] = length (bc_outputs memory_cell)" by simp
  ultimately obtain rc m ws' st'' where
    "to_reversible_with_options memory_cell \<lparr>opt_mode = Naive, opt_share_scratch = True\<rparr> = Ok (rc, m)"
    "apply_with_externals (ext_registry hash_externals) rc (embed m [True, True] [True]) Map.empty = Some (ws', st'')"
    "take 2 ws' = [True, True]" "\<not> ws' ! vw_y_base m" "storage_eq st'' [((0, 0), [True]) \<mapsto> True]"
    using naive_embedding_correct [where xs = "[True, True]" and ys = "[True]" and share = True,
      OF wf_samples(3) _ _ eval_samples(2), of hash_externals Map.empty]
    by auto
  then show ?thesis using storage_eqD [of st'' "[((0, 0), [True]) \<mapsto> True]" "((0, 0), [True])"]
    by (auto simp: sread_def)
qed

lemma naive_layout:
  assumes "wf_circuit c" and "\<forall>n \<in> set (bc_stmts c). synthesizable (kind n)"
    and "synthesize_naive c share = Ok (rc, m)"
  shows "bc_params c \<le> vw_y_base m" and "vw_y_base m + length (bc_outputs c) \<le> num_wires rc"
    and "num_wires rc = vw_num_wires m" and "validate rc = Inr ()"
proof -
  obtain \<sigma> where inv: "shape c (length (bc_stmts c)) \<sigma>"
    and res: "synthesize_naive c share =
      Ok (\<lparr>num_wires = total_wires c \<sigma>, gates = final_gates c \<sigma> @ final_outs c \<sigma>\<rparr>, final_map c \<sigma>)"
    and ok: "circuit_ok \<lparr>num_wires = total_wires c \<sigma>, gates = final_gates c \<sigma> @ final_outs c \<sigma>\<rparr>"
    using synthesize_naive_ok [OF assms(1,2), of share] by metis
  then show "bc_params c \<le> vw_y_base m" "vw_y_base m + length (bc_outputs c) \<le> num_wires rc"
    "num_wires rc = vw_num_wires m" "validate rc = Inr ()"
    using assms(3) shapeD(5) [OF inv] by (auto simp: validate_Inr final_map_def total_wires_def)
qed

text \<open>C5. Synthesis never panics: on every SSA-ordered circuit of supported statements the naive
  transform returns a circuit, that circuit passes validation, its width is the one the wire map
  announces, every variable has a wire, and inputs keep their own wires.\<close>

theorem naive_synthesis_total:
  assumes "wf_circuit c" and "\<forall>n \<in> set (bc_stmts c). synthesizable (kind n)"
  shows "\<exists>rc m. to_reversible_with_options c \<lparr>opt_mode = Naive, opt_share_scratch = share\<rparr> = Ok (rc, m)
    \<and> validate rc = Inr () \<and> num_wires rc = vw_num_wires m
    \<and> vw_y_base m + length (bc_outputs c) \<le> num_wires rc
    \<and> (\<forall>v < bc_params c. wire_of m v = Some v)
    \<and> (\<forall>v < var_space c. \<exists>w < vw_y_base m. wire_of m v = Some w)"
proof -
  obtain \<sigma> where inv: "shape c (length (bc_stmts c)) \<sigma>"
    and res: "synthesize_naive c share =
      Ok (\<lparr>num_wires = total_wires c \<sigma>, gates = final_gates c \<sigma> @ final_outs c \<sigma>\<rparr>, final_map c \<sigma>)"
    and ok: "circuit_ok \<lparr>num_wires = total_wires c \<sigma>, gates = final_gates c \<sigma> @ final_outs c \<sigma>\<rparr>"
    using synthesize_naive_ok [OF assms, of share] by metis
  note D = shapeD [OF inv]
  show ?thesis
    unfolding to_reversible_naive res
    using D(1,2,4) ok
    by (simp add: validate_Inr final_map_def wire_of_def var_space_def total_wires_def)
qed

theorem naive_synthesis_total_witness:
  "\<exists>rc m. to_reversible_with_options xor_chain \<lparr>opt_mode = Naive, opt_share_scratch = False\<rparr> = Ok (rc, m)
    \<and> validate rc = Inr () \<and> wire_of m 2 = Some 2"
  using naive_synthesis_total [OF wf_samples(2), of False] by (force simp: xor_chain_def Node_new_def)

text \<open>C6. Watchpoints: after a run, every variable that is an input, an output, or not used exactly
  once (the in-place XOR can overwrite only the latter) still sits on the wire the wire map gives
  for it, with the value the evaluator computes.\<close>

theorem watched_wires_hold_values:
  assumes "wf_circuit c" and "synth_supported E c"
    and "length xs = bc_params c" and "length ys = length (bc_outputs c)"
    and "eval_stmts E (bc_stmts c) (bc_params c) (xs, Map.empty, st) = Some (vs, ag, st')"
    and "v < var_space c"
    and "v < bc_params c \<or> v \<in> set (bc_outputs c) \<or> count_list (counted_vars c) v \<noteq> 1"
  shows "\<exists>rc m ws' st'' w.
    to_reversible_with_options c \<lparr>opt_mode = Naive, opt_share_scratch = share\<rparr> = Ok (rc, m)
    \<and> apply_with_externals (ext_registry E) rc (embed m xs ys) st = Some (ws', st'')
    \<and> wire_of m v = Some w \<and> ws' ! w = vs ! v"
proof -
  have "kept c (length (bc_stmts c)) v" using assms(7) by (auto simp: kept_def reads_from_def)
  then show ?thesis
    using naive_run [OF assms(1,2,4,3,5), of share] assms(6) unfolding to_reversible_naive by blast
qed

theorem watched_wires_hold_values_witness:
  "\<exists>rc m ws' st'' w.
    to_reversible_with_options half_adder \<lparr>opt_mode = Naive, opt_share_scratch = False\<rparr> = Ok (rc, m)
    \<and> apply_with_externals (ext_registry hash_externals) rc (embed m [True, False] [False, False]) Map.empty
       = Some (ws', st'')
    \<and> wire_of m 2 = Some w \<and> ws' ! w"
proof -
  have ev: "eval_stmts hash_externals (bc_stmts half_adder) (bc_params half_adder) ([True, False], Map.empty, Map.empty)
      = Some ([True, False, True, False], Map.empty, Map.empty)"
    by (simp add: half_adder_def Node_new_def nth_opt_def)
  have "synth_supported hash_externals half_adder"
    by (simp add: synth_supported_def half_adder_def Node_new_def)
  from watched_wires_hold_values [OF wf_samples(1) this _ _ ev, of "[False, False]" 2 False] show ?thesis
    by (simp add: half_adder_def var_space_def)
qed

end
