(* ===== verification/Hardened.thy ===== *)
theory Hardened
  imports NaiveEmbedding
begin

text \<open>
  The hardened embedding: the dirty-wire multiple-controlled NOT, the zero test of the
  workspace, the controlled clean copy, and the totality theorem: over every wire vector the
  circuit adds \<open>f(x)\<close> to the output wires exactly when the workspace is clean, and restores
  every other wire.
\<close>

section \<open>Conjugation\<close>

text \<open>Gates that do not touch a set of wires cannot tell vectors apart that differ only there.\<close>

lemma wrun_agree_off:
  assumes gs: "\<forall>g \<in> set gs. \<not> is_storage_gate g \<and> (\<forall>w \<in> touches g. w < length ws \<and> w \<notin> Y)"
    and agree: "length ws' = length ws" "\<forall>w < length ws. w \<notin> Y \<longrightarrow> ws' ! w = ws ! w"
    and w: "w < length ws" "w \<notin> Y"
  shows "wrun R gs ws' ! w = wrun R gs ws ! w"
proof -
  let ?D = "{..<length ws} - Y"
  have "renamed (\<lambda>w. w) ?D ws ws'" using agree by (auto simp: renamed_def)
  moreover have "\<forall>g \<in> set gs. touches g \<subseteq> ?D" using gs by auto
  moreover have "map (rename_gate (\<lambda>w. w)) gs = gs" by (simp add: map_idI rename_gate_id)
  moreover have "run R gs (ws, Map.empty) = (wrun R gs ws, Map.empty)"
    by (rule run_wrun) (use gs in auto)
  ultimately obtain ws1' where "run R gs (ws', Map.empty) = (ws1', Map.empty)" "renamed (\<lambda>w. w) ?D (wrun R gs ws) ws1'"
    using run_rename [of "\<lambda>w. w" ?D ws ws' gs R Map.empty "wrun R gs ws" Map.empty] by auto
  then show ?thesis using w by (simp add: wrun_def renamed_def)
qed

lemma wrun_conjugate:
  assumes A: "\<forall>g \<in> set A. \<not> is_storage_gate g \<and> gate_ok (length ws) g \<and> touches g \<inter> Y = {}"
    and B: "\<forall>g \<in> set B. \<not> is_storage_gate g"
    and off: "\<And>w. w \<notin> Y \<Longrightarrow> w < length ws \<Longrightarrow> wrun R B (wrun R A ws) ! w = wrun R A ws ! w"
    and w: "w < length ws"
  shows "wrun R (A @ B @ rev A) ws ! w = (if w \<in> Y then wrun R B (wrun R A ws) ! w else ws ! w)"
proof -
  let ?w1 = "wrun R A ws" let ?w2 = "wrun R B ?w1"
  have split: "wrun R (A @ B @ rev A) ws = wrun R (rev A) ?w2"
    using A B by (simp add: wrun_append)
  show ?thesis
  proof (cases "w \<in> Y")
    case True
    have "\<forall>g \<in> set (rev A). gate_target g \<noteq> Some w" using A True by (auto simp: touches_def)
    then show ?thesis using True by (simp add: split wrun_nontarget)
  next
    case False
    have "wrun R (rev A) ?w2 ! w = wrun R (rev A) ?w1 ! w"
    proof (rule wrun_agree_off [where Y = Y])
      show "\<forall>g \<in> set (rev A). \<not> is_storage_gate g \<and> (\<forall>w \<in> touches g. w < length ?w1 \<and> w \<notin> Y)"
        using A by (auto simp: gate_ok_def)
    qed (use off w False in auto)
    also have "wrun R (rev A) ?w1 = ws" by (rule wrun_rev) (use A in auto)
    finally show ?thesis using False by (simp add: split)
  qed
qed

section \<open>The dirty ladder\<close>

definition ladder_ok :: "nat list \<Rightarrow> nat \<Rightarrow> nat list \<Rightarrow> nat \<Rightarrow> bool" where
  "ladder_ok cs t ds n \<longleftrightarrow> 3 \<le> length cs \<and> length ds = length cs - 2 \<and> distinct ds
     \<and> set cs \<inter> set ds = {} \<and> t \<notin> set cs \<and> t \<notin> set ds \<and> t < n \<and> (\<forall>w \<in> set cs \<union> set ds. w < n)"

lemma ladder_rung_facts:
  assumes ok: "ladder_ok cs t ds n" and i: "i < length ds"
  shows "gate_ok n (ladder_rung cs ds i)" and "\<not> is_storage_gate (ladder_rung cs ds i)"
    and "t \<notin> touches (ladder_rung cs ds i)" and "gate_target (ladder_rung cs ds i) = Some (ds ! i)"
proof -
  have cs: "cs ! j \<in> set cs" "cs ! j < n" "cs ! j \<noteq> t" "cs ! j \<noteq> ds ! i" if "j \<le> Suc i" for j
  proof -
    have "j < length cs" using ok i that by (simp add: ladder_ok_def)
    then show "cs ! j \<in> set cs" by simp
    then show "cs ! j < n" "cs ! j \<noteq> t" "cs ! j \<noteq> ds ! i" using ok i by (auto simp: ladder_ok_def)
  qed
  have ds: "ds ! j < n" "ds ! j \<noteq> t" if "j < length ds" for j
    using ok nth_mem [OF that] by (auto simp: ladder_ok_def)
  have "i - 1 < length ds" using i by simp
  note dp = ds [OF this]
  have prev: "ds ! (i - 1) \<noteq> ds ! i" if "0 < i"
    using ok i that by (simp add: ladder_ok_def nth_eq_iff_index_eq)
  show "gate_target (ladder_rung cs ds i) = Some (ds ! i)" "\<not> is_storage_gate (ladder_rung cs ds i)"
    by (simp_all add: ladder_rung_def)
  show "gate_ok n (ladder_rung cs ds i)"
    using cs [of 0] cs [of 1] cs [of "Suc i"] ds [OF i] dp prev
    by (cases "i = 0") (simp_all add: ladder_rung_def gate_ok_def touches_def)
  show "t \<notin> touches (ladder_rung cs ds i)"
    using cs(3) [of 0] cs(3) [of 1] cs(3) [of "Suc i"] ds(2) [OF i] dp(2)
    by (cases "i = 0") (simp_all add: ladder_rung_def touches_def)
qed

definition rungs :: "nat list \<Rightarrow> nat list \<Rightarrow> nat \<Rightarrow> nat \<Rightarrow> RGate list" where
  "rungs cs ds f k = map (ladder_rung cs ds) [f..<k]"

lemma rungs_facts:
  assumes "ladder_ok cs t ds n" and "k \<le> length ds" and "g \<in> set (rungs cs ds f k)"
  shows "gate_ok n g" and "\<not> is_storage_gate g" and "t \<notin> touches g"
    and "\<exists>i < k. f \<le> i \<and> gate_target g = Some (ds ! i)"
  using ladder_rung_facts [OF assms(1)] assms(2,3) by (auto simp: rungs_def)

lemma wrun_rungs_frame:
  assumes ok: "ladder_ok cs t ds (length ws)" and k: "k \<le> length ds" and w: "w \<notin> set (take k ds)"
  shows "wrun R (rungs cs ds f k) ws ! w = ws ! w"
proof (rule wrun_nontarget, intro ballI notI)
  fix g assume g: "g \<in> set (rungs cs ds f k)" and "gate_target g = Some w"
  then obtain i where "i < k" "w = ds ! i" using rungs_facts(4) [OF ok k g] by auto
  then have "take k ds ! i = w" "i < length (take k ds)" using k by simp_all
  then show False using w nth_mem by blast
qed

lemma wrun_rungs_Suc:
  assumes ok: "ladder_ok cs t ds (length ws)" and k: "k < length ds" "f \<le> k"
  shows "wrun R (rungs cs ds f (Suc k)) ws ! (ds ! k) =
    (ws ! (ds ! k) \<noteq> delta R (ladder_rung cs ds k) (wrun R (rungs cs ds f k) ws))"
proof -
  let ?w = "wrun R (rungs cs ds f k) ws" and ?g = "ladder_rung cs ds k"
  have "rungs cs ds f (Suc k) = rungs cs ds f k @ [?g]" using k by (simp add: rungs_def)
  moreover have "\<forall>g \<in> set (rungs cs ds f k). \<not> is_storage_gate g"
    using rungs_facts(2) [OF ok, of k _ f] k by auto
  ultimately have "wrun R (rungs cs ds f (Suc k)) ws = wrun R [?g] ?w" by (simp add: wrun_append)
  also have "\<dots> ! (ds ! k) = (?w ! (ds ! k) \<noteq> delta R ?g ?w)"
  proof -
    have "tgt ?g = ds ! k" using ladder_rung_facts(4) [OF ok k(1)] by simp
    moreover have "wrun R [?g] ?w ! tgt ?g = (?w ! tgt ?g \<noteq> delta R ?g ?w)"
      using ladder_rung_facts [OF ok k(1)] by (intro wrun_independent) (auto simp: gate_ok_def touches_def)
    ultimately show ?thesis by simp
  qed
  also have "?w ! (ds ! k) = ws ! (ds ! k)"
    using ok k by (intro wrun_rungs_frame [OF ok]) (auto simp: ladder_ok_def in_set_conv_nth nth_eq_iff_index_eq)
  finally show ?thesis .
qed

text \<open>
  With and without the first rung, the last wire reached differs by the product of the
  controls read so far.
\<close>

lemma rungs_difference:
  assumes ok: "ladder_ok cs t ds (length ws)" and k: "k < length ds"
  shows "(wrun R (rungs cs ds 0 (Suc k)) ws ! (ds ! k) \<noteq> wrun R (rungs cs ds 1 (Suc k)) ws ! (ds ! k))
    \<longleftrightarrow> (\<forall>j < k + 2. ws ! (cs ! j))"
  using k
proof (induction k)
  case 0
  have "wrun R (rungs cs ds 1 (Suc 0)) ws = ws" by (simp add: rungs_def)
  moreover have "wrun R (rungs cs ds 0 (Suc 0)) ws ! (ds ! 0) = (ws ! (ds ! 0) \<noteq> (ws ! (cs ! 0) \<and> ws ! (cs ! 1)))"
    using wrun_rungs_Suc [OF ok, of 0 0 R] 0 by (simp add: rungs_def ladder_rung_def)
  ultimately show ?case by (auto simp: less_Suc_eq numeral_2_eq_2)
next
  case (Suc k)
  let ?G = "\<lambda>f. wrun R (rungs cs ds f (Suc k)) ws"
  have "cs ! (Suc k + 1) \<notin> set ds"
  proof -
    have "Suc k + 1 < length cs" using ok Suc.prems by (simp add: ladder_ok_def)
    then show ?thesis using ok nth_mem by (fastforce simp: ladder_ok_def)
  qed
  then have c: "?G f ! (cs ! (Suc k + 1)) = ws ! (cs ! (Suc k + 1))" for f
    using Suc.prems by (intro wrun_rungs_frame [OF ok]) (auto dest: in_set_takeD)
  have step: "wrun R (rungs cs ds f (Suc (Suc k))) ws ! (ds ! Suc k)
      = (ws ! (ds ! Suc k) \<noteq> (?G f ! (ds ! k) \<and> ws ! (cs ! (Suc k + 1))))" if "f \<le> Suc k" for f
    using wrun_rungs_Suc [OF ok Suc.prems that, of R] c by (simp add: ladder_rung_def)
  have all: "(\<forall>j < Suc k + 2. ws ! (cs ! j)) \<longleftrightarrow> (\<forall>j < k + 2. ws ! (cs ! j)) \<and> ws ! (cs ! (Suc k + 1))"
    by (auto simp: less_Suc_eq)
  have "(?G 0 ! (ds ! k) \<noteq> ?G 1 ! (ds ! k)) \<longleftrightarrow> (\<forall>j < k + 2. ws ! (cs ! j))"
    using Suc by simp
  moreover have "1 \<le> Suc k" by simp
  ultimately show ?case unfolding all step [OF le0] step [OF \<open>1 \<le> Suc k\<close>] by blast
qed

lemma append_dirty_ladder_Some:
  assumes "ladder_ok cs t ds n" and "f = (if incl then 0 else 1)"
  shows "append_dirty_ladder cs t ds incl =
    Some (rungs cs ds f (length ds) @ [Ccnot (last ds) (last cs) t] @ rev (rungs cs ds f (length ds)))"
  using assms by (auto simp: append_dirty_ladder_def ladder_ok_def rungs_def rev_map Let_def)

lemma last_notin:
  assumes "ladder_ok cs t ds n"
  shows "last cs \<in> set cs" "last ds \<in> set ds" "last cs = cs ! (length ds + 1)" "last ds = ds ! (length ds - 1)"
    "last cs \<noteq> t" "last ds \<noteq> t" "last cs \<notin> set ds"
proof -
  have ne: "cs \<noteq> []" "ds \<noteq> []" using assms by (auto simp: ladder_ok_def)
  then show mem: "last cs \<in> set cs" "last ds \<in> set ds" by simp_all
  have "3 \<le> length cs" "length ds = length cs - 2" using assms by (simp_all add: ladder_ok_def)
  then have "length cs - 1 = length ds + 1" by linarith
  then show "last cs = cs ! (length ds + 1)" "last ds = ds ! (length ds - 1)"
    using ne by (simp_all add: last_conv_nth)
  show "last cs \<noteq> t" "last ds \<noteq> t" "last cs \<notin> set ds" using assms mem by (auto simp: ladder_ok_def)
qed

text \<open>One ladder restores every wire but the target, to which it adds the last rung's product.\<close>

lemma wrun_ladder:
  assumes ok: "ladder_ok cs t ds (length ws)" and w: "w < length ws"
    and gs: "gs = rungs cs ds f (length ds) @ [Ccnot (last ds) (last cs) t] @ rev (rungs cs ds f (length ds))"
  shows "wrun R gs ws ! w = (if w = t then (ws ! t \<noteq>
      (wrun R (rungs cs ds f (length ds)) ws ! last ds \<and> ws ! last cs)) else ws ! w)"
proof -
  let ?A = "rungs cs ds f (length ds)" let ?B = "[Ccnot (last ds) (last cs) t]"
  note A = rungs_facts [OF ok le_refl, of _ f] and L = last_notin [OF ok]
  have B: "t < length v \<Longrightarrow> wrun R ?B v ! t = (v ! t \<noteq> (v ! last ds \<and> v ! last cs))"
    "u \<noteq> t \<Longrightarrow> wrun R ?B v ! u = v ! u" for v u
    by (simp_all add: wrun_def)
  have t: "t < length ws" using ok by (simp add: ladder_ok_def)
  have At: "wrun R ?A ws ! t = ws ! t"
    using ok by (intro wrun_rungs_frame [OF ok]) (auto simp: ladder_ok_def)
  have Ac: "wrun R ?A ws ! last cs = ws ! last cs"
    using L(7) by (intro wrun_rungs_frame [OF ok]) auto
  have "wrun R gs ws ! w = (if w \<in> {t} then wrun R ?B (wrun R ?A ws) ! w else ws ! w)"
    unfolding gs
  proof (rule wrun_conjugate [OF _ _ _ w])
    show "\<forall>g \<in> set ?A. \<not> is_storage_gate g \<and> gate_ok (length ws) g \<and> touches g \<inter> {t} = {}" using A by auto
    show "wrun R ?B (wrun R ?A ws) ! u = wrun R ?A ws ! u" if "u \<notin> {t}" for u using that by (simp add: B(2))
  qed simp
  then show ?thesis using t by (simp add: B(1) At Ac)
qed

definition ladder_gates :: "nat list \<Rightarrow> nat \<Rightarrow> nat list \<Rightarrow> nat \<Rightarrow> RGate list" where
  "ladder_gates cs t ds f = rungs cs ds f (length ds) @ [Ccnot (last ds) (last cs) t] @ rev (rungs cs ds f (length ds))"

lemma ladder_sum:
  "(p \<noteq> q) = J \<Longrightarrow> A = (J \<and> l) \<Longrightarrow> ((a \<noteq> (p \<and> l)) \<noteq> (q \<and> l)) = (a \<noteq> A)"
  by blast

lemma wrun_ladder_pair:
  assumes ok: "ladder_ok cs t ds (length ws)" and w: "w < length ws"
  shows "wrun R (ladder_gates cs t ds 0 @ ladder_gates cs t ds 1) ws ! w
    = (if w = t then (ws ! t \<noteq> (\<forall>c \<in> set cs. ws ! c)) else ws ! w)"
proof -
  let ?k = "length ds - 1" and ?p = "\<lambda>f v. wrun R (rungs cs ds f (length ds)) v ! last ds"
  have ds: "Suc ?k = length ds" "?k < length ds" using ok by (auto simp: ladder_ok_def)
  note L = last_notin [OF ok]
  have sf: "\<forall>g \<in> set (ladder_gates cs t ds 0). \<not> is_storage_gate g"
    using rungs_facts(2) [OF ok le_refl, of _ 0] by (auto simp: ladder_gates_def)
  have t: "t < length ws" using ok by (simp add: ladder_ok_def)
  define w1 where "w1 = wrun R (ladder_gates cs t ds 0) ws"
  have len: "length w1 = length ws" by (simp add: w1_def)
  have w1: "w1 ! u = (if u = t then (ws ! t \<noteq> (?p 0 ws \<and> ws ! last cs)) else ws ! u)" if "u < length ws" for u
    unfolding w1_def by (rule wrun_ladder [OF ok that ladder_gates_def])
  have cs_lt: "c < length ws \<and> c \<noteq> t" if "c \<in> set cs \<or> c \<in> set ds" for c using ok that by (auto simp: ladder_ok_def)
  have same: "?p 1 w1 = ?p 1 ws"
  proof (rule wrun_agree_off [where Y = "{t}"])
    show "\<forall>g \<in> set (rungs cs ds 1 (length ds)). \<not> is_storage_gate g \<and> (\<forall>w \<in> touches g. w < length ws \<and> w \<notin> {t})"
      using rungs_facts [OF ok le_refl, of _ 1] by (auto simp: gate_ok_def)
  qed (use w1 cs_lt L len in auto)
  have both: "wrun R (ladder_gates cs t ds 0 @ ladder_gates cs t ds 1) ws ! w = wrun R (ladder_gates cs t ds 1) w1 ! w"
    unfolding w1_def by (rule arg_cong [OF wrun_append [OF sf]])
  have ok1: "ladder_ok cs t ds (length w1)" using ok by (simp only: len)
  have w': "w < length w1" using w by (simp only: len)
  have second: "wrun R (ladder_gates cs t ds 1) w1 ! w
      = (if w = t then (w1 ! t \<noteq> (?p 1 w1 \<and> w1 ! last cs)) else w1 ! w)"
    by (rule wrun_ladder [OF ok1 w' ladder_gates_def])
  have diff: "(?p 0 ws \<noteq> ?p 1 ws) \<longleftrightarrow> (\<forall>j < length ds + 1. ws ! (cs ! j))"
    using rungs_difference [OF ok ds(2), of R] ds by (simp add: L(4))
  have "3 \<le> length cs" "length ds = length cs - 2" using ok by (simp_all add: ladder_ok_def)
  then have "length cs = Suc (length ds + 1)" by linarith
  then have all: "(\<forall>c \<in> set cs. ws ! c) \<longleftrightarrow> (\<forall>j < length ds + 1. ws ! (cs ! j)) \<and> ws ! last cs"
    by (auto simp: all_set_conv_all_nth L(3) less_Suc_eq)
  have lc: "w1 ! last cs = ws ! last cs" using w1 [of "last cs"] cs_lt [of "last cs"] L(1) by simp
  show ?thesis
  proof (cases "w = t")
    case True
    have "w1 ! t = (ws ! t \<noteq> (?p 0 ws \<and> ws ! last cs))" using w1 [OF t] by simp
    then show ?thesis
      unfolding both second same lc using True ladder_sum [OF diff all, of "ws ! t"] by simp
  next
    case False
    then show ?thesis unfolding both second using w1 [OF w] by simp
  qed
qed

section \<open>The zero test\<close>

definition mcx_ok :: "nat list \<Rightarrow> nat \<Rightarrow> nat list \<Rightarrow> nat \<Rightarrow> bool" where
  "mcx_ok cs t ds n \<longleftrightarrow> cs \<noteq> [] \<and> distinct cs \<and> length ds = length cs - 2 \<and> distinct ds
     \<and> set cs \<inter> set ds = {} \<and> t \<notin> set cs \<and> t \<notin> set ds \<and> t < n \<and> (\<forall>w \<in> set cs \<union> set ds. w < n)"

lemma append_mcx_cases:
  assumes ok: "mcx_ok cs t ds n"
  obtains c where "cs = [c]" and "append_mcx_with_dirty cs t ds = Some [Cnot c t]"
  | c1 c2 where "cs = [c1, c2]" and "append_mcx_with_dirty cs t ds = Some [Ccnot c1 c2 t]"
  | "ladder_ok cs t ds n"
    and "append_mcx_with_dirty cs t ds = Some (ladder_gates cs t ds 0 @ ladder_gates cs t ds 1)"
proof -
  have "length cs = 1 \<or> length cs = 2 \<or> 3 \<le> length cs"
  proof -
    have "length cs \<noteq> 0" using ok by (simp add: mcx_ok_def)
    then show ?thesis by linarith
  qed
  then show thesis
  proof (elim disjE)
    assume "length cs = 1"
    then obtain c where "cs = [c]" by (auto simp: length_Suc_conv)
    then show thesis using that(1) by (simp add: append_mcx_with_dirty_def)
  next
    assume "length cs = 2"
    then obtain c1 c2 where "cs = [c1, c2]" by (auto simp: length_Suc_conv numeral_2_eq_2)
    then show thesis using that(2) by (simp add: append_mcx_with_dirty_def)
  next
    assume len: "3 \<le> length cs"
    then have lad: "ladder_ok cs t ds n" using ok by (simp add: mcx_ok_def ladder_ok_def)
    have "take (length cs - 2) ds = ds" using ok by (simp add: mcx_ok_def)
    moreover have "length ds = length cs - 2" using ok by (simp add: mcx_ok_def)
    moreover obtain c1 c2 c3 rest where "cs = c1 # c2 # c3 # rest"
    proof -
      obtain c1 cs1 where 1: "cs = c1 # cs1" using len by (cases cs) auto
      obtain c2 cs2 where 2: "cs1 = c2 # cs2" using len 1 by (cases cs1) auto
      obtain c3 cs3 where 3: "cs2 = c3 # cs3" using len 1 2 by (cases cs2) auto
      show thesis by (rule that) (simp only: 1 2 3)
    qed
    ultimately have "append_mcx_with_dirty cs t ds =
        do { gs1 \<leftarrow> append_dirty_ladder cs t ds True; gs2 \<leftarrow> append_dirty_ladder cs t ds False; Some (gs1 @ gs2) }"
      by (simp add: append_mcx_with_dirty_def)
    then show thesis
      using that(3) lad append_dirty_ladder_Some [OF lad refl] by (simp add: ladder_gates_def)
  qed
qed

lemma append_mcx_correct:
  assumes ok: "mcx_ok cs t ds n"
  obtains gs where "append_mcx_with_dirty cs t ds = Some gs"
    and "\<forall>g \<in> set gs. gate_ok n g \<and> \<not> is_storage_gate g"
    and "\<And>R ws w. length ws = n \<Longrightarrow> w < n \<Longrightarrow>
      wrun R gs ws ! w = (if w = t then (ws ! t \<noteq> (\<forall>c \<in> set cs. ws ! c)) else ws ! w)"
proof (cases rule: append_mcx_cases [OF ok])
  case (1 c)
  then show thesis using ok that [of "[Cnot c t]"]
    by (simp add: mcx_ok_def gate_ok_def touches_def wrun_def)
next
  case (2 c1 c2)
  then show thesis using ok that [of "[Ccnot c1 c2 t]"]
    by (simp add: mcx_ok_def gate_ok_def touches_def wrun_def)
next
  case 3
  show thesis
  proof (rule that [OF 3(2)])
    note L = last_notin [OF 3(1)]
    have "gate_ok n (Ccnot (last ds) (last cs) t)"
      using 3(1) L by (auto simp: gate_ok_def touches_def ladder_ok_def)
    then show "\<forall>g \<in> set (ladder_gates cs t ds 0 @ ladder_gates cs t ds 1). gate_ok n g \<and> \<not> is_storage_gate g"
      using rungs_facts(1,2) [OF 3(1) le_refl] by (auto simp: ladder_gates_def)
  next
    fix R and ws :: "bool list" and w assume "length ws = n" "w < n"
    then show "wrun R (ladder_gates cs t ds 0 @ ladder_gates cs t ds 1) ws ! w
        = (if w = t then (ws ! t \<noteq> (\<forall>c \<in> set cs. ws ! c)) else ws ! w)"
      using 3(1) by (intro wrun_ladder_pair) simp_all
  qed
qed

lemma wrun_flip:
  assumes "distinct cs" and "\<forall>c \<in> set cs. c < length ws" and "w < length ws"
  shows "wrun R (map X cs) ws ! w = (ws ! w \<noteq> (w \<in> set cs))"
proof (cases "w \<in> set cs")
  case True
  have "wrun R (map X cs) ws ! tgt (X w) = (ws ! tgt (X w) \<noteq> delta R (X w) ws)"
    using assms True by (intro wrun_independent) (auto simp: comp_def)
  then show ?thesis using True by simp
next
  case False
  then have "wrun R (map X cs) ws ! w = ws ! w" by (intro wrun_nontarget) auto
  then show ?thesis using False by simp
qed

lemma zero_test_correct:
  assumes ok: "mcx_ok cs t ds n"
  obtains gs where "append_zero_test cs t ds = Some gs"
    and "\<forall>g \<in> set gs. gate_ok n g \<and> \<not> is_storage_gate g"
    and "\<And>R ws w. length ws = n \<Longrightarrow> w < n \<Longrightarrow>
      wrun R gs ws ! w = (if w = t then (ws ! t \<noteq> (\<forall>c \<in> set cs. \<not> ws ! c)) else ws ! w)"
proof -
  obtain gs where gs: "append_mcx_with_dirty cs t ds = Some gs" "\<forall>g \<in> set gs. gate_ok n g \<and> \<not> is_storage_gate g"
    and mcx: "\<And>R ws w. length ws = n \<Longrightarrow> w < n \<Longrightarrow>
      wrun R gs ws ! w = (if w = t then (ws ! t \<noteq> (\<forall>c \<in> set cs. ws ! c)) else ws ! w)"
    by (rule append_mcx_correct [OF ok]) blast
  have cs: "distinct cs" "\<forall>c \<in> set cs. c < n" "t \<notin> set cs" "t < n" using ok by (simp_all add: mcx_ok_def)
  show thesis
  proof (rule that [of "map X cs @ gs @ map X cs"])
    show "append_zero_test cs t ds = Some (map X cs @ gs @ map X cs)" by (simp add: append_zero_test_def gs)
    show "\<forall>g \<in> set (map X cs @ gs @ map X cs). gate_ok n g \<and> \<not> is_storage_gate g"
      using gs(2) cs by (auto simp: gate_ok_def touches_def)
  next
    fix R and ws :: "bool list" and w assume len: "length ws = n" and w: "w < n"
    let ?w1 = "wrun R (map X cs) ws" let ?w2 = "wrun R gs ?w1"
    have x: "\<forall>g \<in> set (map X cs). \<not> is_storage_gate g" and sf: "\<forall>g \<in> set gs. \<not> is_storage_gate g" using gs(2) by auto
    have f1: "?w1 ! u = (ws ! u \<noteq> (u \<in> set cs))" if "u < n" for u using wrun_flip [of cs ws u] cs len that by simp
    have f2: "?w2 ! u = (if u = t then (?w1 ! t \<noteq> (\<forall>c \<in> set cs. ?w1 ! c)) else ?w1 ! u)" if "u < n" for u
      using mcx [of ?w1 u] len that by simp
    have "wrun R (map X cs @ gs @ map X cs) ws = wrun R (map X cs) ?w2"
      by (simp only: wrun_append [OF x] wrun_append [OF sf])
    then have "wrun R (map X cs @ gs @ map X cs) ws ! w = (?w2 ! w \<noteq> (w \<in> set cs))"
      using wrun_flip [of cs ?w2 w R] cs len w by simp
    also have "\<dots> = (if w = t then (ws ! t \<noteq> (\<forall>c \<in> set cs. \<not> ws ! c)) else ws ! w)"
      using f2 [OF w] f1 [OF w] f1 cs by (cases "w = t") auto
    finally show "wrun R (map X cs @ gs @ map X cs) ws ! w
        = (if w = t then (ws ! t \<noteq> (\<forall>c \<in> set cs. \<not> ws ! c)) else ws ! w)" .
  qed
qed

section \<open>The controlled clean copy\<close>

lemma wrun_controlled_outputs:
  assumes below: "\<forall>v \<in> set outs. mv ! v < yb" and sel: "yb + length outs \<le> sel" "sel < length ws"
    and gs: "gs = map (\<lambda>(j, v). Ccnot (mv ! v) sel (yb + j)) (enumerate 0 outs)"
  shows "k < length outs \<Longrightarrow> wrun R gs ws ! (yb + k) = (ws ! (yb + k) \<noteq> (ws ! (mv ! (outs ! k)) \<and> ws ! sel))"
    and "w < yb \<or> yb + length outs \<le> w \<Longrightarrow> wrun R gs ws ! w = ws ! w"
    and "\<forall>g \<in> set gs. \<not> is_storage_gate g \<and> gate_ok (length ws) g"
proof -
  have targets: "map tgt gs = map ((+) yb) [0..<length outs]"
    by (rule nth_equalityI) (auto simp: gs nth_enumerate_eq)
  have gates: "\<exists>v \<in> set outs. \<exists>j < length outs. g = Ccnot (mv ! v) sel (yb + j)" if "g \<in> set gs" for g
    using that by (auto simp: gs in_set_enumerate_eq)
  show ok: "\<forall>g \<in> set gs. \<not> is_storage_gate g \<and> gate_ok (length ws) g"
  proof
    fix g assume "g \<in> set gs"
    then obtain v j where "v \<in> set outs" "j < length outs" "g = Ccnot (mv ! v) sel (yb + j)" using gates by blast
    moreover from this have "mv ! v < yb" using below by blast
    ultimately show "\<not> is_storage_gate g \<and> gate_ok (length ws) g" using sel by (auto simp: gate_ok_def touches_def)
  qed
  show "wrun R gs ws ! (yb + k) = (ws ! (yb + k) \<noteq> (ws ! (mv ! (outs ! k)) \<and> ws ! sel))" if k: "k < length outs"
  proof -
    have "(k, outs ! k) \<in> set (enumerate 0 outs)" using k by (simp add: in_set_enumerate_eq)
    then have g: "Ccnot (mv ! (outs ! k)) sel (yb + k) \<in> set gs" by (auto simp: gs)
    let ?g = "Ccnot (mv ! (outs ! k)) sel (yb + k)"
    have "wrun R gs ws ! tgt ?g = (ws ! tgt ?g \<noteq> delta R ?g ws)"
    proof (rule wrun_independent [OF _ _ _ _ g])
      show "distinct (map tgt gs)" by (simp add: targets distinct_map)
      show "\<forall>g \<in> set gs. tgt g < length ws" using gates sel by fastforce
      show "\<forall>g \<in> set gs. \<not> is_storage_gate g" using ok by blast
      show "\<forall>g \<in> set gs. \<forall>h \<in> set gs. tgt g \<notin> set (gate_controls h)"
      proof (intro ballI)
        fix g h assume "g \<in> set gs" "h \<in> set gs"
        then obtain v j v' j' where "g = Ccnot (mv ! v) sel (yb + j)" "h = Ccnot (mv ! v') sel (yb + j')" "v' \<in> set outs"
          "j < length outs" using gates by meson
        moreover from this have "mv ! v' < yb" using below by blast
        ultimately show "tgt g \<notin> set (gate_controls h)" using sel by simp
      qed
    qed
    then show ?thesis by simp
  qed
  show "wrun R gs ws ! w = ws ! w" if "w < yb \<or> yb + length outs \<le> w"
    by (rule wrun_nontarget) (use gates that in fastforce)
qed

text \<open>
  One controlled clean copy: the compute gates, the controlled output copy, the compute gates
  reversed. Outside the output wires it is the identity, whatever the workspace holds.
\<close>

definition clean_copy :: "RGate list \<Rightarrow> nat list \<Rightarrow> nat \<Rightarrow> nat \<Rightarrow> ir_var list \<Rightarrow> RGate list" where
  "clean_copy U mv sel yb outs =
     U @ map (\<lambda>(j, v). Ccnot (mv ! v) sel (yb + j)) (enumerate 0 outs) @ rev U"

lemma wrun_clean_copy:
  assumes U: "\<forall>g \<in> set U. \<not> is_storage_gate g \<and> gate_ok (length ws) g
      \<and> (\<forall>w \<in> touches g. w < yb \<or> yb + length outs \<le> w)"
    and fresh: "\<forall>g \<in> set U. sel \<notin> touches g"
    and below: "\<forall>v \<in> set outs. mv ! v < yb" and sel: "yb + length outs \<le> sel" "sel < length ws"
    and w: "w < length ws"
  shows "wrun R (clean_copy U mv sel yb outs) ws ! w =
    (if yb \<le> w \<and> w < yb + length outs
     then (ws ! w \<noteq> (wrun R U ws ! (mv ! (outs ! (w - yb))) \<and> ws ! sel)) else ws ! w)"
proof -
  let ?B = "map (\<lambda>(j, v). Ccnot (mv ! v) sel (yb + j)) (enumerate 0 outs)"
  let ?Y = "{yb..<yb + length outs}" let ?w1 = "wrun R U ws"
  have sel1: "sel < length ?w1" using sel by simp
  note C = wrun_controlled_outputs [OF below sel(1) sel1 refl]
  have "wrun R (clean_copy U mv sel yb outs) ws ! w = (if w \<in> ?Y then wrun R ?B ?w1 ! w else ws ! w)"
    unfolding clean_copy_def
  proof (rule wrun_conjugate [OF _ _ _ w])
    show "\<forall>g \<in> set U. \<not> is_storage_gate g \<and> gate_ok (length ws) g \<and> touches g \<inter> ?Y = {}" using U by fastforce
    show "\<forall>g \<in> set ?B. \<not> is_storage_gate g" using C(3) by blast
    show "wrun R ?B ?w1 ! u = ?w1 ! u" if "u \<notin> ?Y" for u using C(2) that by auto
  qed
  moreover have "wrun R ?B ?w1 ! w = (ws ! w \<noteq> (?w1 ! (mv ! (outs ! (w - yb))) \<and> ws ! sel))" if y: "w \<in> ?Y"
  proof -
    have k: "w - yb < length outs" "yb + (w - yb) = w" using y by auto
    have "?w1 ! w = ws ! w" "?w1 ! sel = ws ! sel"
      using U fresh y by (auto intro!: wrun_nontarget simp: touches_def)
    then show ?thesis using C(1) [OF k(1)] by (simp only: k(2))
  qed
  ultimately show ?thesis by simp
qed

section \<open>The hardened circuit\<close>

lemma gate_ok_mono: "gate_ok n g \<Longrightarrow> n \<le> n' \<Longrightarrow> gate_ok n' g"
  by (auto simp: gate_ok_def)

text \<open>
  \<open>S; T; S; T\<close>: with \<open>S\<close> the clean copy controlled by the selector and \<open>T\<close> toggling the
  selector exactly when the workspace is clean, everything but the outputs is restored, and the
  outputs receive the copied values exactly when the workspace is clean.
\<close>

lemma wrun_two_copies:
  assumes U: "\<forall>g \<in> set U. \<not> is_storage_gate g \<and> gate_ok n g \<and> (\<forall>w \<in> touches g. w < yb \<or> yb + length outs \<le> w)"
    and fresh: "\<forall>g \<in> set U. sel \<notin> touches g"
    and below: "\<forall>v \<in> set outs. mv ! v < yb" and sel: "yb + length outs \<le> sel" "sel < n"
    and T_sf: "\<forall>g \<in> set T. \<not> is_storage_gate g"
    and T: "\<And>ws w. length ws = n \<Longrightarrow> w < n \<Longrightarrow>
      wrun R T ws ! w = (if w = sel then (ws ! sel \<noteq> (\<forall>c \<in> set cs. \<not> ws ! c)) else ws ! w)"
    and cs: "\<forall>c \<in> set cs. c < n \<and> c \<noteq> sel \<and> (c < yb \<or> yb + length outs \<le> c)"
    and len: "length ws = n" and w: "w < n"
  shows "wrun R (clean_copy U mv sel yb outs @ T @ clean_copy U mv sel yb outs @ T) ws ! w =
    (if yb \<le> w \<and> w < yb + length outs
     then (ws ! w \<noteq> ((\<forall>c \<in> set cs. \<not> ws ! c) \<and> wrun R U ws ! (mv ! (outs ! (w - yb))))) else ws ! w)"
proof -
  let ?S = "clean_copy U mv sel yb outs"
  define Y where "Y u \<longleftrightarrow> yb \<le> u \<and> u < yb + length outs" for u
  define Z where "Z \<longleftrightarrow> (\<forall>c \<in> set cs. \<not> ws ! c)"
  define s where "s = ws ! sel"
  define val where "val v u = wrun R U v ! (mv ! (outs ! (u - yb)))" for v u
  define a where "a = wrun R ?S ws"
  define b where "b = wrun R T a"
  define c where "c = wrun R ?S b"
  have lens: "length a = n" "length b = n" "length c = n" by (simp_all add: a_def b_def c_def len)
  have sel': "\<not> Y sel" using sel by (simp add: Y_def)
  have S: "wrun R ?S v ! u = (if Y u then (v ! u \<noteq> (val v u \<and> v ! sel)) else v ! u)"
    if v: "length v = n" "u < n" for v u
  proof -
    have Uv: "\<forall>g \<in> set U. \<not> is_storage_gate g \<and> gate_ok (length v) g
        \<and> (\<forall>w \<in> touches g. w < yb \<or> yb + length outs \<le> w)"
      using U by (simp only: v(1))
    have lt: "sel < length v" "u < length v" using sel(2) v by simp_all
    show ?thesis unfolding Y_def val_def by (rule wrun_clean_copy [OF Uv fresh below sel(1) lt])
  qed
  have S_sf: "\<forall>g \<in> set ?S. \<not> is_storage_gate g" using U by (auto simp: clean_copy_def)
  have a: "Y u \<Longrightarrow> a ! u = (ws ! u \<noteq> (val ws u \<and> s))" "\<not> Y u \<Longrightarrow> a ! u = ws ! u"
    if "u < n" for u using S [OF len that] by (simp_all only: a_def s_def if_True if_False)
  have Zsame: "(\<forall>c \<in> set cs. \<not> v ! c) = Z" if eq: "\<And>u. u < n \<Longrightarrow> u \<noteq> sel \<Longrightarrow> \<not> Y u \<Longrightarrow> v ! u = ws ! u" for v
  proof -
    have "v ! u = ws ! u" if u: "u \<in> set cs" for u
    proof -
      have "u < n" "u \<noteq> sel" "\<not> Y u" using bspec [OF cs u] by (auto simp: Y_def)
      then show ?thesis by (rule eq)
    qed
    then show ?thesis by (simp add: Z_def)
  qed
  have Za: "(\<forall>c \<in> set cs. \<not> a ! c) = Z" by (rule Zsame) (rule a(2))
  have b: "b ! sel = (s \<noteq> Z)" "u < n \<Longrightarrow> u \<noteq> sel \<Longrightarrow> b ! u = a ! u" for u
    using T [OF lens(1) sel(2)] T [OF lens(1), of u] a(2) [OF sel(2) sel'] Za
    by (simp_all only: b_def s_def if_True if_False refl)
  have val_b: "val b u = val ws u" if "Y u" for u
  proof -
    have "u - yb < length outs" using that by (auto simp: Y_def)
    then have m: "mv ! (outs ! (u - yb)) < yb" using below by simp
    show ?thesis
      unfolding val_def
    proof (rule wrun_agree_off [where Y = "insert sel {yb..<yb + length outs}"])
      show "\<forall>g \<in> set U. \<not> is_storage_gate g \<and> (\<forall>w \<in> touches g. w < length ws \<and> w \<notin> insert sel {yb..<yb + length outs})"
        using U fresh len by (fastforce simp: gate_ok_def)
      show "length b = length ws" by (simp add: lens len)
      show "\<forall>w < length ws. w \<notin> insert sel {yb..<yb + length outs} \<longrightarrow> b ! w = ws ! w"
        using a(2) b(2) len by (simp add: Y_def)
      show "mv ! (outs ! (u - yb)) < length ws" "mv ! (outs ! (u - yb)) \<notin> insert sel {yb..<yb + length outs}"
        using m sel len by auto
    qed
  qed
  have c: "Y u \<Longrightarrow> c ! u = (b ! u \<noteq> (val ws u \<and> (s \<noteq> Z)))" "\<not> Y u \<Longrightarrow> c ! u = b ! u" if u: "u < n" for u
    using S [OF lens(2) u] val_b [of u] b(1) by (simp_all only: c_def if_True if_False)
  have c_sel: "c ! sel = (s \<noteq> Z)" using c(2) [OF sel(2) sel'] b(1) by simp
  have Zc: "(\<forall>x \<in> set cs. \<not> c ! x) = Z" using a(2) b(2) c(2) by (intro Zsame) simp
  have "wrun R (?S @ T @ ?S @ T) ws = wrun R T c"
    by (simp only: wrun_append [OF S_sf] wrun_append [OF T_sf] a_def b_def c_def)
  moreover have "wrun R T c ! w = (if w = sel then s else c ! w)"
  proof -
    have "wrun R T c ! w = (if w = sel then ((s \<noteq> Z) \<noteq> Z) else c ! w)"
      using T [OF lens(3) w] unfolding c_sel Zc .
    moreover have "((s \<noteq> Z) \<noteq> Z) = s" by blast
    ultimately show ?thesis by (simp only:)
  qed
  moreover have "(if w = sel then s else c ! w) = (if Y w then (ws ! w \<noteq> (Z \<and> val ws w)) else ws ! w)"
  proof (cases "w = sel")
    case True
    then show ?thesis using sel' by (simp add: s_def)
  next
    case False
    show ?thesis
    proof (cases "Y w")
      case True
      have "((ws ! w \<noteq> (val ws w \<and> s)) \<noteq> (val ws w \<and> (s \<noteq> Z))) = (ws ! w \<noteq> (Z \<and> val ws w))" by blast
      then show ?thesis using True False by (simp only: c(1) [OF w True] b(2) [OF w False] a(1) [OF w True] if_True if_False)
    next
      case notY: False
      then show ?thesis using False by (simp add: c(2) [OF w notY] b(2) [OF w False] a(2) [OF w notY])
    qed
  qed
  ultimately show ?thesis unfolding Y_def Z_def val_def by (simp only:)
qed

lemma find_stateful_None:
  "find_stateful ps i ns = None \<longleftrightarrow> (\<forall>n \<in> set ns. \<not> is_stateful (kind n))"
  by (induction ns arbitrary: i) auto

text \<open>
  What a run of a hardened circuit does to a wire: \<open>clean\<close> says whether the workspace wires are
  all zero, \<open>outs\<close> is the value to add.
\<close>

definition hardened_effect :: "VarWireMap \<Rightarrow> bool list \<Rightarrow> bool list \<Rightarrow> nat \<Rightarrow> bool" where
  "hardened_effect m outs ws w =
     (if vw_y_base m \<le> w \<and> w < vw_y_base m + length outs
      then (ws ! w \<noteq> ((\<forall>z \<in> set (vw_workspace m). \<not> ws ! z) \<and> outs ! (w - vw_y_base m)))
      else ws ! w)"

text \<open>The shape of a successful \<open>harden\<close> over a synthesised circuit.\<close>

lemma harden_unfold:
  assumes inv: "shape c (length (bc_stmts c)) \<sigma>" and outs: "\<forall>v \<in> set (bc_outputs c). v < var_space c"
    and sf: "\<forall>g \<in> set (sgates \<sigma>). \<not> is_storage_gate g"
    and rc: "rc = \<lparr>num_wires = total_wires c \<sigma>, gates = final_gates c \<sigma> @ final_outs c \<sigma>\<rparr>"
    and ne: "vw_workspace (final_map c \<sigma>) \<noteq> []"
  shows "\<exists>n sel T borrowed.
    harden c rc (final_map c \<sigma>) =
      Some (\<lparr>num_wires = n, gates = clean_copy (final_gates c \<sigma>) (map_vec \<sigma>) sel (next_anc \<sigma>) (bc_outputs c) @ T
              @ clean_copy (final_gates c \<sigma>) (map_vec \<sigma>) sel (next_anc \<sigma>) (bc_outputs c) @ T\<rparr>,
            (final_map c \<sigma>)\<lparr>vw_num_wires := n, vw_borrowed := borrowed, vw_mode := Hardened\<rparr>)
    \<and> circuit_ok \<lparr>num_wires = n, gates = clean_copy (final_gates c \<sigma>) (map_vec \<sigma>) sel (next_anc \<sigma>) (bc_outputs c) @ T
              @ clean_copy (final_gates c \<sigma>) (map_vec \<sigma>) sel (next_anc \<sigma>) (bc_outputs c) @ T\<rparr>
    \<and> total_wires c \<sigma> \<le> sel \<and> sel < n \<and> (\<forall>g \<in> set T. \<not> is_storage_gate g)
    \<and> (\<forall>R ws w. length ws = n \<longrightarrow> w < n \<longrightarrow>
        wrun R T ws ! w = (if w = sel then (ws ! sel \<noteq> (\<forall>z \<in> set (vw_workspace (final_map c \<sigma>)). \<not> ws ! z)) else ws ! w))"
proof -
  note D = shapeD [OF inv]
  let ?cs = "vw_workspace (final_map c \<sigma>)" and ?N = "total_wires c \<sigma>" and ?y = "next_anc \<sigma>"
  let ?bc = "max ((length ?cs - 2) + 1) 1"
  let ?borrowed = "[?N..<?N + ?bc]"
  let ?sel = "?N + (length ?cs - 2)" and ?ds = "[?N..<?N + (length ?cs - 2)]" and ?n = "?N + length ?borrowed"
  have bc: "?bc = Suc (length ?cs - 2)" by simp
  have bor: "?borrowed = ?ds @ [?sel]" by simp
  have n: "?n = Suc ?sel" by simp
  have cs: "distinct ?cs" "\<forall>w \<in> set ?cs. w < ?N"
    by (auto simp: final_map_def total_wires_def)
  have ok: "mcx_ok ?cs ?sel ?ds ?n"
    unfolding mcx_ok_def using ne cs by auto
  obtain T where T: "append_zero_test ?cs ?sel ?ds = Some T" "\<forall>g \<in> set T. gate_ok ?n g \<and> \<not> is_storage_gate g"
    and Tsem: "\<And>R ws w. length ws = ?n \<Longrightarrow> w < ?n \<Longrightarrow>
      wrun R T ws ! w = (if w = ?sel then (ws ! ?sel \<noteq> (\<forall>z \<in> set ?cs. \<not> ws ! z)) else ws ! w)"
    by (rule zero_test_correct [OF ok]) blast
  let ?outs = "map (\<lambda>(j, v). Ccnot (map_vec \<sigma> ! v) ?sel (?y + j)) (enumerate 0 (bc_outputs c))"
  let ?S = "clean_copy (final_gates c \<sigma>) (map_vec \<sigma>) ?sel ?y (bc_outputs c)"
  have below: "\<forall>v \<in> set (bc_outputs c). map_vec \<sigma> ! v < ?y" using D(4) outs by (auto simp: var_space_def)
  have compute: "take (length (gates rc) - length (bc_outputs c)) (gates rc) = final_gates c \<sigma>"
    by (simp add: rc final_outs_def)
  have co: "controlled_outputs (map_vec \<sigma>) ?sel ?y 0 (bc_outputs c) = Some ?outs"
    using outs D(1) by (intro controlled_outputs_Some) (simp add: var_space_def)
  have sel_y: "?y + length (bc_outputs c) \<le> ?sel" by (simp add: total_wires_def)
  have outs_ok: "\<forall>g \<in> set ?outs. \<not> is_storage_gate g \<and> gate_ok ?n g"
    using wrun_controlled_outputs(3) [OF below sel_y, of "replicate ?n False" ?outs] n by simp
  have fin_ok: "\<forall>g \<in> set (final_gates c \<sigma>). gate_ok ?n g"
  proof
    fix g assume "g \<in> set (final_gates c \<sigma>)"
    from final_gates_ok(1) [OF inv this] show "gate_ok ?n g" by (rule gate_ok_mono) simp
  qed
  have circ: "circuit_ok \<lparr>num_wires = ?n, gates = ?S @ T @ ?S @ T\<rparr>"
    using fin_ok outs_ok T(2) by (auto simp: circuit_ok_def clean_copy_def)
  have fields: "vw_map (final_map c \<sigma>) = map_vec \<sigma>" "vw_y_base (final_map c \<sigma>) = ?y"
    by (simp_all add: final_map_def)
  have base: "num_wires rc = ?N" by (simp add: rc)
  have last_b: "last ?borrowed = ?sel" "butlast ?borrowed = ?ds" unfolding bor by simp_all
  have "harden c rc (final_map c \<sigma>) = Some (\<lparr>num_wires = ?n, gates = ?S @ T @ ?S @ T\<rparr>,
      (final_map c \<sigma>)\<lparr>vw_num_wires := ?n, vw_borrowed := ?borrowed, vw_mode := Hardened\<rparr>)"
  proof -
    have "RCircuit_new ?n (?S @ T @ ?S @ T) = Inr \<lparr>num_wires = ?n, gates = ?S @ T @ ?S @ T\<rparr>"
      using circ by (simp add: RCircuit_new_Inr)
    then show ?thesis
      unfolding harden_def Let_def compute base last_b fields co T(1)
      using ne by (simp add: clean_copy_def)
  qed
  then show ?thesis using circ T(2) Tsem n by (intro exI [of _ ?n] exI [of _ ?sel] exI [of _ T] exI [of _ ?borrowed]) auto
qed

lemma final_gates_storage_free:
  "\<forall>g \<in> set (sgates \<sigma>). \<not> is_storage_gate g \<Longrightarrow> \<forall>g \<in> set (final_gates c \<sigma>). \<not> is_storage_gate g"
  by (simp add: final_gates_def)

text \<open>With a clean workspace the compute gates put the evaluator's outputs on their wires.\<close>

lemma compute_values:
  assumes inv: "shape c (length (bc_stmts c)) \<sigma>" and outr: "\<forall>v \<in> set (bc_outputs c). v < var_space c"
    and sem: "sem c (length (bc_stmts c)) \<sigma> vs stb (run R (sgates \<sigma>) (prov_start c (take (bc_params c) ws), st))"
    and sf: "\<forall>g \<in> set (sgates \<sigma>). \<not> is_storage_gate g"
    and len: "total_wires c \<sigma> \<le> length ws"
    and clean: "\<forall>z \<in> set (vw_workspace (final_map c \<sigma>)). \<not> ws ! z" and k: "k < length (bc_outputs c)"
  shows "wrun R (final_gates c \<sigma>) ws ! (map_vec \<sigma> ! (bc_outputs c ! k)) = vs ! (bc_outputs c ! k)"
proof -
  have P: "bc_params c \<le> total_wires c \<sigma>" using shapeD(5) [OF inv] by (simp add: total_wires_def)
  have rdy: "ready c \<sigma> (take (bc_params c) ws) ws"
    unfolding ready_def using len P clean by (auto simp: final_map_def)
  obtain ws1 st1 where r: "run R (final_gates c \<sigma>) (ws, st) = (ws1, st1)"
    and val: "\<And>v. v < bc_params c + length (bc_stmts c) \<Longrightarrow> kept c (length (bc_stmts c)) v \<Longrightarrow>
      ws1 ! (map_vec \<sigma> ! v) = vs ! v"
    using compute_phase [OF inv rdy sem] by blast
  have "ws1 = wrun R (final_gates c \<sigma>) ws"
    using r run_wrun [OF final_gates_storage_free [OF sf, of c], of R ws st] by simp
  moreover have "bc_outputs c ! k \<in> set (bc_outputs c)" using k by simp
  moreover from this have "kept c (length (bc_stmts c)) (bc_outputs c ! k)" by (simp add: kept_def reads_from_def)
  ultimately show ?thesis using val outr by (simp add: var_space_def)
qed

lemma no_workspace_no_compute:
  assumes inv: "shape c (length (bc_stmts c)) \<sigma>" and sf: "\<forall>g \<in> set (sgates \<sigma>). \<not> is_storage_gate g"
    and none: "vw_workspace (final_map c \<sigma>) = []"
  shows "final_gates c \<sigma> = []"
proof (rule ccontr)
  assume "final_gates c \<sigma> \<noteq> []"
  then obtain g where g: "g \<in> set (final_gates c \<sigma>)" by (cases "final_gates c \<sigma>") auto
  then obtain t where t: "gate_target g = Some t"
    using final_gates_storage_free [OF sf, of c] by (meson gate_step_xor)
  have "t < total_wires c \<sigma>" using final_gates_ok(1) [OF inv g] t by (simp add: gate_ok_def touches_def)
  moreover have "bc_params c \<le> t" "t < next_anc \<sigma> \<or> next_anc \<sigma> + length (bc_outputs c) \<le> t"
    using final_gates_ok(2) [OF inv g t] by simp_all
  moreover have "next_anc \<sigma> \<le> bc_params c" "total_wires c \<sigma> \<le> next_anc \<sigma> + length (bc_outputs c)"
    using none by (auto simp: final_map_def)
  ultimately show False by linarith
qed

text \<open>C4. The hardened embedding is total: on every wire vector of the circuit's width, whatever the
  workspace and the borrowed wires hold, a run restores every wire but the outputs, leaves the
  storage alone, and adds the evaluator's outputs for the inputs on the first wires to the output
  wires exactly when all workspace wires are zero.\<close>

theorem hardened_embedding_total:
  assumes wf: "wf_circuit c" and sup: "synth_supported E c"
    and pure: "\<forall>n \<in> set (bc_stmts c). \<not> is_stateful (kind n)"
  shows "\<exists>rc m. to_reversible_with_options c \<lparr>opt_mode = Hardened, opt_share_scratch = share\<rparr> = Ok (rc, m)
    \<and> validate rc = Inr () \<and> num_wires rc = vw_num_wires m
    \<and> vw_y_base m + length (bc_outputs c) \<le> num_wires rc
    \<and> (\<forall>ws st outs st1. length ws = num_wires rc
          \<longrightarrow> eval_circuit E c (take (bc_params c) ws) st = Some (outs, st1)
          \<longrightarrow> (\<exists>ws'. apply_with_externals (ext_registry E) rc ws st = Some (ws', st)
                \<and> (\<forall>w < num_wires rc. ws' ! w = hardened_effect m outs ws w)))"
proof -
  let ?R = "ext_registry E" and ?n = "length (bc_stmts c)"
  have syn: "\<forall>n \<in> set (bc_stmts c). synthesizable (kind n)" using sup by (simp add: synth_supported_def)
  have outr: "\<forall>v \<in> set (bc_outputs c). v < var_space c" using wf by (simp add: wf_circuit_def)
  obtain \<sigma> where inv: "shape c ?n \<sigma>"
    and res: "synthesize_naive c share =
      Ok (\<lparr>num_wires = total_wires c \<sigma>, gates = final_gates c \<sigma> @ final_outs c \<sigma>\<rparr>, final_map c \<sigma>)"
    and ok: "circuit_ok \<lparr>num_wires = total_wires c \<sigma>, gates = final_gates c \<sigma> @ final_outs c \<sigma>\<rparr>"
    and sem: "\<And>xs st vs ag st'. length xs = bc_params c \<Longrightarrow>
      eval_stmts E (bc_stmts c) (bc_params c) (xs, Map.empty, st) = Some (vs, ag, st') \<Longrightarrow>
      sem c ?n \<sigma> vs st' (run ?R (sgates \<sigma>) (prov_start c xs, st))"
    and sf: "\<forall>g \<in> set (sgates \<sigma>). \<not> is_storage_gate g"
    using synthesize_naive_ok [OF wf syn, of share] sup pure by metis
  let ?rc = "\<lparr>num_wires = total_wires c \<sigma>, gates = final_gates c \<sigma> @ final_outs c \<sigma>\<rparr>"
  let ?m = "final_map c \<sigma>" and ?y = "next_anc \<sigma>" and ?F = "final_gates c \<sigma>"
  let ?clean = "\<lambda>ws. \<forall>z \<in> set (vw_workspace ?m). \<not> ws ! z"
  note D = shapeD [OF inv] and F_sf = final_gates_storage_free [OF sf, of c]
  have below: "\<forall>v \<in> set (bc_outputs c). map_vec \<sigma> ! v < ?y" using D(4) outr by (auto simp: var_space_def)
  have fields: "vw_y_base ?m = ?y" "vw_num_wires ?m = total_wires c \<sigma>" by (simp_all add: final_map_def)
  have opts: "to_reversible_with_options c \<lparr>opt_mode = Hardened, opt_share_scratch = share\<rparr>
      = of_option (harden c ?rc ?m)"
    using pure find_stateful_None [of "bc_params c" 0 "bc_stmts c"]
    by (simp add: to_reversible_with_options_def res)
  have vals: "length outs = length (bc_outputs c)
      \<and> (?clean ws \<longrightarrow> (\<forall>k < length outs. wrun ?R ?F ws ! (map_vec \<sigma> ! (bc_outputs c ! k)) = outs ! k))"
    if len: "total_wires c \<sigma> \<le> length ws" and ev: "eval_circuit E c (take (bc_params c) ws) st = Some (outs, st1)"
    for ws st outs st1
  proof -
    obtain vs ag where xs: "length (take (bc_params c) ws) = bc_params c"
      and es: "eval_stmts E (bc_stmts c) (bc_params c) (take (bc_params c) ws, Map.empty, st) = Some (vs, ag, st1)"
      and outs: "outs = map ((!) vs) (bc_outputs c)"
      using eval_circuit_Some [OF ev] by metis
    show ?thesis using compute_values [OF inv outr sem [OF xs es] sf len] by (simp add: outs)
  qed
  have finish: "\<exists>ws'. apply_with_externals ?R rc ws st = Some (ws', st)
        \<and> (\<forall>w < num_wires rc. ws' ! w = hardened_effect m outs ws w)"
    if rc_ok: "circuit_ok rc" and rc_sf: "\<forall>g \<in> set (gates rc). \<not> is_storage_gate g" and len: "length ws = num_wires rc"
      and eff: "\<And>w. w < num_wires rc \<Longrightarrow> wrun ?R (gates rc) ws ! w = hardened_effect m outs ws w"
    for rc m ws st outs
    using apply_with_externals_run [OF rc_ok len, of ?R st] run_wrun [OF rc_sf, of ?R ws st] eff by simp
  show ?thesis
  proof (cases "vw_workspace ?m = []")
    case True
    let ?m' = "?m\<lparr>vw_mode := Hardened\<rparr>"
    have F: "?F = []" by (rule no_workspace_no_compute [OF inv sf True])
    have "harden c ?rc ?m = Some (?rc, ?m')" using True by (simp add: harden_def)
    moreover have "\<exists>ws'. apply_with_externals ?R ?rc ws st = Some (ws', st)
        \<and> (\<forall>w < num_wires ?rc. ws' ! w = hardened_effect ?m' outs ws w)"
      if len: "length ws = num_wires ?rc" and ev: "eval_circuit E c (take (bc_params c) ws) st = Some (outs, st1)"
      for ws st outs st1
    proof (rule finish [OF ok _ len])
      show "\<forall>g \<in> set (gates ?rc). \<not> is_storage_gate g" by (auto simp: F final_outs_def)
      fix w assume "w < num_wires ?rc"
      have room: "?y + length (bc_outputs c) \<le> length ws" using len by (simp add: total_wires_def)
      note O = wrun_output_gates [OF below room final_outs_def]
      have V: "length outs = length (bc_outputs c)"
        "\<And>k. k < length outs \<Longrightarrow> ws ! (map_vec \<sigma> ! (bc_outputs c ! k)) = outs ! k"
        using vals [OF _ ev] len True F by simp_all
      show "wrun ?R (gates ?rc) ws ! w = hardened_effect ?m' outs ws w"
      proof (cases "?y \<le> w \<and> w < ?y + length (bc_outputs c)")
        case y: True
        then have k: "w - ?y < length (bc_outputs c)" "?y + (w - ?y) = w" by auto
        then have v: "ws ! (map_vec \<sigma> ! (bc_outputs c ! (w - ?y))) = outs ! (w - ?y)" using V(1,2) by simp
        have "wrun ?R (gates ?rc) ws ! w = (ws ! w \<noteq> outs ! (w - ?y))"
          using O(1) [OF k(1), of ?R] by (simp add: F k(2) v)
        then show ?thesis using y V(1) True by (simp add: hardened_effect_def fields)
      next
        case False
        then have "wrun ?R (gates ?rc) ws ! w = ws ! w" using O(2) [of w ?R] by (auto simp: F)
        then show ?thesis using False V(1) by (auto simp: hardened_effect_def fields)
      qed
    qed
    ultimately show ?thesis
      using opts ok by (intro exI [of _ ?rc] exI [of _ ?m']) (auto simp: validate_Inr fields total_wires_def)
  next
    case False
    obtain n sel T borrowed where
      h: "harden c ?rc ?m = Some (\<lparr>num_wires = n, gates = clean_copy ?F (map_vec \<sigma>) sel ?y (bc_outputs c) @ T
              @ clean_copy ?F (map_vec \<sigma>) sel ?y (bc_outputs c) @ T\<rparr>,
            ?m\<lparr>vw_num_wires := n, vw_borrowed := borrowed, vw_mode := Hardened\<rparr>)"
      and hok: "circuit_ok \<lparr>num_wires = n, gates = clean_copy ?F (map_vec \<sigma>) sel ?y (bc_outputs c) @ T
              @ clean_copy ?F (map_vec \<sigma>) sel ?y (bc_outputs c) @ T\<rparr>"
      and sel: "total_wires c \<sigma> \<le> sel" "sel < n" and T_sf: "\<forall>g \<in> set T. \<not> is_storage_gate g"
      and T: "\<And>ws w. length ws = n \<Longrightarrow> w < n \<Longrightarrow>
        wrun ?R T ws ! w = (if w = sel then (ws ! sel \<noteq> ?clean ws) else ws ! w)"
      using harden_unfold [where rc = ?rc, OF inv outr sf refl False] by blast
    let ?S = "clean_copy ?F (map_vec \<sigma>) sel ?y (bc_outputs c)"
    let ?h = "\<lparr>num_wires = n, gates = ?S @ T @ ?S @ T\<rparr>"
    let ?m' = "?m\<lparr>vw_num_wires := n, vw_borrowed := borrowed, vw_mode := Hardened\<rparr>"
    have sel_y: "?y + length (bc_outputs c) \<le> sel" using sel by (simp add: total_wires_def)
    have F_ok: "\<forall>g \<in> set ?F. \<not> is_storage_gate g \<and> gate_ok n g
        \<and> (\<forall>w \<in> touches g. w < ?y \<or> ?y + length (bc_outputs c) \<le> w)"
    proof
      fix g assume g: "g \<in> set ?F"
      from final_gates_ok(1) [OF inv g] have "gate_ok n g" by (rule gate_ok_mono) (use sel in simp)
      then show "\<not> is_storage_gate g \<and> gate_ok n g \<and> (\<forall>w \<in> touches g. w < ?y \<or> ?y + length (bc_outputs c) \<le> w)"
        using F_sf g final_gates_ok(3) [OF inv g] by blast
    qed
    have fresh: "\<forall>g \<in> set ?F. sel \<notin> touches g"
    proof
      fix g assume "g \<in> set ?F"
      from final_gates_ok(1) [OF inv this] have "\<forall>w \<in> touches g. w < total_wires c \<sigma>" by (simp add: gate_ok_def)
      then show "sel \<notin> touches g" using sel(1) by (auto simp: not_less)
    qed
    have cs: "\<forall>z \<in> set (vw_workspace ?m). z < n \<and> z \<noteq> sel \<and> (z < ?y \<or> ?y + length (bc_outputs c) \<le> z)"
      using sel by (auto simp: final_map_def total_wires_def)
    have "\<exists>ws'. apply_with_externals ?R ?h ws st = Some (ws', st)
        \<and> (\<forall>w < num_wires ?h. ws' ! w = hardened_effect ?m' outs ws w)"
      if len: "length ws = num_wires ?h" and ev: "eval_circuit E c (take (bc_params c) ws) st = Some (outs, st1)"
      for ws st outs st1
    proof (rule finish [OF hok _ len])
      show "\<forall>g \<in> set (gates ?h). \<not> is_storage_gate g"
        using F_sf T_sf by (auto simp: clean_copy_def)
      have len': "length ws = n" "total_wires c \<sigma> \<le> length ws" using len sel by simp_all
      have V: "length outs = length (bc_outputs c)"
        "?clean ws \<Longrightarrow> k < length outs \<Longrightarrow> wrun ?R ?F ws ! (map_vec \<sigma> ! (bc_outputs c ! k)) = outs ! k" for k
        using vals [OF len'(2) ev] by simp_all
      fix w assume "w < num_wires ?h"
      then have w: "w < n" by simp
      have eff: "wrun ?R (?S @ T @ ?S @ T) ws ! w =
          (if ?y \<le> w \<and> w < ?y + length (bc_outputs c)
           then (ws ! w \<noteq> (?clean ws \<and> wrun ?R ?F ws ! (map_vec \<sigma> ! (bc_outputs c ! (w - ?y))))) else ws ! w)"
        by (rule wrun_two_copies [OF F_ok fresh below sel_y sel(2) T_sf T cs len'(1) w])
      have "(?clean ws \<and> wrun ?R ?F ws ! (map_vec \<sigma> ! (bc_outputs c ! (w - ?y)))) = (?clean ws \<and> outs ! (w - ?y))"
        if "?y \<le> w \<and> w < ?y + length (bc_outputs c)"
      proof -
        have "w - ?y < length outs" using that V(1) by linarith
        then show ?thesis using V(2) by blast
      qed
      then show "wrun ?R (gates ?h) ws ! w = hardened_effect ?m' outs ws w"
        by (simp add: hardened_effect_def fields V(1) eff del: not_imp)
    qed
    then show ?thesis
      using opts h hok sel sel_y by (intro exI [of _ ?h] exI [of _ ?m']) (auto simp: validate_Inr fields)
  qed
qed

theorem hardened_embedding_total_witness:
  "\<exists>rc m ws'.
    to_reversible_with_options half_adder \<lparr>opt_mode = Hardened, opt_share_scratch = True\<rparr> = Ok (rc, m)
    \<and> apply_with_externals (ext_registry hash_externals) rc (replicate (num_wires rc) True) Map.empty
       = Some (ws', Map.empty)
    \<and> (\<exists>w < num_wires rc. ws' ! w
        = hardened_effect m [False, True] (replicate (num_wires rc) True) w)"
proof -
  have sup: "synth_supported hash_externals half_adder"
    by (simp add: synth_supported_def half_adder_def Node_new_def)
  have pure: "\<forall>n \<in> set (bc_stmts half_adder). \<not> is_stateful (kind n)"
    by (simp add: half_adder_def Node_new_def)
  from hardened_embedding_total [OF wf_samples(1) sup pure, of True] obtain rc m where
    r: "to_reversible_with_options half_adder \<lparr>opt_mode = Hardened, opt_share_scratch = True\<rparr> = Ok (rc, m)"
      "vw_y_base m + length (bc_outputs half_adder) \<le> num_wires rc"
    and sem: "\<And>ws st outs st1. length ws = num_wires rc \<Longrightarrow>
      eval_circuit hash_externals half_adder (take (bc_params half_adder) ws) st = Some (outs, st1) \<Longrightarrow>
      \<exists>ws'. apply_with_externals (ext_registry hash_externals) rc ws st = Some (ws', st)
        \<and> (\<forall>w < num_wires rc. ws' ! w = hardened_effect m outs ws w)"
    by blast
  have "take 2 (replicate (num_wires rc) True) = [True, True]" "0 < num_wires rc"
    using r(2) by (simp_all add: min_def numeral_2_eq_2)
  then show ?thesis
    using sem [of "replicate (num_wires rc) True" Map.empty "[False, True]" Map.empty] r(1) by auto
qed

end
