(* ===== verification/BoolarProps.thy ===== *)
theory BoolarProps
  imports Samples
begin

text \<open>
  Theorems about Boolar programs and their evaluator: fusion of a single block into a circuit
  and back, evaluation of fused programs, which programs the block loop is bound to leave,
  the oracle stream, and the layout of initialised storage.
\<close>

section \<open>Fusion\<close>

text \<open>C32. Fusion and its inverse: \<open>try_from_ir\<close> yields a circuit exactly when the program is the
  block form of that circuit and the circuit's outputs name variables of the block, so fusing
  and going back to blocks loses nothing.\<close>

theorem fusion_roundtrip:
  "try_from_ir bs = Inr c \<longleftrightarrow> to_bir_blocks c = bs \<and> list_all (\<lambda>v. v < var_space c) (bc_outputs c)"
proof
  assume "try_from_ir bs = Inr c"
  then show "to_bir_blocks c = bs \<and> list_all (\<lambda>v. v < var_space c) (bc_outputs c)"
    using try_from_ir_Inr [of bs c] by (simp add: list_all_iff)
next
  assume "to_bir_blocks c = bs \<and> list_all (\<lambda>v. v < var_space c) (bc_outputs c)"
  then show "try_from_ir bs = Inr c"
    using try_from_ir_to_bir_blocks [of c] by (auto simp: check_outputs_ok list_all_iff)
qed

text \<open>C33. A fused program evaluates without panicking: for an SSA-ordered circuit of pure statements
  (no actions, no randomness) and inputs of its width, running the original blocks through the evaluator's loop returns one
  bit per output, and they are the bits of the circuit evaluated directly on the initialised
  storage.\<close>

theorem fused_program_evaluates:
  assumes "try_from_ir bs = Inr c" and "wf_circuit c" and "\<forall>n \<in> set (bc_stmts c). is_pure_stmt (kind n)"
    and "length ins = bc_params c"
  shows "\<exists>outs st'. eval_biir E bs ins = Some (Returned outs) \<and> length outs = length (bc_outputs c)
    \<and> eval_circuit E c ins (apply_pre_init Map.empty (pre_init bs)) = Some (outs, st')"
proof -
  let ?st = "apply_pre_init Map.empty (bc_pre_init c)"
  have bs: "bs = to_bir_blocks c" using try_from_ir_Inr [OF assms(1)] by simp
  obtain vs ag st' where ev: "eval_stmts E (bc_stmts c) (bc_params c) (ins, Map.empty, ?st) = Some (vs, ag, st')"
    using eval_stmts_total [of ins "bc_stmts c" E "bc_params c" Map.empty ?st] assms(2-4)
    by (auto simp: wf_circuit_def)
  have "length vs = var_space c"
    using eval_stmts_length [OF ev] assms(4) by (simp add: var_space_def)
  then have "\<forall>v \<in> set (bc_outputs c). v < length vs" using assms(2) by (simp add: wf_circuit_def)
  then have "eval_circuit E c ins ?st = Some (map ((!) vs) (bc_outputs c), st')"
    using assms(4) by (simp add: eval_circuit_def ev)
  moreover have "pre_init bs = bc_pre_init c" by (simp add: bs to_bir_blocks_def)
  ultimately show ?thesis
    using eval_to_bir_blocks [of MAX_ITERS E c ins]
    by (simp add: bs eval_biir_def MAX_ITERS_def result_of_block_def)
qed

theorem fused_program_evaluates_witness:
  "\<exists>outs. eval_biir hash_externals (to_bir_blocks half_adder) [True, True] = Some (Returned outs)
    \<and> length outs = 2"
proof -
  have "try_from_ir (to_bir_blocks half_adder) = Inr half_adder"
    by (simp add: try_from_ir_to_bir_blocks var_space_def half_adder_def)
  moreover have "\<forall>n \<in> set (bc_stmts half_adder). is_pure_stmt (kind n)"
    by (simp add: half_adder_def Node_new_def)
  ultimately show ?thesis
    using fused_program_evaluates [OF _ wf_samples(1), of _ "[True, True]" hash_externals] by fastforce
qed

section \<open>Termination of the block loop\<close>

fun jump_targets :: "ir_var BIrTerminator \<Rightarrow> ir_var BIrTarget list" where
  "jump_targets (Jmp t) = [t]"
| "jump_targets (CondJmp val t e) = [t, e]"

text \<open>Every jump goes forward or back to block 0.\<close>

definition forward_or_restart :: "'p BIrBlock list \<Rightarrow> bool" where
  "forward_or_restart bs \<longleftrightarrow> (\<forall>i < length bs. \<forall>t \<in> set (jump_targets (terminator (bs ! i))).
     \<forall>j. tgt_block t = Block j \<longrightarrow> j = 0 \<or> i < j)"

lemma resolve_target_BJump:
  "resolve_target t vs = Some (BJump j args) \<Longrightarrow> tgt_block t = Block j"
  by (cases "tgt_block t") (auto simp: resolve_target_def bind_eq_Some_conv)

lemma eval_block_BJump:
  "eval_block E b ins st = Some (BJump j args, st') \<Longrightarrow> \<exists>t \<in> set (jump_targets (terminator b)). tgt_block t = Block j"
  by (cases "terminator b")
    (auto simp: eval_block_def bind_eq_Some_conv dest: resolve_target_BJump split: if_splits)

lemma eval_loop_returns:
  assumes fw: "forward_or_restart bs"
  shows "\<exists>r. eval_loop E bs m k cur ins st = Some r"
proof (induction "(Suc m - k) * Suc (length bs) + (if cur = 0 then 0 else length bs - cur)"
    arbitrary: k cur ins st rule: less_induct)
  case less
  show ?case
  proof (cases "(cur = 0 \<and> m < Suc k) \<or> length bs \<le> cur")
    case True
    then show ?thesis
      by (subst eval_loop_round) (auto simp: loop_round_def nth_opt_def Let_def)
  next
    case False
    then have cur: "cur < length bs" "cur = 0 \<longrightarrow> k < m" by auto
    have next_round: "\<exists>r. eval_loop E bs m (if cur = 0 then Suc k else k) j args st' = Some r"
      if jump: "eval_block E (bs ! cur) ins st = Some (BJump j args, st')" for j args st'
    proof -
      have j: "j = 0 \<or> cur < j"
        using eval_block_BJump [OF jump] fw cur(1) unfolding forward_or_restart_def by blast
      show ?thesis
      proof (rule less)
        show "(Suc m - (if cur = 0 then Suc k else k)) * Suc (length bs) + (if j = 0 then 0 else length bs - j)
            < (Suc m - k) * Suc (length bs) + (if cur = 0 then 0 else length bs - cur)"
        proof (cases "cur = 0")
          case True
          then have "Suc m - k = Suc (Suc m - Suc k)" using cur(2) by simp
          then have "(Suc m - k) * Suc (length bs) = (Suc m - Suc k) * Suc (length bs) + Suc (length bs)"
            by (simp only: mult_Suc add.commute)
          moreover have "(if j = 0 then 0 else length bs - j) < Suc (length bs)" by (cases "j = 0") simp_all
          ultimately show ?thesis unfolding True simp_thms if_True by linarith
        next
          case False
          then show ?thesis using j cur(1) by auto
        qed
      qed
    qed
    show ?thesis
    proof (cases "eval_block E (bs ! cur) ins st")
      case None
      then show ?thesis using cur by (subst eval_loop_round) (simp add: loop_round_def Let_def)
    next
      case (Some q)
      obtain r st' where q: "q = (r, st')" by (cases q)
      show ?thesis
      proof (cases r)
        case (BReturn bits)
        then show ?thesis using cur Some q by (subst eval_loop_round) (simp add: loop_round_def Let_def)
      next
        case (BJump j args)
        then show ?thesis using cur Some q next_round [of j args st']
          by (subst eval_loop_round) (simp add: loop_round_def Let_def)
      qed
    qed
  qed
qed

text \<open>C34. The iteration limit bounds every program whose jumps go forward or back to block 0: the
  evaluator then returns (a result, the limit, or a panic) on every input, whatever the limit.\<close>

theorem limited_evaluation_returns:
  assumes "forward_or_restart (blocks bs)"
  shows "\<exists>r. eval_biir_with_limit E bs ins m = Some r"
  unfolding eval_biir_with_limit_def by (rule eval_loop_returns [OF assms])

definition restart_loop :: "unit BIrBlocks" where
  "restart_loop = \<lparr>blocks = [\<lparr>params = 0, stmts = [], terminator = Jmp \<lparr>tgt_block = Block 0, tgt_args = []\<rparr>\<rparr>],
     pre_init = []\<rparr>"

theorem limited_evaluation_returns_witness:
  "\<exists>r. eval_biir_with_limit hash_externals restart_loop [] 5 = Some r"
  by (rule limited_evaluation_returns) (simp add: restart_loop_def forward_or_restart_def)

definition inner_loop :: "unit BIrBlocks" where
  "inner_loop = \<lparr>blocks = replicate 2 \<lparr>params = 0, stmts = [], terminator = Jmp \<lparr>tgt_block = Block 1, tgt_args = []\<rparr>\<rparr>,
     pre_init = []\<rparr>"

lemma inner_loop_round:
  "cur < 2 \<Longrightarrow> loop_round E (blocks inner_loop) m g k cur [] st =
     (if cur = 0 \<and> m < Suc k then Some LimitExceeded else g (if cur = 0 then Suc k else k) 1 [] st)"
  by (simp add: loop_round_def inner_loop_def eval_block_def resolve_target_def Let_def nth_opt_def)

lemma inner_loop_diverges: "eval_loop E (blocks inner_loop) m k 1 [] st = None"
proof (rule ccontr)
  assume "eval_loop E (blocks inner_loop) m k 1 [] st \<noteq> None"
  then obtain r where ret: "eval_loop E (blocks inner_loop) m k 1 [] st = Some r" by blast
  have "blocks inner_loop = blocks inner_loop \<and> (1::nat) = 1 \<and> ([]::bool list) = [] \<longrightarrow> False"
  proof (rule eval_loop.raw_induct
      [where P = "\<lambda>E bs m k cur ins st r. bs = blocks inner_loop \<and> cur = 1 \<and> ins = [] \<longrightarrow> False", OF _ ret],
      fold loop_round_def, intro impI, elim conjE)
    fix f E1 bs1 m1 k1 cur1 ins1 st1 r1
    assume IH: "\<And>E bs m k cur ins st r. f E bs m k cur ins st = Some r \<Longrightarrow>
        bs = blocks inner_loop \<and> cur = 1 \<and> ins = [] \<longrightarrow> False"
      and round: "loop_round E1 bs1 m1 (f E1 bs1 m1) k1 cur1 ins1 st1 = Some r1"
      and same: "bs1 = blocks inner_loop" "cur1 = 1" "ins1 = []"
    have "f E1 bs1 m1 k1 1 [] st1 = Some r1"
      using round by (simp add: same inner_loop_round)
    then show False using IH same by blast
  qed
  then show False by simp
qed

text \<open>The limit does not bound a cycle that avoids block 0: for the program whose block 0 enters
  a block that jumps to itself, the evaluator never returns, although its documentation promises
  the limit result after \<open>MAX_ITERS\<close> rounds.\<close>

theorem inner_cycle_never_returns: "eval_biir E inner_loop [] = None"
  unfolding eval_biir_def eval_biir_with_limit_def
  using inner_loop_round [of 0 E MAX_ITERS _ 0] inner_loop_diverges
  by (subst eval_loop_round) (simp add: MAX_ITERS_def)

section \<open>The oracle stream\<close>

text \<open>A bit of an oracle call does not depend on how many bits are asked for: bit \<open>b\<close> of a call
  of any width above \<open>b\<close> is the single bit the evaluator derives for an \<open>OracleBit\<close> statement, and
  a call returns exactly as many bits as asked.\<close>

theorem oracle_bits_stable:
  "length (hash_oracle i xs n) = n
   \<and> hash_oracle i xs n = map (\<lambda>b. last (hash_oracle i xs (Suc b))) [0..<n]"
proof -
  have "hash_oracle i xs n ! b = last (hash_oracle i xs (Suc b))" if "b < n" for b
  proof -
    let ?s = "mix_inputs (foldl fnv_mix FNV_OFFSET (to_le_bytes i)) 0 0 xs"
    have "hash_oracle i xs (Suc b) = take (Suc b) (hash_oracle i xs n)"
      unfolding hash_oracle_def by (rule expand_seed_prefix) (use that in simp)
    moreover have "last (hash_oracle i xs (Suc b)) = hash_oracle i xs (Suc b) ! b"
      by (subst last_conv_nth) (simp_all flip: length_0_conv)
    ultimately show ?thesis by simp
  qed
  then show ?thesis by (auto intro: nth_equalityI)
qed

section \<open>Initialised storage\<close>

text \<open>C37. Address arithmetic is exact: adding \<open>n\<close> to an address adds \<open>n\<close> to the number it denotes,
  widening the address when the sum does not fit and never shortening it, and different addends
  give different addresses.\<close>

theorem add_to_address_exact:
  "addr_val (add_to_address addr n) = addr_val addr + n
   \<and> length addr \<le> length (add_to_address addr n)
   \<and> (add_to_address addr n = add_to_address addr k \<longleftrightarrow> n = k)"
  using length_add_to_address add_to_address_inj by auto

lemma init_cells_other:
  "(\<forall>k \<ge> i. a \<noteq> ((s, l), add_to_address addr k)) \<Longrightarrow> init_cells_from st s l addr i data a = st a"
proof (induction data arbitrary: i st)
  case (Cons b data)
  then have ne: "a \<noteq> ((s, l), add_to_address addr i)" by blast
  have "init_cells_from (st(((s, l), add_to_address addr i) \<mapsto> b)) s l addr (Suc i) data a
      = (st(((s, l), add_to_address addr i) \<mapsto> b)) a"
    by (rule Cons.IH) (use Cons.prems in auto)
  also have "\<dots> = st a" using ne by (rule fun_upd_other)
  finally show ?case by (simp only: init_cells_from.simps)
qed simp

lemma init_cells_nth:
  "k < length data \<Longrightarrow>
   init_cells_from st s l addr i data ((s, l), add_to_address addr (i + k)) = Some (data ! k)"
proof (induction data arbitrary: i k st)
  case (Cons b data)
  show ?case
  proof (cases k)
    case 0
    have "\<forall>j \<ge> Suc i. ((s, l), add_to_address addr i) \<noteq> ((s, l), add_to_address addr j)"
      using add_to_address_inj by fastforce
    then show ?thesis using 0 by (simp add: init_cells_other)
  next
    case (Suc j)
    then show ?thesis using Cons.IH [of j _ "Suc i"] Cons.prems by simp
  qed
qed simp

text \<open>An initialised segment lays its data out at consecutive addresses: cell \<open>base + k\<close> reads the
  \<open>k\<close>-th bit of the data, and every cell that is not one of the segment's keeps its content.\<close>

theorem segment_layout:
  assumes "k < length (seg_data seg)" and "\<forall>j. a \<noteq> ((seg_storage seg, seg_lane seg), add_to_address (seg_addr seg) j)"
  shows "sread (apply_pre_init st [seg]) ((seg_storage seg, seg_lane seg), add_to_address (seg_addr seg) k)
      = seg_data seg ! k \<and> apply_pre_init st [seg] a = st a"
  using init_cells_nth [OF assms(1), of st "seg_storage seg" "seg_lane seg" "seg_addr seg" 0]
    init_cells_other [of 0 a "seg_storage seg" "seg_lane seg" "seg_addr seg" st "seg_data seg"] assms(2)
  by (simp add: apply_pre_init_def sread_def)

theorem segment_layout_witness:
  "sread (apply_pre_init Map.empty [\<lparr>seg_storage = 0, seg_lane = 0, seg_addr = [True], seg_data = [False, True]\<rparr>])
     ((0, 0), add_to_address [True] 1)"
  using segment_layout [of 1 "\<lparr>seg_storage = 0, seg_lane = 0, seg_addr = [True], seg_data = [False, True]\<rparr>"
    "((1, 0), [])" Map.empty]
  by simp

end
