(* ===== verification/RCircuitProps.thy ===== *)
theory RCircuitProps
  imports RCircuit AncillaPool
begin

text \<open>
  Theorems about reversible circuits and the ancilla pool: what validation guarantees and
  reports, inversion and composition against evaluation, the storage-free evaluator, and the
  borrow discipline of the pool.
\<close>

section \<open>Validation\<close>

text \<open>C31. A validated circuit never panics: on every wire vector of its width, every storage and
  every registry, evaluation returns a wire vector of the same width.\<close>

theorem validated_circuit_evaluates:
  assumes "RCircuit_new n gs = Inr c" and "length ws = n"
  shows "\<exists>ws' st'. apply_with_externals R c ws st = Some (ws', st') \<and> length ws' = n"
proof -
  have "circuit_ok c" and "num_wires c = n" using assms(1) by (auto simp: RCircuit_new_Inr)
  then have "apply_with_externals R c ws st = Some (run R (gates c) (ws, st))"
    using apply_with_externals_run assms(2) by simp
  then show ?thesis
    using length_run [of R "gates c" "(ws, st)"] assms(2) by (cases "run R (gates c) (ws, st)") simp
qed

theorem validated_circuit_evaluates_witness:
  "\<exists>ws' st'. apply_with_externals (ext_registry hash_externals) \<lparr>num_wires = 3, gates = [Ccnot 0 1 2, StorageSwap 0 0 [0] 1]\<rparr>
     [True, True, False] Map.empty = Some (ws', st') \<and> length ws' = 3"
proof -
  have "RCircuit_new 3 [Ccnot 0 1 2, StorageSwap 0 0 [0] 1] = Inr \<lparr>num_wires = 3, gates = [Ccnot 0 1 2, StorageSwap 0 0 [0] 1]\<rparr>"
    by (simp add: RCircuit_new_Inr circuit_ok_def gate_ok_def touches_def)
  then show ?thesis by (rule validated_circuit_evaluates) simp
qed

text \<open>Validation reports the first offending gate: an error is returned exactly when some gate is
  invalid while every gate before it is valid, and it is that gate's own error at its position.\<close>

theorem validation_reports_first:
  "RCircuit_new n gs = Inl e \<longleftrightarrow>
     (\<exists>k < length gs. list_all (gate_ok n) (take k gs) \<and> \<not> gate_ok n (gs ! k)
        \<and> validate_gate_at n k (gs ! k) = Inl e)"
proof -
  have all: "(\<forall>j < k. gate_ok n (gs ! j)) \<longleftrightarrow> list_all (gate_ok n) (take k gs)" if "k < length gs" for k
    using that by (simp add: list_all_length)
  have bad: "\<not> gate_ok n g" if "validate_gate_at n k g = Inl e" for k g
    using validate_gate_at_Inr [of n k g] that by simp
  have "RCircuit_new n gs = Inl e \<longleftrightarrow> validate_from n 0 gs = Inl e"
    by (cases "validate_from n 0 gs") (simp_all add: RCircuit_new_def validate_def)
  then show ?thesis using all bad by (auto simp: validate_from_Inl)
qed

lemma validate_from_snoc:
  "validate_from n i (gs @ [g]) = rbind (validate_from n i gs) (\<lambda>_. validate_gate_at n (i + length gs) g)"
proof (induction gs arbitrary: i)
  case (Cons h gs)
  then show ?case by (cases "validate_gate_at n i h") simp_all
next
  case Nil
  show ?case by (cases "validate_gate_at n i g") simp_all
qed

text \<open>Building a circuit gate by gate is building it at once: validating a list with one more
  gate gives the same circuit, or the same error at the same position, as pushing the gate onto
  the validated prefix.\<close>

theorem push_gate_incremental:
  "RCircuit_new n (gs @ [g]) = rbind (RCircuit_new n gs) (\<lambda>c. push_gate c g)"
  by (cases "validate_from n 0 gs"; cases "validate_gate_at n (length gs) g")
    (simp_all add: RCircuit_new_def validate_def validate_from_snoc push_gate_def)

section \<open>Inversion and composition\<close>

text \<open>C30. The inverse undoes a circuit: evaluating a validated circuit and then its inverse gives back
  the wire vector, and a storage with the same value in every cell; the inverse is validated too.\<close>

theorem inverse_undoes:
  assumes "RCircuit_new n gs = Inr c" and "length ws = n"
    and "apply_with_externals R c ws st = Some (ws', st')"
  shows "validate (inverse c) = Inr ()
    \<and> (\<exists>st''. apply_with_externals R (inverse c) ws' st' = Some (ws, st'') \<and> storage_eq st'' st)"
proof -
  have c: "circuit_ok c" "num_wires c = n" using assms(1) by (auto simp: RCircuit_new_Inr)
  have r: "run R (gates c) (ws, st) = (ws', st')"
    using apply_with_externals_run [OF c(1), of ws R st] c(2) assms(2,3) by simp
  have len: "length ws' = n" using length_run [of R "gates c" "(ws, st)"] r assms(2) by simp
  have "rstate_eq (run R (rev (gates c)) (run R (gates c) (ws, st))) (ws, st)"
    using c assms(2) by (intro run_rev_run) (simp add: circuit_ok_def)
  then have "rstate_eq (run R (rev (gates c)) (ws', st')) (ws, st)" by (simp only: r)
  moreover have "apply_with_externals R (inverse c) ws' st' = Some (run R (rev (gates c)) (ws', st'))"
    using apply_with_externals_run [of "inverse c" ws' R st'] c len by (simp add: inverse_def circuit_ok_def)
  ultimately show ?thesis
    using c(1) by (cases "run R (rev (gates c)) (ws', st')") (simp add: rstate_eq_def validate_Inr)
qed

theorem inverse_undoes_witness:
  "\<exists>st''. apply_with_externals (ext_registry hash_externals) (inverse \<lparr>num_wires = 2, gates = [X 0, Cnot 0 1]\<rparr>)
     [False, False] Map.empty = Some ([True, False], st'') \<and> storage_eq st'' Map.empty"
proof -
  have "RCircuit_new 2 [X 0, Cnot 0 1] = Inr \<lparr>num_wires = 2, gates = [X 0, Cnot 0 1]\<rparr>"
    by (simp add: RCircuit_new_Inr circuit_ok_def gate_ok_def touches_def)
  moreover have "apply_with_externals (ext_registry hash_externals) \<lparr>num_wires = 2, gates = [X 0, Cnot 0 1]\<rparr>
      [True, False] Map.empty = Some ([False, False], Map.empty)"
    by (simp add: apply_with_externals_def nth_opt_def)
  ultimately show ?thesis using inverse_undoes [of 2 "[X 0, Cnot 0 1]"] by fastforce
qed

lemma length_apply_gate_ext: "apply_gate_ext R g (ws, st) = Some (ws', st') \<Longrightarrow> length ws' = length ws"
  by (cases g) (auto simp: bind_eq_Some_conv Let_def)

lemma length_run_gates: "run_gates (apply_gate_ext R) gs (ws, st) = Some (ws', st') \<Longrightarrow> length ws' = length ws"
proof (induction gs arbitrary: ws st)
  case (Cons g gs)
  then obtain ws1 st1 where "apply_gate_ext R g (ws, st) = Some (ws1, st1)"
    "run_gates (apply_gate_ext R) gs (ws1, st1) = Some (ws', st')"
    by (auto simp: bind_eq_Some_conv)
  then show ?case using Cons.IH length_apply_gate_ext by metis
qed simp

lemma run_gates_append:
  "run_gates f (gs @ hs) s = do { s' \<leftarrow> run_gates f gs s; run_gates f hs s' }"
proof (induction gs arbitrary: s)
  case (Cons g gs)
  then show ?case by (cases "f g s") simp_all
qed simp

text \<open>Composition is sequencing: two validated circuits compose exactly when their widths agree, an
  error naming both widths otherwise, and evaluating the composition is evaluating the first and
  then the second on its wires and storage.\<close>

theorem composition_sequences:
  assumes "validate c = Inr ()" and "validate d = Inr ()"
  shows "if num_wires c = num_wires d
    then \<exists>e. then_circuit c d = Inr e
      \<and> apply_with_externals R e ws st =
          do { (ws1, st1) \<leftarrow> apply_with_externals R c ws st; apply_with_externals R d ws1 st1 }
    else then_circuit c d = Inl (WireCountMismatch (num_wires c) (num_wires d))"
proof (cases "num_wires c = num_wires d")
  case True
  let ?e = "\<lparr>num_wires = num_wires c, gates = gates c @ gates d\<rparr>"
  have "circuit_ok ?e" using assms True by (auto simp: validate_Inr circuit_ok_def)
  then have "then_circuit c d = Inr ?e" using True by (simp add: then_circuit_def RCircuit_new_Inr)
  moreover have "apply_with_externals R ?e ws st =
      do { (ws1, st1) \<leftarrow> apply_with_externals R c ws st; apply_with_externals R d ws1 st1 }"
  proof (cases "length ws = num_wires c")
    case len: True
    then show ?thesis
    proof (cases "run_gates (apply_gate_ext R) (gates c) (ws, st)")
      case (Some s)
      obtain ws1 st1 where s: "s = (ws1, st1)" by fastforce
      have "length ws1 = num_wires d" using length_run_gates Some s len True by metis
      then show ?thesis using Some s len by (simp add: apply_with_externals_def run_gates_append)
    qed (simp add: apply_with_externals_def run_gates_append)
  qed (simp add: apply_with_externals_def)
  ultimately show ?thesis using True by auto
next
  case False
  then show ?thesis by (simp add: then_circuit_def)
qed

theorem composition_sequences_witness:
  "then_circuit (RCircuit_empty 1) (RCircuit_empty 2) = Inl (WireCountMismatch 1 2)"
  using composition_sequences [of "RCircuit_empty 1" "RCircuit_empty 2"]
  by (simp add: RCircuit_empty_def validate_def)

text \<open>The storage-free evaluator: it rejects a circuit with external gates, then one with storage
  gates; on any other validated circuit it returns what the full evaluator computes, which
  neither consults the registry nor touches the storage.\<close>

theorem apply_pure_cases:
  assumes "validate c = Inr ()" and "length ws = num_wires c"
  shows "if uses_externals c then apply_pure c ws = Err ExternalOpsUnsupported
    else if uses_storage c then apply_pure c ws = Err StorageOpsUnsupported
    else \<exists>ws'. apply_pure c ws = Ok ws' \<and> apply_with_externals R c ws st = Some (ws', st)"
proof -
  have ok: "circuit_ok c" using assms(1) by (simp add: validate_Inr)
  show ?thesis
  proof (cases "uses_externals c \<or> uses_storage c")
    case False
    then have "\<forall>g \<in> set (gates c). \<not> is_storage_gate g" by (auto simp: uses_storage_def list_ex_iff)
    then have run: "run R (gates c) (ws, st) = (wrun R (gates c) ws, st)" for st by (rule run_wrun)
    have "apply_circuit c ws Map.empty = Some (wrun R (gates c) ws, Map.empty)"
      using apply_circuit_run [OF ok assms(2), of Map.empty R] run False by simp
    moreover have "apply_with_externals R c ws st = Some (wrun R (gates c) ws, st)"
      using apply_with_externals_run [OF ok assms(2)] run by simp
    ultimately show ?thesis using False by (simp add: apply_pure_def)
  qed (auto simp: apply_pure_def)
qed

theorem apply_pure_cases_witness:
  "\<exists>ws'. apply_pure \<lparr>num_wires = 2, gates = [Cnot 0 1]\<rparr> [True, False] = Ok ws'"
  using apply_pure_cases [of "\<lparr>num_wires = 2, gates = [Cnot 0 1]\<rparr>" "[True, False]"
      "ext_registry hash_externals" Map.empty]
  by (simp add: validate_def uses_externals_def uses_storage_def check_wire_def) blast

section \<open>The ancilla pool\<close>

text \<open>C36. Borrowing is exclusive and reversible: a pool whose issued wires are partitioned into
  borrowed and free hands out a wire that nobody holds, stays partitioned, and takes exactly that
  wire back, after which returning it again fails closed.\<close>

theorem borrow_and_return:
  assumes "pool_inv p" and "acquire p = (w, p')"
  shows "w \<notin> live p \<and> base p \<le> w \<and> pool_inv p' \<and> live p' = insert w (live p)
    \<and> (\<exists>p''. release w p' = Some p'' \<and> pool_inv p'' \<and> live p'' = live p \<and> release w p'' = None
         \<and> fst (acquire p'') = w)"
proof -
  note A = acquire_props [OF assms]
  have "w \<in> live p'" using A(3) by simp
  then obtain p'' where p'': "release w p' = Some p''" "pool_inv p''" "live p'' = live p' - {w}"
    by (rule release_props [OF A(1)]) blast
  moreover have "live p'' = live p" using p''(3) A(2,3) by auto
  moreover have "release w p'' = None" using p''(3) by (simp add: release_def)
  moreover have "fst (acquire p'') = w" using p''(1) by (auto simp: release_def acquire_def split: if_splits)
  ultimately show ?thesis using A(1-3,5) by simp
qed

theorem borrow_and_return_witness:
  "\<exists>p''. release 5 (snd (acquire (pool_new 5))) = Some p'' \<and> live p'' = {}"
proof -
  have "acquire (pool_new 5) = (5, snd (acquire (pool_new 5)))" and "live (pool_new 5) = {}"
    by (simp_all add: pool_new_def acquire_def)
  then show ?thesis using borrow_and_return [OF pool_inv_new, of 5 5 "snd (acquire (pool_new 5))"] by auto
qed

text \<open>The peak the circuit's width is computed from is exact: in every reachable pool the wires ever
  issued are the ones borrowed now together with the ones free for reuse.\<close>

theorem peak_is_live_plus_free:
  assumes "pool_inv p"
  shows "peak_allocated p = live_count p + length (free p)"
  using live_count_peak [OF assms] by simp

theorem peak_is_live_plus_free_witness:
  "peak_allocated (snd (acquire (pool_new 5))) = 1"
proof -
  have "pool_inv (snd (acquire (pool_new 5)))"
    using acquire_props(1) [OF pool_inv_new, of 5] by (metis prod.collapse)
  from peak_is_live_plus_free [OF this] show ?thesis
    by (simp add: pool_new_def acquire_def Let_def live_count_def)
qed

end
