(* ===== verification/FromReversible.thy ===== *)
theory FromReversible
  imports RCircuit
begin

text \<open>
  The lowering of a reversible circuit into an ordinary Boolar circuit, and the rewriting of a
  circuit's public interface (\<open>volar-ir-passes/src/from_reversible.rs\<close>): the builder that maps
  mutable wires to SSA variables, one translation per gate, hardcoding of inputs and removal of
  outputs. Only definitions; the theorems are in \<open>FromReversibleProps\<close>.
\<close>

definition U32_MAX :: nat where "U32_MAX = 2 ^ 32 - 1"
definition USIZE_MAX :: nat where "USIZE_MAX = 2 ^ 64 - 1"

datatype CircuitTransformError =
    InvalidRCircuit RCircuitError
  | WireCountOutOfRange nat
  | VarSpaceExhausted
  | UnsupportedGate nat
  | ActionBitIndexOverflow nat
  | DuplicateInput nat
  | InputOutOfRange nat nat
  | DuplicateOutput nat
  | OutputOutOfRange nat nat
  | UnknownValue nat nat

section \<open>The builder\<close>

record BoolarBuilder =
  bb_circuit :: "unit BCircuit"
  bb_wires :: "ir_var list"

text \<open>
  The builder's operations take the state they mutate and return it; the wire lookups panic on
  an index outside the wire table.
\<close>

type_synonym 'a build = "BoolarBuilder \<Rightarrow> (CircuitTransformError, 'a \<times> BoolarBuilder) outcome"

definition bthen :: "'a build \<Rightarrow> ('a \<Rightarrow> 'b build) \<Rightarrow> 'b build" where
  "bthen m f = (\<lambda>b. obind (m b) (\<lambda>(x, b'). f x b'))"

definition breturn :: "'a \<Rightarrow> 'a build" where
  "breturn x = (\<lambda>b. Ok (x, b))"

definition builder_new :: "nat \<Rightarrow> BoolarBuilder" where
  "builder_new n = \<lparr>bb_circuit = BCircuit_new n, bb_wires = [0..<n]\<rparr>"

definition checked_push_stmt ::
  "'p BCircuit \<Rightarrow> bstmt \<Rightarrow> 'p \<Rightarrow> CircuitTransformError + (ir_var \<times> 'p BCircuit)" where
  "checked_push_stmt c k p =
     (if var_space c = U32_MAX then Inl VarSpaceExhausted else Inr (circuit_push_stmt c k p None))"

definition emit :: "bstmt \<Rightarrow> ir_var build" where
  "emit k = (\<lambda>b. obind (of_result (checked_push_stmt (bb_circuit b) k ()))
     (\<lambda>(v, c). Ok (v, b\<lparr>bb_circuit := c\<rparr>)))"

definition wire :: "nat \<Rightarrow> ir_var build" where
  "wire w = (\<lambda>b. obind (of_option (nth_opt (bb_wires b) w)) (\<lambda>v. Ok (v, b)))"

definition wires :: "nat list \<Rightarrow> ir_var list build" where
  "wires ws = (\<lambda>b. obind (of_option (nths_opt (bb_wires b) ws)) (\<lambda>vs. Ok (vs, b)))"

definition set_wire :: "nat \<Rightarrow> ir_var \<Rightarrow> unit build" where
  "set_wire w v = (\<lambda>b. if w < length (bb_wires b) then Ok ((), b\<lparr>bb_wires := (bb_wires b)[w := v]\<rparr>)
                        else Panic)"

definition builder_finish :: "BoolarBuilder \<Rightarrow> unit BCircuit" where
  "builder_finish b = (bb_circuit b)\<lparr>bc_outputs := bb_wires b\<rparr>"

section \<open>Gates\<close>

definition append_xor_term :: "ir_var option \<Rightarrow> ir_var \<Rightarrow> ir_var option build" where
  "append_xor_term accumulator t =
     (case accumulator of
        Some value \<Rightarrow> bthen (emit (BXor value t)) (\<lambda>v. breturn (Some v))
      | None \<Rightarrow> breturn (Some t))"

text \<open>\<open>b_when\<close> is an \<open>if\<close> without an \<open>else\<close>, over the accumulator it may update.\<close>

definition b_when :: "bool \<Rightarrow> ('a \<Rightarrow> 'a build) \<Rightarrow> 'a \<Rightarrow> 'a build" where
  "b_when c m x = (if c then m x else breturn x)"

definition lower_lut2_xor :: "nat \<Rightarrow> nat \<Rightarrow> nat \<Rightarrow> 8 word \<Rightarrow> unit build" where
  "lower_lut2_xor c0 c1 target table =
     (let t00 = (drop_bit 3 table AND 1 \<noteq> 0);
          t01 = (drop_bit 2 table AND 1 \<noteq> 0);
          t10 = (drop_bit 1 table AND 1 \<noteq> 0);
          t11 = (table AND 1 \<noteq> 0)
      in bthen (wire c0) (\<lambda>control0. bthen (wire c1) (\<lambda>control1.
         bthen (b_when t00 (\<lambda>v. bthen (emit BOne) (\<lambda>one. append_xor_term v one)) None) (\<lambda>v1.
         bthen (b_when (t00 \<noteq> t10) (\<lambda>v. append_xor_term v control0) v1) (\<lambda>v2.
         bthen (b_when (t00 \<noteq> t01) (\<lambda>v. append_xor_term v control1) v2) (\<lambda>v3.
         bthen (b_when (((t00 \<noteq> t01) \<noteq> t10) \<noteq> t11)
                  (\<lambda>v. bthen (emit (BAnd control0 control1)) (\<lambda>product. append_xor_term v product)) v3) (\<lambda>v4.
         case v4 of
           None \<Rightarrow> breturn ()
         | Some value \<Rightarrow>
             bthen (wire target) (\<lambda>t. bthen (emit (BXor t value)) (\<lambda>nxt. set_wire target nxt)))))))))"

fun lower_gate :: "nat \<Rightarrow> RGate \<Rightarrow> unit build" where
  "lower_gate i (X target) =
     bthen (wire target) (\<lambda>t. bthen (emit (BNot t)) (\<lambda>nxt. set_wire target nxt))"
| "lower_gate i (Cnot ctrl target) =
     bthen (wire ctrl) (\<lambda>c. bthen (wire target) (\<lambda>t.
     bthen (emit (BXor c t)) (\<lambda>nxt. set_wire target nxt)))"
| "lower_gate i (Ccnot c1 c2 target) =
     bthen (wire c1) (\<lambda>a. bthen (wire c2) (\<lambda>b. bthen (emit (BAnd a b)) (\<lambda>product.
     bthen (wire target) (\<lambda>t. bthen (emit (BXor t product)) (\<lambda>nxt. set_wire target nxt)))))"
| "lower_gate i (XorLut2 c0 c1 target table) = lower_lut2_xor c0 c1 target table"
| "lower_gate i (StorageSwap storage lane addr target) =
     bthen (wires addr) (\<lambda>a. bthen (wire target) (\<lambda>target_before.
     bthen (emit (StorageRead storage lane a)) (\<lambda>stored.
     bthen (emit (StorageWrite storage lane target_before a)) (\<lambda>_.
       set_wire target stored))))"
| "lower_gate i (ExternalXor k name args target b occ) =
     bthen (case k of
              ROracle \<Rightarrow> bthen (wires args) (\<lambda>as. emit (OracleBit name as b occ))
            | RRng \<Rightarrow> emit (RngBit name b occ)) (\<lambda>source.
     bthen (wire target) (\<lambda>t. bthen (emit (BXor t source)) (\<lambda>nxt. set_wire target nxt)))"
| "lower_gate i (ExternalStorageXor name guard args fallback storage lane addr b occ) =
     (if b \<ge> USIZE_MAX then (\<lambda>_. Err (ActionBitIndexOverflow i))
      else
        bthen (wires addr) (\<lambda>a. bthen (emit (StorageRead storage lane a)) (\<lambda>stored.
        bthen (wire guard) (\<lambda>g. bthen (wires args) (\<lambda>as. bthen (wire fallback) (\<lambda>f.
        bthen (emit (ActionCall name g as (replicate (b + 1) f) (b + 1))) (\<lambda>action.
        bthen (emit (ActionBit action b)) (\<lambda>action_bit.
        bthen (emit (BXor stored action_bit)) (\<lambda>nxt.
        bthen (emit (StorageWrite storage lane nxt a)) (\<lambda>_. breturn ()))))))))))"

fun lower_gates :: "nat \<Rightarrow> RGate list \<Rightarrow> unit build" where
  "lower_gates i [] = breturn ()"
| "lower_gates i (g # gs) = bthen (lower_gate i g) (\<lambda>_. lower_gates (Suc i) gs)"

definition to_boolar_circuit :: "RCircuit \<Rightarrow> (CircuitTransformError, unit BCircuit) outcome" where
  "to_boolar_circuit source =
     (case validate source of
        Inl e \<Rightarrow> Err (InvalidRCircuit e)
      | Inr _ \<Rightarrow>
          if num_wires source > U32_MAX then Err (WireCountOutOfRange (num_wires source))
          else obind (lower_gates 0 (gates source) (builder_new (num_wires source)))
                 (\<lambda>(_, b). Ok (builder_finish b)))"

section \<open>The public interface of a circuit\<close>

text \<open>The table of fixed inputs; the first bad position is the error.\<close>

fun fix_inputs ::
  "nat \<Rightarrow> bool option list \<Rightarrow> (nat \<times> bool) list \<Rightarrow> CircuitTransformError + bool option list" where
  "fix_inputs ps fixed [] = Inr fixed"
| "fix_inputs ps fixed ((input, value) # rest) =
     (if input \<ge> length fixed then Inl (InputOutOfRange input ps)
      else if fixed ! input \<noteq> None then Inl (DuplicateInput input)
      else fix_inputs ps (fixed[input := Some value]) rest)"

definition lookup_remap :: "ir_var list \<Rightarrow> ir_var \<Rightarrow> CircuitTransformError + ir_var" where
  "lookup_remap remap v =
     (case nth_opt remap v of Some w \<Rightarrow> Inr w | None \<Rightarrow> Inl (UnknownValue v (length remap)))"

text \<open>The loop over the parameters: a constant statement for a fixed one, the next remaining
  parameter otherwise.\<close>

fun remap_params ::
  "'p \<Rightarrow> bool option list \<Rightarrow> nat \<Rightarrow> ir_var list \<Rightarrow> 'p BCircuit \<Rightarrow> ir_var list \<times> 'p BCircuit" where
  "remap_params p [] next_param remap r = (remap, r)"
| "remap_params p (Some value # fixed) next_param remap r =
     (let (v, r') = circuit_push_stmt r (if value then BOne else BZero) p None
      in remap_params p fixed next_param (remap @ [v]) r')"
| "remap_params p (None # fixed) next_param remap r =
     remap_params p fixed (Suc next_param) (remap @ [next_param]) r"

text \<open>The operands of a statement through the remap; the storage callback never fails.\<close>

definition remap_stmt :: "ir_var list \<Rightarrow> bstmt \<Rightarrow> CircuitTransformError + bstmt" where
  "remap_stmt remap k = fst (stmt_map (\<lambda>v c. (lookup_remap remap v, c)) freturn k ())"

fun remap_stmts ::
  "'p node list \<Rightarrow> ir_var list \<Rightarrow> 'p BCircuit \<Rightarrow> CircuitTransformError + (ir_var list \<times> 'p BCircuit)" where
  "remap_stmts [] remap r = Inr (remap, r)"
| "remap_stmts (n # ns) remap r =
     rbind (remap_stmt remap (kind n)) (\<lambda>k.
       if var_space r = U32_MAX then Inl VarSpaceExhausted
       else remap_stmts ns (remap @ [var_space r])
              (r\<lparr>bc_stmts := bc_stmts r @ [\<lparr>kind = k, prov = prov n, side = side n\<rparr>]\<rparr>))"

fun remap_list :: "ir_var list \<Rightarrow> ir_var list \<Rightarrow> CircuitTransformError + ir_var list" where
  "remap_list remap [] = Inr []"
| "remap_list remap (v # vs) =
     rbind (lookup_remap remap v) (\<lambda>w. rbind (remap_list remap vs) (\<lambda>ws. Inr (w # ws)))"

definition hardcode_circuit_inputs ::
  "'p BCircuit \<Rightarrow> (nat \<times> bool) list \<Rightarrow> 'p \<Rightarrow> CircuitTransformError + 'p BCircuit" where
  "hardcode_circuit_inputs c hardcoded p =
     rbind (fix_inputs (bc_params c) (replicate (bc_params c) None) hardcoded) (\<lambda>fixed.
       let remaining = length (filter (\<lambda>v. v = None) fixed);
           (remap, r) = remap_params p fixed 0 []
             \<lparr>bc_params = remaining, bc_stmts = [], bc_pre_init = bc_pre_init c, bc_outputs = []\<rparr>
       in rbind (remap_stmts (bc_stmts c) remap r) (\<lambda>(remap', r').
          rbind (remap_list remap' (bc_outputs c)) (\<lambda>outs. Inr (r'\<lparr>bc_outputs := outs\<rparr>))))"

fun check_positions ::
  "nat \<Rightarrow> nat list \<Rightarrow> nat list \<Rightarrow> CircuitTransformError + nat list" where
  "check_positions n seen [] = Inr seen"
| "check_positions n seen (k # ks) =
     (if k \<ge> n then Inl (OutputOutOfRange k n)
      else if k \<in> set seen then Inl (DuplicateOutput k)
      else check_positions n (k # seen) ks)"

definition remove_circuit_outputs ::
  "'p BCircuit \<Rightarrow> nat list \<Rightarrow> CircuitTransformError + 'p BCircuit" where
  "remove_circuit_outputs c removed =
     rbind (check_positions (length (bc_outputs c)) [] removed) (\<lambda>positions.
       Inr (c\<lparr>bc_outputs := map ((!) (bc_outputs c))
                (filter (\<lambda>k. k \<notin> set positions) [0..<length (bc_outputs c)])\<rparr>))"

end
