(* ===== verification/Renaming.thy ===== *)
theory Renaming
  imports BoolarEval
begin

text \<open>
  What the evaluation of a statement depends on: the values of its operands, the bits behind its
  call handle, and the storage. Every pass that renumbers or aliases variables is proved through
  the two lemmas of this theory: \<open>stmt_out_rename\<close> for one statement, \<open>eval_renamed\<close> for a list.
\<close>

fun handles :: "('v, 's) BIrStmt \<Rightarrow> 'v list" where
  "handles (OracleProjectedBit call _) = [call]"
| "handles (ActionBit call _) = [call]"
| "handles _ = []"

definition values_read :: "('v, 's) BIrStmt \<Rightarrow> 'v list" where
  "values_read s = (if handles s = [] then operands s else [])"

lemma set_operands: "set (operands s) = set (values_read s) \<union> set (handles s)"
  by (cases s) (auto simp: values_read_def)

text \<open>
  The outcome of a statement apart from where it records call bits: its value, the bits of a call,
  the storage after it.
\<close>

fun stmt_out ::
  "externals \<Rightarrow> bstmt \<Rightarrow> bool list \<Rightarrow> oracle_agg \<Rightarrow> bstorage \<Rightarrow> (bool \<times> bool list option \<times> bstorage) option" where
  "stmt_out E (OracleCall name args n) vs ag st =
     map_option (\<lambda>xs. (False, Some (oracle_call_fn E name xs n), st)) (nths_opt vs args)"
| "stmt_out E (ActionCall name g args fallback n) vs ag st =
     (if \<not> ext_effects E then None
      else do { gv \<leftarrow> nth_opt vs g;
                bits \<leftarrow> (if gv then map_option (\<lambda>xs. map (\<lambda>b. action_bit_fn (ext_registry E) name xs b 0) [0..<n])
                                     (nths_opt vs args)
                         else nths_opt vs fallback);
                Some (False, Some bits, st) })"
| "stmt_out E s vs ag st = map_option (\<lambda>(x, _, st'). (x, None, st')) (eval_stmt E s 0 vs ag st)"

definition put_call :: "nat \<Rightarrow> bool list option \<Rightarrow> oracle_agg \<Rightarrow> oracle_agg" where
  "put_call rv bits ag = (case bits of None \<Rightarrow> ag | Some bs \<Rightarrow> ag(rv \<mapsto> bs))"

lemma eval_stmt_out:
  "eval_stmt E s rv vs ag st =
     map_option (\<lambda>(x, bits, st'). (x, put_call rv bits ag, st')) (stmt_out E s vs ag st)"
  by (cases s) (simp_all add: put_call_def map_option_bind o_def option.map_comp map_conv_bind_option split: option.splits Option.bind_splits)

lemma eval_stmts_out:
  "eval_stmts E (n # ns) rv (vs, ag, st) =
     do { (x, bits, st') \<leftarrow> stmt_out E (kind n) vs ag st;
          eval_stmts E ns (Suc rv) (vs @ [x], put_call rv bits ag, st') }"
  by (simp add: eval_stmt_out [of E "kind n"] split: option.splits)
    (cases "stmt_out E (kind n) vs ag st"; auto)

lemma nths_opt_map_cong:
  "(\<And>v. v \<in> set as \<Longrightarrow> nth_opt ys (h v) = nth_opt xs v) \<Longrightarrow> nths_opt ys (map h as) = nths_opt xs as"
  by (induction as) (auto simp: nths_opt_Cons)

text \<open>One statement: equal operand values, equal call bits, equal outcome.\<close>

lemma stmt_out_rename:
  assumes "\<And>v. v \<in> set (values_read s) \<Longrightarrow> nth_opt vs' (h v) = nth_opt vs v"
    and "\<And>v. v \<in> set (handles s) \<Longrightarrow> ag' (h v) = ag v"
  shows "stmt_out E (map_BIrStmt h id s) vs' ag' st = stmt_out E s vs ag st"
proof -
  have as: "nths_opt vs' (map h as) = nths_opt vs as" if "\<forall>a \<in> set as. a \<in> set (values_read s)" for as
    using that assms(1) by (intro nths_opt_map_cong) auto
  show ?thesis
  proof (cases s)
    case (ActionCall name g args fallback n)
    then have "nths_opt vs' (map h args) = nths_opt vs args" "nths_opt vs' (map h fallback) = nths_opt vs fallback"
      "nth_opt vs' (h g) = nth_opt vs g"
      using as [of args] as [of fallback] assms(1) by (simp_all add: values_read_def)
    then show ?thesis by (simp add: ActionCall cong: if_cong)
  qed (use assms as in \<open>simp_all add: values_read_def map_option_bind o_def\<close>)
qed

text \<open>
  A table \<open>\<rho>\<close> of new names for the variables defined so far: names are distinct, and the renamed
  state agrees with the old one on values and on call bits.
\<close>

definition renamed_state ::
  "ir_var list \<Rightarrow> bool list \<Rightarrow> oracle_agg \<Rightarrow> bool list \<Rightarrow> oracle_agg \<Rightarrow> bool" where
  "renamed_state \<rho> vs ag vs' ag' \<longleftrightarrow> length \<rho> = length vs \<and> distinct \<rho>
     \<and> (\<forall>v \<ge> length vs. ag v = None) \<and> (\<forall>v \<ge> length vs'. ag' v = None)
     \<and> (\<forall>v < length vs. \<rho> ! v < length vs' \<and> vs' ! (\<rho> ! v) = vs ! v \<and> ag' (\<rho> ! v) = ag v)"

lemma renamed_state_out:
  assumes "renamed_state \<rho> vs ag vs' ag'" and "\<forall>v \<in> set (operands s). v < length \<rho>"
  shows "stmt_out E (map_BIrStmt ((!) \<rho>) id s) vs' ag' st = stmt_out E s vs ag st"
  by (rule stmt_out_rename) (use assms in \<open>auto simp: renamed_state_def set_operands nth_opt_def\<close>)

text \<open>A statement on both sides: the new variable of one is the name of the new variable of the other.\<close>

lemma renamed_state_both:
  assumes "renamed_state \<rho> vs ag vs' ag'"
  shows "renamed_state (\<rho> @ [length vs']) (vs @ [x]) (put_call (length vs) bits ag)
    (vs' @ [x]) (put_call (length vs') bits ag')"
  using assms
  by (cases bits) (auto simp: renamed_state_def put_call_def nth_append less_Suc_eq in_set_conv_nth)

text \<open>A statement on the renamed side alone, whose variable has no old name yet.\<close>

lemma renamed_state_extra:
  "renamed_state \<rho> vs ag vs' ag' \<Longrightarrow> renamed_state \<rho> vs ag (vs' @ [x]) (put_call (length vs') bits ag')"
  by (cases bits) (auto simp: renamed_state_def put_call_def nth_append)

text \<open>An old variable whose name is a variable the renamed side already has.\<close>

lemma renamed_state_reuse:
  assumes "renamed_state \<rho> vs ag vs' ag'" and "w \<notin> set \<rho>" and "w < length vs'" and "ag' w = None"
  shows "renamed_state (\<rho> @ [w]) (vs @ [vs' ! w]) ag vs' ag'"
proof -
  have "(\<rho> @ [w]) ! v < length vs' \<and> vs' ! ((\<rho> @ [w]) ! v) = (vs @ [vs' ! w]) ! v \<and> ag' ((\<rho> @ [w]) ! v) = ag v"
    if "v < Suc (length vs)" for v
    using that assms by (cases "v = length vs") (auto simp: renamed_state_def nth_append)
  then show ?thesis using assms by (simp add: renamed_state_def)
qed

end
