(* ===== verification/Hardcode.thy ===== *)
theory Hardcode
  imports FromReversible Renaming
begin

text \<open>
  Correctness of \<open>hardcode_circuit_inputs\<close> (\<open>volar-ir-passes/src/from_reversible.rs\<close>): the table of
  fixed inputs, the renumbering of parameters and statements, and the evaluation of the result.
\<close>

section \<open>The table of fixed inputs\<close>

lemma fix_inputs_Inr:
  "fix_inputs ps fixed hc = Inr fixed' \<Longrightarrow> length fixed' = length fixed
    \<and> (\<forall>i < length fixed. (fixed ! i \<noteq> None \<longrightarrow> map_of hc i = None)
         \<and> fixed' ! i = (case map_of hc i of None \<Rightarrow> fixed ! i | Some v \<Rightarrow> Some v))"
proof (induction ps fixed hc rule: fix_inputs.induct)
  case (2 ps fixed input val rest)
  then have k: "input < length fixed" "fixed ! input = None"
    and fx: "fix_inputs ps (fixed[input := Some val]) rest = Inr fixed'"
    by (auto split: if_splits)
  from "2.IH" [OF _ _ fx] k have IH: "length fixed' = length fixed"
    "\<And>i. i < length fixed \<Longrightarrow> (fixed[input := Some val] ! i \<noteq> None \<longrightarrow> map_of rest i = None)
       \<and> fixed' ! i = (case map_of rest i of None \<Rightarrow> fixed[input := Some val] ! i | Some v \<Rightarrow> Some v)"
    by simp_all
  have "map_of rest input = None" using IH(2) [OF k(1)] k by simp
  then have "(fixed ! i \<noteq> None \<longrightarrow> map_of ((input, val) # rest) i = None)
       \<and> fixed' ! i = (case map_of ((input, val) # rest) i of None \<Rightarrow> fixed ! i | Some v \<Rightarrow> Some v)"
    if "i < length fixed" for i
  proof (cases "i = input")
    case False
    then have same: "fixed[input := Some val] ! i = fixed ! i" by simp
    then show ?thesis using IH(2) [OF that, unfolded same] False by simp
  qed (use IH(2) [OF that] k \<open>map_of rest input = None\<close> in simp)
  then show ?case using IH(1) by blast
qed simp

lemma fix_inputs_ok:
  "(\<exists>fixed'. fix_inputs ps fixed hc = Inr fixed') \<longleftrightarrow>
     distinct (map fst hc) \<and> (\<forall>i \<in> set (map fst hc). i < length fixed \<and> fixed ! i = None)"
proof (induction ps fixed hc rule: fix_inputs.induct)
  case (2 ps fixed input val rest)
  show ?case
  proof (cases "input < length fixed \<and> fixed ! input = None")
    case True
    have "(\<forall>i \<in> set (map fst rest). i < length fixed \<and> fixed[input := Some val] ! i = None)
        \<longleftrightarrow> input \<notin> set (map fst rest) \<and> (\<forall>i \<in> set (map fst rest). i < length fixed \<and> fixed ! i = None)"
      using True by (metis nth_list_update_eq nth_list_update_neq option.distinct(1))
    then show ?thesis using True "2.IH" by auto
  next
    case False
    then show ?thesis by auto
  qed
qed simp

definition fixed_table :: "nat \<Rightarrow> (nat \<times> bool) list \<Rightarrow> bool option list" where
  "fixed_table n hc = map (map_of hc) [0..<n]"

lemma fix_inputs_table:
  assumes "fix_inputs ps (replicate n None) hc = Inr fixed"
  shows "fixed = fixed_table n hc"
  using fix_inputs_Inr [OF assms] by (intro nth_equalityI) (auto simp: fixed_table_def split: option.splits)

text \<open>The inputs of the original circuit: fixed values where there are any, the remaining inputs in
  order elsewhere.\<close>

fun fill_inputs :: "bool option list \<Rightarrow> bool list \<Rightarrow> bool list" where
  "fill_inputs [] xs = []"
| "fill_inputs (Some v # fixed) xs = v # fill_inputs fixed xs"
| "fill_inputs (None # fixed) xs = hd xs # fill_inputs fixed (tl xs)"

lemma length_fill_inputs [simp]: "length (fill_inputs fixed xs) = length fixed"
  by (induction fixed xs rule: fill_inputs.induct) auto

section \<open>Renumbering\<close>

definition eval_r :: "externals \<Rightarrow> bool list \<Rightarrow> bstorage \<Rightarrow> 'p BCircuit \<Rightarrow> estate option" where
  "eval_r E ins st0 r = eval_stmts E (bc_stmts r) (bc_params r) (ins, Map.empty, st0)"

lemma eval_r_push:
  assumes "eval_r E ins st0 r = Some (vs, ag, st)" and "length ins = bc_params r"
  shows "eval_r E ins st0 (r\<lparr>bc_stmts := bc_stmts r @ [n]\<rparr>) =
    map_option (\<lambda>(x, bits, st'). (vs @ [x], put_call (length vs) bits ag, st')) (stmt_out E (kind n) vs ag st)"
proof -
  have "length vs = bc_params r + length (bc_stmts r)"
    using eval_stmts_length [of E "bc_stmts r"] assms by (simp add: eval_r_def)
  then show ?thesis
    using assms(1) by (cases "stmt_out E (kind n) vs ag st")
      (auto simp: eval_r_def eval_stmts_snoc eval_stmt_out [of E "kind n"])
qed

lemma eval_r_length:
  "eval_r E ins st0 r = Some (vs, ag, st) \<Longrightarrow> length ins = bc_params r \<Longrightarrow> length vs = var_space r"
  using eval_stmts_length [of E "bc_stmts r"] by (simp add: eval_r_def var_space_def)

lemma remap_params_sim:
  assumes "remap_params p fixed k remap r = (remap', r')" and "length ins = bc_params r"
    and "k + length (filter (\<lambda>v. v = None) fixed) = length ins"
    and "eval_r E ins st0 r = Some (vs', Map.empty, st0)"
    and "renamed_state remap vs Map.empty vs' Map.empty"
    and "\<forall>w \<in> set remap. w < k \<or> bc_params r \<le> w" and "take (length ins) vs' = ins"
  shows "bc_params r' = bc_params r \<and> bc_pre_init r' = bc_pre_init r \<and> (\<exists>vs1. eval_r E ins st0 r' = Some (vs1, Map.empty, st0)
    \<and> renamed_state remap' (vs @ fill_inputs fixed (drop k ins)) Map.empty vs1 Map.empty)"
  using assms
proof (induction fixed arbitrary: k remap r vs vs')
  case (Cons f fixed)
  have len: "length vs' = var_space r" by (rule eval_r_length [OF Cons.prems(4,2)])
  show ?case
  proof (cases f)
    case (Some v)
    let ?n = "Node_new (if v then BOne else BZero) p None"
    let ?r = "r\<lparr>bc_stmts := bc_stmts r @ [?n]\<rparr>"
    have rm: "remap_params p fixed k (remap @ [length vs']) ?r = (remap', r')"
      using Cons.prems(1) by (simp add: Some circuit_push_stmt_def len var_space_def)
    have "stmt_out E (kind ?n) vs' Map.empty st0 = Some (v, None, st0)" by (simp add: Node_new_def)
    then have ev: "eval_r E ins st0 ?r = Some (vs' @ [v], Map.empty, st0)"
      using eval_r_push [OF Cons.prems(4,2), of ?n] by (simp add: put_call_def)
    have rn: "renamed_state (remap @ [length vs']) (vs @ [v]) Map.empty (vs' @ [v]) Map.empty"
      using renamed_state_both [OF Cons.prems(5), of v None] by (simp add: put_call_def)
    have fresh: "\<forall>w \<in> set (remap @ [length vs']). w < k \<or> bc_params ?r \<le> w"
      using Cons.prems(6) len by (simp add: var_space_def)
    have "take (length ins) (vs' @ [v]) = ins"
      using Cons.prems(2,7) len by (simp add: var_space_def)
    from Cons.IH [OF rm _ _ ev rn fresh this] Cons.prems(2,3) show ?thesis by (simp add: Some)
  next
    case None
    have rm: "remap_params p fixed (Suc k) (remap @ [k]) r = (remap', r')" using Cons.prems(1) by (simp add: None)
    have k: "k < length ins" using Cons.prems(3) by (simp add: None)
    have "k < length vs'" using k len Cons.prems(2) by (simp add: var_space_def)
    moreover have "vs' ! k = ins ! k" using nth_take [OF k, of vs'] Cons.prems(7) by simp
    moreover have "k \<notin> set remap" using Cons.prems(2,6) k by auto
    ultimately have rn: "renamed_state (remap @ [k]) (vs @ [ins ! k]) Map.empty vs' Map.empty"
      using renamed_state_reuse [OF Cons.prems(5), of k] by simp
    have fresh: "\<forall>w \<in> set (remap @ [k]). w < Suc k \<or> bc_params r \<le> w"
      using Cons.prems(6) by (auto simp: less_Suc_eq)
    have "drop k ins = ins ! k # drop (Suc k) ins" using k by (simp add: Cons_nth_drop_Suc)
    with Cons.IH [OF rm Cons.prems(2) _ Cons.prems(4) rn fresh Cons.prems(7)] Cons.prems(3)
    show ?thesis by (simp add: None)
  qed
qed auto

section \<open>Statements\<close>

lemma fmap_list_all_ok:
  "fmap_list (fails_or f) vs c = (Inr ws, c') \<Longrightarrow> v \<in> set vs \<Longrightarrow> \<exists>w. f v = Inr w"
  using fmap_list_fails_or [of f vs c ws v] by simp

lemma stmt_map_fails_or:
  assumes "fst (stmt_map (fails_or f) freturn k c) = Inr k'" and "v \<in> set (operands k)"
  shows "\<exists>w. f v = Inr w"
  using assms
  by (cases k) (auto simp: fbind_fst_Inr freturn_def fails_or_def [of f] simp del: fbind.simps
      dest: fmap_list_all_ok)

lemma lookup_remap_Inr: "lookup_remap \<rho> v = Inr w \<longleftrightarrow> v < length \<rho> \<and> w = \<rho> ! v"
  by (auto simp: lookup_remap_def nth_opt_def)

lemma remap_stmt_Inr:
  assumes "remap_stmt \<rho> k = Inr k'"
  shows "k' = map_BIrStmt ((!) \<rho>) id k" and "\<forall>v \<in> set (operands k). v < length \<rho>"
proof -
  have m: "fst (stmt_map (fails_or (lookup_remap \<rho>)) freturn k ()) = Inr k'"
    using assms by (simp add: remap_stmt_def fails_or_def [abs_def])
  show range: "\<forall>v \<in> set (operands k). v < length \<rho>"
    using stmt_map_fails_or [OF m] by (auto simp: lookup_remap_Inr)
  then have "fst (stmt_map (fails_or (lookup_remap \<rho>)) freturn k ()) = Inr (map_BIrStmt ((!) \<rho>) id k)"
    by (subst stmt_map_pure [where h = "(!) \<rho>"]) (auto simp: lookup_remap_Inr freturn_def)
  then show "k' = map_BIrStmt ((!) \<rho>) id k" using m by simp
qed

lemma remap_stmts_extends:
  "remap_stmts ns \<rho> r = Inr (\<rho>', r') \<Longrightarrow> bc_params r' = bc_params r \<and> bc_pre_init r' = bc_pre_init r
     \<and> (\<exists>ms. bc_stmts r' = bc_stmts r @ ms)"
  by (induction ns \<rho> r rule: remap_stmts.induct) (fastforce split: if_splits)+

text \<open>The renumbered statements behave as the original ones, panics included.\<close>

lemma remap_stmts_sim:
  assumes "remap_stmts ns \<rho> r = Inr (\<rho>', r')" and "length ins = bc_params r"
    and "eval_r E ins st0 r = Some (vs', ag', st)" and "renamed_state \<rho> vs ag vs' ag'"
  shows "case eval_stmts E ns (length vs) (vs, ag, st) of
      None \<Rightarrow> eval_r E ins st0 r' = None
    | Some (vs1, ag1, st1) \<Rightarrow> \<exists>vs2 ag2. eval_r E ins st0 r' = Some (vs2, ag2, st1) \<and> renamed_state \<rho>' vs1 ag1 vs2 ag2"
  using assms
proof (induction ns arbitrary: \<rho> r vs ag vs' ag' st)
  case (Cons n ns)
  obtain k where k: "remap_stmt \<rho> (kind n) = Inr k"
    and rest: "remap_stmts ns (\<rho> @ [var_space r])
       (r\<lparr>bc_stmts := bc_stmts r @ [\<lparr>kind = k, prov = prov n, side = side n\<rparr>]\<rparr>) = Inr (\<rho>', r')"
    using Cons.prems(1) by (auto split: if_splits)
  let ?n = "\<lparr>kind = k, prov = prov n, side = side n\<rparr>"
  let ?r = "r\<lparr>bc_stmts := bc_stmts r @ [?n]\<rparr>"
  have len: "length vs' = var_space r" by (rule eval_r_length [OF Cons.prems(3,2)])
  have out: "stmt_out E k vs' ag' st = stmt_out E (kind n) vs ag st"
    using renamed_state_out [OF Cons.prems(4) remap_stmt_Inr(2) [OF k]] by (simp add: remap_stmt_Inr(1) [OF k])
  note push = eval_r_push [OF Cons.prems(3,2), of ?n, simplified, unfolded out]
  show ?case
  proof (cases "stmt_out E (kind n) vs ag st")
    case None
    then have "eval_r E ins st0 ?r = None" using push by simp
    moreover obtain ms where "bc_stmts r' = bc_stmts ?r @ ms" "bc_params r' = bc_params ?r"
      using remap_stmts_extends [OF rest] by auto
    ultimately have "eval_r E ins st0 r' = None" by (simp add: eval_r_def eval_stmts_append del: append_assoc)
    then show ?thesis using None by (simp add: eval_stmts_out del: eval_stmts.simps)
  next
    case (Some p)
    then obtain x bits st1 where p: "stmt_out E (kind n) vs ag st = Some (x, bits, st1)" by (cases p) auto
    then have ev: "eval_r E ins st0 ?r = Some (vs' @ [x], put_call (length vs') bits ag', st1)" using push by simp
    note rest' = rest [folded len]
    from Cons.IH [OF rest' _ ev renamed_state_both [OF Cons.prems(4)]] Cons.prems(2) show ?thesis
      by (simp add: eval_stmts_out p del: eval_stmts.simps)
  qed
qed auto

section \<open>The rewritten circuit\<close>

lemma remap_list_Inr: "remap_list \<rho> vs = Inr ws \<longleftrightarrow> (\<forall>v \<in> set vs. v < length \<rho>) \<and> ws = map ((!) \<rho>) vs"
  by (induction vs arbitrary: ws) (auto simp: lookup_remap_Inr)

lemma nths_opt_renamed:
  assumes "renamed_state \<rho> vs ag vs' ag'" and "\<forall>v \<in> set us. v < length \<rho>"
  shows "nths_opt vs' (map ((!) \<rho>) us) = nths_opt vs us"
proof (rule nths_opt_map_cong)
  fix v assume "v \<in> set us"
  then have "v < length vs" using assms by (simp add: renamed_state_def)
  then show "nth_opt vs' (\<rho> ! v) = nth_opt vs v" using assms(1) by (simp add: renamed_state_def)
qed

lemma hardcode_Inr:
  assumes "hardcode_circuit_inputs c hc p = Inr c'"
  obtains \<rho> r \<rho>' r' where "fix_inputs (bc_params c) (replicate (bc_params c) None) hc = Inr (fixed_table (bc_params c) hc)"
    and "remap_params p (fixed_table (bc_params c) hc) 0 []
           \<lparr>bc_params = length (filter (\<lambda>v. v = None) (fixed_table (bc_params c) hc)), bc_stmts = [],
            bc_pre_init = bc_pre_init c, bc_outputs = []\<rparr> = (\<rho>, r)"
    and "remap_stmts (bc_stmts c) \<rho> r = Inr (\<rho>', r')" and "\<forall>v \<in> set (bc_outputs c). v < length \<rho>'"
    and "c' = r'\<lparr>bc_outputs := map ((!) \<rho>') (bc_outputs c)\<rparr>"
proof -
  let ?r0 = "\<lambda>fixed. \<lparr>bc_params = length (filter (\<lambda>v. v = None) fixed), bc_stmts = [],
            bc_pre_init = bc_pre_init c, bc_outputs = []\<rparr>"
  obtain fixed where f: "fix_inputs (bc_params c) (replicate (bc_params c) None) hc = Inr fixed"
    using assms unfolding hardcode_circuit_inputs_def rbind_eq_Inr by blast
  have fixed: "fixed = fixed_table (bc_params c) hc" by (rule fix_inputs_table [OF f])
  obtain \<rho> r where rp: "remap_params p fixed 0 [] (?r0 fixed) = (\<rho>, r)" by fastforce
  have "rbind (remap_stmts (bc_stmts c) \<rho> r) (\<lambda>(remap', r').
          rbind (remap_list remap' (bc_outputs c)) (\<lambda>outs. Inr (r'\<lparr>bc_outputs := outs\<rparr>))) = Inr c'"
    using assms unfolding hardcode_circuit_inputs_def f Let_def rbind.simps rp prod.case .
  then obtain \<rho>' r' where "remap_stmts (bc_stmts c) \<rho> r = Inr (\<rho>', r')"
    and "remap_list \<rho>' (bc_outputs c) = Inr (map ((!) \<rho>') (bc_outputs c))" and "\<forall>v \<in> set (bc_outputs c). v < length \<rho>'"
    and "c' = r'\<lparr>bc_outputs := map ((!) \<rho>') (bc_outputs c)\<rparr>"
    unfolding rbind_eq_Inr by (auto simp: remap_list_Inr)
  then show thesis using f rp that unfolding fixed by blast
qed

lemma hardcode_evaluates:
  fixes c :: "'p BCircuit"
  assumes hc: "hardcode_circuit_inputs c hc p = Inr c'"
  shows "bc_params c' = length (filter (\<lambda>v. v = None) (fixed_table (bc_params c) hc)) \<and> bc_pre_init c' = bc_pre_init c"
    and "length ins = bc_params c' \<Longrightarrow>
      eval_circuit E c' ins st = eval_circuit E c (fill_inputs (fixed_table (bc_params c) hc) ins) st"
proof -
  let ?fixed = "fixed_table (bc_params c) hc"
  let ?r0 = "\<lparr>bc_params = length (filter (\<lambda>v. v = None) ?fixed), bc_stmts = [],
            bc_pre_init = bc_pre_init c, bc_outputs = []\<rparr> :: 'p BCircuit"
  from hc obtain \<rho> r \<rho>' r' where rp: "remap_params p ?fixed 0 [] ?r0 = (\<rho>, r)"
    and rs: "remap_stmts (bc_stmts c) \<rho> r = Inr (\<rho>', r')" and out: "\<forall>v \<in> set (bc_outputs c). v < length \<rho>'"
    and c': "c' = r'\<lparr>bc_outputs := map ((!) \<rho>') (bc_outputs c)\<rparr>"
    by (rule hardcode_Inr)
  have params: "bc_params r = bc_params ?r0 \<and> bc_pre_init r = bc_pre_init c \<and> (\<exists>vs. eval_r E ins st r = Some (vs, Map.empty, st)
      \<and> renamed_state \<rho> (fill_inputs ?fixed ins) Map.empty vs Map.empty)"
    if "length ins = bc_params ?r0" for ins :: "bool list"
  proof -
    have "eval_r E ins st ?r0 = Some (ins, Map.empty, st)" "renamed_state [] [] Map.empty ins Map.empty"
      by (simp_all add: eval_r_def renamed_state_def)
    from remap_params_sim [OF rp that _ this] that show ?thesis by simp
  qed
  have pr: "bc_params r = bc_params ?r0 \<and> bc_pre_init r = bc_pre_init c"
    using params [of "replicate (bc_params ?r0) False"] by simp
  then show "bc_params c' = length (filter (\<lambda>v. v = None) ?fixed) \<and> bc_pre_init c' = bc_pre_init c"
    using remap_stmts_extends [OF rs] by (simp add: c')
  show "eval_circuit E c' ins st = eval_circuit E c (fill_inputs ?fixed ins) st" if len: "length ins = bc_params c'"
  proof -
    have len0: "length ins = bc_params ?r0" "length ins = bc_params r" "bc_params r' = bc_params r"
      using len pr remap_stmts_extends [OF rs] by (simp_all add: c')
    obtain vs where ev: "eval_r E ins st r = Some (vs, Map.empty, st)"
      and rn: "renamed_state \<rho> (fill_inputs ?fixed ins) Map.empty vs Map.empty"
      using params [OF len0(1)] by blast
    have n: "length ?fixed = bc_params c" by (simp add: fixed_table_def)
    note sim = remap_stmts_sim [OF rs len0(2) ev rn]
    show ?thesis
    proof (cases "eval_stmts E (bc_stmts c) (bc_params c) (fill_inputs ?fixed ins, Map.empty, st)")
      case None
      then have "eval_r E ins st r' = None" using sim n by simp
      then show ?thesis using None len0 n by (simp add: eval_circuit_def eval_r_def c')
    next
      case (Some s)
      then obtain vs1 ag1 st1 where s: "eval_stmts E (bc_stmts c) (bc_params c) (fill_inputs ?fixed ins, Map.empty, st)
          = Some (vs1, ag1, st1)" by (cases s) auto
      then obtain vs2 ag2 where "eval_r E ins st r' = Some (vs2, ag2, st1)" and rn2: "renamed_state \<rho>' vs1 ag1 vs2 ag2"
        using sim n by auto
      then show ?thesis
        using s len0 n nths_opt_renamed [OF rn2 out] by (simp add: eval_circuit_def eval_r_def c')
    qed
  qed
qed

section \<open>Removed outputs\<close>

lemma check_positions_Inr:
  "check_positions n seen ks = Inr ps \<Longrightarrow>
     set ps = set seen \<union> set ks \<and> distinct ks \<and> (\<forall>k \<in> set ks. k < n \<and> k \<notin> set seen)"
  by (induction n seen ks rule: check_positions.induct) (auto split: if_splits)

lemma check_positions_ok:
  "(\<exists>ps. check_positions n seen ks = Inr ps) \<longleftrightarrow> distinct ks \<and> (\<forall>k \<in> set ks. k < n \<and> k \<notin> set seen)"
  by (induction n seen ks rule: check_positions.induct) auto

lemma check_positions_Inl:
  "\<not> (distinct ks \<and> (\<forall>k \<in> set ks. k < n \<and> k \<notin> set seen)) \<Longrightarrow>
     \<exists>k. check_positions n seen ks = Inl (DuplicateOutput k) \<or> check_positions n seen ks = Inl (OutputOutOfRange k n)"
  by (induction n seen ks rule: check_positions.induct) auto

lemma nths_map_filter: "nths xs A = map ((!) xs) (filter (\<lambda>k. k \<in> A) [0..<length xs])"
proof (induction xs rule: rev_induct)
  case (snoc x xs)
  have "map ((!) xs) (filter (\<lambda>k. k \<in> A) [0..<length xs])
      = map ((!) (xs @ [x])) (filter (\<lambda>k. k \<in> A) [0..<length xs])"
    by (rule map_cong) (auto simp: nth_append)
  then show ?case by (simp add: nths_append snoc nths_singleton)
qed simp

section \<open>When hardcoding succeeds\<close>

lemma remap_params_length:
  "remap_params p fixed k remap r = (remap', r') \<Longrightarrow>
     length remap' = length remap + length fixed
     \<and> var_space r' + length (filter (\<lambda>v. v = None) fixed) = var_space r + length fixed"
proof (induction fixed arbitrary: k remap r)
  case (Cons f fixed)
  show ?case
  proof (cases f)
    case None
    then show ?thesis using Cons.IH [of "Suc k" "remap @ [k]" r] Cons.prems by simp
  next
    case (Some v)
    let ?v = "bc_params r + length (bc_stmts r)"
    let ?r = "r\<lparr>bc_stmts := bc_stmts r @ [Node_new (if v then BOne else BZero) p None]\<rparr>"
    have "remap_params p fixed k (remap @ [?v]) ?r = (remap', r')"
      using Cons.prems by (simp add: Some circuit_push_stmt_def)
    from Cons.IH [OF this] show ?thesis by (simp add: Some var_space_def)
  qed
qed simp

lemma remap_stmt_total:
  assumes "\<forall>v \<in> set (operands k). v < length \<rho>"
  shows "\<exists>k'. remap_stmt \<rho> k = Inr k'"
proof -
  have "fst (stmt_map (fails_or (lookup_remap \<rho>)) freturn k ()) = Inr (map_BIrStmt ((!) \<rho>) id k)"
    by (subst stmt_map_pure [where h = "(!) \<rho>"]) (use assms in \<open>auto simp: lookup_remap_Inr freturn_def\<close>)
  then show ?thesis by (simp add: remap_stmt_def fails_or_def [abs_def])
qed

lemma remap_stmts_total:
  "\<forall>i < length ns. \<forall>v \<in> set (operands (kind (ns ! i))). v < length \<rho> + i \<Longrightarrow>
   var_space r + length ns \<le> U32_MAX \<Longrightarrow>
   \<exists>\<rho>' r'. remap_stmts ns \<rho> r = Inr (\<rho>', r') \<and> length \<rho>' = length \<rho> + length ns"
proof (induction ns arbitrary: \<rho> r)
  case (Cons n ns)
  obtain k where k: "remap_stmt \<rho> (kind n) = Inr k"
    using remap_stmt_total [of "kind n" \<rho>] Cons.prems(1) by force
  let ?r = "r\<lparr>bc_stmts := bc_stmts r @ [\<lparr>kind = k, prov = prov n, side = side n\<rparr>]\<rparr>"
  have "\<forall>i < length ns. \<forall>v \<in> set (operands (kind (ns ! i))). v < length (\<rho> @ [var_space r]) + i"
    using Cons.prems(1) by (metis Suc_less_eq add_Suc_shift length_Cons length_append_singleton nth_Cons_Suc)
  moreover have "var_space ?r + length ns \<le> U32_MAX" using Cons.prems(2) by (simp add: var_space_def)
  ultimately obtain \<rho>' r' where "remap_stmts ns (\<rho> @ [var_space r]) ?r = Inr (\<rho>', r')"
      "length \<rho>' = length \<rho> + length (n # ns)"
    using Cons.IH [of "\<rho> @ [var_space r]" ?r] by auto
  then show ?case using k Cons.prems(2) by simp
qed simp

lemma hardcode_succeeds:
  fixes c :: "'p BCircuit"
  assumes ssa: "ssa_ordered (bc_params c) (bc_stmts c)" and outs: "\<forall>v \<in> set (bc_outputs c). v < var_space c"
    and room: "var_space c \<le> U32_MAX"
  shows "(\<exists>c'. hardcode_circuit_inputs c hc p = Inr c') \<longleftrightarrow>
    distinct (map fst hc) \<and> (\<forall>i \<in> set (map fst hc). i < bc_params c)"
    (is "?L \<longleftrightarrow> ?R")
proof
  assume ?L
  then obtain c' where "hardcode_circuit_inputs c hc p = Inr c'" by blast
  then have "\<exists>fixed. fix_inputs (bc_params c) (replicate (bc_params c) None) hc = Inr fixed"
    by (rule hardcode_Inr) blast
  then show ?R by (simp add: fix_inputs_ok)
next
  assume ?R
  then obtain fixed where f: "fix_inputs (bc_params c) (replicate (bc_params c) None) hc = Inr fixed"
    using fix_inputs_ok [of "bc_params c" "replicate (bc_params c) None" hc] by auto
  let ?r0 = "\<lparr>bc_params = length (filter (\<lambda>v. v = None) fixed), bc_stmts = [],
            bc_pre_init = bc_pre_init c, bc_outputs = []\<rparr> :: 'p BCircuit"
  have n: "length fixed = bc_params c" using fix_inputs_Inr [OF f] by simp
  obtain \<rho> r where rp: "remap_params p fixed 0 [] ?r0 = (\<rho>, r)" by fastforce
  then have "length \<rho> = bc_params c" "var_space r = bc_params c"
    using remap_params_length [OF rp] n by (simp_all add: var_space_def)
  then obtain \<rho>' r' where rs: "remap_stmts (bc_stmts c) \<rho> r = Inr (\<rho>', r')" "length \<rho>' = var_space c"
    using remap_stmts_total [of "bc_stmts c" \<rho> r] ssa room by (auto simp: ssa_ordered_def var_space_def)
  then have "remap_list \<rho>' (bc_outputs c) = Inr (map ((!) \<rho>') (bc_outputs c))"
    using outs by (simp add: remap_list_Inr)
  then show ?L
    unfolding hardcode_circuit_inputs_def f rbind.simps Let_def rp prod.case rs(1) by simp
qed

end
