(* ===== verification/FromReversibleProps.thy ===== *)
theory FromReversibleProps
  imports Hardcode Samples
begin

text \<open>
  The lowering of reversible circuits to Boolar circuits is the identity on behaviour: a
  postcondition calculus for the builder, one simulation lemma per gate, and the correctness of
  the interface rewrites (hardcoded inputs, removed outputs).
\<close>

fun is_projection :: "bstmt \<Rightarrow> bool" where
  "is_projection (OracleProjectedBit _ _) = True"
| "is_projection _ = False"

section \<open>Postconditions of builder steps\<close>

text \<open>
  \<open>bpost m b Q\<close>: from \<open>b\<close> the step does not panic, fails only where a resource of the target
  representation runs out, and otherwise ends in a state satisfying \<open>Q\<close>.
\<close>

fun resource_error :: "CircuitTransformError \<Rightarrow> bool" where
  "resource_error VarSpaceExhausted = True"
| "resource_error (ActionBitIndexOverflow _) = True"
| "resource_error _ = False"

definition bpost :: "'a build \<Rightarrow> BoolarBuilder \<Rightarrow> ('a \<Rightarrow> BoolarBuilder \<Rightarrow> bool) \<Rightarrow> bool" where
  "bpost m b Q = (case m b of Ok (x, b') \<Rightarrow> Q x b' | Err e \<Rightarrow> resource_error e | Panic \<Rightarrow> False)"

definition pushed :: "bstmt \<Rightarrow> BoolarBuilder \<Rightarrow> BoolarBuilder" where
  "pushed k b = b\<lparr>bb_circuit := snd (circuit_push_stmt (bb_circuit b) k () None)\<rparr>"

lemma bpost_bthen [simp]: "bpost (bthen m f) b Q = bpost m b (\<lambda>x b'. bpost (f x) b' Q)"
  by (cases "m b") (auto simp: bpost_def bthen_def)

lemma bpost_breturn [simp]: "bpost (breturn x) b Q = Q x b"
  by (simp add: bpost_def breturn_def)

lemma bpost_wire [simp]: "w < length (bb_wires b) \<Longrightarrow> bpost (wire w) b Q = Q (bb_wires b ! w) b"
  by (simp add: bpost_def wire_def)

lemma bpost_wires [simp]:
  "\<forall>w \<in> set ws. w < length (bb_wires b) \<Longrightarrow> bpost (wires ws) b Q = Q (map ((!) (bb_wires b)) ws) b"
  by (simp add: bpost_def wires_def)

lemma bpost_set_wire [simp]:
  "w < length (bb_wires b) \<Longrightarrow>
   bpost (set_wire w v) b Q = Q () (b\<lparr>bb_wires := (bb_wires b)[w := v]\<rparr>)"
  by (simp add: bpost_def set_wire_def)

lemma bpost_emit [simp]:
  "bpost (emit k) b Q \<longleftrightarrow>
     var_space (bb_circuit b) = U32_MAX \<or> Q (var_space (bb_circuit b)) (pushed k b)"
  by (simp add: bpost_def emit_def checked_push_stmt_def circuit_push_stmt_def pushed_def var_space_def)

lemma bpost_Err [simp]: "bpost (\<lambda>_. Err e) b Q = resource_error e"
  by (simp add: bpost_def)

lemma bpost_mono: "bpost m b P \<Longrightarrow> (\<And>x b'. P x b' \<Longrightarrow> Q x b') \<Longrightarrow> bpost m b Q"
  by (cases "m b") (auto simp: bpost_def)

section \<open>What a builder state computes\<close>

definition built :: "externals \<Rightarrow> bool list \<Rightarrow> bstorage \<Rightarrow> BoolarBuilder \<Rightarrow> estate option" where
  "built E ins st0 b = eval_stmts E (bc_stmts (bb_circuit b)) (length ins) (ins, Map.empty, st0)"

lemma bb_wires_pushed [simp]: "bb_wires (pushed k b) = bb_wires b"
  by (simp add: pushed_def)

lemma var_space_pushed [simp]: "var_space (bb_circuit (pushed k b)) = Suc (var_space (bb_circuit b))"
  by (simp add: pushed_def circuit_push_stmt_def var_space_def)

lemma bc_params_pushed [simp]: "bc_params (bb_circuit (pushed k b)) = bc_params (bb_circuit b)"
  by (simp add: pushed_def circuit_push_stmt_def)

definition holds :: "externals \<Rightarrow> bool list \<Rightarrow> bstorage \<Rightarrow> BoolarBuilder \<Rightarrow> estate \<Rightarrow> bool" where
  "holds E ins st0 b s \<longleftrightarrow> bc_params (bb_circuit b) = length ins \<and> built E ins st0 b = Some s
     \<and> length (fst s) = var_space (bb_circuit b)"

lemma holds_set_wires [simp]: "holds E ins st0 (b\<lparr>bb_wires := ws\<rparr>) s = holds E ins st0 b s"
  by (simp add: holds_def built_def)

lemma holds_length: "holds E ins st0 b (vs, ag, st) \<Longrightarrow> var_space (bb_circuit b) = length vs"
  by (simp add: holds_def)

lemma holds_pushed:
  assumes "holds E ins st0 b (vs, ag, st)" and "eval_stmt E k (length vs) vs ag st = Some (x, ag', st')"
  shows "holds E ins st0 (pushed k b) (vs @ [x], ag', st')"
  using assms
  by (simp add: holds_def built_def pushed_def circuit_push_stmt_def var_space_def Node_new_def eval_stmts_snoc)

text \<open>
  The simulation relation between a builder state and the wires and storage of the reversible
  run: every wire's current variable holds the wire's value.
\<close>

definition tracks :: "ir_var list \<Rightarrow> bool list \<Rightarrow> bool list \<Rightarrow> bool" where
  "tracks m vs ws \<longleftrightarrow> length m = length ws \<and> (\<forall>w < length ws. m ! w < length vs \<and> vs ! (m ! w) = ws ! w)"

definition sim :: "externals \<Rightarrow> bool list \<Rightarrow> bstorage \<Rightarrow> BoolarBuilder \<Rightarrow> rstate \<Rightarrow> bool" where
  "sim E ins st0 b r \<longleftrightarrow> (\<exists>vs ag st. holds E ins st0 b (vs, ag, st)
        \<and> tracks (bb_wires b) vs (fst r) \<and> storage_eq st (snd r))"

lemma tracks_nth: "tracks m vs ws \<Longrightarrow> w < length ws \<Longrightarrow> m ! w < length vs \<and> vs ! (m ! w) = ws ! w"
  by (simp add: tracks_def)

lemma tracks_map:
  "tracks m vs ws \<Longrightarrow> \<forall>a \<in> set as. a < length ws \<Longrightarrow> map ((!) vs) (map ((!) m) as) = map ((!) ws) as"
  by (auto simp: tracks_def)

lemma tracks_append: "tracks m vs ws \<Longrightarrow> tracks m (vs @ xs) ws"
  by (auto simp: tracks_def nth_append)

lemma tracks_set:
  assumes "tracks m vs ws" and "v < length vs"
  shows "tracks (m[t := v]) vs (ws[t := vs ! v])"
proof -
  have "m[t := v] ! w < length vs \<and> vs ! (m[t := v] ! w) = ws[t := vs ! v] ! w" if "w < length ws" for w
    using assms that by (cases "w = t") (auto simp: tracks_def)
  then show ?thesis using assms(1) by (simp add: tracks_def)
qed

lemma tracks_new: "tracks m vs ws \<Longrightarrow> tracks (m[t := length vs]) (vs @ [x]) (ws[t := x])"
  using tracks_set [of m "vs @ [x]" ws "length vs" t] by (simp add: tracks_append)

lemma sim_intro:
  "holds E ins st0 b (vs, ag, st) \<Longrightarrow> tracks (bb_wires b) vs ws \<Longrightarrow> storage_eq st str \<Longrightarrow> sim E ins st0 b (ws, str)"
  by (auto simp: sim_def)

section \<open>One gate\<close>

text \<open>The last push of a gate writes its target: the new variable is the wire's new value.\<close>

lemma sim_write:
  assumes "holds E ins st0 b (vs, ag, st)" and "tracks (bb_wires b) vs ws" and "storage_eq st' str"
    and "eval_stmt E k (length vs) vs ag st = Some (x, ag', st')"
  shows "sim E ins st0 ((pushed k b)\<lparr>bb_wires := (bb_wires b)[t := var_space (bb_circuit b)]\<rparr>) (ws[t := x], str)"
proof (rule sim_intro)
  show "holds E ins st0 ((pushed k b)\<lparr>bb_wires := (bb_wires b)[t := var_space (bb_circuit b)]\<rparr>) (vs @ [x], ag', st')"
    using holds_pushed [OF assms(1,4)] by simp
  show "tracks (bb_wires ((pushed k b)\<lparr>bb_wires := (bb_wires b)[t := var_space (bb_circuit b)]\<rparr>)) (vs @ [x]) (ws[t := x])"
    using tracks_new [OF assms(2)] holds_length [OF assms(1)] by simp
qed (rule assms(3))

text \<open>The accumulator of the truth table's algebraic normal form, and the value it stands for.\<close>

definition accum ::
  "externals \<Rightarrow> bool list \<Rightarrow> bstorage \<Rightarrow> ir_var list \<Rightarrow> rstate \<Rightarrow> ir_var option \<Rightarrow> BoolarBuilder \<Rightarrow> bool \<Rightarrow> bool" where
  "accum E ins st0 m r v b x \<longleftrightarrow> bb_wires b = m \<and>
     (\<exists>vs ag st. holds E ins st0 b (vs, ag, st) \<and> tracks m vs (fst r) \<and> storage_eq st (snd r)
        \<and> (case v of None \<Rightarrow> \<not> x | Some u \<Rightarrow> u < length vs \<and> vs ! u = x))"

lemma bpost_b_when [simp]: "bpost (b_when c m x) b Q = (if c then bpost (m x) b Q else Q x b)"
  by (simp add: b_when_def)

lemma accumI:
  "bb_wires b = m \<Longrightarrow> holds E ins st0 b (vs, ag, st) \<Longrightarrow> tracks m vs (fst r) \<Longrightarrow> storage_eq st (snd r) \<Longrightarrow>
   (case v of None \<Rightarrow> \<not> x | Some u \<Rightarrow> u < length vs \<and> vs ! u = x) \<Longrightarrow> accum E ins st0 m r v b x"
  unfolding accum_def by blast

text \<open>A term is a variable the builder has defined, known by its value.\<close>

definition defined_as ::
  "externals \<Rightarrow> bool list \<Rightarrow> bstorage \<Rightarrow> BoolarBuilder \<Rightarrow> ir_var \<Rightarrow> bool \<Rightarrow> bool" where
  "defined_as E ins st0 b u y \<longleftrightarrow> (\<forall>s. holds E ins st0 b s \<longrightarrow> u < length (fst s) \<and> fst s ! u = y)"

lemma holds_unique: "holds E ins st0 b s \<Longrightarrow> holds E ins st0 b s' \<Longrightarrow> s = s'"
  by (simp add: holds_def)

lemma defined_asI: "holds E ins st0 b (vs, ag, st) \<Longrightarrow> u < length vs \<Longrightarrow> vs ! u = y \<Longrightarrow> defined_as E ins st0 b u y"
  unfolding defined_as_def using holds_unique by fastforce

lemma defined_asD: "defined_as E ins st0 b u y \<Longrightarrow> holds E ins st0 b (vs, ag, st) \<Longrightarrow> u < length vs \<and> vs ! u = y"
  by (fastforce simp: defined_as_def)

lemma accum_term:
  assumes "accum E ins st0 m r v b x" and "defined_as E ins st0 b u y"
  shows "bpost (append_xor_term v u) b (\<lambda>v' b'. accum E ins st0 m r v' b' (x \<noteq> y))"
proof -
  obtain vs ag st where h: "holds E ins st0 b (vs, ag, st)" and t: "tracks m vs (fst r)"
    and st: "storage_eq st (snd r)" and m: "bb_wires b = m"
    and v: "case v of None \<Rightarrow> \<not> x | Some u \<Rightarrow> u < length vs \<and> vs ! u = x"
    using assms(1) by (auto simp: accum_def)
  have u: "u < length vs" "vs ! u = y" using assms(2) h by (auto simp: defined_as_def)
  show ?thesis
  proof (cases v)
    case None
    then show ?thesis
      using h t st m v u by (auto simp: append_xor_term_def accum_def)
  next
    case (Some w)
    then have ev: "eval_stmt E (BXor w u) (length vs) vs ag st = Some (x \<noteq> y, ag, st)" using u v by simp
    have "accum E ins st0 m r (Some (length vs)) (pushed (BXor w u) b) (x \<noteq> y)"
      by (rule accumI [OF _ holds_pushed [OF h ev] tracks_append [OF t] st]) (simp_all add: m)
    then show ?thesis using Some holds_length [OF h] by (simp add: append_xor_term_def)
  qed
qed

lemma accum_defined:
  assumes "accum E ins st0 m r v b x" and "w < length (fst r)"
  shows "defined_as E ins st0 b (m ! w) (fst r ! w)"
proof -
  obtain vs ag st where "holds E ins st0 b (vs, ag, st)" "tracks m vs (fst r)"
    using assms(1) by (auto simp: accum_def)
  then show ?thesis using tracks_nth [of m vs "fst r" w] assms(2) by (intro defined_asI) auto
qed

lemma accum_emit:
  assumes "accum E ins st0 m r v b x"
    and "\<And>vs ag st. holds E ins st0 b (vs, ag, st) \<Longrightarrow> eval_stmt E k (length vs) vs ag st = Some (y, ag, st)"
  shows "accum E ins st0 m r v (pushed k b) x"
    and "defined_as E ins st0 (pushed k b) (var_space (bb_circuit b)) y"
proof -
  obtain vs ag st where h: "holds E ins st0 b (vs, ag, st)" and t: "tracks m vs (fst r)"
    and st: "storage_eq st (snd r)" and m: "bb_wires b = m"
    and v: "case v of None \<Rightarrow> \<not> x | Some u \<Rightarrow> u < length vs \<and> vs ! u = x"
    using assms(1) by (auto simp: accum_def)
  note h' = holds_pushed [OF h assms(2) [OF h]]
  show "accum E ins st0 m r v (pushed k b) x"
    by (rule accumI [OF _ h' tracks_append [OF t] st]) (use m v in \<open>auto simp: nth_append split: option.splits\<close>)
  show "defined_as E ins st0 (pushed k b) (var_space (bb_circuit b)) y"
    using defined_asI [OF h', of "length vs" y] holds_length [OF h] by simp
qed

lemma lut_anf:
  fixes table :: "8 word"
  defines "t00 \<equiv> drop_bit 3 table AND 1 \<noteq> 0" and "t01 \<equiv> drop_bit 2 table AND 1 \<noteq> 0"
    and "t10 \<equiv> drop_bit 1 table AND 1 \<noteq> 0" and "t11 \<equiv> table AND 1 \<noteq> 0"
  shows "lut_bit table a b = ((((False \<noteq> t00) \<noteq> ((t00 \<noteq> t10) \<and> a)) \<noteq> ((t00 \<noteq> t01) \<and> b))
           \<noteq> ((((t00 \<noteq> t01) \<noteq> t10) \<noteq> t11) \<and> a \<and> b))"
proof -
  have one: "(x AND 1 = 1) \<longleftrightarrow> (x AND 1 \<noteq> 0)" for x :: "8 word"
    by (simp add: and_one_eq)
  show ?thesis
    by (cases a; cases b) (auto simp: lut_bit_def one t00_def t01_def t10_def t11_def numeral_3_eq_3 numeral_2_eq_2)
qed

lemma lower_lut2_xor_sim:
  assumes "gate_ok (length ws) (XorLut2 c0 c1 t table)"
    and h: "holds E ins st0 b (vs, ag, st)" and tr: "tracks (bb_wires b) vs ws" and st: "storage_eq st str"
  shows "bpost (lower_lut2_xor c0 c1 t table) b
    (\<lambda>_ b'. sim E ins st0 b' (ws[t := (ws ! t \<noteq> lut_bit table (ws ! c0) (ws ! c1))], str))"
proof -
  let ?m = "bb_wires b" and ?A = "accum E ins st0 (bb_wires b) (ws, str)"
  have range: "c0 < length ws" "c1 < length ws" "t < length ws"
    using assms(1) by (simp_all add: gate_ok_def touches_def)
  have len: "length ?m = length ws" using tr by (simp add: tracks_def)
  define t00 t01 t10 t11 where T: "t00 = (drop_bit 3 table AND 1 \<noteq> 0)" "t01 = (drop_bit 2 table AND 1 \<noteq> 0)"
    "t10 = (drop_bit 1 table AND 1 \<noteq> 0)" "t11 = (table AND 1 \<noteq> 0)"
  note fold_T = T [symmetric]
  have A0: "?A None b False" by (rule accumI [OF refl h]) (use tr st in simp_all)
  have opt: "bpost (b_when cond (\<lambda>v. append_xor_term v (?m ! w)) v) b1 (\<lambda>v' b'. ?A v' b' (x \<noteq> (cond \<and> ws ! w)))"
    if "?A v b1 x" "w < length ws" for v b1 x cond w
    using accum_term [OF that(1) accum_defined [OF that(1)], of w] that by simp
  have one: "bpost (b_when cond (\<lambda>v. bthen (emit BOne) (\<lambda>one. append_xor_term v one)) v) b1
      (\<lambda>v' b'. ?A v' b' (x \<noteq> cond))" if A: "?A v b1 x" for v b1 x cond
    using accum_term [OF accum_emit [OF A, of BOne True]] A by simp
  have conj: "bpost (b_when cond (\<lambda>v. bthen (emit (BAnd (?m ! c0) (?m ! c1))) (\<lambda>product. append_xor_term v product)) v) b1
      (\<lambda>v' b'. ?A v' b' (x \<noteq> (cond \<and> ws ! c0 \<and> ws ! c1)))" if A: "?A v b1 x" for v b1 x cond
  proof -
    have "eval_stmt E (BAnd (?m ! c0) (?m ! c1)) (length vs1) vs1 ag1 st1 = Some (ws ! c0 \<and> ws ! c1, ag1, st1)"
      if "holds E ins st0 b1 (vs1, ag1, st1)" for vs1 ag1 st1
      using defined_asD [OF accum_defined [OF A, of c0] that] defined_asD [OF accum_defined [OF A, of c1] that] range
      by simp
    from accum_term [OF accum_emit [OF A this]] A show ?thesis by simp
  qed
  have last: "bpost (case v of None \<Rightarrow> breturn () | Some value \<Rightarrow>
        bthen (wire t) (\<lambda>u. bthen (emit (BXor u value)) (\<lambda>nxt. set_wire t nxt))) b1
      (\<lambda>_ b'. sim E ins st0 b' (ws[t := (ws ! t \<noteq> x)], str))" if A: "?A v b1 x" for v b1 x
  proof -
    obtain vs1 ag1 st1 where h1: "holds E ins st0 b1 (vs1, ag1, st1)" and tr1: "tracks ?m vs1 ws"
      and st1: "storage_eq st1 str" and m1: "bb_wires b1 = ?m"
      and v: "case v of None \<Rightarrow> \<not> x | Some u \<Rightarrow> u < length vs1 \<and> vs1 ! u = x"
      using A by (auto simp: accum_def)
    show ?thesis
    proof (cases v)
      case None
      then show ?thesis using sim_intro [OF h1 _ st1] tr1 m1 v by simp
    next
      case (Some u)
      have "eval_stmt E (BXor (?m ! t) u) (length vs1) vs1 ag1 st1 = Some (ws ! t \<noteq> x, ag1, st1)"
        using tracks_nth [OF tr1 range(3)] v Some by simp
      from sim_write [OF h1 _ st1 this, of ws t] tr1 m1 range len show ?thesis by (simp add: Some)
    qed
  qed
  show ?thesis
    unfolding lower_lut2_xor_def Let_def fold_T lut_anf [of table, folded T]
    apply (simp only: bpost_bthen bpost_wire [of c0 b, unfolded len, OF range(1)]
        bpost_wire [of c1 b, unfolded len, OF range(2)])
    apply (rule bpost_mono [OF one [OF A0, of t00]])
    apply (erule bpost_mono [OF opt [OF _ range(1)]])
    apply (erule bpost_mono [OF opt [OF _ range(2)]])
    apply (erule bpost_mono [OF conj])
    apply (erule bpost_mono [OF last])
    apply simp
    done
qed

text \<open>
  The replay contract the lowering of an action gate relies on: the legacy action call carries no
  occurrence token, so the sources must not depend on it.
\<close>

definition occurrence_free :: "registry \<Rightarrow> bool" where
  "occurrence_free R \<longleftrightarrow> (\<forall>name xs b occ. action_bit_fn R name xs b occ = action_bit_fn R name xs b 0)"

fun lowerable :: "externals \<Rightarrow> RGate \<Rightarrow> bool" where
  "lowerable E (ExternalXor RRng _ _ _ _ _) = ext_effects E"
| "lowerable E (ExternalStorageXor _ _ _ _ _ _ _ _ _) = (ext_effects E \<and> occurrence_free (ext_registry E))"
| "lowerable E _ = True"

lemma action_bits:
  assumes "ext_effects E" and "nth_opt vs g = Some gv" and "nths_opt vs as = Some xs" and "nth_opt vs f = Some fv"
  shows "eval_stmt E (ActionCall name g as (replicate (b + 1) f) (b + 1)) rv vs ag st =
    Some (False, ag(rv \<mapsto> map (\<lambda>i. if gv then action_bit_fn (ext_registry E) name xs i 0 else fv) [0..<b + 1]), st)"
proof -
  have "nths_opt vs (replicate n f) = Some (map (\<lambda>i. fv) [0..<n])" for n
    using assms(4) by (induction n) (auto simp: nths_opt_Cons map_replicate_const)
  then show ?thesis using assms(1-3) by (cases gv) (simp_all del: replicate_Suc upt_Suc)
qed

text \<open>The wires a gate reads, looked up through the wire table.\<close>

lemma tracks_opt:
  assumes "tracks m vs ws" and "w < length ws"
  shows "nth_opt vs (m ! w) = Some (ws ! w)"
  using tracks_nth [OF assms] by (simp add: nth_opt_def)

lemma tracks_opts:
  assumes "tracks m vs ws" and "\<forall>a \<in> set as. a < length ws"
  shows "nths_opt vs (map ((!) m) as) = Some (map ((!) ws) as)"
  using tracks_nth [OF assms(1)] tracks_map [OF assms] assms(2) by (simp add: nths_opt_eq_Some)

lemma lower_swap_sim:
  assumes w: "t < length ws" "\<forall>a \<in> set addr. a < length ws"
    and h: "holds E ins st0 b (vs, ag, st)" and tr: "tracks (bb_wires b) vs ws" and st: "storage_eq st str"
  shows "bpost (lower_gate i (StorageSwap s l addr t)) b
    (\<lambda>_ b'. sim E ins st0 b' (gate_step R (StorageSwap s l addr t) (ws, str)))"
proof -
  let ?m = "bb_wires b" and ?c = "((s, l), map ((!) ws) addr)"
  let ?a = "map ((!) ?m) addr" and ?x = "sread st ((s, l), map ((!) ws) addr)"
  have len: "length ?m = length ws" using tr by (simp add: tracks_def)
  note a = tracks_opts [OF tr w(2)] and t = tracks_opt [OF tr w(1)]
  have "eval_stmt E (StorageRead s l ?a) (length vs) vs ag st = Some (?x, ag, st)" by (simp add: a)
  note h1 = holds_pushed [OF h this]
  have "eval_stmt E (StorageWrite s l (?m ! t) ?a) (length (vs @ [?x])) (vs @ [?x]) ag st
      = Some (False, ag, st(?c \<mapsto> ws ! t))"
    by (simp add: nth_opt_extend [OF t] nths_opt_extend [OF a])
  note h2 = holds_pushed [OF h1 this]
  have "tracks (?m[t := length vs]) (vs @ [?x]) (ws[t := sread str ?c])"
    using tracks_new [OF tr, of t ?x] storage_eqD [OF st, of ?c] by simp
  note t2 = tracks_append [OF this, of "[False]"]
  let ?b = "(pushed (StorageWrite s l (?m ! t) ?a) (pushed (StorageRead s l ?a) b))\<lparr>bb_wires := ?m[t := length vs]\<rparr>"
  have "sim E ins st0 ?b (ws[t := sread str ?c], str(?c \<mapsto> ws ! t))"
    by (rule sim_intro [OF _ _ storage_eq_upd [OF st]]) (use h2 t2 in simp_all)
  then show ?thesis using w len holds_length [OF h] by (simp add: Let_def)
qed

lemma lower_external_sim:
  assumes w: "t < length ws" "\<forall>a \<in> set args. a < length ws" and eff: "k = RRng \<Longrightarrow> ext_effects E"
    and h: "holds E ins st0 b (vs, ag, st)" and tr: "tracks (bb_wires b) vs ws" and st: "storage_eq st str"
  shows "bpost (lower_gate i (ExternalXor k name args t j occ)) b
    (\<lambda>_ b'. sim E ins st0 b' (gate_step (ext_registry E) (ExternalXor k name args t j occ) (ws, str)))"
proof -
  let ?m = "bb_wires b" 
  let ?a = "map ((!) ?m) args"
  have len: "length ?m = length ws" using tr by (simp add: tracks_def)
  define x where "x = delta (ext_registry E) (ExternalXor k name args t j occ) ws"
  define s :: bstmt where "s = (case k of ROracle \<Rightarrow> OracleBit name ?a j occ | RRng \<Rightarrow> RngBit name j occ)"
  have "eval_stmt E s (length vs) vs ag st = Some (x, ag, st)"
    using eff tracks_opts [OF tr w(2)] by (cases k) (simp_all add: s_def x_def)
  note h1 = holds_pushed [OF h this]
  have "eval_stmt E (BXor (?m ! t) (length vs)) (length (vs @ [x])) (vs @ [x]) ag st
      = Some (ws ! t \<noteq> x, ag, st)"
    by (simp add: nth_opt_extend [OF tracks_opt [OF tr w(1)]])
  from sim_write [OF h1 _ st this, of ws t] tracks_append [OF tr]
  have "sim E ins st0 ((pushed (BXor (?m ! t) (length vs)) (pushed s b))\<lparr>bb_wires := ?m[t := Suc (length vs)]\<rparr>)
      (ws[t := (ws ! t \<noteq> x)], str)"
    using holds_length [OF h] by simp
  then show ?thesis using w len holds_length [OF h] by (cases k) (simp_all add: s_def x_def)
qed

lemma lower_action_sim:
  assumes w: "guard < length ws" "fallback < length ws" "\<forall>a \<in> set args. a < length ws" "\<forall>a \<in> set addr. a < length ws"
    and eff: "ext_effects E" and occ: "occurrence_free (ext_registry E)"
    and h: "holds E ins st0 b (vs, ag, st)" and tr: "tracks (bb_wires b) vs ws" and st: "storage_eq st str"
  shows "bpost (lower_gate i (ExternalStorageXor name guard args fallback s l addr j k)) b
    (\<lambda>_ b'. sim E ins st0 b' (gate_step (ext_registry E) (ExternalStorageXor name guard args fallback s l addr j k) (ws, str)))"
proof -
  let ?m = "bb_wires b" and ?R = "ext_registry E" and ?c = "((s, l), map ((!) ws) addr)"
  let ?g = "ExternalStorageXor name guard args fallback s l addr j k"
  let ?a = "map ((!) ?m) addr" and ?x = "sread st ((s, l), map ((!) ws) addr)" and ?y = "delta (ext_registry E) ?g ws"
  have len: "length ?m = length ws" using tr by (simp add: tracks_def)
  note g = nth_opt_extend [OF tracks_opt [OF tr w(1)]] and f = nth_opt_extend [OF tracks_opt [OF tr w(2)]]
    and as = nths_opt_extend [OF tracks_opts [OF tr w(3)]] and a = tracks_opts [OF tr w(4)]
  have "eval_stmt E (StorageRead s l ?a) (length vs) vs ag st = Some (?x, ag, st)" by (simp add: a)
  note h1 = holds_pushed [OF h this]
  let ?bits = "map (\<lambda>i. if ws ! guard then action_bit_fn ?R name (map ((!) ws) args) i 0 else ws ! fallback) [0..<j + 1]"
  note h2 = holds_pushed [OF h1 action_bits [OF eff g as f]]
  let ?ag = "ag(length (vs @ [?x]) \<mapsto> ?bits)"
  have b: "?bits ! j = ?y" using occ by (simp add: occurrence_free_def nth_append del: upt_Suc) metis
  have "eval_stmt E (ActionBit (Suc (length vs)) j) (length ((vs @ [?x]) @ [False])) ((vs @ [?x]) @ [False]) ?ag st
      = Some (?y, ?ag, st)"
    using eff b by (simp add: nth_opt_def del: upt_Suc map_append)
  note h3 = holds_pushed [OF h2 this]
  let ?vs3 = "((vs @ [?x]) @ [False]) @ [?y]"
  have "eval_stmt E (BXor (length vs) (Suc (Suc (length vs)))) (length ?vs3) ?vs3 ?ag st = Some (?x \<noteq> ?y, ?ag, st)"
    by (simp add: nth_opt_def nth_append)
  note h4 = holds_pushed [OF h3 this]
  let ?vs4 = "?vs3 @ [?x \<noteq> ?y]"
  have "eval_stmt E (StorageWrite s l (Suc (Suc (Suc (length vs)))) ?a) (length ?vs4) ?vs4 ?ag st
      = Some (False, ?ag, st(?c \<mapsto> (?x \<noteq> ?y)))"
    using nths_opt_extend [OF a, of "[?x, False, ?y, ?x \<noteq> ?y]"] by (simp add: nth_opt_def nth_append)
  note h5 = holds_pushed [OF h4 this]
  define r where "r = gate_step ?R ?g (ws, str)"
  have r: "fst r = ws" "storage_eq (st(?c \<mapsto> (?x \<noteq> ?y))) (snd r)"
    using st by (simp_all add: r_def storage_eq_def Let_def del: split_paired_All)
  have "sim E ins st0 (pushed (StorageWrite s l (Suc (Suc (Suc (length vs)))) ?a)
      (pushed (BXor (length vs) (Suc (Suc (length vs)))) (pushed (ActionBit (Suc (length vs)) j)
      (pushed (ActionCall name (?m ! guard) (map ((!) ?m) args) (replicate (j + 1) (?m ! fallback)) (j + 1))
      (pushed (StorageRead s l ?a) b))))) (fst r, snd r)"
    by (rule sim_intro [OF h5 _ r(2)]) (use tr r(1) in \<open>simp add: tracks_append\<close>)
  then show ?thesis
    unfolding r_def [symmetric] using w len holds_length [OF h] by (simp del: replicate_Suc)
qed

text \<open>One lowered gate simulates one step of the reversible run.\<close>

lemma lower_gate_sim:
  assumes ok: "gate_ok (length ws) g" and low: "lowerable E g"
    and h: "holds E ins st0 b (vs, ag, st)" and tr: "tracks (bb_wires b) vs ws" and st: "storage_eq st str"
  shows "bpost (lower_gate i g) b (\<lambda>_ b'. sim E ins st0 b' (gate_step (ext_registry E) g (ws, str)))"
proof -
  let ?m = "bb_wires b"
  have len: "length ?m = length ws" using tr by (simp add: tracks_def)
  note range = ok [unfolded gate_ok_def touches_def]
  note opt = tracks_opt [OF tr]
  show ?thesis
  proof (cases g)
    case (X t)
    then have t: "t < length ws" using range by simp
    have "eval_stmt E (BNot (?m ! t)) (length vs) vs ag st = Some (\<not> ws ! t, ag, st)" by (simp add: opt [OF t])
    from sim_write [OF h tr st this, of t] show ?thesis using t len by (simp add: X)
  next
    case (Cnot c t)
    then have w: "c < length ws" "t < length ws" using range by simp_all
    have "eval_stmt E (BXor (?m ! c) (?m ! t)) (length vs) vs ag st = Some (ws ! t \<noteq> ws ! c, ag, st)"
      by (auto simp: opt w)
    from sim_write [OF h tr st this, of t] show ?thesis using w len by (simp add: Cnot)
  next
    case (Ccnot c1 c2 t)
    then have w: "c1 < length ws" "c2 < length ws" "t < length ws" using range by simp_all
    let ?p = "ws ! c1 \<and> ws ! c2"
    have ev: "eval_stmt E (BAnd (?m ! c1) (?m ! c2)) (length vs) vs ag st = Some (?p, ag, st)" by (simp add: opt w)
    note h1 = holds_pushed [OF h ev]
    have "eval_stmt E (BXor (?m ! t) (length vs)) (length (vs @ [?p])) (vs @ [?p]) ag st = Some (ws ! t \<noteq> ?p, ag, st)"
      by (simp add: nth_opt_extend [OF opt [OF w(3)]])
    from sim_write [OF h1 _ st this, of ws t] tracks_append [OF tr] show ?thesis
      using w len holds_length [OF h] by (simp add: Ccnot)
  next
    case (XorLut2 c0 c1 t table)
    then show ?thesis using lower_lut2_xor_sim [OF _ h tr st, of c0 c1 t table] ok by simp
  next
    case (StorageSwap s l addr t)
    then show ?thesis using lower_swap_sim [OF _ _ h tr st] range by simp
  next
    case (ExternalXor k name args t j occ)
    then have "k = RRng \<Longrightarrow> ext_effects E" using low by simp
    from lower_external_sim [OF _ _ this h tr st] show ?thesis using range ExternalXor by simp
  next
    case (ExternalStorageXor name guard args fallback s l addr j occ)
    then show ?thesis using lower_action_sim [OF _ _ _ _ _ _ h tr st] range low by simp
  qed
qed

lemma lower_gates_sim:
  assumes "\<forall>g \<in> set gs. gate_ok (length (fst r)) g \<and> lowerable E g" and "sim E ins st0 b r"
  shows "bpost (lower_gates i gs) b (\<lambda>_ b'. sim E ins st0 b' (run (ext_registry E) gs r))"
  using assms
proof (induction gs arbitrary: b r i)
  case (Cons g gs)
  obtain vs ag st where "holds E ins st0 b (vs, ag, st)" "tracks (bb_wires b) vs (fst r)" "storage_eq st (snd r)"
    using Cons.prems(2) by (auto simp: sim_def)
  then have "bpost (lower_gate i g) b (\<lambda>_ b'. sim E ins st0 b' (gate_step (ext_registry E) g r))"
    using lower_gate_sim [of "fst r" g E ins st0 b vs ag st "snd r" i] Cons.prems(1) by simp
  then show ?case
    unfolding lower_gates.simps bpost_bthen run_Cons
    by (rule bpost_mono) (rule Cons.IH, use Cons.prems(1) in simp_all)
qed simp

section \<open>Resources\<close>

text \<open>
  \<open>costs m n S\<close>: the step defines at most \<open>n\<close> variables, runs out of them only when fewer are
  left, and has no other error than those of \<open>S\<close>.
\<close>

definition costs :: "'a build \<Rightarrow> nat \<Rightarrow> CircuitTransformError set \<Rightarrow> bool" where
  "costs m n S \<longleftrightarrow> (\<forall>b. case m b of
       Ok (x, b') \<Rightarrow> var_space (bb_circuit b') \<le> var_space (bb_circuit b) + n
     | Err e \<Rightarrow> e \<in> S \<or> e = VarSpaceExhausted \<and> U32_MAX < var_space (bb_circuit b) + n
     | Panic \<Rightarrow> True)"

lemma costs_bthen:
  assumes "costs m k S" and "\<And>x. costs (f x) l S"
  shows "costs (bthen m f) (k + l) S"
  unfolding costs_def
proof
  fix b
  show "case bthen m f b of
       Ok (x, b') \<Rightarrow> var_space (bb_circuit b') \<le> var_space (bb_circuit b) + (k + l)
     | Err e \<Rightarrow> e \<in> S \<or> e = VarSpaceExhausted \<and> U32_MAX < var_space (bb_circuit b) + (k + l)
     | Panic \<Rightarrow> True"
  proof (cases "m b")
    case (Ok p)
    then obtain x b1 where m: "m b = Ok (x, b1)" by (cases p) auto
    then have le: "var_space (bb_circuit b1) \<le> var_space (bb_circuit b) + k"
      using spec [OF assms(1) [unfolded costs_def], of b] by simp
    have "case f x b1 of
        Ok (y, b') \<Rightarrow> var_space (bb_circuit b') \<le> var_space (bb_circuit b1) + l
      | Err e \<Rightarrow> e \<in> S \<or> e = VarSpaceExhausted \<and> U32_MAX < var_space (bb_circuit b1) + l
      | Panic \<Rightarrow> True"
      using assms(2) unfolding costs_def by blast
    then show ?thesis using le by (cases "f x b1") (auto simp: bthen_def m)
  next
    case (Err e)
    then have "e \<in> S \<or> e = VarSpaceExhausted \<and> U32_MAX < var_space (bb_circuit b) + k"
      using spec [OF assms(1) [unfolded costs_def], of b] by simp
    then show ?thesis by (auto simp: bthen_def Err)
  qed (simp add: bthen_def)
qed

lemma costs_le: "costs m k S \<Longrightarrow> k \<le> l \<Longrightarrow> S \<subseteq> T \<Longrightarrow> costs m l T"
  unfolding costs_def by (fastforce split: outcome.splits prod.splits)

lemma obind_of_option: "obind (of_option x) f = (case x of None \<Rightarrow> Panic | Some y \<Rightarrow> f y)"
  by (cases x) simp_all

lemma costs_basic:
  "costs (breturn x) 0 S" "costs (wire w) 0 S" "costs (wires ws) 0 S" "costs (set_wire w v) 0 S" "costs (emit k) 1 S"
  by (auto simp: costs_def breturn_def wire_def wires_def set_wire_def emit_def checked_push_stmt_def
      obind_of_option circuit_push_stmt_def var_space_def split: option.splits)

lemma costs_breturn: "costs (breturn x) n S"
  by (rule costs_le [OF costs_basic(1)]) auto

lemma costs_b_when: "costs (m x) n S \<Longrightarrow> costs (b_when c m x) n S"
  by (cases c) (simp_all add: b_when_def costs_breturn)

lemma costs_append_xor_term: "costs (append_xor_term v t) 1 S"
proof (cases v)
  case (Some u)
  then show ?thesis
    using costs_bthen [OF costs_basic(5) costs_basic(1)] by (simp add: append_xor_term_def)
qed (simp add: append_xor_term_def costs_breturn)

lemmas costs_rules = costs_bthen costs_basic costs_b_when costs_append_xor_term

lemma costs_lut_end:
  "costs (case v of None \<Rightarrow> breturn () | Some u \<Rightarrow>
     bthen (wire t) (\<lambda>w. bthen (emit (BXor w u)) (\<lambda>nxt. set_wire t nxt))) 1 S"
proof (cases v)
  case (Some u)
  have "costs (bthen (wire t) (\<lambda>w. bthen (emit (BXor w u)) (\<lambda>nxt. set_wire t nxt))) (0 + (1 + 0)) S"
    by (intro costs_rules)
  then show ?thesis by (simp add: Some)
qed (simp add: costs_breturn)

text \<open>The one overflow: an action gate whose bit index has no successor.\<close>

fun bit_overflows :: "RGate \<Rightarrow> bool" where
  "bit_overflows (ExternalStorageXor _ _ _ _ _ _ _ j _) = (j \<ge> USIZE_MAX)"
| "bit_overflows _ = False"

lemma costs_lower_gate:
  "costs (lower_gate i g) 7 (if bit_overflows g then {ActionBitIndexOverflow i} else {})"
proof (cases g)
  case (X t)
  show ?thesis unfolding X lower_gate.simps by (rule costs_le, (rule costs_rules)+) simp_all
next
  case (Cnot c t)
  show ?thesis unfolding Cnot lower_gate.simps by (rule costs_le, (rule costs_rules)+) simp_all
next
  case (Ccnot c1 c2 t)
  show ?thesis unfolding Ccnot lower_gate.simps by (rule costs_le, (rule costs_rules)+) simp_all
next
  case (XorLut2 c0 c1 t table)
  show ?thesis unfolding XorLut2 lower_gate.simps lower_lut2_xor_def Let_def
    by (rule costs_le, (rule costs_rules costs_lut_end)+) simp_all
next
  case (StorageSwap s l addr t)
  show ?thesis unfolding StorageSwap lower_gate.simps by (rule costs_le, (rule costs_rules)+) simp_all
next
  case (ExternalXor k name args t j occ)
  show ?thesis unfolding ExternalXor lower_gate.simps
    by (cases k; simp only: RExternalKind.case) (rule costs_le, (rule costs_rules)+; simp)+
next
  case (ExternalStorageXor name guard args fallback s l addr j occ)
  show ?thesis
  proof (cases "j \<ge> USIZE_MAX")
    case True
    then show ?thesis by (simp add: ExternalStorageXor costs_def)
  next
    case False
    then show ?thesis unfolding ExternalStorageXor lower_gate.simps
      by (simp only: if_False) (rule costs_le, (rule costs_rules)+; simp)
  qed
qed

lemma costs_lower_gates:
  "costs (lower_gates i gs) (7 * length gs) {ActionBitIndexOverflow (i + k) | k. k < length gs \<and> bit_overflows (gs ! k)}"
proof (induction gs arbitrary: i)
  case (Cons g gs)
  let ?S = "{ActionBitIndexOverflow (i + k) | k. k < length (g # gs) \<and> bit_overflows ((g # gs) ! k)}"
  have "costs (lower_gate i g) 7 ?S"
    by (rule costs_le [OF costs_lower_gate]) (auto intro: exI [of _ 0])
  moreover have "costs (lower_gates (Suc i) gs) (7 * length gs) ?S"
  proof (rule costs_le [OF Cons.IH])
    show "{ActionBitIndexOverflow (Suc i + k) | k. k < length gs \<and> bit_overflows (gs ! k)} \<subseteq> ?S"
      by clarify (rule_tac x = "Suc k" in exI, simp)
  qed simp
  ultimately show ?case using costs_bthen [of "lower_gate i g" 7 ?S] by simp
qed (simp add: costs_breturn)

section \<open>Well-formedness of what is built\<close>

definition wfb :: "BoolarBuilder \<Rightarrow> bool" where
  "wfb b \<longleftrightarrow> ssa_ordered (bc_params (bb_circuit b)) (bc_stmts (bb_circuit b))
     \<and> list_all (\<lambda>n. \<not> is_projection (kind n)) (bc_stmts (bb_circuit b))
     \<and> (\<forall>v \<in> set (bb_wires b). v < var_space (bb_circuit b))"

lemma wfb_pushed:
  "wfb b \<Longrightarrow> \<forall>v \<in> set (operands k). v < var_space (bb_circuit b) \<Longrightarrow> \<not> is_projection k \<Longrightarrow> wfb (pushed k b)"
  by (auto simp: wfb_def pushed_def circuit_push_stmt_def var_space_def ssa_ordered_snoc Node_new_def)

lemma wfb_set_wire:
  "wfb b \<Longrightarrow> v < var_space (bb_circuit b) \<Longrightarrow> bb_wires b = m \<Longrightarrow> wfb (b\<lparr>bb_wires := m[w := v]\<rparr>)"
  by (auto simp: wfb_def dest: set_update_subset_insert [THEN subsetD])

lemma wfb_wire: "wfb b \<Longrightarrow> w < length (bb_wires b) \<Longrightarrow> bb_wires b ! w < var_space (bb_circuit b)"
  by (simp add: wfb_def)

lemma wfb_circuit: "wfb b \<Longrightarrow> wf_circuit (builder_finish b)"
  by (auto simp: wfb_def wf_circuit_def handles_ok_def builder_finish_def var_space_def list_all_length)

definition grown :: "BoolarBuilder \<Rightarrow> ir_var option \<Rightarrow> BoolarBuilder \<Rightarrow> bool" where
  "grown b0 v b \<longleftrightarrow> wfb b \<and> bb_wires b = bb_wires b0 \<and> var_space (bb_circuit b0) \<le> var_space (bb_circuit b)
     \<and> (case v of None \<Rightarrow> True | Some u \<Rightarrow> u < var_space (bb_circuit b))"

lemma grown_append:
  "grown b0 v b \<Longrightarrow> t < var_space (bb_circuit b) \<Longrightarrow> bpost (append_xor_term v t) b (grown b0)"
  by (cases v) (auto simp: append_xor_term_def grown_def intro!: wfb_pushed)

lemma grown_pushed:
  "grown b0 v b \<Longrightarrow> \<forall>u \<in> set (operands k). u < var_space (bb_circuit b) \<Longrightarrow> \<not> is_projection k \<Longrightarrow> grown b0 v (pushed k b)"
  by (auto simp: grown_def wfb_pushed split: option.splits)

lemma lower_lut2_xor_wfb:
  assumes w: "c0 < length (bb_wires b)" "c1 < length (bb_wires b)" "t < length (bb_wires b)" and b: "wfb b"
  shows "bpost (lower_lut2_xor c0 c1 t table) b (\<lambda>_ b'. wfb b' \<and> length (bb_wires b') = length (bb_wires b))"
proof -
  have g0: "grown b None b" using b by (simp add: grown_def)
  have le: "bb_wires b ! w < var_space (bb_circuit b1)" if "grown b v b1" "w < length (bb_wires b)" for v b1 w
    using that wfb_wire [OF b] by (fastforce simp: grown_def)
  have one: "bpost (b_when cond (\<lambda>v. bthen (emit BOne) (\<lambda>one. append_xor_term v one)) v) b1 (grown b)"
    if "grown b v b1" for v b1 cond
    using grown_append [OF grown_pushed [OF that, of BOne]] that by simp
  have opt: "bpost (b_when cond (\<lambda>v. append_xor_term v (bb_wires b ! w)) v) b1 (grown b)"
    if "grown b v b1" "w < length (bb_wires b)" for v b1 cond w
    using grown_append [OF that(1) le [OF that]] that by simp
  have conj: "bpost (b_when cond (\<lambda>v. bthen (emit (BAnd (bb_wires b ! c0) (bb_wires b ! c1)))
      (\<lambda>product. append_xor_term v product)) v) b1 (grown b)" if "grown b v b1" for v b1 cond
    using grown_append [OF grown_pushed [OF that, of "BAnd (bb_wires b ! c0) (bb_wires b ! c1)"]] that le [OF that] w by simp
  have last: "bpost (case v of None \<Rightarrow> breturn () | Some value \<Rightarrow>
        bthen (wire t) (\<lambda>u. bthen (emit (BXor u value)) (\<lambda>nxt. set_wire t nxt))) b1
      (\<lambda>_ b'. wfb b' \<and> length (bb_wires b') = length (bb_wires b))"
    if g: "grown b v b1" for v b1
  proof (cases v)
    case (Some u)
    have "wfb (pushed (BXor (bb_wires b ! t) u) b1)"
      using g le [OF g w(3)] Some by (auto simp: grown_def intro!: wfb_pushed)
    from wfb_set_wire [OF this, of "var_space (bb_circuit b1)" _ t] show ?thesis
      using g w(3) Some by (simp add: grown_def)
  qed (use g in \<open>simp add: grown_def\<close>)
  show ?thesis
    unfolding lower_lut2_xor_def Let_def
    apply (simp only: bpost_bthen bpost_wire [OF w(1)] bpost_wire [OF w(2)])
    apply (rule bpost_mono [OF one [OF g0]])
    apply (erule bpost_mono [OF opt [OF _ w(1)]])
    apply (erule bpost_mono [OF opt [OF _ w(2)]])
    apply (erule bpost_mono [OF conj])
    apply (erule last)
    done
qed

lemma lower_gate_wfb:
  assumes ok: "gate_ok (length (bb_wires b)) g" and b: "wfb b"
  shows "bpost (lower_gate i g) b (\<lambda>_ b'. wfb b' \<and> length (bb_wires b') = length (bb_wires b))"
proof -
  have le: "bb_wires b ! w < n" if "w < length (bb_wires b)" "var_space (bb_circuit b) \<le> n" for w n
    using wfb_wire [OF b that(1)] that(2) by simp
  note range = ok [unfolded gate_ok_def touches_def]
  note rules = wfb_set_wire wfb_pushed b
  show ?thesis
  proof (cases g)
    case (XorLut2 c0 c1 t table)
    then show ?thesis using lower_lut2_xor_wfb [OF _ _ _ b, of c0 c1 t] range by simp
  next
    case (StorageSwap s l addr t)
    then show ?thesis using range le by (auto intro!: rules)
  next
    case (ExternalXor k name args t j occ)
    then show ?thesis using range le by (cases k) (auto intro!: rules)
  next
    case (ExternalStorageXor name guard args fallback s l addr j occ)
    then show ?thesis using range le by (auto intro!: rules simp del: replicate_Suc)
  qed (use range le in \<open>auto intro!: rules\<close>)
qed

section \<open>The lowered circuit\<close>

lemma lower_gates_wfb:
  "\<forall>g \<in> set gs. gate_ok (length (bb_wires b)) g \<Longrightarrow> wfb b \<Longrightarrow> bpost (lower_gates i gs) b (\<lambda>_ b'. wfb b')"
proof (induction gs arbitrary: b i)
  case (Cons g gs)
  show ?case
    unfolding lower_gates.simps bpost_bthen
    by (rule bpost_mono [OF lower_gate_wfb]) (use Cons.prems in \<open>auto intro: Cons.IH\<close>)
qed simp

lemma wfb_new: "wfb (builder_new n)" and length_new: "length (bb_wires (builder_new n)) = n"
  by (simp_all add: wfb_def builder_new_def BCircuit_new_def var_space_def)

lemma sim_new:
  assumes "length ws = n"
  shows "sim E ws st (builder_new n) (ws, st)"
proof (rule sim_intro)
  show "holds E ws st (builder_new n) (ws, Map.empty, st)"
    using assms by (simp add: holds_def built_def builder_new_def BCircuit_new_def var_space_def)
qed (use assms in \<open>simp_all add: tracks_def builder_new_def\<close>)

lemma sim_finish:
  assumes "sim E ins st0 b (ws, str)"
  shows "\<exists>st'. eval_circuit E (builder_finish b) ins st0 = Some (ws, st') \<and> storage_eq st' str"
proof -
  obtain vs ag st where h: "holds E ins st0 b (vs, ag, st)" and tr: "tracks (bb_wires b) vs ws" and "storage_eq st str"
    using assms by (auto simp: sim_def)
  moreover have "nths_opt vs (bb_wires b) = Some ws"
    using tr by (auto simp: nths_opt_eq_Some tracks_def in_set_conv_nth intro: nth_equalityI)
  ultimately show ?thesis by (simp add: eval_circuit_def builder_finish_def holds_def built_def)
qed

lemma to_boolar_run:
  assumes "validate rc = Inr ()" and "\<forall>g \<in> set (gates rc). lowerable E g \<and> \<not> bit_overflows g"
    and "num_wires rc + 7 * length (gates rc) \<le> U32_MAX"
  shows "\<exists>c. to_boolar_circuit rc = Ok c \<and> wf_circuit c \<and> bc_params c = num_wires rc
    \<and> length (bc_outputs c) = num_wires rc \<and> var_space c \<le> num_wires rc + 7 * length (gates rc)
    \<and> (\<forall>ws st. length ws = num_wires rc \<longrightarrow> (\<exists>ws' st1 st2.
          apply_with_externals (ext_registry E) rc ws st = Some (ws', st1)
          \<and> eval_circuit E c ws st = Some (ws', st2) \<and> storage_eq st2 st1))"
proof -
  let ?n = "num_wires rc" and ?R = "ext_registry E"
  have ok: "circuit_ok rc" using assms(1) by (simp add: validate_Inr)
  have sim: "bpost (lower_gates 0 (gates rc)) (builder_new ?n) (\<lambda>_ b'. sim E ws st b' (run ?R (gates rc) (ws, st)))"
    if "length ws = ?n" for ws st
    using lower_gates_sim [OF _ sim_new [OF that]] ok assms(2) that by (simp add: circuit_ok_def)
  have "var_space (bb_circuit (builder_new ?n)) = ?n" by (simp add: builder_new_def BCircuit_new_def var_space_def)
  then have "case lower_gates 0 (gates rc) (builder_new ?n) of
      Ok (x, b') \<Rightarrow> True | Err e \<Rightarrow> False | Panic \<Rightarrow> True"
    using spec [OF costs_lower_gates [of 0 "gates rc", unfolded costs_def], of "builder_new ?n"] assms(2,3)
    by (auto split: outcome.splits dest: nth_mem)
  moreover have "lower_gates 0 (gates rc) (builder_new ?n) \<noteq> Panic"
    using sim [of "replicate ?n False"] by (auto simp: bpost_def)
  ultimately obtain u b where b: "lower_gates 0 (gates rc) (builder_new ?n) = Ok (u, b)"
    by (cases "lower_gates 0 (gates rc) (builder_new ?n)") auto
  have c: "to_boolar_circuit rc = Ok (builder_finish b)"
    using assms(1,3) b by (simp add: to_boolar_circuit_def)
  have s: "sim E ws st b (run ?R (gates rc) (ws, st))" if "length ws = ?n" for ws st
    using sim [OF that] b by (simp add: bpost_def)
  have "bc_params (builder_finish b) = ?n" "length (bc_outputs (builder_finish b)) = ?n"
    using s [of "replicate ?n False"]
    by (auto simp: sim_def holds_def builder_finish_def tracks_def dest: arg_cong [where f = fst])
  moreover have "var_space (builder_finish b) \<le> ?n + 7 * length (gates rc)"
    using spec [OF costs_lower_gates [of 0 "gates rc", unfolded costs_def], of "builder_new ?n"] b
    by (simp add: builder_finish_def builder_new_def BCircuit_new_def var_space_def)
  moreover have "wf_circuit (builder_finish b)"
    using lower_gates_wfb [OF _ wfb_new, of "gates rc" ?n 0] ok b
    by (simp add: bpost_def length_new circuit_ok_def wfb_circuit)
  moreover have "\<exists>ws' st1 st2. apply_with_externals ?R rc ws st = Some (ws', st1)
      \<and> eval_circuit E (builder_finish b) ws st = Some (ws', st2) \<and> storage_eq st2 st1" if "length ws = ?n" for ws st
    using apply_with_externals_run [OF ok that, of ?R st] s [OF that, of st] sim_finish
    by (cases "run ?R (gates rc) (ws, st)") fastforce
  ultimately show ?thesis using c by blast
qed

text \<open>C8. Lowering a reversible circuit keeps its behaviour: a validated circuit whose random and action gates
  read sources the Boolar evaluator can evaluate (and actions that ignore the occurrence number), whose
  action bit indices do not overflow and which has room in the \<open>u32\<close> variable space, lowers to a Boolar
  circuit that maps every wire vector to the wire vector the reversible run ends in, with the same
  storage contents.\<close>

theorem to_boolar_simulates:
  assumes "validate rc = Inr ()" and "\<forall>g \<in> set (gates rc). lowerable E g \<and> \<not> bit_overflows g"
    and "num_wires rc + 7 * length (gates rc) \<le> U32_MAX"
  shows "\<exists>c. to_boolar_circuit rc = Ok c \<and> wf_circuit c \<and> bc_params c = num_wires rc
    \<and> length (bc_outputs c) = num_wires rc \<and> var_space c \<le> num_wires rc + 7 * length (gates rc)
    \<and> (\<forall>ws st. length ws = num_wires rc \<longrightarrow> (\<exists>ws' st1 st2.
          apply_with_externals (ext_registry E) rc ws st = Some (ws', st1)
          \<and> eval_circuit E c ws st = Some (ws', st2) \<and> storage_eq st2 st1))"
  by (rule to_boolar_run [OF assms])

theorem to_boolar_simulates_witness:
  "\<exists>c st2. to_boolar_circuit \<lparr>num_wires = 3, gates = [X 0, Ccnot 0 1 2]\<rparr> = Ok c
    \<and> eval_circuit hash_externals c [False, True, False] Map.empty = Some ([True, True, True], st2)"
proof -
  let ?rc = "\<lparr>num_wires = 3, gates = [X 0, Ccnot 0 1 2]\<rparr>"
  have v: "validate ?rc = Inr ()" and g: "\<forall>g \<in> set (gates ?rc). lowerable hash_externals g \<and> \<not> bit_overflows g"
    and n: "num_wires ?rc + 7 * length (gates ?rc) \<le> U32_MAX"
    by (simp_all add: validate_def U32_MAX_def)
  have run: "apply_with_externals (ext_registry hash_externals) ?rc [False, True, False] Map.empty
      = Some ([True, True, True], Map.empty)"
    by (simp add: apply_with_externals_def nth_opt_def)
  from to_boolar_simulates [OF v g n] obtain c where c: "to_boolar_circuit ?rc = Ok c"
    and sem: "\<And>ws st. length ws = num_wires ?rc \<Longrightarrow> \<exists>ws' st1 st2.
        apply_with_externals (ext_registry hash_externals) ?rc ws st = Some (ws', st1)
        \<and> eval_circuit hash_externals c ws st = Some (ws', st2) \<and> storage_eq st2 st1" by blast
  from sem [of "[False, True, False]" Map.empty] run c show ?thesis by auto
qed

text \<open>C38. Lowering fails only where it must: it never panics, it reports an invalid source with the
  source's own validation error, a wire count or a variable count that does not fit \<open>u32\<close>, or the
  first action gate whose bit index has no successor.\<close>

theorem to_boolar_failures:
  "case to_boolar_circuit rc of
     Ok c \<Rightarrow> validate rc = Inr () \<and> num_wires rc \<le> U32_MAX
   | Err (InvalidRCircuit e) \<Rightarrow> validate rc = Inl e
   | Err (WireCountOutOfRange n) \<Rightarrow> n = num_wires rc \<and> U32_MAX < n
   | Err VarSpaceExhausted \<Rightarrow> U32_MAX < num_wires rc + 7 * length (gates rc)
   | Err (ActionBitIndexOverflow k) \<Rightarrow> k < length (gates rc) \<and> bit_overflows (gates rc ! k)
   | Err _ \<Rightarrow> False
   | Panic \<Rightarrow> False"
proof (cases "validate rc = Inr () \<and> num_wires rc \<le> U32_MAX")
  case True
  let ?n = "num_wires rc"
  have ok: "circuit_ok rc" using True by (simp add: validate_Inr)
  obtain E where low: "\<And>g. lowerable E g"
  proof
    fix g
    show "lowerable (hash_externals\<lparr>ext_effects := True\<rparr>) g"
      by (cases "(hash_externals\<lparr>ext_effects := True\<rparr>, g)" rule: lowerable.cases)
        (simp_all add: occurrence_free_def hash_externals_def)
  qed
  have "bpost (lower_gates 0 (gates rc)) (builder_new ?n)
      (\<lambda>_ b'. sim E (replicate ?n False) Map.empty b' (run (ext_registry E) (gates rc) (replicate ?n False, Map.empty)))"
    by (rule lower_gates_sim [OF _ sim_new]) (use ok low in \<open>simp_all add: circuit_ok_def\<close>)
  then have np: "lower_gates 0 (gates rc) (builder_new ?n) \<noteq> Panic" by (auto simp: bpost_def)
  have "var_space (bb_circuit (builder_new ?n)) = ?n" by (simp add: builder_new_def BCircuit_new_def var_space_def)
  then have "case lower_gates 0 (gates rc) (builder_new ?n) of
      Ok (x, b') \<Rightarrow> True
    | Err e \<Rightarrow> (\<exists>k < length (gates rc). e = ActionBitIndexOverflow k \<and> bit_overflows (gates rc ! k))
        \<or> e = VarSpaceExhausted \<and> U32_MAX < ?n + 7 * length (gates rc)
    | Panic \<Rightarrow> True"
    using spec [OF costs_lower_gates [of 0 "gates rc", unfolded costs_def], of "builder_new ?n"]
    by (auto split: outcome.splits)
  then show ?thesis
    using True np by (cases "lower_gates 0 (gates rc) (builder_new ?n)") (auto simp: to_boolar_circuit_def)
next
  case False
  then show ?thesis by (cases "validate rc") (auto simp: to_boolar_circuit_def)
qed

section \<open>The public interface\<close>

text \<open>Hardcoding inputs is partial application: the rewritten circuit takes one input per position
  left open and, panics and storage effects included, evaluates as the original circuit does on
  the fixed values with the remaining inputs filled in between them in order.\<close>

theorem hardcoded_inputs:
  assumes "hardcode_circuit_inputs c hc p = Inr c'" and "length ins = bc_params c'"
  shows "bc_params c' = length (filter (\<lambda>v. v = None) (fixed_table (bc_params c) hc)) \<and> bc_pre_init c' = bc_pre_init c
    \<and> eval_circuit E c' ins st = eval_circuit E c (fill_inputs (fixed_table (bc_params c) hc) ins) st"
  using hardcode_evaluates [OF assms(1)] assms(2) by blast

theorem hardcoded_inputs_witness:
  "\<exists>c'. hardcode_circuit_inputs half_adder [(1, True)] () = Inr c'
    \<and> eval_circuit hash_externals c' [True] Map.empty = Some ([False, True], Map.empty)"
proof -
  let ?c = "\<lparr>bc_params = 1, bc_stmts = map (\<lambda>k. Node_new k () None) [BOne, BXor 0 1, BAnd 0 1],
      bc_pre_init = [], bc_outputs = [2, 3]\<rparr>"
  have two: "replicate 2 x = [x, x]" for x :: "bool option" by (simp add: numeral_2_eq_2)
  have c: "hardcode_circuit_inputs half_adder [(1, True)] () = Inr ?c"
    by (simp add: two hardcode_circuit_inputs_def half_adder_def Node_new_def circuit_push_stmt_def
        remap_stmt_def lookup_remap_def nth_opt_def freturn_def var_space_def U32_MAX_def)
  moreover have "fill_inputs (fixed_table (bc_params half_adder) [(1, True)]) [True] = [True, True]"
    by (simp add: fixed_table_def upt_rec)
  ultimately show ?thesis using hardcoded_inputs [OF c, of "[True]" hash_externals Map.empty] by auto
qed

text \<open>Hardcoding refuses exactly bad positions: on an SSA-ordered circuit whose variables fit in
  \<open>u32\<close> it succeeds if and only if no position is named twice and every position is a parameter;
  the number of variables is unchanged.\<close>

theorem hardcoding_accepts:
  assumes "wf_circuit c" and "var_space c \<le> U32_MAX"
  shows "(\<exists>c'. hardcode_circuit_inputs c hc p = Inr c') \<longleftrightarrow>
    distinct (map fst hc) \<and> (\<forall>i \<in> set (map fst hc). i < bc_params c)"
  using hardcode_succeeds [OF _ _ assms(2), of hc p] assms(1) by (simp add: wf_circuit_def)

theorem hardcoding_accepts_witness:
  "(\<exists>c'. hardcode_circuit_inputs half_adder [(0, True), (1, False)] () = Inr c')
   \<and> (\<nexists>c'. hardcode_circuit_inputs half_adder [(2, True)] () = Inr c')"
proof -
  have "var_space half_adder \<le> U32_MAX" by (simp add: var_space_def half_adder_def U32_MAX_def)
  note this' = hardcoding_accepts [OF wf_samples(1) this]
  show ?thesis unfolding this' by simp
qed

lemma remove_outputs_ok:
  assumes True: "distinct ks \<and> (\<forall>k \<in> set ks. k < length (bc_outputs c))"
  shows "\<exists>c'. remove_circuit_outputs c ks = Inr c'
     \<and> (case eval_circuit E c ins st of
          Some (outs, st') \<Rightarrow> eval_circuit E c' ins st = Some (nths outs (- set ks), st')
        | None \<Rightarrow> True)"
proof -
  obtain ps where ps: "check_positions (length (bc_outputs c)) [] ks = Inr ps"
    using True check_positions_ok [of "length (bc_outputs c)" "[]" ks] by auto
  then have set: "set ps = set ks" using check_positions_Inr by fastforce
  let ?c = "c\<lparr>bc_outputs := map ((!) (bc_outputs c)) (filter (\<lambda>k. k \<notin> set ks) [0..<length (bc_outputs c)])\<rparr>"
  have "remove_circuit_outputs c ks = Inr ?c" by (simp add: remove_circuit_outputs_def ps set)
  moreover have "case eval_circuit E c ins st of
          Some (outs, st') \<Rightarrow> eval_circuit E ?c ins st = Some (nths outs (- set ks), st') | None \<Rightarrow> True"
  proof (cases "eval_circuit E c ins st")
    case (Some r)
    then obtain outs st' vs ag where r: "r = (outs, st')" and len: "length ins = bc_params c"
      and ev: "eval_stmts E (bc_stmts c) (bc_params c) (ins, Map.empty, st) = Some (vs, ag, st')"
      and out: "nths_opt vs (bc_outputs c) = Some outs"
      by (cases r) (auto simp: eval_circuit_def bind_eq_Some_conv split: if_splits)
    let ?ix = "filter (\<lambda>k. k \<notin> set ks) [0..<length (bc_outputs c)]"
    have "nths_opt vs (map ((!) (bc_outputs c)) ?ix) = Some (map ((!) outs) ?ix)"
      using out by (auto simp: nths_opt_eq_Some)
    moreover have "map ((!) outs) ?ix = nths outs (- set ks)"
      using out by (simp add: nths_map_filter nths_opt_eq_Some)
    ultimately show ?thesis by (simp add: eval_circuit_def len ev out)
  qed simp
  ultimately show ?thesis by blast
qed

text \<open>Removing outputs drops exactly the named positions: it succeeds if and only if the positions
  are distinct and in range, and the circuit then returns the remaining outputs in their order,
  with unchanged storage effects.\<close>

theorem removed_outputs:
  "if distinct ks \<and> list_all (\<lambda>k. k < length (bc_outputs c)) ks
   then \<exists>c'. remove_circuit_outputs c ks = Inr c'
     \<and> (case eval_circuit E c ins st of
          Some (outs, st') \<Rightarrow> eval_circuit E c' ins st = Some (nths outs (- set ks), st')
        | None \<Rightarrow> True)
   else \<exists>k. remove_circuit_outputs c ks = Inl (DuplicateOutput k)
         \<or> remove_circuit_outputs c ks = Inl (OutputOutOfRange k (length (bc_outputs c)))"
proof (cases "distinct ks \<and> list_all (\<lambda>k. k < length (bc_outputs c)) ks")
  case True
  then show ?thesis using remove_outputs_ok [of ks c E ins st] by (simp add: list_all_iff)
next
  case False
  then show ?thesis
    using check_positions_Inl [of ks "length (bc_outputs c)" "[]"]
    by (auto simp: remove_circuit_outputs_def list_all_iff)
qed

end
