(* ===== verification/ReversibleRoundTrip.thy ===== *)
theory ReversibleRoundTrip
  imports NaiveEmbedding FromReversibleProps
begin

text \<open>
  The two lowerings composed: a Boolar circuit is made reversible, lowered back to Boolar, its
  output wires and workspace hardcoded to zero and all outputs but the former output wires
  removed. The result computes what the original computes.
\<close>

lemma fixed_zeros:
  assumes "p \<le> n"
  shows "fixed_table n (map (\<lambda>w. (w, False)) [p..<n]) = replicate p None @ replicate (n - p) (Some False)"
proof (rule nth_equalityI)
  fix i assume "i < length (fixed_table n (map (\<lambda>w. (w, False)) [p..<n]))"
  then have i: "i < n" by (simp add: fixed_table_def)
  have "map_of (map (\<lambda>w. (w, False)) [p..<n]) i = (if p \<le> i then Some False else None)"
    using i by (auto simp: map_of_map_restrict [of "\<lambda>_. False", unfolded comp_def])
  then show "fixed_table n (map (\<lambda>w. (w, False)) [p..<n]) ! i = (replicate p None @ replicate (n - p) (Some False)) ! i"
    using i assms by (auto simp: fixed_table_def nth_append)
qed (use assms in \<open>simp add: fixed_table_def\<close>)

lemma fill_zeros:
  assumes "length xs = p" and "p \<le> n"
  shows "fill_inputs (fixed_table n (map (\<lambda>w. (w, False)) [p..<n])) xs = xs @ replicate (n - p) False"
proof -
  have nones: "fill_inputs (replicate (length xs) None @ fixed) xs = xs @ fill_inputs fixed []" for fixed
    by (induction xs) simp_all
  have "fill_inputs (replicate k (Some False)) ys = replicate k False" for k ys
    by (induction k) simp_all
  then show ?thesis using nones [of "replicate (n - p) (Some False)"] assms by (simp add: fixed_zeros)
qed

lemma nths_middle: "nths xs (- set ([0..<a] @ [b..<length xs])) = take (b - a) (drop a xs)"
  if "a \<le> b" "b \<le> length xs" for xs :: "'a list"
proof -
  have "filter (\<lambda>k. k \<in> - set ([0..<a] @ [b..<length xs])) [0..<length xs] = [a..<b]"
  proof -
    have "[0..<length xs] = [0..<a] @ [a..<b] @ [b..<length xs]"
      using that upt_add_eq_append [of 0 a "length xs - a"] upt_add_eq_append [of a b "length xs - b"] by simp
    then show ?thesis by (simp only: filter_append) (auto simp: filter_empty_conv filter_id_conv)
  qed
  then have "nths xs (- set ([0..<a] @ [b..<length xs])) = map ((!) xs) [a..<b]"
    by (simp only: nths_map_filter)
  also have "\<dots> = take (b - a) (drop a xs)"
    using that by (intro nth_equalityI) auto
  finally show ?thesis .
qed

lemma eval_circuit_length: "eval_circuit E c xs st = Some (outs, st') \<Longrightarrow> length outs = length (bc_outputs c)"
  by (erule eval_circuit_Some) simp

text \<open>C7. There and back: for an SSA-ordered circuit of statements the synthesis supports (no aggregate
  oracle, action or random calls, and no stores of actions, which the reversible gate adds instead), making it reversible, lowering
  the result to Boolar, hardcoding output wires and workspace to zero and keeping only the output wires
  gives a Boolar circuit that returns the original circuit's outputs and leaves the same storage contents.
  The gates must be ones the lowering gives a meaning (random and action gates need sources that evaluate
  them, action gates ones that ignore the occurrence), with bit indices that do not overflow, and fit the
  \<open>u32\<close> variable space; the evaluator's own sources are such for gates without
  randomness and actions.\<close>

theorem reversible_round_trip:
  assumes "wf_circuit c" and "synth_supported E c"
    and "to_reversible_with_options c \<lparr>opt_mode = Naive, opt_share_scratch = share\<rparr> = Ok (rc, m)"
    and "\<forall>g \<in> set (gates rc). lowerable E g \<and> \<not> bit_overflows g" and "num_wires rc + 7 * length (gates rc) \<le> U32_MAX"
    and "eval_circuit E c xs st = Some (outs, st')"
  shows "\<exists>d d' e st''. to_boolar_circuit rc = Ok d
    \<and> hardcode_circuit_inputs d (map (\<lambda>w. (w, False)) [bc_params c..<num_wires rc]) () = Inr d'
    \<and> remove_circuit_outputs d' ([0..<vw_y_base m] @ [vw_y_base m + length (bc_outputs c)..<num_wires rc]) = Inr e
    \<and> eval_circuit E e xs st = Some (outs, st'') \<and> storage_eq st'' st'"
proof -
  let ?n = "num_wires rc" and ?y = "vw_y_base m" and ?k = "length (bc_outputs c)" and ?p = "bc_params c"
  let ?ys = "replicate ?k False" and ?R = "ext_registry E"
  obtain vs ag where xs: "length xs = ?p"
    and ev: "eval_stmts E (bc_stmts c) ?p (xs, Map.empty, st) = Some (vs, ag, st')"
    and outs: "outs = map ((!) vs) (bc_outputs c)"
    using eval_circuit_Some [OF assms(6)] by metis
  have syn: "synthesize_naive c share = Ok (rc, m)" using assms(3) by (simp add: to_reversible_naive)
  obtain ws' st1 where run: "apply_with_externals ?R rc (embed m xs ?ys) st = Some (ws', st1)"
    and y: "\<And>k. k < ?k \<Longrightarrow> ws' ! (?y + k) = vs ! (bc_outputs c ! k)" and st1: "storage_eq st1 st'"
    using naive_run [OF assms(1,2) _ xs ev, of ?ys share] syn by auto
  have shape: "?p \<le> ?y" "?y + ?k \<le> ?n" "?n = vw_num_wires m" and valid: "validate rc = Inr ()"
    using naive_layout [OF assms(1) _ syn] assms(2) by (auto simp: synth_supported_def)
  have emb: "embed m xs ?ys = xs @ replicate (?n - ?p) False"
    using shape xs by (simp add: embed_def replicate_add [symmetric])
  obtain d where d: "to_boolar_circuit rc = Ok d" "wf_circuit d" "bc_params d = ?n" "length (bc_outputs d) = ?n"
      "var_space d \<le> ?n + 7 * length (gates rc)"
    and sem: "\<And>ws st. length ws = ?n \<Longrightarrow> \<exists>ws' st1 st2. apply_with_externals ?R rc ws st = Some (ws', st1)
        \<and> eval_circuit E d ws st = Some (ws', st2) \<and> storage_eq st2 st1"
    using to_boolar_run [OF valid assms(4,5)] by blast
  have len: "length (embed m xs ?ys) = ?n" using shape xs by (simp add: emb)
  obtain st2 where evd: "eval_circuit E d (embed m xs ?ys) st = Some (ws', st2)" and st2: "storage_eq st2 st1"
    using sem [OF len, of st] run by auto
  let ?hc = "map (\<lambda>w. (w, False)) [?p..<?n]"
  have "\<exists>d'. hardcode_circuit_inputs d ?hc () = Inr d'"
    using hardcode_succeeds [of d ?hc "()"] d(2,3,5) assms(5) by (simp add: wf_circuit_def comp_def)
  then obtain d' where hc: "hardcode_circuit_inputs d ?hc () = Inr d'" ..
  have "fill_inputs (fixed_table ?n ?hc) xs = embed m xs ?ys" using fill_zeros [OF xs, of ?n] shape emb by simp
  moreover have "length xs = bc_params d'"
  proof -
    have "length (filter (\<lambda>v. v = None) (fixed_table ?n ?hc)) = ?p"
      using fixed_zeros [of ?p ?n] shape by (simp add: fixed_table_def)
    then show ?thesis using hardcode_evaluates(1) [OF hc] d(3) xs by simp
  qed
  ultimately have evd': "eval_circuit E d' xs st = Some (ws', st2)"
    using hardcode_evaluates(2) [OF hc, of xs E st] d(3) evd by simp
  let ?ks = "[0..<?y] @ [?y + ?k..<?n]"
  have "length ws' = ?n" "length (bc_outputs d') = ?n"
    using eval_circuit_length [OF evd] eval_circuit_length [OF evd'] d(4) by simp_all
  then have nths: "nths ws' (- set ?ks) = take ?k (drop ?y ws')"
    using nths_middle [of ?y "?y + ?k" ws'] shape(2) by simp
  have "take ?k (drop ?y ws') = outs"
    by (rule nth_equalityI) (use y shape \<open>length ws' = ?n\<close> in \<open>simp_all add: outs\<close>)
  moreover have "distinct ?ks \<and> (\<forall>k \<in> set ?ks. k < length (bc_outputs d'))"
    using shape \<open>length (bc_outputs d') = ?n\<close> by auto
  from remove_outputs_ok [OF this, of E xs st] obtain e where "remove_circuit_outputs d' ?ks = Inr e"
      "eval_circuit E e xs st = Some (nths ws' (- set ?ks), st2)"
    using evd' by auto
  ultimately show ?thesis using d(1) hc nths storage_eq_trans [OF st2 st1] by auto
qed

text \<open>The half adder, with the evaluator's own sources.\<close>

theorem reversible_round_trip_witness:
  "\<exists>rc m d d' e st''. to_reversible_with_options half_adder \<lparr>opt_mode = Naive, opt_share_scratch = False\<rparr> = Ok (rc, m)
    \<and> to_boolar_circuit rc = Ok d
    \<and> hardcode_circuit_inputs d (map (\<lambda>w. (w, False)) [2..<num_wires rc]) () = Inr d'
    \<and> remove_circuit_outputs d' ([0..<vw_y_base m] @ [vw_y_base m + 2..<num_wires rc]) = Inr e
    \<and> eval_circuit hash_externals e [True, True] Map.empty = Some ([False, True], st'')"
proof -
  have r: "to_reversible_with_options half_adder \<lparr>opt_mode = Naive, opt_share_scratch = False\<rparr>
      = Ok (\<lparr>num_wires = 6, gates = [Cnot 0 2, Cnot 1 2, Ccnot 0 1 3, Cnot 2 4, Cnot 3 5]\<rparr>,
            \<lparr>vw_map = [0, 1, 2, 3], vw_num_wires = 6, vw_y_base = 4, vw_workspace = [2, 3],
             vw_borrowed = [], vw_mode = Naive\<rparr>)"
    by code_simp
  have sup: "synth_supported hash_externals half_adder"
    by (simp add: synth_supported_def half_adder_def Node_new_def)
  have ev: "eval_circuit hash_externals half_adder [True, True] Map.empty = Some ([False, True], Map.empty)" by simp
  let ?rc = "\<lparr>num_wires = 6, gates = [Cnot 0 2, Cnot 1 2, Ccnot 0 1 3, Cnot 2 4, Cnot 3 5]\<rparr>"
  have low: "\<forall>g \<in> set (gates ?rc). lowerable hash_externals g \<and> \<not> bit_overflows g"
    and room: "num_wires ?rc + 7 * length (gates ?rc) \<le> U32_MAX"
    by (simp_all add: U32_MAX_def)
  have p: "bc_params half_adder = 2" "length (bc_outputs half_adder) = 2" by simp_all
  note T = reversible_round_trip [OF wf_samples(1) sup r low room ev, unfolded p]
  from T r show ?thesis by blast
qed

end
