(* ===== verification/BoolarOpt.thy ===== *)
theory BoolarOpt
  imports BoolarEval
begin

text \<open>
  The optimiser of Boolar IR (\<open>volar-ir-opt/src/biir.rs\<close> and \<open>canon_alias\<close> of \<open>common.rs\<close>):
  constant folding with alias propagation and dead-branch removal, common-subexpression
  elimination, dead-code elimination with renumbering, and their fixpoint loops. Only definitions.
  A pass over one block returns the rewritten block and whether it changed.
\<close>

section \<open>Aliases\<close>

fun canon_hops :: "nat \<Rightarrow> ('v \<rightharpoonup> 'v) \<Rightarrow> 'v \<Rightarrow> 'v" where
  "canon_hops 0 m v = v"
| "canon_hops (Suc k) m v = (case m v of Some w \<Rightarrow> if w \<noteq> v then canon_hops k m w else v | None \<Rightarrow> v)"

definition canon_alias :: "('v \<rightharpoonup> 'v) \<Rightarrow> 'v \<Rightarrow> 'v" where
  "canon_alias m v = canon_hops 64 m v"

text \<open>
  Every operand is replaced by its canonical name, and the rewrite reports whether one of them
  differs. The early return on an empty map is the same: then no operand differs.
\<close>

definition apply_aliases_to_biir_stmt :: "bstmt \<Rightarrow> (ir_var \<rightharpoonup> ir_var) \<Rightarrow> bstmt \<times> bool" where
  "apply_aliases_to_biir_stmt s m =
     (map_BIrStmt (canon_alias m) id s, list_ex (\<lambda>v. canon_alias m v \<noteq> v) (operands s))"

definition apply_aliases_to_biir_target :: "ir_var BIrTarget \<Rightarrow> (ir_var \<rightharpoonup> ir_var) \<Rightarrow> ir_var BIrTarget \<times> bool" where
  "apply_aliases_to_biir_target t m =
     (\<lparr>tgt_block = (case tgt_block t of Dyn v \<Rightarrow> Dyn (canon_alias m v) | b \<Rightarrow> b),
       tgt_args = map (canon_alias m) (tgt_args t)\<rparr>,
      list_ex (\<lambda>v. canon_alias m v \<noteq> v) (tgt_args t)
      \<or> (case tgt_block t of Dyn v \<Rightarrow> canon_alias m v \<noteq> v | _ \<Rightarrow> False))"

fun apply_aliases_to_biir_terminator ::
  "ir_var BIrTerminator \<Rightarrow> (ir_var \<rightharpoonup> ir_var) \<Rightarrow> ir_var BIrTerminator \<times> bool" where
  "apply_aliases_to_biir_terminator (Jmp t) m =
     (let (t', ch) = apply_aliases_to_biir_target t m in (Jmp t', ch))"
| "apply_aliases_to_biir_terminator (CondJmp val then_target else_target) m =
     (let (t', ch1) = apply_aliases_to_biir_target then_target m;
          (e', ch2) = apply_aliases_to_biir_target else_target m
      in (CondJmp (canon_alias m val) t' e', canon_alias m val \<noteq> val \<or> ch1 \<or> ch2))"

section \<open>Folding\<close>

datatype Action = ToConst bool | ToAlias ir_var

record FoldState =
  bool_map :: "ir_var \<rightharpoonup> bool"
  alias_map :: "ir_var \<rightharpoonup> ir_var"
  changed :: bool

text \<open>The tables of the three gates over the constants known for the canonical operands.\<close>

fun fold_and :: "bool option \<Rightarrow> bool option \<Rightarrow> ir_var \<Rightarrow> ir_var \<Rightarrow> Action option" where
  "fold_and (Some False) vb ca cb = Some (ToConst False)"
| "fold_and va (Some False) ca cb = Some (ToConst False)"
| "fold_and (Some True) (Some True) ca cb = Some (ToConst True)"
| "fold_and (Some True) None ca cb = Some (ToAlias cb)"
| "fold_and None (Some True) ca cb = Some (ToAlias ca)"
| "fold_and None None ca cb = (if ca = cb then Some (ToAlias ca) else None)"

fun fold_or :: "bool option \<Rightarrow> bool option \<Rightarrow> ir_var \<Rightarrow> ir_var \<Rightarrow> Action option" where
  "fold_or (Some True) vb ca cb = Some (ToConst True)"
| "fold_or va (Some True) ca cb = Some (ToConst True)"
| "fold_or (Some False) (Some False) ca cb = Some (ToConst False)"
| "fold_or (Some False) None ca cb = Some (ToAlias cb)"
| "fold_or None (Some False) ca cb = Some (ToAlias ca)"
| "fold_or None None ca cb = (if ca = cb then Some (ToAlias ca) else None)"

fun fold_xor :: "bool option \<Rightarrow> bool option \<Rightarrow> ir_var \<Rightarrow> ir_var \<Rightarrow> Action option" where
  "fold_xor (Some va) (Some vb) ca cb = Some (ToConst (va \<noteq> vb))"
| "fold_xor (Some False) None ca cb = Some (ToAlias cb)"
| "fold_xor None (Some False) ca cb = Some (ToAlias ca)"
| "fold_xor va vb ca cb = (if ca = cb then Some (ToConst False) else None)"

fun fold_action :: "bstmt \<Rightarrow> (ir_var \<rightharpoonup> bool) \<Rightarrow> (ir_var \<rightharpoonup> ir_var) \<Rightarrow> Action option" where
  "fold_action (BAnd a b) bm am =
     (let ca = canon_alias am a; cb = canon_alias am b in fold_and (bm ca) (bm cb) ca cb)"
| "fold_action (BOr a b) bm am =
     (let ca = canon_alias am a; cb = canon_alias am b in fold_or (bm ca) (bm cb) ca cb)"
| "fold_action (BXor a b) bm am =
     (let ca = canon_alias am a; cb = canon_alias am b in fold_xor (bm ca) (bm cb) ca cb)"
| "fold_action (BNot a) bm am = map_option (\<lambda>v. ToConst (\<not> v)) (bm (canon_alias am a))"
| "fold_action _ bm am = None"

text \<open>Reading a statement before acting on it: a constant is recorded for its result.\<close>

fun note_const :: "bstmt \<Rightarrow> nat \<Rightarrow> FoldState \<Rightarrow> FoldState" where
  "note_const BZero rv fs = fs\<lparr>bool_map := (bool_map fs)(rv \<mapsto> False)\<rparr>"
| "note_const BOne rv fs = fs\<lparr>bool_map := (bool_map fs)(rv \<mapsto> True)\<rparr>"
| "note_const _ rv fs = fs"

definition const_stmt :: "bool \<Rightarrow> bstmt" where
  "const_stmt b = (if b then BOne else BZero)"

fun act :: "Action option \<Rightarrow> nat \<Rightarrow> bstmt \<Rightarrow> FoldState \<Rightarrow> bstmt \<times> FoldState" where
  "act None rv k fs = (k, fs)"
| "act (Some (ToConst val)) rv k fs =
     (const_stmt val, fs\<lparr>bool_map := (bool_map fs)(rv \<mapsto> val),
                         changed := changed fs \<or> k \<noteq> const_stmt val\<rparr>)"
| "act (Some (ToAlias target)) rv k fs =
     (k, fs\<lparr>alias_map := (alias_map fs)(rv \<mapsto> target),
           bool_map := (case bool_map fs target of Some val \<Rightarrow> (bool_map fs)(rv \<mapsto> val) | None \<Rightarrow> bool_map fs)\<rparr>)"

definition fold_stmt :: "nat \<Rightarrow> bstmt \<Rightarrow> FoldState \<Rightarrow> bstmt \<times> FoldState" where
  "fold_stmt rv k fs =
     (let (k1, ch) = apply_aliases_to_biir_stmt k (alias_map fs);
          fs1 = note_const k1 rv (fs\<lparr>changed := changed fs \<or> ch\<rparr>)
      in act (fold_action k1 (bool_map fs1) (alias_map fs1)) rv k1 fs1)"

fun fold_stmts :: "nat \<Rightarrow> 'p node list \<Rightarrow> FoldState \<Rightarrow> 'p node list \<times> FoldState" where
  "fold_stmts rv [] fs = ([], fs)"
| "fold_stmts rv (n # ns) fs =
     (let (k, fs1) = fold_stmt rv (kind n) fs;
          (ns', fs2) = fold_stmts (Suc rv) ns fs1
      in (n\<lparr>kind := k\<rparr> # ns', fs2))"

definition fold_biir_stmts_once :: "nat \<Rightarrow> 'p node list \<Rightarrow> 'p node list \<times> FoldState" where
  "fold_biir_stmts_once ps ns =
     fold_stmts ps ns \<lparr>bool_map = Map.empty, alias_map = Map.empty, changed = False\<rparr>"

fun fold_biir_terminator_dead_branch ::
  "ir_var BIrTerminator \<Rightarrow> (ir_var \<rightharpoonup> bool) \<Rightarrow> ir_var BIrTerminator \<times> bool" where
  "fold_biir_terminator_dead_branch (CondJmp val then_target else_target) bm =
     (case bm val of
        Some v \<Rightarrow> (Jmp (if v then then_target else else_target), True)
      | None \<Rightarrow> (CondJmp val then_target else_target, False))"
| "fold_biir_terminator_dead_branch (Jmp t) bm = (Jmp t, False)"

definition fold_biir_block_once :: "'p BIrBlock \<Rightarrow> 'p BIrBlock \<times> bool" where
  "fold_biir_block_once b =
     (let (ns, fs) = fold_biir_stmts_once (params b) (stmts b);
          (t1, ch1) = apply_aliases_to_biir_terminator (terminator b) (alias_map fs);
          (t2, ch2) = fold_biir_terminator_dead_branch t1 (bool_map fs)
      in (b\<lparr>stmts := ns, terminator := t2\<rparr>, changed fs \<or> ch1 \<or> ch2))"

text \<open>
  The fixpoint loop of all three passes: \<open>None\<close> is not returning, or a panic of the pass. It also
  reports whether any round changed the block.
\<close>

partial_function (option) until_stable ::
  "('b \<Rightarrow> ('b \<times> bool) option) \<Rightarrow> 'b \<Rightarrow> bool \<Rightarrow> ('b \<times> bool) option" where
  "until_stable once b any_changed =
     Option.bind (once b) (\<lambda>(b', ch). if ch then until_stable once b' True else Some (b', any_changed))"

text \<open>All blocks in turn; the flag accumulates.\<close>

fun each_block ::
  "('p BIrBlock \<Rightarrow> ('p BIrBlock \<times> bool) option) \<Rightarrow> 'p BIrBlock list \<Rightarrow> bool \<Rightarrow> ('p BIrBlock list \<times> bool) option" where
  "each_block once [] any_changed = Some ([], any_changed)"
| "each_block once (b # bs) any_changed =
     do { (b', ch) \<leftarrow> until_stable once b any_changed;
          (bs', ch') \<leftarrow> each_block once bs ch;
          Some (b' # bs', ch') }"

definition fold_biir_blocks :: "'p BIrBlocks \<Rightarrow> ('p BIrBlocks \<times> bool) option" where
  "fold_biir_blocks bs =
     do { (bs', ch) \<leftarrow> each_block (\<lambda>b. Some (fold_biir_block_once b)) (blocks bs) False;
          Some (bs\<lparr>blocks := bs'\<rparr>, ch) }"

definition fold_biir_circuit_once :: "'p BCircuit \<Rightarrow> 'p BCircuit \<times> bool" where
  "fold_biir_circuit_once c =
     (let (ns, fs) = fold_biir_stmts_once (bc_params c) (bc_stmts c)
      in (c\<lparr>bc_stmts := ns, bc_outputs := map (canon_alias (alias_map fs)) (bc_outputs c)\<rparr>,
          changed fs \<or> list_ex (\<lambda>v. canon_alias (alias_map fs) v \<noteq> v) (bc_outputs c)))"

definition fold_biir_circuit :: "'p BCircuit \<Rightarrow> ('p BCircuit \<times> bool) option" where
  "fold_biir_circuit c = until_stable (\<lambda>c. Some (fold_biir_circuit_once c)) c False"

section \<open>Common subexpressions\<close>

datatype CseKey =
    KZero | KOne | KAnd ir_var ir_var | KOr ir_var ir_var | KXor ir_var ir_var | KNot ir_var
  | KOracleCall string "ir_var list" | KOracleBit string "ir_var list" nat

fun cse_key :: "bstmt \<Rightarrow> CseKey option" where
  "cse_key BZero = Some KZero"
| "cse_key BOne = Some KOne"
| "cse_key (BAnd a b) = Some (if a \<le> b then KAnd a b else KAnd b a)"
| "cse_key (BOr a b) = Some (if a \<le> b then KOr a b else KOr b a)"
| "cse_key (BXor a b) = Some (if a \<le> b then KXor a b else KXor b a)"
| "cse_key (BNot a) = Some (KNot a)"
| "cse_key (OracleCall name args num_bits) = Some (KOracleCall name args)"
| "cse_key (OracleBit name args b occ) = Some (KOracleBit name args b)"
| "cse_key _ = None"

record CseState =
  cse_alias :: "ir_var \<rightharpoonup> ir_var"
  seen :: "CseKey \<rightharpoonup> ir_var"
  cse_changed :: bool

definition cse_stmt :: "nat \<Rightarrow> bstmt \<Rightarrow> CseState \<Rightarrow> bstmt \<times> CseState" where
  "cse_stmt rv k cs =
     (let (k1, ch) = apply_aliases_to_biir_stmt k (cse_alias cs);
          cs1 = cs\<lparr>cse_changed := cse_changed cs \<or> ch\<rparr>
      in (k1, case cse_key k1 of
                None \<Rightarrow> cs1
              | Some key \<Rightarrow>
                  (case seen cs1 key of
                     Some first \<Rightarrow> cs1\<lparr>cse_alias := (cse_alias cs1)(rv \<mapsto> first)\<rparr>
                   | None \<Rightarrow> cs1\<lparr>seen := (seen cs1)(key \<mapsto> rv)\<rparr>)))"

fun cse_stmts :: "nat \<Rightarrow> 'p node list \<Rightarrow> CseState \<Rightarrow> 'p node list \<times> CseState" where
  "cse_stmts rv [] cs = ([], cs)"
| "cse_stmts rv (n # ns) cs =
     (let (k, cs1) = cse_stmt rv (kind n) cs;
          (ns', cs2) = cse_stmts (Suc rv) ns cs1
      in (n\<lparr>kind := k\<rparr> # ns', cs2))"

definition cse_biir_block_once :: "'p BIrBlock \<Rightarrow> 'p BIrBlock \<times> bool" where
  "cse_biir_block_once b =
     (let (ns, cs) = cse_stmts (params b) (stmts b)
            \<lparr>cse_alias = Map.empty, seen = Map.empty, cse_changed = False\<rparr>;
          (t, ch) = apply_aliases_to_biir_terminator (terminator b) (cse_alias cs)
      in (b\<lparr>stmts := ns, terminator := t\<rparr>, cse_changed cs \<or> ch))"

definition cse_biir_blocks :: "'p BIrBlocks \<Rightarrow> ('p BIrBlocks \<times> bool) option" where
  "cse_biir_blocks bs =
     do { (bs', ch) \<leftarrow> each_block (\<lambda>b. Some (cse_biir_block_once b)) (blocks bs) False;
          Some (bs\<lparr>blocks := bs'\<rparr>, ch) }"

section \<open>Dead code\<close>

fun biir_is_pure :: "bstmt \<Rightarrow> bool" where
  "biir_is_pure BZero = True"
| "biir_is_pure BOne = True"
| "biir_is_pure (BAnd _ _) = True"
| "biir_is_pure (BOr _ _) = True"
| "biir_is_pure (BXor _ _) = True"
| "biir_is_pure (BNot _) = True"
| "biir_is_pure (OracleCall _ _ _) = True"
| "biir_is_pure (OracleBit _ _ _ _) = True"
| "biir_is_pure (OracleProjectedBit _ _) = True"
| "biir_is_pure _ = False"

text \<open>The operands a terminator reads: the condition and the arguments, not a dynamic target.\<close>

fun for_each_biir_terminator_operand :: "ir_var BIrTerminator \<Rightarrow> ir_var list" where
  "for_each_biir_terminator_operand (Jmp t) = tgt_args t"
| "for_each_biir_terminator_operand (CondJmp val then_target else_target) =
     val # tgt_args then_target @ tgt_args else_target"

text \<open>
  Use counts over the statement results; \<open>None\<close> is the panic on an operand past the last
  statement, or on a count below zero.
\<close>

fun count_uses :: "nat \<Rightarrow> ir_var list \<Rightarrow> nat list \<Rightarrow> nat list option" where
  "count_uses ps [] uses = Some uses"
| "count_uses ps (v # vs) uses =
     (if v < ps then count_uses ps vs uses
      else if v - ps \<ge> length uses then None
      else count_uses ps vs (uses[v - ps := uses ! (v - ps) + 1]))"

fun drop_uses :: "nat \<Rightarrow> ir_var list \<Rightarrow> nat list \<Rightarrow> nat list option" where
  "drop_uses ps [] uses = Some uses"
| "drop_uses ps (v # vs) uses =
     (if v < ps then drop_uses ps vs uses
      else if v - ps \<ge> length uses \<or> uses ! (v - ps) = 0 then None
      else drop_uses ps vs (uses[v - ps := uses ! (v - ps) - 1]))"

text \<open>The reverse sweep: \<open>i\<close> statements are left to visit.\<close>

fun mark_dead :: "nat \<Rightarrow> 'p node list \<Rightarrow> nat \<Rightarrow> nat list \<Rightarrow> bool list \<Rightarrow> bool list option" where
  "mark_dead ps ns 0 uses dead = Some dead"
| "mark_dead ps ns (Suc i) uses dead =
     (if uses ! i = 0 \<and> biir_is_pure (kind (ns ! i))
      then do { uses' \<leftarrow> drop_uses ps (operands (kind (ns ! i))) uses;
                mark_dead ps ns i uses' (dead[i := True]) }
      else mark_dead ps ns i uses dead)"

text \<open>The statements kept, in order, and the renumbering of those whose index moves.\<close>

fun keep_live ::
  "nat \<Rightarrow> nat \<Rightarrow> nat \<Rightarrow> 'p node list \<Rightarrow> bool list \<Rightarrow> (ir_var \<rightharpoonup> ir_var) \<Rightarrow> 'p node list \<times> (ir_var \<rightharpoonup> ir_var)" where
  "keep_live ps i kept [] dead remap = ([], remap)"
| "keep_live ps i kept (n # ns) dead remap =
     (if dead ! i then keep_live ps (Suc i) kept ns dead remap
      else let remap' = (if i \<noteq> kept then remap(ps + i \<mapsto> ps + kept) else remap);
               (ns', remap'') = keep_live ps (Suc i) (Suc kept) ns dead remap'
           in (n # ns', remap''))"

definition renumber_var :: "(ir_var \<rightharpoonup> ir_var) \<Rightarrow> ir_var \<Rightarrow> ir_var" where
  "renumber_var remap v = (case remap v of Some w \<Rightarrow> w | None \<Rightarrow> v)"

definition renumber_biir_stmt :: "(ir_var \<rightharpoonup> ir_var) \<Rightarrow> bstmt \<Rightarrow> bstmt" where
  "renumber_biir_stmt remap k = map_BIrStmt (renumber_var remap) id k"

text \<open>A dynamic target is not renumbered.\<close>

definition renumber_target :: "(ir_var \<rightharpoonup> ir_var) \<Rightarrow> ir_var BIrTarget \<Rightarrow> ir_var BIrTarget" where
  "renumber_target remap t = t\<lparr>tgt_args := map (renumber_var remap) (tgt_args t)\<rparr>"

fun renumber_biir_terminator :: "(ir_var \<rightharpoonup> ir_var) \<Rightarrow> ir_var BIrTerminator \<Rightarrow> ir_var BIrTerminator" where
  "renumber_biir_terminator remap (Jmp t) = Jmp (renumber_target remap t)"
| "renumber_biir_terminator remap (CondJmp val then_target else_target) =
     CondJmp (renumber_var remap val) (renumber_target remap then_target) (renumber_target remap else_target)"

definition dce_biir_block_once :: "'p BIrBlock \<Rightarrow> ('p BIrBlock \<times> bool) option" where
  "dce_biir_block_once b =
     (let n = length (stmts b) in
      do { uses \<leftarrow> count_uses (params b)
             (concat (map (\<lambda>nd. operands (kind nd)) (stmts b)) @ for_each_biir_terminator_operand (terminator b))
             (replicate n 0);
           dead \<leftarrow> mark_dead (params b) (stmts b) n uses (replicate n False);
           Some (if \<not> list_ex id dead then (b, False)
                 else let (kept, remap) = keep_live (params b) 0 0 (stmts b) dead Map.empty
                      in (b\<lparr>stmts := map (\<lambda>nd. nd\<lparr>kind := renumber_biir_stmt remap (kind nd)\<rparr>) kept,
                            terminator := renumber_biir_terminator remap (terminator b)\<rparr>, True)) })"

definition dce_biir_blocks :: "'p BIrBlocks \<Rightarrow> ('p BIrBlocks \<times> bool) option" where
  "dce_biir_blocks bs =
     do { (bs', ch) \<leftarrow> each_block dce_biir_block_once (blocks bs) False;
          Some (bs\<lparr>blocks := bs'\<rparr>, ch) }"

end
