(* ===== verification/OptSweep.thy ===== *)
theory OptSweep
  imports BoolarOpt Renaming
begin

text \<open>
  What the optimiser's passes share, as two interfaces. \<open>stable_pass\<close>: a pass whose rounds keep
  well-formedness and meaning and shrink what they change returns from its fixpoint loop with the
  same meaning. \<open>sweep\<close>: a forward sweep whose steps keep each statement's outcome keeps the
  evaluation of the whole list. Also the facts about alias maps.
\<close>

section \<open>The fixpoint loop\<close>

locale stable_pass =
  fixes ok :: "'b \<Rightarrow> bool" and once :: "'b \<Rightarrow> ('b \<times> bool) option"
    and meaning :: "'b \<Rightarrow> 'm" and weight :: "'b \<Rightarrow> nat"
  assumes round: "ok b \<Longrightarrow> \<exists>b' ch. once b = Some (b', ch) \<and> ok b' \<and> meaning b' = meaning b
    \<and> (ch \<longrightarrow> weight b' < weight b)"
begin

text \<open>The last round changes nothing.\<close>

definition settled :: "'b \<Rightarrow> bool" where
  "settled b \<longleftrightarrow> ok b \<and> (\<exists>b0. ok b0 \<and> once b0 = Some (b, False))"

text \<open>The loop returns, and its result means the same.\<close>

lemma returns:
  "ok b \<Longrightarrow> \<exists>b' ch. until_stable once b any_changed = Some (b', ch) \<and> settled b' \<and> meaning b' = meaning b"
proof (induction "weight b" arbitrary: b any_changed rule: less_induct)
  case less
  obtain b1 ch where b1: "once b = Some (b1, ch)" "ok b1" "meaning b1 = meaning b" "ch \<longrightarrow> weight b1 < weight b"
    using round [OF less.prems] by blast
  show ?case
  proof (cases ch)
    case True
    then obtain b' ch' where "until_stable once b1 True = Some (b', ch')" "settled b'" "meaning b' = meaning b1"
      using less.hyps [of b1 True] b1 by blast
    then show ?thesis using b1 True by (subst until_stable.simps) simp
  next
    case False
    then have "settled b1" using b1 less.prems by (auto simp: settled_def)
    then show ?thesis using b1 False by (subst until_stable.simps) auto
  qed
qed

end

text \<open>A pass over blocks whose meaning is their evaluation, lifted to programs.\<close>

locale program_pass = stable_pass ok once "eval_block E" weight
  for ok :: "'p BIrBlock \<Rightarrow> bool" and once and E :: externals and weight
begin

lemma blocks_return:
  assumes "\<forall>b \<in> set bs. ok b"
  shows "\<exists>bs' ch. each_block once bs any_changed = Some (bs', ch) \<and> (\<forall>b \<in> set bs'. settled b) \<and> blocks_equiv E bs bs'"
  using assms
proof (induction bs arbitrary: any_changed)
  case Nil
  then show ?case by (simp add: blocks_equiv_def)
next
  case (Cons b bs)
  obtain b' ch where b': "until_stable once b any_changed = Some (b', ch)" "settled b'" "eval_block E b' = eval_block E b"
    using returns [of b any_changed] Cons.prems by auto
  obtain bs' ch' where bs': "each_block once bs ch = Some (bs', ch')" "\<forall>b \<in> set bs'. settled b" "blocks_equiv E bs bs'"
    using Cons.IH [of ch] Cons.prems by auto
  have "blocks_equiv E (b # bs) (b' # bs')"
    using b'(3) bs'(3) by (auto simp: blocks_equiv_def nth_Cons split: nat.split)
  then show ?case using b' bs' by auto
qed

text \<open>The whole program evaluates as before, from every input and under every limit.\<close>

lemma program_same:
  assumes "\<forall>b \<in> set (blocks p). ok b"
  shows "\<exists>bs' ch. each_block once (blocks p) False = Some (bs', ch) \<and> (\<forall>b \<in> set bs'. settled b)
    \<and> eval_biir_with_limit E (p\<lparr>blocks := bs'\<rparr>) ins m = eval_biir_with_limit E p ins m"
proof -
  obtain bs' ch where bs': "each_block once (blocks p) False = Some (bs', ch)" "\<forall>b \<in> set bs'. settled b"
      "blocks_equiv E (blocks p) bs'"
    using blocks_return [OF assms] by blast
  then have "eval_biir_with_limit E p ins m = eval_biir_with_limit E (p\<lparr>blocks := bs'\<rparr>) ins m"
    by (intro eval_biir_equiv) simp_all
  then show ?thesis using bs' by auto
qed

end

section \<open>Forward sweeps\<close>

fun sweep_with ::
  "(nat \<Rightarrow> bstmt \<Rightarrow> 's \<Rightarrow> bstmt \<times> 's) \<Rightarrow> nat \<Rightarrow> 'p node list \<Rightarrow> 's \<Rightarrow> 'p node list \<times> 's" where
  "sweep_with step rv [] s = ([], s)"
| "sweep_with step rv (n # ns) s =
     (let (k, s1) = step rv (kind n) s; (ns', s2) = sweep_with step (Suc rv) ns s1
      in (n\<lparr>kind := k\<rparr> # ns', s2))"

lemma fold_stmts_sweep: "fold_stmts rv ns fs = sweep_with fold_stmt rv ns fs"
  by (induction ns arbitrary: rv fs) (auto split: prod.splits)

lemma cse_stmts_sweep: "cse_stmts rv ns cs = sweep_with cse_stmt rv ns cs"
  by (induction ns arbitrary: rv cs) (auto split: prod.splits)

text \<open>
  A block may be swept when every operand of a statement is defined before it, and every handle is
  one of the block's calls \<open>C\<close>; a rewritten statement is as well placed, and a call if it was one.
\<close>

fun is_call :: "bstmt \<Rightarrow> bool" where
  "is_call (OracleCall _ _ _) = True"
| "is_call (ActionCall _ _ _ _ _) = True"
| "is_call _ = False"

definition well_placed :: "nat set \<Rightarrow> nat \<Rightarrow> bstmt \<Rightarrow> bool" where
  "well_placed C rv k \<longleftrightarrow> (\<forall>v \<in> set (operands k). v < rv) \<and> set (handles k) \<subseteq> C \<and> (rv \<in> C \<longleftrightarrow> is_call k)"

definition keeps_place :: "nat set \<Rightarrow> nat \<Rightarrow> bstmt \<Rightarrow> bstmt \<Rightarrow> bool" where
  "keeps_place C rv k k' \<longleftrightarrow> (\<forall>v \<in> set (operands k'). v < rv) \<and> set (handles k') \<subseteq> C \<and> is_call k' = is_call k"

text \<open>
  \<open>good rv k\<close>: statement \<open>k\<close> with result \<open>rv\<close> may be swept; \<open>rel k k'\<close>: how a rewritten statement
  relates to the original; \<open>inv s rv\<close>: the state is well formed at \<open>rv\<close>; \<open>sound s vs ag\<close>: what it
  claims holds of the values and call bits so far.
\<close>

locale sweep =
  fixes step :: "nat \<Rightarrow> bstmt \<Rightarrow> 's \<Rightarrow> bstmt \<times> 's"
    and good :: "nat \<Rightarrow> bstmt \<Rightarrow> bool" and rel :: "nat \<Rightarrow> bstmt \<Rightarrow> bstmt \<Rightarrow> bool"
    and inv :: "'s \<Rightarrow> nat \<Rightarrow> bool" and flag :: "'s \<Rightarrow> bool" and weight :: "bstmt \<Rightarrow> nat"
    and E :: externals and sound :: "'s \<Rightarrow> bool list \<Rightarrow> oracle_agg \<Rightarrow> bool"
  assumes shape: "inv s rv \<Longrightarrow> good rv k \<Longrightarrow> step rv k s = (k', s') \<Longrightarrow>
      inv s' (Suc rv) \<and> rel rv k k' \<and> weight k' \<le> weight k \<and> (flag s' \<longrightarrow> flag s \<or> weight k' < weight k)"
    and outcome: "inv s (length vs) \<Longrightarrow> good (length vs) k \<Longrightarrow> sound s vs ag \<Longrightarrow> step (length vs) k s = (k', s') \<Longrightarrow>
      stmt_out E k' vs ag st = stmt_out E k vs ag st
      \<and> (\<forall>x bits st'. stmt_out E k vs ag st = Some (x, bits, st') \<longrightarrow>
           sound s' (vs @ [x]) (put_call (length vs) bits ag))"
begin

lemma list_shape:
  assumes "inv s rv" and "\<forall>i < length ns. good (rv + i) (kind (ns ! i))" and "sweep_with step rv ns s = (ns', s')"
  shows "inv s' (rv + length ns) \<and> length ns' = length ns
    \<and> (\<forall>i < length ns. rel (rv + i) (kind (ns ! i)) (kind (ns' ! i)))
    \<and> (\<Sum>n \<leftarrow> ns'. weight (kind n)) \<le> (\<Sum>n \<leftarrow> ns. weight (kind n))
    \<and> (flag s' \<longrightarrow> flag s \<or> (\<Sum>n \<leftarrow> ns'. weight (kind n)) < (\<Sum>n \<leftarrow> ns. weight (kind n)))"
  using assms
proof (induction ns arbitrary: s rv ns')
  case (Cons n ns)
  obtain k s1 where k: "step rv (kind n) s = (k, s1)" by fastforce
  obtain ns1 where ns1: "sweep_with step (Suc rv) ns s1 = (ns1, s')" and ns': "ns' = n\<lparr>kind := k\<rparr> # ns1"
    using Cons.prems(3) k by (auto split: prod.splits)
  have one: "inv s1 (Suc rv) \<and> rel rv (kind n) k \<and> weight k \<le> weight (kind n) \<and> (flag s1 \<longrightarrow> flag s \<or> weight k < weight (kind n))"
    using shape [OF Cons.prems(1) _ k] Cons.prems(2) by force
  have "\<forall>i < length ns. good (Suc rv + i) (kind (ns ! i))" using Cons.prems(2) by fastforce
  from Cons.IH [OF _ this ns1] one show ?case by (auto simp: ns' nth_Cons split: nat.split)
qed simp

lemma list_same:
  assumes "inv s (length vs)" and "\<forall>i < length ns. good (length vs + i) (kind (ns ! i))"
    and "sound s vs ag" and "sweep_with step (length vs) ns s = (ns', s')"
  shows "eval_stmts E ns' (length vs) (vs, ag, st) = eval_stmts E ns (length vs) (vs, ag, st)
    \<and> (\<forall>vs' ag' st'. eval_stmts E ns (length vs) (vs, ag, st) = Some (vs', ag', st') \<longrightarrow> sound s' vs' ag')"
  using assms
proof (induction ns arbitrary: s vs ag ns' st)
  case (Cons n ns)
  obtain k s1 where k: "step (length vs) (kind n) s = (k, s1)" by fastforce
  obtain ns1 where ns1: "sweep_with step (Suc (length vs)) ns s1 = (ns1, s')" and ns': "ns' = n\<lparr>kind := k\<rparr> # ns1"
    using Cons.prems(4) k by (auto split: prod.splits)
  have good: "good (length vs) (kind n)" using Cons.prems(2) by force
  have inv: "inv s1 (Suc (length vs))" using shape [OF Cons.prems(1) good k] by simp
  note out = outcome [OF Cons.prems(1) good Cons.prems(3) k, of st]
  show ?case
  proof (cases "stmt_out E (kind n) vs ag st")
    case None
    then show ?thesis using out by (simp add: eval_stmts_out ns' del: eval_stmts.simps)
  next
    case (Some p)
    then obtain x bits st1 where p: "stmt_out E (kind n) vs ag st = Some (x, bits, st1)" by (cases p) auto
    have rest: "\<forall>i < length ns. good (length (vs @ [x]) + i) (kind (ns ! i))" using Cons.prems(2) by fastforce
    have "sound s1 (vs @ [x]) (put_call (length vs) bits ag)" using out p by blast
    from Cons.IH [of s1 "vs @ [x]", OF _ rest this] inv ns1
    show ?thesis using out p by (simp add: eval_stmts_out ns' del: eval_stmts.simps)
  qed
qed simp

end

section \<open>Alias maps\<close>

definition decreasing :: "(ir_var \<rightharpoonup> ir_var) \<Rightarrow> nat \<Rightarrow> bool" where
  "decreasing m n \<longleftrightarrow> (\<forall>v w. m v = Some w \<longrightarrow> w < v \<and> v < n)"

lemma canon_hops_le: "decreasing m n \<Longrightarrow> canon_hops k m v \<le> v"
proof (induction k arbitrary: v)
  case (Suc k)
  show ?case
  proof (cases "m v")
    case (Some w)
    then have "w < v" using Suc.prems by (auto simp: decreasing_def)
    then show ?thesis using Suc.IH [OF Suc.prems, of w] Some by simp
  qed simp
qed simp

lemma canon_alias_le: "decreasing m n \<Longrightarrow> canon_alias m v \<le> v"
  by (simp add: canon_alias_def canon_hops_le)

text \<open>A property of variables that aliases keep is kept by canonicalisation.\<close>

lemma canon_hops_keeps:
  assumes "\<And>v w. m v = Some w \<Longrightarrow> f w = f v"
  shows "f (canon_hops k m v) = f v"
proof (induction k arbitrary: v)
  case (Suc k)
  show ?case
  proof (cases "m v")
    case (Some w)
    then show ?thesis using Suc.IH [of w] assms [OF Some] by simp
  qed simp
qed simp

lemma canon_alias_keeps: "(\<And>v w. m v = Some w \<Longrightarrow> f w = f v) \<Longrightarrow> f (canon_alias m v) = f v"
  unfolding canon_alias_def by (rule canon_hops_keeps)

lemma canon_hops_None: "m v = None \<Longrightarrow> canon_hops k m v = v"
  by (cases k) simp_all

lemma canon_alias_None: "m v = None \<Longrightarrow> canon_alias m v = v"
  by (simp add: canon_alias_def canon_hops_None)

definition alias_values :: "(ir_var \<rightharpoonup> ir_var) \<Rightarrow> bool list \<Rightarrow> bool" where
  "alias_values m vs \<longleftrightarrow> (\<forall>v w. m v = Some w \<longrightarrow> vs ! w = vs ! v)"

lemma alias_nth_opt:
  assumes "decreasing m (length vs)" and "alias_values m vs" and "v < length vs"
  shows "nth_opt vs (canon_alias m v) = nth_opt vs v"
proof -
  have "canon_alias m v < length vs" using canon_alias_le [OF assms(1), of v] assms(3) by simp
  moreover have "vs ! canon_alias m v = vs ! v"
    by (rule canon_alias_keeps) (use assms(2) in \<open>auto simp: alias_values_def\<close>)
  ultimately show ?thesis using assms(3) by simp
qed

lemma alias_values_snoc:
  "decreasing m (length vs) \<Longrightarrow> alias_values m vs \<Longrightarrow> alias_values m (vs @ [x])"
  by (fastforce simp: alias_values_def decreasing_def nth_append)

lemma alias_values_add:
  assumes "decreasing m (length vs)" and "alias_values m vs" and "w < length vs" and "vs ! w = x"
  shows "alias_values (m(length vs \<mapsto> w)) (vs @ [x])"
  using assms by (fastforce simp: alias_values_def decreasing_def nth_append)

lemma decreasing_Suc: "decreasing m n \<Longrightarrow> decreasing m (Suc n)"
  by (fastforce simp: decreasing_def)

lemma decreasing_add: "decreasing m n \<Longrightarrow> w < n \<Longrightarrow> decreasing (m(n \<mapsto> w)) (Suc n)"
  by (fastforce simp: decreasing_def)

text \<open>The operands shrink, strictly when one of them changes.\<close>

lemma operands_aliased: "operands (fst (apply_aliases_to_biir_stmt k m)) = map (canon_alias m) (operands k)"
  by (simp add: apply_aliases_to_biir_stmt_def operands_map)

lemma sum_list_shrinks:
  fixes f :: "nat \<Rightarrow> nat"
  assumes "\<And>v. f v \<le> v"
  shows "sum_list (map f vs) \<le> sum_list vs"
    and "list_ex (\<lambda>v. f v \<noteq> v) vs \<Longrightarrow> sum_list (map f vs) < sum_list vs"
proof -
  show le: "sum_list (map f vs) \<le> sum_list vs" for vs
    by (induction vs) (use assms in \<open>auto intro: add_mono\<close>)
  show "list_ex (\<lambda>v. f v \<noteq> v) vs \<Longrightarrow> sum_list (map f vs) < sum_list vs"
  proof (induction vs)
    case (Cons v vs)
    then show ?case using assms [of v] le [of vs] by (cases "f v = v") auto
  qed simp
qed

text \<open>What aliasing a well-placed statement gives: both alias passes start with it.\<close>

lemma handles_map: "handles (map_BIrStmt h id k) = map h (handles k)"
  by (cases k) auto

lemma is_call_map [simp]: "is_call (map_BIrStmt h id k) = is_call k"
  by (cases k) auto

text \<open>Aliases of calls are calls with the same bits.\<close>

definition stays :: "(ir_var \<rightharpoonup> ir_var) \<Rightarrow> nat set \<Rightarrow> bool" where
  "stays m C \<longleftrightarrow> (\<forall>v w. m v = Some w \<longrightarrow> v \<in> C \<longrightarrow> w \<in> C)"

definition alias_bits :: "(ir_var \<rightharpoonup> ir_var) \<Rightarrow> nat set \<Rightarrow> oracle_agg \<Rightarrow> bool" where
  "alias_bits m C ag \<longleftrightarrow> (\<forall>v w. m v = Some w \<longrightarrow> v \<in> C \<longrightarrow> ag w = ag v)"

lemma canon_hops_stays: "stays m C \<Longrightarrow> v \<in> C \<Longrightarrow> canon_hops k m v \<in> C"
proof (induction k arbitrary: v)
  case (Suc k)
  show ?case
  proof (cases "m v")
    case (Some w)
    then have "w \<in> C" using Suc.prems by (auto simp: stays_def)
    then show ?thesis using Suc.IH [OF Suc.prems(1), of w] Suc.prems(2) Some by simp
  qed (use Suc.prems in simp)
qed simp

lemma canon_hops_bits: "stays m C \<Longrightarrow> alias_bits m C ag \<Longrightarrow> v \<in> C \<Longrightarrow> ag (canon_hops k m v) = ag v"
proof (induction k arbitrary: v)
  case (Suc k)
  show ?case
  proof (cases "m v")
    case (Some w)
    then have "w \<in> C" "ag w = ag v" using Suc.prems by (auto simp: stays_def alias_bits_def)
    then show ?thesis using Suc.IH [OF Suc.prems(1,2), of w] Some by simp
  qed simp
qed simp

lemma canon_alias_stays: "stays m C \<Longrightarrow> v \<in> C \<Longrightarrow> canon_alias m v \<in> C"
  unfolding canon_alias_def by (rule canon_hops_stays)

lemma canon_alias_bits: "stays m C \<Longrightarrow> alias_bits m C ag \<Longrightarrow> v \<in> C \<Longrightarrow> ag (canon_alias m v) = ag v"
  unfolding canon_alias_def by (rule canon_hops_bits)

lemma no_calls_aliased: "dom m \<inter> C = {} \<Longrightarrow> stays m C \<and> alias_bits m C ag"
  unfolding stays_def alias_bits_def by blast

lemma aliased_shape:
  assumes m: "decreasing m rv" "stays m C" and k: "well_placed C rv k"
    and k1: "apply_aliases_to_biir_stmt k m = (k1, ch)"
  shows "well_placed C rv k1" "keeps_place C rv k k1" "k1 = map_BIrStmt (canon_alias m) id k"
    "sum_list (operands k1) \<le> sum_list (operands k)" "ch \<Longrightarrow> sum_list (operands k1) < sum_list (operands k)"
proof -
  show k1': "k1 = map_BIrStmt (canon_alias m) id k" using k1 by (simp add: apply_aliases_to_biir_stmt_def)
  have le: "canon_alias m v \<le> v" for v by (rule canon_alias_le [OF m(1)])
  have ops: "operands k1 = map (canon_alias m) (operands k)" by (simp add: k1' operands_map)
  have lt: "canon_alias m v < rv" if "v \<in> set (operands k)" for v
    using le [of v] that k unfolding well_placed_def by fastforce
  have hs: "set (handles k1) \<subseteq> C"
    using k canon_alias_stays [OF m(2)] by (auto simp: k1' handles_map well_placed_def)
  have call: "is_call k1 = is_call k" by (simp add: k1')
  show "well_placed C rv k1" "keeps_place C rv k k1"
    using k lt hs call by (auto simp: well_placed_def keeps_place_def ops)
  show "sum_list (operands k1) \<le> sum_list (operands k)" using sum_list_shrinks(1) [OF le] by (simp add: ops)
  show "ch \<Longrightarrow> sum_list (operands k1) < sum_list (operands k)"
    using sum_list_shrinks(2) [OF le] k1 by (simp add: ops apply_aliases_to_biir_stmt_def)
qed

lemma aliased_outcome:
  assumes m: "decreasing m (length vs)" "stays m C" and k: "well_placed C (length vs) k"
    and val: "alias_values m vs" "alias_bits m C ag"
  shows "stmt_out E (map_BIrStmt (canon_alias m) id k) vs ag st = stmt_out E k vs ag st"
proof (rule stmt_out_rename)
  fix v assume "v \<in> set (values_read k)"
  then have "v < length vs" using k set_operands [of k] by (auto simp: well_placed_def)
  then show "nth_opt vs (canon_alias m v) = nth_opt vs v" by (rule alias_nth_opt [OF m(1) val(1)])
next
  fix v assume "v \<in> set (handles k)"
  then have "v \<in> C" using k by (auto simp: well_placed_def)
  then show "ag (canon_alias m v) = ag v" by (rule canon_alias_bits [OF m(2) val(2)])
qed

section \<open>Blocks the optimiser accepts\<close>

text \<open>
  Every operand is defined before its use and every call handle names a call of the block. A
  dynamic jump target may name anything: evaluating one panics.
\<close>

definition calls :: "nat \<Rightarrow> 'p node list \<Rightarrow> nat set" where
  "calls base ns = {v. base \<le> v \<and> v < base + length ns \<and> is_call (kind (ns ! (v - base)))}"

definition list_ok :: "nat \<Rightarrow> 'p node list \<Rightarrow> bool" where
  "list_ok base ns \<longleftrightarrow> (\<forall>i < length ns. (\<forall>v \<in> set (operands (kind (ns ! i))). v < base + i)
      \<and> set (handles (kind (ns ! i))) \<subseteq> calls base ns)"

definition block_ok :: "'p BIrBlock \<Rightarrow> bool" where
  "block_ok b \<longleftrightarrow> list_ok (params b) (stmts b)
     \<and> (\<forall>v \<in> set (terminator_operands (terminator b)). v < params b + length (stmts b))"

definition circuit_ready :: "'p BCircuit \<Rightarrow> bool" where
  "circuit_ready c \<longleftrightarrow> list_ok (bc_params c) (bc_stmts c) \<and> (\<forall>v \<in> set (bc_outputs c). v < var_space c)"

lemma list_ok_placed: "list_ok base ns \<Longrightarrow> \<forall>i < length ns. well_placed (calls base ns) (base + i) (kind (ns ! i))"
  by (auto simp: list_ok_def well_placed_def calls_def)

lemma list_ok_kept:
  assumes ok: "list_ok base ns" and len: "length ns' = length ns"
    and rel: "\<forall>i < length ns. keeps_place (calls base ns) (base + i) (kind (ns ! i)) (kind (ns' ! i))"
  shows "list_ok base ns'"
proof -
  have "is_call (kind (ns' ! (v - base))) = is_call (kind (ns ! (v - base)))" if "base \<le> v" "v < base + length ns" for v
    using rel that by (auto simp: keeps_place_def)
  then have "calls base ns' = calls base ns" by (auto simp: calls_def len)
  then show ?thesis using ok rel by (fastforce simp: list_ok_def keeps_place_def len)
qed

section \<open>Aliasing the end of a block\<close>

lemma aliased_below:
  assumes "decreasing m n" and "\<forall>v \<in> set as. v < k"
  shows "\<forall>v \<in> set (map (canon_alias m) as). v < k"
proof
  fix w assume "w \<in> set (map (canon_alias m) as)"
  then obtain v where "v \<in> set as" "w = canon_alias m v" by auto
  then show "w < k" using assms(2) canon_alias_le [OF assms(1), of v] le_less_trans by blast
qed

lemma add_shrinks:
  fixes a b :: nat
  shows "a' \<le> a \<Longrightarrow> b' \<le> b \<Longrightarrow> (p \<Longrightarrow> a' < a) \<Longrightarrow> (q \<Longrightarrow> b' < b) \<Longrightarrow> p \<or> q \<longrightarrow> a' + b' < a + b"
  by (auto intro: add_less_le_mono add_le_less_mono)

fun target_vars :: "ir_var BIrTarget \<Rightarrow> ir_var list" where
  "target_vars t = (case tgt_block t of Dyn v \<Rightarrow> v # tgt_args t | _ \<Rightarrow> tgt_args t)"

fun terminator_weight :: "ir_var BIrTerminator \<Rightarrow> nat" where
  "terminator_weight (Jmp t) = sum_list (target_vars t)"
| "terminator_weight (CondJmp val t e) = Suc (val + sum_list (target_vars t) + sum_list (target_vars e))"

lemma aliased_target:
  assumes m: "decreasing m n" and t: "apply_aliases_to_biir_target t m = (t', ch)"
  shows "tgt_args t' = map (canon_alias m) (tgt_args t)"
    and "sum_list (target_vars t') \<le> sum_list (target_vars t)"
    and "ch \<Longrightarrow> sum_list (target_vars t') < sum_list (target_vars t)"
proof -
  have le: "canon_alias m v \<le> v" for v by (rule canon_alias_le [OF m])
  have t': "target_vars t' = map (canon_alias m) (target_vars t)" "ch = list_ex (\<lambda>v. canon_alias m v \<noteq> v) (target_vars t)"
    using t by (auto simp: apply_aliases_to_biir_target_def split: IRBlockTargetId.splits)
  show "tgt_args t' = map (canon_alias m) (tgt_args t)" using t by (auto simp: apply_aliases_to_biir_target_def)
  show "sum_list (target_vars t') \<le> sum_list (target_vars t)" using sum_list_shrinks(1) [OF le] by (simp only: t')
  show "ch \<Longrightarrow> sum_list (target_vars t') < sum_list (target_vars t)" using sum_list_shrinks(2) [OF le] by (simp only: t')
qed

lemma aliased_terminator_shape:
  assumes m: "decreasing m n" and t: "apply_aliases_to_biir_terminator t m = (t', ch)"
  shows "terminator_operands t' = map (canon_alias m) (terminator_operands t)"
    and "terminator_weight t' \<le> terminator_weight t"
    and "ch \<Longrightarrow> terminator_weight t' < terminator_weight t"
proof -
  have le: "canon_alias m v \<le> v" for v by (rule canon_alias_le [OF m])
  have *: "terminator_operands t' = map (canon_alias m) (terminator_operands t)
      \<and> terminator_weight t' \<le> terminator_weight t \<and> (ch \<longrightarrow> terminator_weight t' < terminator_weight t)"
  proof (cases t)
    case (Jmp g)
    obtain g' c where "apply_aliases_to_biir_target g m = (g', c)" by fastforce
    then show ?thesis using t Jmp aliased_target [OF m] by (auto simp del: target_vars.simps)
  next
    case (CondJmp val a b)
    obtain a' c where a: "apply_aliases_to_biir_target a m = (a', c)" by fastforce
    obtain b' d where b: "apply_aliases_to_biir_target b m = (b', d)" by fastforce
    show ?thesis using t CondJmp a b aliased_target [OF m a] aliased_target [OF m b] le [of val]
      by (cases "canon_alias m val = val"; cases c; cases d; auto simp del: target_vars.simps)
  qed
  then show "terminator_operands t' = map (canon_alias m) (terminator_operands t)"
    and "terminator_weight t' \<le> terminator_weight t" and "ch \<Longrightarrow> terminator_weight t' < terminator_weight t" by auto
qed

lemma aliased_args:
  assumes "decreasing m (length vs)" and "alias_values m vs" and "\<forall>v \<in> set as. v < length vs"
  shows "nths_opt vs (map (canon_alias m) as) = nths_opt vs as"
  by (rule nths_opt_map_cong, rule alias_nth_opt) (use assms in blast)+

lemma aliased_resolve:
  assumes m: "decreasing m (length vs)" "alias_values m vs" and ops: "\<forall>v \<in> set (tgt_args g). v < length vs"
    and g: "apply_aliases_to_biir_target g m = (g', ch)"
  shows "resolve_target g' vs = resolve_target g vs"
proof -
  have "tgt_args g' = map (canon_alias m) (tgt_args g)" by (rule aliased_target(1) [OF m(1) g])
  then have "nths_opt vs (tgt_args g') = nths_opt vs (tgt_args g)" using aliased_args [OF m ops] by simp
  moreover have "tgt_block g' = (case tgt_block g of Dyn v \<Rightarrow> Dyn (canon_alias m v) | b \<Rightarrow> b)"
    using g by (auto simp: apply_aliases_to_biir_target_def)
  ultimately show ?thesis by (simp add: resolve_target_def split: IRBlockTargetId.splits)
qed

lemma aliased_terminator_value:
  assumes m: "decreasing m (length vs)" "alias_values m vs"
    and ops: "\<forall>v \<in> set (terminator_operands t). v < length vs"
    and t: "apply_aliases_to_biir_terminator t m = (t', ch)"
  shows "eval_terminator t' vs = eval_terminator t vs"
proof (cases t)
  case (Jmp g)
  obtain g' c where "apply_aliases_to_biir_target g m = (g', c)" by fastforce
  then show ?thesis using t Jmp ops aliased_resolve [OF m, of g] by auto
next
  case (CondJmp val a b)
  obtain a' c where a: "apply_aliases_to_biir_target a m = (a', c)" by fastforce
  obtain b' d where b: "apply_aliases_to_biir_target b m = (b', d)" by fastforce
  have t': "t' = CondJmp (canon_alias m val) a' b'" using t CondJmp a b by auto
  have "resolve_target a' vs = resolve_target a vs" "resolve_target b' vs = resolve_target b vs"
    using aliased_resolve [OF m _ a] aliased_resolve [OF m _ b] ops CondJmp by auto
  moreover have "nth_opt vs (canon_alias m val) = nth_opt vs val"
    using alias_nth_opt [OF m] ops CondJmp by simp
  ultimately show ?thesis by (cases "nth_opt vs val") (auto simp: CondJmp t')
qed

end
