(* ===== verification/FoldCorrect.thy ===== *)
theory FoldCorrect
  imports OptSweep Samples
begin

text \<open>
  Constant folding with alias propagation keeps every statement's outcome and every block's
  evaluation, keeps well-formedness, and shrinks the block whenever it reports a change; the
  interpretations of the pass interfaces on it.
\<close>

section \<open>The action tables\<close>

text \<open>
  What an action claims of a gate with operands \<open>ca\<close>, \<open>cb\<close> of values \<open>x\<close>, \<open>y\<close> and result \<open>z\<close>: the
  constant is the result, or the alias is an operand that has it.
\<close>

definition claims :: "Action option \<Rightarrow> ir_var \<Rightarrow> ir_var \<Rightarrow> bool \<Rightarrow> bool \<Rightarrow> bool \<Rightarrow> bool" where
  "claims a ca cb x y z \<longleftrightarrow>
     (case a of
        None \<Rightarrow> True
      | Some (ToConst b) \<Rightarrow> z = b
      | Some (ToAlias t) \<Rightarrow> t = ca \<and> z = x \<or> t = cb \<and> z = y)"

definition known :: "bool option \<Rightarrow> bool \<Rightarrow> bool" where
  "known c x \<longleftrightarrow> c = None \<or> c = Some x"

lemma fold_and_claims:
  "known va x \<Longrightarrow> known vb y \<Longrightarrow> ca = cb \<longrightarrow> x = y \<Longrightarrow> claims (fold_and va vb ca cb) ca cb x y (x \<and> y)"
  by (cases "(va, vb, ca, cb)" rule: fold_and.cases) (auto simp: claims_def known_def)

lemma fold_or_claims:
  "known va x \<Longrightarrow> known vb y \<Longrightarrow> ca = cb \<longrightarrow> x = y \<Longrightarrow> claims (fold_or va vb ca cb) ca cb x y (x \<or> y)"
  by (cases "(va, vb, ca, cb)" rule: fold_or.cases) (auto simp: claims_def known_def)

lemma fold_xor_claims:
  "known va x \<Longrightarrow> known vb y \<Longrightarrow> ca = cb \<longrightarrow> x = y \<Longrightarrow> claims (fold_xor va vb ca cb) ca cb x y (x = (\<not> y))"
  by (cases "(va, vb, ca, cb)" rule: fold_xor.cases) (auto simp: claims_def known_def)

text \<open>What the sweep's state claims of the values so far.\<close>

definition consts_hold :: "(ir_var \<rightharpoonup> bool) \<Rightarrow> bool list \<Rightarrow> bool" where
  "consts_hold bm vs \<longleftrightarrow> (\<forall>v b. bm v = Some b \<longrightarrow> v < length vs \<and> vs ! v = b)"

lemma consts_hold_known: "consts_hold bm vs \<Longrightarrow> known (bm v) (vs ! v)"
  by (cases "bm v") (auto simp: consts_hold_def known_def)

lemma consts_hold_snoc: "consts_hold bm vs \<Longrightarrow> consts_hold bm (vs @ [x])"
  by (fastforce simp: consts_hold_def nth_append less_Suc_eq)

lemma consts_hold_add: "consts_hold bm vs \<Longrightarrow> consts_hold (bm(length vs \<mapsto> x)) (vs @ [x])"
  by (fastforce simp: consts_hold_def nth_append less_Suc_eq)

definition fold_sound :: "FoldState \<Rightarrow> bool list \<Rightarrow> oracle_agg \<Rightarrow> bool" where
  "fold_sound fs vs ag \<longleftrightarrow> alias_values (alias_map fs) vs \<and> consts_hold (bool_map fs) vs"

text \<open>An action read off a statement whose operands are defined is right about its outcome.\<close>

definition acts_rightly :: "Action option \<Rightarrow> externals \<Rightarrow> bstmt \<Rightarrow> bool list \<Rightarrow> oracle_agg \<Rightarrow> bstorage \<Rightarrow> bool" where
  "acts_rightly a E k vs ag st \<longleftrightarrow>
     (case a of
        None \<Rightarrow> True
      | Some (ToConst b) \<Rightarrow> stmt_out E k vs ag st = Some (b, None, st)
      | Some (ToAlias t) \<Rightarrow> t < length vs \<and> stmt_out E k vs ag st = Some (vs ! t, None, st))"

lemma claims_acts_rightly:
  assumes "claims a ca cb (vs ! ca) (vs ! cb) z" and "ca < length vs" and "cb < length vs"
    and "stmt_out E k vs ag st = Some (z, None, st)"
  shows "acts_rightly a E k vs ag st"
proof (cases a)
  case (Some ac)
  then show ?thesis using assms by (cases ac) (auto simp: claims_def acts_rightly_def)
qed (simp add: acts_rightly_def)

lemma canon_value:
  assumes "decreasing m (length vs)" and "alias_values m vs"
  shows "vs ! canon_alias m v = vs ! v"
  by (rule canon_alias_keeps) (use assms(2) in \<open>simp add: alias_values_def\<close>)

lemma fold_action_right:
  assumes am: "decreasing am (length vs)" "alias_values am vs" and bm: "consts_hold bm vs"
    and ops: "\<forall>v \<in> set (operands k). v < length vs"
  shows "acts_rightly (fold_action k bm am) E k vs ag st"
proof -
  have lt: "canon_alias am v < length vs" if "v < length vs" for v
    using canon_alias_le [OF am(1), of v] that by simp
  note val = canon_value [OF am]
  have same: "canon_alias am a = canon_alias am b \<longrightarrow> vs ! canon_alias am a = vs ! canon_alias am b" for a b by simp
  note kn = consts_hold_known [OF bm]
  show ?thesis
  proof (cases k)
    case (BAnd a b)
    then show ?thesis using ops
      by (intro claims_acts_rightly [of _ "canon_alias am a" "canon_alias am b" vs "vs ! a \<and> vs ! b"])
        (simp_all add: Let_def lt fold_and_claims [OF kn kn same, unfolded val] val)
  next
    case (BOr a b)
    then show ?thesis using ops
      by (intro claims_acts_rightly [of _ "canon_alias am a" "canon_alias am b" vs "vs ! a \<or> vs ! b"])
        (simp_all add: Let_def lt fold_or_claims [OF kn kn same, unfolded val] val)
  next
    case (BXor a b)
    then show ?thesis using ops
      by (intro claims_acts_rightly [of _ "canon_alias am a" "canon_alias am b" vs "vs ! a = (\<not> vs ! b)"])
        (simp_all add: Let_def lt fold_xor_claims [OF kn kn same, unfolded val] val)
  next
    case (BNot a)
    then show ?thesis using ops kn [of "canon_alias am a"] val [of a]
      by (cases "bm (canon_alias am a)") (auto simp: acts_rightly_def known_def)
  qed (simp_all add: acts_rightly_def)
qed

section \<open>One statement\<close>

fun is_logic :: "bstmt \<Rightarrow> bool" where
  "is_logic (BAnd _ _) = True"
| "is_logic (BOr _ _) = True"
| "is_logic (BXor _ _) = True"
| "is_logic (BNot _) = True"
| "is_logic _ = False"

definition fold_weight :: "bstmt \<Rightarrow> nat" where
  "fold_weight k = sum_list (operands k) + of_bool (is_logic k)"

definition fold_inv :: "nat set \<Rightarrow> FoldState \<Rightarrow> nat \<Rightarrow> bool" where
  "fold_inv C fs rv \<longleftrightarrow> decreasing (alias_map fs) rv \<and> dom (alias_map fs) \<inter> C = {}"

lemma note_const_simps [simp]:
  "alias_map (note_const k rv fs) = alias_map fs" "changed (note_const k rv fs) = changed fs"
  by (cases k; simp)+

lemma fold_action_logic: "fold_action k bm am = Some a \<Longrightarrow> is_logic k"
  by (cases k) auto

lemma note_const_logic: "is_logic k \<Longrightarrow> note_const k rv fs = fs"
  by (cases k) auto

lemma is_logic_facts: "is_logic k \<Longrightarrow> handles k = [] \<and> \<not> is_call k"
  by (cases k) auto

lemma const_stmt_facts [simp]:
  "operands (const_stmt b) = []" "handles (const_stmt b) = []" "is_logic (const_stmt b) = False"
  "is_call (const_stmt b) = False" "stmt_out E (const_stmt b) vs ag st = Some (b, None, st)"
  by (simp_all add: const_stmt_def)

lemma fold_targets:
  "fold_and va vb ca cb = Some (ToAlias t) \<Longrightarrow> t = ca \<or> t = cb"
  "fold_or va vb ca cb = Some (ToAlias t) \<Longrightarrow> t = ca \<or> t = cb"
  "fold_xor va vb ca cb = Some (ToAlias t) \<Longrightarrow> t = ca \<or> t = cb"
  subgoal by (cases "(va, vb, ca, cb)" rule: fold_and.cases) (auto split: if_splits)
  subgoal by (cases "(va, vb, ca, cb)" rule: fold_or.cases) (auto split: if_splits)
  subgoal by (cases "(va, vb, ca, cb)" rule: fold_xor.cases) (auto split: if_splits)
  done

lemma fold_action_target:
  assumes a: "fold_action k bm am = Some (ToAlias t)" and am: "decreasing am rv" and k: "\<forall>v \<in> set (operands k). v < rv"
  shows "t < rv"
proof -
  have lt: "canon_alias am v < rv" if "v < rv" for v
    using canon_alias_le [OF am, of v] that by simp
  show ?thesis using a k by (cases k) (auto simp: Let_def dest!: fold_targets intro: lt)
qed

lemma fold_shape:
  assumes inv: "fold_inv C fs rv" and k: "well_placed C rv k" and step: "fold_stmt rv k fs = (k', fs')"
  shows "fold_inv C fs' (Suc rv) \<and> keeps_place C rv k k' \<and> fold_weight k' \<le> fold_weight k
    \<and> (changed fs' \<longrightarrow> changed fs \<or> fold_weight k' < fold_weight k)"
proof -
  obtain k1 ch where k1: "apply_aliases_to_biir_stmt k (alias_map fs) = (k1, ch)" by fastforce
  let ?m = "alias_map fs"
  define fs1 where "fs1 = note_const k1 rv (fs\<lparr>changed := changed fs \<or> ch\<rparr>)"
  have m: "decreasing ?m rv" "dom ?m \<inter> C = {}" using inv by (simp_all add: fold_inv_def)
  have st: "stays ?m C" "alias_bits ?m C ag" for ag using no_calls_aliased [OF m(2), of ag] by simp_all
  note al = aliased_shape [OF m(1) st(1) k k1]
  have logic: "is_logic k1 = is_logic k" unfolding al(3) by (cases k) auto
  have fs1: "alias_map fs1 = ?m" "changed fs1 = (changed fs \<or> ch)" by (simp_all add: fs1_def)
  have w: "fold_weight k1 \<le> fold_weight k" "ch \<Longrightarrow> fold_weight k1 < fold_weight k"
    using al(4,5) logic by (simp_all add: fold_weight_def)
  have inv1: "fold_inv C fs1 (Suc rv)" using m by (simp add: fold_inv_def fs1 decreasing_Suc)
  have step': "act (fold_action k1 (bool_map fs1) ?m) rv k1 fs1 = (k', fs')"
    using step by (simp add: fold_stmt_def k1 fs1_def Let_def)
  show ?thesis
  proof (cases "fold_action k1 (bool_map fs1) ?m")
    case None
    then show ?thesis using step' al(2) inv1 w fs1 by auto
  next
    case (Some a)
    then have lk: "is_logic k1" "is_logic k" using fold_action_logic logic by blast+
    then have heavy: "0 < fold_weight k1" "handles k = []" "\<not> is_call k" "rv \<notin> C"
      using k is_logic_facts by (auto simp: fold_weight_def well_placed_def)
    show ?thesis
    proof (cases a)
      case (ToConst b)
      have light: "fold_weight (const_stmt b) < fold_weight k"
      proof -
        have "fold_weight (const_stmt b) = 0" by (simp add: fold_weight_def)
        then show ?thesis using w(1) heavy(1) by linarith
      qed
      have k': "k' = const_stmt b" and fs': "alias_map fs' = ?m" using step' Some ToConst fs1(1) by auto
      have "fold_inv C fs' (Suc rv)" using m by (simp add: fold_inv_def fs' decreasing_Suc)
      moreover have "keeps_place C rv k k'" by (simp add: keeps_place_def k' heavy)
      ultimately show ?thesis using light by (simp add: k' less_imp_le)
    next
      case (ToAlias t)
      have "t < rv" using fold_action_target [OF Some [unfolded ToAlias] m(1)] al(1) by (simp add: well_placed_def)
      then have "decreasing (?m(rv \<mapsto> t)) (Suc rv)" by (rule decreasing_add [OF m(1)])
      moreover have "dom (?m(rv \<mapsto> t)) \<inter> C = {}" using m(2) heavy(4) by simp
      moreover have "k' = k1" and "alias_map fs' = ?m(rv \<mapsto> t)" and "changed fs' = (changed fs \<or> ch)"
        using step' Some ToAlias fs1 by auto
      ultimately show ?thesis using al(2) w by (auto simp: fold_inv_def simp del: dom_fun_upd)
    qed
  qed
qed

lemma fold_outcome:
  assumes inv: "fold_inv C fs (length vs)" and k: "well_placed C (length vs) k"
    and snd: "fold_sound fs vs ag" and step: "fold_stmt (length vs) k fs = (k', fs')"
  shows "stmt_out E k' vs ag st = stmt_out E k vs ag st
    \<and> (\<forall>x bits st'. stmt_out E k vs ag st = Some (x, bits, st') \<longrightarrow>
         fold_sound fs' (vs @ [x]) (put_call (length vs) bits ag))"
proof -
  let ?m = "alias_map fs" and ?rv = "length vs"
  obtain k1 ch where k1: "apply_aliases_to_biir_stmt k ?m = (k1, ch)" by fastforce
  define fs1 where "fs1 = note_const k1 ?rv (fs\<lparr>changed := changed fs \<or> ch\<rparr>)"
  have m: "decreasing ?m ?rv" "dom ?m \<inter> C = {}" using inv by (simp_all add: fold_inv_def)
  have val: "alias_values ?m vs" and cs: "consts_hold (bool_map fs) vs" using snd by (simp_all add: fold_sound_def)
  have st: "stays ?m C" "alias_bits ?m C ag" for ag using no_calls_aliased [OF m(2), of ag] by simp_all
  note al = aliased_shape [OF m(1) st(1) k k1]
  have out: "stmt_out E k1 vs ag st = stmt_out E k vs ag st"
    unfolding al(3) by (rule aliased_outcome [OF m(1) st(1) k val st(2)])
  have step': "act (fold_action k1 (bool_map fs1) ?m) ?rv k1 fs1 = (k', fs')"
    using step by (simp add: fold_stmt_def k1 fs1_def Let_def)
  show ?thesis
  proof (cases "fold_action k1 (bool_map fs1) ?m")
    case None
    have "consts_hold (bool_map fs1) (vs @ [x])" if "stmt_out E k1 vs ag st = Some (x, bits, st')" for x bits st'
      using that cs by (cases k1) (auto simp: fs1_def consts_hold_add consts_hold_snoc)
    then show ?thesis using step' None out alias_values_snoc [OF m(1) val] by (auto simp: fold_sound_def fs1_def)
  next
    case (Some a)
    have fs1: "fs1 = fs\<lparr>changed := changed fs \<or> ch\<rparr>"
      unfolding fs1_def by (rule note_const_logic) (rule fold_action_logic [OF Some])
    have right: "acts_rightly (Some a) E k1 vs ag st"
      using fold_action_right [OF m(1) val cs, of k1 E ag st] al(1) Some by (simp add: well_placed_def fs1)
    show ?thesis
    proof (cases a)
      case (ToConst b)
      then have k1b: "stmt_out E k1 vs ag st = Some (b, None, st)" using right by (simp add: acts_rightly_def)
      then show ?thesis
        using step' Some ToConst out alias_values_snoc [OF m(1) val] consts_hold_add [OF cs]
        by (auto simp: fold_sound_def fs1)
    next
      case (ToAlias t)
      then have t: "t < ?rv" and k1t: "stmt_out E k1 vs ag st = Some (vs ! t, None, st)"
        using right by (simp_all add: acts_rightly_def)
      have "consts_hold (case bool_map fs t of Some v \<Rightarrow> (bool_map fs)(?rv \<mapsto> v) | None \<Rightarrow> bool_map fs) (vs @ [vs ! t])"
      proof (cases "bool_map fs t")
        case (Some v)
        then have "vs ! t = v" using cs by (auto simp: consts_hold_def)
        then show ?thesis using Some consts_hold_add [OF cs] by simp
      qed (simp add: consts_hold_snoc [OF cs])
      moreover have "k' = k1" and "alias_map fs' = ?m(?rv \<mapsto> t)" and
        "bool_map fs' = (case bool_map fs t of Some v \<Rightarrow> (bool_map fs)(?rv \<mapsto> v) | None \<Rightarrow> bool_map fs)"
        using step' Some ToAlias fs1 by (cases "bool_map fs t"; auto)+
      moreover have "stmt_out E k vs ag st = Some (vs ! t, None, st)" using out k1t by simp
      ultimately show ?thesis
        using out alias_values_add [OF m(1) val t refl] by (simp add: fold_sound_def)
    qed
  qed
qed

interpretation fold: sweep fold_stmt "well_placed C" "keeps_place C" "fold_inv C" changed fold_weight E fold_sound
  for C E
  by unfold_locales (use fold_shape fold_outcome in blast)+

section \<open>Blocks and circuits\<close>

abbreviation fold_start :: FoldState where
  "fold_start \<equiv> \<lparr>bool_map = Map.empty, alias_map = Map.empty, changed = False\<rparr>"

definition stmts_weight :: "'p node list \<Rightarrow> nat" where
  "stmts_weight ns = (\<Sum>n \<leftarrow> ns. fold_weight (kind n))"

text \<open>One sweep over a statement list from nothing known.\<close>

lemma fold_sweep:
  assumes ok: "list_ok base ns" and ns': "fold_biir_stmts_once base ns = (ns', fs)"
  shows "list_ok base ns'" and "length ns' = length ns" and "decreasing (alias_map fs) (base + length ns)"
    and "stmts_weight ns' \<le> stmts_weight ns" and "changed fs \<Longrightarrow> stmts_weight ns' < stmts_weight ns"
    and "length ins = base \<Longrightarrow> eval_stmts E ns' base (ins, Map.empty, st) = eval_stmts E ns base (ins, Map.empty, st)"
    and "length ins = base \<Longrightarrow> eval_stmts E ns base (ins, Map.empty, st) = Some (vs, ag, st') \<Longrightarrow>
          length vs = base + length ns \<and> alias_values (alias_map fs) vs \<and> consts_hold (bool_map fs) vs"
proof -
  have sw: "sweep_with fold_stmt base ns fold_start = (ns', fs)"
    using ns' by (simp add: fold_biir_stmts_once_def fold_stmts_sweep)
  have inv: "fold_inv (calls base ns) fold_start base" by (simp add: fold_inv_def decreasing_def)
  have sound: "fold_sound fold_start ins Map.empty"
    by (simp add: fold_sound_def alias_values_def consts_hold_def)
  note shape = fold.list_shape [OF inv list_ok_placed [OF ok] sw]
  show "length ns' = length ns" using shape by simp
  then show "list_ok base ns'" using shape by (intro list_ok_kept [OF ok]) auto
  show "decreasing (alias_map fs) (base + length ns)" using shape by (simp add: fold_inv_def)
  show "stmts_weight ns' \<le> stmts_weight ns" "changed fs \<Longrightarrow> stmts_weight ns' < stmts_weight ns"
    using shape by (auto simp: stmts_weight_def)
  assume len: "length ins = base"
  note same = fold.list_same [of "calls base ns" fold_start ins ns, unfolded len, OF inv list_ok_placed [OF ok] sound sw]
  show "eval_stmts E ns' base (ins, Map.empty, st) = eval_stmts E ns base (ins, Map.empty, st)"
    using same by blast
  assume ev: "eval_stmts E ns base (ins, Map.empty, st) = Some (vs, ag, st')"
  then have "length vs = base + length ns" using eval_stmts_length [OF ev] len by simp
  then show "length vs = base + length ns \<and> alias_values (alias_map fs) vs \<and> consts_hold (bool_map fs) vs"
    using same [of E st] ev by (auto simp: fold_sound_def)
qed

lemma dead_branch_shape:
  assumes "fold_biir_terminator_dead_branch t bm = (t', ch)"
  shows "set (terminator_operands t') \<subseteq> set (terminator_operands t)"
    and "terminator_weight t' \<le> terminator_weight t" and "ch \<Longrightarrow> terminator_weight t' < terminator_weight t"
  using assms by (cases t; auto split: option.splits if_splits simp del: target_vars.simps)+

lemma dead_branch_value:
  assumes "consts_hold bm vs" and "fold_biir_terminator_dead_branch t bm = (t', ch)"
  shows "eval_terminator t' vs = eval_terminator t vs"
proof (cases t)
  case (CondJmp val a b)
  show ?thesis
  proof (cases "bm val")
    case (Some x)
    then have "val < length vs" "vs ! val = x" using assms(1) by (auto simp: consts_hold_def)
    then show ?thesis using assms(2) CondJmp Some by auto
  qed (use assms(2) CondJmp in auto)
qed (use assms(2) in auto)

definition block_weight :: "'p BIrBlock \<Rightarrow> nat" where
  "block_weight b = stmts_weight (stmts b) + terminator_weight (terminator b)"

lemma fold_block_round:
  assumes ok: "block_ok b"
  shows "\<exists>b' ch. Some (fold_biir_block_once b) = Some (b', ch) \<and> block_ok b' \<and> eval_block E b' = eval_block E b
    \<and> (ch \<longrightarrow> block_weight b' < block_weight b)"
proof -
  obtain ns' fs where ns': "fold_biir_stmts_once (params b) (stmts b) = (ns', fs)" by fastforce
  obtain t1 c1 where t1: "apply_aliases_to_biir_terminator (terminator b) (alias_map fs) = (t1, c1)" by fastforce
  obtain t2 c2 where t2: "fold_biir_terminator_dead_branch t1 (bool_map fs) = (t2, c2)" by fastforce
  let ?b = "b\<lparr>stmts := ns', terminator := t2\<rparr>" and ?n = "params b + length (stmts b)"
  have once: "fold_biir_block_once b = (?b, changed fs \<or> c1 \<or> c2)"
    by (simp add: fold_biir_block_once_def ns' t1 t2)
  have lok: "list_ok (params b) (stmts b)" and ops: "\<forall>v \<in> set (terminator_operands (terminator b)). v < ?n"
    using ok by (simp_all add: block_ok_def)
  note sw = fold_sweep [OF lok ns']
  note al = aliased_terminator_shape [OF sw(3) t1] and db = dead_branch_shape [OF t2]
  have "\<forall>v \<in> set (terminator_operands t1). v < ?n" unfolding al(1) by (rule aliased_below [OF sw(3) ops])
  then have ok': "block_ok ?b" using sw(1,2) db(1) by (auto simp: block_ok_def)
  have tw: "terminator_weight t2 \<le> terminator_weight (terminator b)" using al(2) db(2) by linarith
  have tw': "terminator_weight t2 < terminator_weight (terminator b)" if "c1 \<or> c2"
    using that al(2) al(3) db(2) db(3) by (meson le_less_trans less_le_trans)
  have "changed fs \<or> (c1 \<or> c2) \<longrightarrow> stmts_weight ns' + terminator_weight t2
      < stmts_weight (stmts b) + terminator_weight (terminator b)"
    by (rule add_shrinks [OF sw(4) tw sw(5) tw'])
  then have w: "changed fs \<or> c1 \<or> c2 \<longrightarrow> block_weight ?b < block_weight b" by (simp add: block_weight_def)
  have "eval_block E ?b ins st = eval_block E b ins st" for ins st
  proof (cases "length ins = params b")
    case True
    show ?thesis
    proof (cases "eval_stmts E (stmts b) (params b) (ins, Map.empty, st)")
      case (Some r)
      obtain vs ag st' where r: "r = (vs, ag, st')" by (cases r) auto
      have vs: "length vs = ?n" "alias_values (alias_map fs) vs" "consts_hold (bool_map fs) vs"
        using sw(7) [OF True, of E st vs ag st'] Some r by auto
      have "eval_terminator t2 vs = eval_terminator (terminator b) vs"
        using dead_branch_value [OF vs(3) t2] aliased_terminator_value [OF _ vs(2) _ t1] sw(3) ops vs(1) by simp
      then show ?thesis using Some r sw(6) [OF True, of E st] by (simp add: eval_block_def)
    qed (use sw(6) [OF True, of E st] in \<open>simp add: eval_block_def\<close>)
  qed (simp add: eval_block_def)
  then have "eval_block E ?b = eval_block E b" by (intro ext)
  then show ?thesis using once ok' w by blast
qed

interpretation fold_blocks: program_pass block_ok "\<lambda>b. Some (fold_biir_block_once b)" E block_weight
  for E
  by unfold_locales (rule fold_block_round)

definition circuit_weight :: "'p BCircuit \<Rightarrow> nat" where
  "circuit_weight c = stmts_weight (bc_stmts c) + sum_list (bc_outputs c)"

lemma fold_circuit_round:
  assumes ok: "circuit_ready c"
  shows "\<exists>c' ch. Some (fold_biir_circuit_once c) = Some (c', ch) \<and> circuit_ready c' \<and> eval_circuit E c' = eval_circuit E c
    \<and> (ch \<longrightarrow> circuit_weight c' < circuit_weight c)"
proof -
  obtain ns' fs where ns': "fold_biir_stmts_once (bc_params c) (bc_stmts c) = (ns', fs)" by fastforce
  let ?f = "canon_alias (alias_map fs)"
  let ?c = "c\<lparr>bc_stmts := ns', bc_outputs := map ?f (bc_outputs c)\<rparr>" and ?n = "bc_params c + length (bc_stmts c)"
  let ?ch = "changed fs \<or> list_ex (\<lambda>v. ?f v \<noteq> v) (bc_outputs c)"
  have once: "fold_biir_circuit_once c = (?c, ?ch)" by (simp add: fold_biir_circuit_once_def ns')
  have lok: "list_ok (bc_params c) (bc_stmts c)" and ops: "\<forall>v \<in> set (bc_outputs c). v < ?n"
    using ok by (simp_all add: circuit_ready_def var_space_def)
  note sw = fold_sweep [OF lok ns']
  have le: "?f v \<le> v" for v by (rule canon_alias_le [OF sw(3)])
  have "\<forall>v \<in> set (map ?f (bc_outputs c)). v < ?n" by (rule aliased_below [OF sw(3) ops])
  then have ok': "circuit_ready ?c" using sw(1,2) by (simp add: circuit_ready_def var_space_def)
  have w: "?ch \<longrightarrow> circuit_weight ?c < circuit_weight c"
    unfolding circuit_weight_def using add_shrinks [OF sw(4) sum_list_shrinks(1) [OF le] sw(5) sum_list_shrinks(2) [OF le]]
    by simp
  have "eval_circuit E ?c ins st = eval_circuit E c ins st" for ins st
  proof (cases "length ins = bc_params c")
    case True
    show ?thesis
    proof (cases "eval_stmts E (bc_stmts c) (bc_params c) (ins, Map.empty, st)")
      case (Some r)
      obtain vs ag st' where r: "r = (vs, ag, st')" by (cases r) auto
      have vs: "length vs = ?n" "alias_values (alias_map fs) vs"
        using sw(7) [OF True, of E st vs ag st'] Some r by auto
      then have "nths_opt vs (map ?f (bc_outputs c)) = nths_opt vs (bc_outputs c)"
        using aliased_args [of "alias_map fs" vs] sw(3) ops by simp
      then show ?thesis using Some r sw(6) [OF True, of E st] by (simp add: eval_circuit_def)
    qed (use sw(6) [OF True, of E st] in \<open>simp add: eval_circuit_def\<close>)
  qed (simp add: eval_circuit_def)
  then have "eval_circuit E ?c = eval_circuit E c" by (intro ext)
  then show ?thesis using once ok' w by blast
qed

interpretation fold_circuit: stable_pass circuit_ready "\<lambda>c. Some (fold_biir_circuit_once c)" "eval_circuit E" circuit_weight
  for E
  by unfold_locales (rule fold_circuit_round)

end
