(* ===== verification/CseCorrect.thy ===== *)
theory CseCorrect
  imports OptSweep Samples
begin

text \<open>
  Common-subexpression elimination keeps every block's evaluation, against external sources that
  ignore the occurrence of a bit and on blocks that call each oracle at one width. Both conditions
  are what its key leaves out.
\<close>

section \<open>Keys\<close>

definition occurrence_blind :: "externals \<Rightarrow> bool" where
  "occurrence_blind E \<longleftrightarrow> (\<forall>name xs b occ.
     oracle_bit_fn (ext_registry E) name xs b occ = oracle_bit_fn (ext_registry E) name xs b 0)"

fun has_width :: "(string \<Rightarrow> nat) \<Rightarrow> bstmt \<Rightarrow> bool" where
  "has_width W (OracleCall name _ n) \<longleftrightarrow> n = W name"
| "has_width W _ \<longleftrightarrow> True"

text \<open>The value and call bits a key stands for.\<close>

fun key_out :: "(string \<Rightarrow> nat) \<Rightarrow> externals \<Rightarrow> CseKey \<Rightarrow> bool list \<Rightarrow> (bool \<times> bool list option) option" where
  "key_out W E KZero vs = Some (False, None)"
| "key_out W E KOne vs = Some (True, None)"
| "key_out W E (KAnd a b) vs = do { x \<leftarrow> nth_opt vs a; y \<leftarrow> nth_opt vs b; Some (x \<and> y, None) }"
| "key_out W E (KOr a b) vs = do { x \<leftarrow> nth_opt vs a; y \<leftarrow> nth_opt vs b; Some (x \<or> y, None) }"
| "key_out W E (KXor a b) vs = do { x \<leftarrow> nth_opt vs a; y \<leftarrow> nth_opt vs b; Some (x \<noteq> y, None) }"
| "key_out W E (KNot a) vs = do { x \<leftarrow> nth_opt vs a; Some (\<not> x, None) }"
| "key_out W E (KOracleCall name args) vs =
     do { xs \<leftarrow> nths_opt vs args; Some (False, Some (oracle_call_fn E name xs (W name))) }"
| "key_out W E (KOracleBit name args b) vs =
     do { xs \<leftarrow> nths_opt vs args; Some (oracle_bit_fn (ext_registry E) name xs b 0, None) }"

fun is_call_key :: "CseKey \<Rightarrow> bool" where
  "is_call_key (KOracleCall _ _) = True"
| "is_call_key _ = False"

lemma cse_key_call: "cse_key k = Some key \<Longrightarrow> is_call_key key = is_call k"
  by (cases k) (auto split: if_splits)

lemma cse_key_out:
  assumes "cse_key k = Some key" and "has_width W k" and "occurrence_blind E"
  shows "stmt_out E k vs ag st = map_option (\<lambda>(x, bits). (x, bits, st)) (key_out W E key vs)"
proof (cases k)
  case (BAnd a b)
  then show ?thesis using assms(1) by (cases "nth_opt vs a"; cases "nth_opt vs b") auto
next
  case (BOr a b)
  then show ?thesis using assms(1) by (cases "nth_opt vs a"; cases "nth_opt vs b") auto
next
  case (BXor a b)
  then show ?thesis using assms(1) by (cases "nth_opt vs a"; cases "nth_opt vs b") auto
next
  case (BNot a)
  then show ?thesis using assms(1) by (cases "nth_opt vs a") auto
next
  case (OracleCall name args n)
  then show ?thesis using assms(1,2) by (cases "nths_opt vs args") auto
next
  case (OracleBit name args b occ)
  have "oracle_bit_fn (ext_registry E) name xs b occ = oracle_bit_fn (ext_registry E) name xs b 0" for xs
    using assms(3) unfolding occurrence_blind_def by blast
  then show ?thesis using assms(1) OracleBit by (cases "nths_opt vs args") auto
qed (use assms(1) in auto)

lemma key_out_extend: "key_out W E key vs = Some r \<Longrightarrow> key_out W E key (vs @ [x]) = Some r"
  by (cases key) (auto simp: bind_eq_Some_conv dest: nth_opt_extend nths_opt_extend)

section \<open>One statement\<close>

definition cse_good :: "(string \<Rightarrow> nat) \<Rightarrow> externals \<Rightarrow> nat set \<Rightarrow> nat \<Rightarrow> bstmt \<Rightarrow> bool" where
  "cse_good W E C rv k \<longleftrightarrow> well_placed C rv k \<and> has_width W k \<and> occurrence_blind E"

definition cse_rel :: "(string \<Rightarrow> nat) \<Rightarrow> nat set \<Rightarrow> nat \<Rightarrow> bstmt \<Rightarrow> bstmt \<Rightarrow> bool" where
  "cse_rel W C rv k k' \<longleftrightarrow> keeps_place C rv k k' \<and> has_width W k' = has_width W k"

definition cse_inv :: "nat set \<Rightarrow> CseState \<Rightarrow> nat \<Rightarrow> bool" where
  "cse_inv C cs rv \<longleftrightarrow> decreasing (cse_alias cs) rv \<and> stays (cse_alias cs) C
     \<and> (\<forall>key f. seen cs key = Some f \<longrightarrow> f < rv \<and> (is_call_key key \<longrightarrow> f \<in> C))"

text \<open>What the sweep has seen is so, and calls beyond the values so far have no bits.\<close>

definition cse_sound :: "(string \<Rightarrow> nat) \<Rightarrow> externals \<Rightarrow> nat set \<Rightarrow> CseState \<Rightarrow> bool list \<Rightarrow> oracle_agg \<Rightarrow> bool" where
  "cse_sound W E C cs vs ag \<longleftrightarrow> alias_values (cse_alias cs) vs \<and> alias_bits (cse_alias cs) C ag
     \<and> (\<forall>key f. seen cs key = Some f \<longrightarrow> f < length vs \<and> key_out W E key vs = Some (vs ! f, ag f))
     \<and> (\<forall>v \<ge> length vs. ag v = None)"

lemma has_width_map [simp]: "has_width W (map_BIrStmt h id k) = has_width W k"
  by (cases k) auto

lemma cse_shape:
  assumes inv: "cse_inv C cs rv" and k: "cse_good W E C rv k" and step: "cse_stmt rv k cs = (k', cs')"
  shows "cse_inv C cs' (Suc rv) \<and> cse_rel W C rv k k' \<and> sum_list (operands k') \<le> sum_list (operands k)
    \<and> (cse_changed cs' \<longrightarrow> cse_changed cs \<or> sum_list (operands k') < sum_list (operands k))"
proof -
  obtain k1 ch where k1: "apply_aliases_to_biir_stmt k (cse_alias cs) = (k1, ch)" by fastforce
  have m: "decreasing (cse_alias cs) rv" "stays (cse_alias cs) C" and kp: "well_placed C rv k"
    and sn: "\<And>key f. seen cs key = Some f \<Longrightarrow> f < rv \<and> (is_call_key key \<longrightarrow> f \<in> C)"
    using inv k by (simp_all add: cse_inv_def cse_good_def)
  note al = aliased_shape [OF m kp k1]
  have k': "k' = k1" and cs': "cse_changed cs' = (cse_changed cs \<or> ch)"
    using step by (auto simp: cse_stmt_def k1 Let_def split: option.splits)
  have rel: "cse_rel W C rv k k'" using al(2,3) by (simp add: cse_rel_def k')
  have "cse_inv C cs' (Suc rv)"
  proof (cases "cse_key k1")
    case None
    then have "cs' = cs\<lparr>cse_changed := cse_changed cs \<or> ch\<rparr>" using step by (simp add: cse_stmt_def k1 Let_def)
    then show ?thesis using m sn by (auto simp: cse_inv_def decreasing_Suc less_SucI)
  next
    case (Some key)
    have call: "rv \<in> C \<longleftrightarrow> is_call_key key" using al(1) cse_key_call [OF Some] by (simp add: well_placed_def)
    show ?thesis
    proof (cases "seen cs key")
      case None
      then have "cs' = cs\<lparr>cse_changed := cse_changed cs \<or> ch, seen := (seen cs)(key \<mapsto> rv)\<rparr>"
        using step Some by (simp add: cse_stmt_def k1 Let_def)
      then show ?thesis using m sn call by (auto simp: cse_inv_def decreasing_Suc less_SucI)
    next
      case S: (Some f)
      then have cs'': "cs' = cs\<lparr>cse_changed := cse_changed cs \<or> ch, cse_alias := (cse_alias cs)(rv \<mapsto> f)\<rparr>"
        using step Some by (simp add: cse_stmt_def k1 Let_def)
      have f: "f < rv" "is_call_key key \<Longrightarrow> f \<in> C" using sn [OF S] by auto
      have "stays ((cse_alias cs)(rv \<mapsto> f)) C" using m(2) f(2) call by (auto simp: stays_def)
      then show ?thesis using decreasing_add [OF m(1) f(1)] sn by (auto simp: cse_inv_def cs'' less_SucI)
    qed
  qed
  then show ?thesis using rel al(4,5) cs' by (auto simp: k')
qed

lemma cse_outcome:
  assumes inv: "cse_inv C cs (length vs)" and k: "cse_good W E C (length vs) k"
    and snd: "cse_sound W E C cs vs ag" and step: "cse_stmt (length vs) k cs = (k', cs')"
  shows "stmt_out E k' vs ag st = stmt_out E k vs ag st
    \<and> (\<forall>x bits st'. stmt_out E k vs ag st = Some (x, bits, st') \<longrightarrow>
         cse_sound W E C cs' (vs @ [x]) (put_call (length vs) bits ag))"
proof -
  let ?m = "cse_alias cs" and ?rv = "length vs"
  obtain k1 ch where k1: "apply_aliases_to_biir_stmt k ?m = (k1, ch)" by fastforce
  have m: "decreasing ?m ?rv" "stays ?m C" and kp: "well_placed C ?rv k" and kw: "has_width W k" "occurrence_blind E"
    and lt: "\<And>key f. seen cs key = Some f \<Longrightarrow> f < ?rv"
    using inv k by (simp_all add: cse_inv_def cse_good_def)
  have val: "alias_values ?m vs" "alias_bits ?m C ag"
    and sn: "\<And>key f. seen cs key = Some f \<Longrightarrow> key_out W E key vs = Some (vs ! f, ag f)"
    and none: "\<And>v. v \<ge> ?rv \<Longrightarrow> ag v = None"
    using snd by (simp_all add: cse_sound_def)
  note al = aliased_shape [OF m kp k1]
  have k': "k' = k1" using step by (auto simp: cse_stmt_def k1 Let_def split: option.splits)
  have out: "stmt_out E k' vs ag st = stmt_out E k vs ag st"
    unfolding k' al(3) by (rule aliased_outcome [OF m kp val])
  moreover have "cse_sound W E C cs' (vs @ [x]) (put_call ?rv bits ag)"
    if x: "stmt_out E k1 vs ag st = Some (x, bits, st')" for x bits st'
  proof -
    let ?ag = "put_call ?rv bits ag"
    have old: "?ag v = ag v" if "v < ?rv" for v using that by (cases bits) (auto simp: put_call_def)
    have new: "?ag ?rv = bits" using none [of ?rv] by (cases bits) (auto simp: put_call_def)
    have later: "?ag v = None" if "v \<ge> length (vs @ [x])" for v
      using that none by (cases bits) (auto simp: put_call_def)
    have av: "alias_values ?m (vs @ [x])" by (rule alias_values_snoc [OF m(1) val(1)])
    have ab: "alias_bits ?m C ?ag"
      using val(2) m(1) old unfolding alias_bits_def decreasing_def by (metis less_trans)
    have sn': "f < length (vs @ [x]) \<and> key_out W E key (vs @ [x]) = Some ((vs @ [x]) ! f, ?ag f)"
      if "seen cs key = Some f" for key f
      using key_out_extend [OF sn [OF that]] lt [OF that] old by (simp add: nth_append)
    show ?thesis
    proof (cases "cse_key k1")
      case None
      then have "cs' = cs\<lparr>cse_changed := cse_changed cs \<or> ch\<rparr>" using step by (simp add: cse_stmt_def k1 Let_def)
      then show ?thesis using av ab sn' later by (simp add: cse_sound_def)
    next
      case (Some key)
      have "has_width W k1" using kw(1) by (simp add: al(3))
      from cse_key_out [OF Some this kw(2), of vs ag st] x
      have key: "key_out W E key vs = Some (x, bits)" by (auto simp: map_option_case split: option.splits)
      show ?thesis
      proof (cases "seen cs key")
        case None
        then have "cs' = cs\<lparr>cse_changed := cse_changed cs \<or> ch, seen := (seen cs)(key \<mapsto> ?rv)\<rparr>"
          using step Some by (simp add: cse_stmt_def k1 Let_def)
        then show ?thesis using av ab sn' later key_out_extend [OF key] new by (simp add: cse_sound_def)
      next
        case S: (Some f)
        then have cs'': "cs' = cs\<lparr>cse_changed := cse_changed cs \<or> ch, cse_alias := ?m(?rv \<mapsto> f)\<rparr>"
          using step Some by (simp add: cse_stmt_def k1 Let_def)
        have f: "f < ?rv" "vs ! f = x" "ag f = bits" using sn [OF S] key lt [OF S] by auto
        have "alias_bits (?m(?rv \<mapsto> f)) C ?ag" using ab f old new by (auto simp: alias_bits_def)
        then show ?thesis using alias_values_add [OF m(1) val(1) f(1,2)] sn' later by (simp add: cse_sound_def cs'')
      qed
    qed
  qed
  ultimately show ?thesis unfolding k' by simp
qed

interpretation cse: sweep cse_stmt "cse_good W E C" "cse_rel W C" "cse_inv C" cse_changed "\<lambda>k. sum_list (operands k)"
    E "cse_sound W E C"
  for W C E
  by unfold_locales (use cse_shape in blast, rule cse_outcome)

section \<open>Blocks\<close>

abbreviation cse_start :: CseState where
  "cse_start \<equiv> \<lparr>cse_alias = Map.empty, seen = Map.empty, cse_changed = False\<rparr>"

definition widths_ok :: "(string \<Rightarrow> nat) \<Rightarrow> 'p node list \<Rightarrow> bool" where
  "widths_ok W ns \<longleftrightarrow> (\<forall>n \<in> set ns. has_width W (kind n))"

definition cse_ok :: "(string \<Rightarrow> nat) \<Rightarrow> externals \<Rightarrow> 'p BIrBlock \<Rightarrow> bool" where
  "cse_ok W E b \<longleftrightarrow> block_ok b \<and> widths_ok W (stmts b) \<and> occurrence_blind E"

definition operand_sum :: "'p node list \<Rightarrow> nat" where
  "operand_sum ns = (\<Sum>n \<leftarrow> ns. sum_list (operands (kind n)))"

definition cse_weight :: "'p BIrBlock \<Rightarrow> nat" where
  "cse_weight b = operand_sum (stmts b) + terminator_weight (terminator b)"

lemma cse_sweep:
  assumes ok: "list_ok base ns" and w: "widths_ok W ns" and E: "occurrence_blind E"
    and ns': "cse_stmts base ns cse_start = (ns', cs)"
  shows "list_ok base ns'" and "widths_ok W ns'" and "length ns' = length ns"
    and "decreasing (cse_alias cs) (base + length ns)"
    and "operand_sum ns' \<le> operand_sum ns" and "cse_changed cs \<Longrightarrow> operand_sum ns' < operand_sum ns"
    and "length ins = base \<Longrightarrow> eval_stmts E ns' base (ins, Map.empty, st) = eval_stmts E ns base (ins, Map.empty, st)"
    and "length ins = base \<Longrightarrow> eval_stmts E ns base (ins, Map.empty, st) = Some (vs, ag, st') \<Longrightarrow>
          length vs = base + length ns \<and> alias_values (cse_alias cs) vs"
proof -
  let ?C = "calls base ns"
  have sw: "sweep_with cse_stmt base ns cse_start = (ns', cs)" using ns' by (simp add: cse_stmts_sweep)
  have good: "\<forall>i < length ns. cse_good W E ?C (base + i) (kind (ns ! i))"
    using list_ok_placed [OF ok] w E by (simp add: cse_good_def widths_ok_def)
  have inv: "cse_inv ?C cse_start base" by (simp add: cse_inv_def decreasing_def stays_def)
  have sound: "cse_sound W E ?C cse_start ins Map.empty"
    by (simp add: cse_sound_def alias_values_def alias_bits_def)
  note shape = cse.list_shape [OF inv good sw]
  show len: "length ns' = length ns" using shape by simp
  then show "list_ok base ns'" using shape by (intro list_ok_kept [OF ok]) (auto simp: cse_rel_def)
  show "widths_ok W ns'" using shape w by (simp add: widths_ok_def all_set_conv_all_nth cse_rel_def)
  show "decreasing (cse_alias cs) (base + length ns)" using shape by (simp add: cse_inv_def)
  show "operand_sum ns' \<le> operand_sum ns" "cse_changed cs \<Longrightarrow> operand_sum ns' < operand_sum ns"
    using shape by (auto simp: operand_sum_def)
  assume base: "length ins = base"
  note same = cse.list_same [where C = ?C and s = cse_start and vs = ins and ns = ns and W = W and E = E, unfolded base, OF inv good sound sw]
  show "eval_stmts E ns' base (ins, Map.empty, st) = eval_stmts E ns base (ins, Map.empty, st)"
    using same by blast
  assume ev: "eval_stmts E ns base (ins, Map.empty, st) = Some (vs, ag, st')"
  then have "length vs = base + length ns" using eval_stmts_length [OF ev] base by simp
  then show "length vs = base + length ns \<and> alias_values (cse_alias cs) vs"
    using same [of st] ev by (auto simp: cse_sound_def)
qed

lemma cse_block_round:
  assumes ok: "cse_ok W E b"
  shows "\<exists>b' ch. Some (cse_biir_block_once b) = Some (b', ch) \<and> cse_ok W E b' \<and> eval_block E b' = eval_block E b
    \<and> (ch \<longrightarrow> cse_weight b' < cse_weight b)"
proof -
  obtain ns' cs where ns': "cse_stmts (params b) (stmts b) cse_start = (ns', cs)" by fastforce
  obtain t1 c1 where t1: "apply_aliases_to_biir_terminator (terminator b) (cse_alias cs) = (t1, c1)" by fastforce
  let ?b = "b\<lparr>stmts := ns', terminator := t1\<rparr>" and ?n = "params b + length (stmts b)"
  have once: "cse_biir_block_once b = (?b, cse_changed cs \<or> c1)" by (simp add: cse_biir_block_once_def ns' t1)
  have lok: "list_ok (params b) (stmts b)" and ops: "\<forall>v \<in> set (terminator_operands (terminator b)). v < ?n"
    and w: "widths_ok W (stmts b)" and E: "occurrence_blind E"
    using ok by (simp_all add: cse_ok_def block_ok_def)
  note sw = cse_sweep [OF lok w E ns']
  note al = aliased_terminator_shape [OF sw(4) t1]
  have "\<forall>v \<in> set (terminator_operands t1). v < ?n" unfolding al(1) by (rule aliased_below [OF sw(4) ops])
  then have ok': "cse_ok W E ?b" using sw(1,2,3) E by (simp add: cse_ok_def block_ok_def)
  have wt: "cse_changed cs \<or> c1 \<longrightarrow> cse_weight ?b < cse_weight b"
    unfolding cse_weight_def using add_shrinks [OF sw(5) al(2) sw(6) al(3)] by simp
  have "eval_block E ?b ins st = eval_block E b ins st" for ins st
  proof (cases "length ins = params b")
    case True
    show ?thesis
    proof (cases "eval_stmts E (stmts b) (params b) (ins, Map.empty, st)")
      case (Some r)
      obtain vs ag st' where r: "r = (vs, ag, st')" by (cases r) auto
      have vs: "length vs = ?n" "alias_values (cse_alias cs) vs"
        using sw(8) [OF True, of st vs ag st'] Some r by auto
      have "eval_terminator t1 vs = eval_terminator (terminator b) vs"
        using aliased_terminator_value [OF _ vs(2) _ t1] sw(4) ops vs(1) by simp
      then show ?thesis using Some r sw(7) [OF True, of st] by (simp add: eval_block_def)
    qed (use sw(7) [OF True, of st] in \<open>simp add: eval_block_def\<close>)
  qed (simp add: eval_block_def)
  then have "eval_block E ?b = eval_block E b" by (intro ext)
  then show ?thesis using once ok' wt by blast
qed

interpretation cse_blocks: program_pass "cse_ok W E" "\<lambda>b. Some (cse_biir_block_once b)" E cse_weight
  for W E
  by unfold_locales (rule cse_block_round)

end
