(* ===== verification/DceCorrect.thy ===== *)
theory DceCorrect
  imports CseCorrect
begin

text \<open>
  Dead-code elimination: the use counts are exact throughout the reverse sweep, so what it marks
  is read by nothing that stays; the renumbering is the position among the statements that stay;
  and the block that is left evaluates as the block it came from.
\<close>

section \<open>Use counts\<close>

lemma count_uses_exact:
  assumes "\<forall>v \<in> set vs. v < ps + length uses"
  shows "\<exists>uses'. count_uses ps vs uses = Some uses' \<and> length uses' = length uses
    \<and> (\<forall>j < length uses. uses' ! j = uses ! j + count_list vs (ps + j))"
  using assms
proof (induction vs arbitrary: uses)
  case (Cons v vs)
  show ?case
  proof (cases "v < ps")
    case True
    then show ?thesis using Cons.IH [of uses] Cons.prems by auto
  next
    case False
    let ?u = "uses[v - ps := uses ! (v - ps) + 1]"
    have lt: "v - ps < length uses" using Cons.prems False by auto
    obtain uses' where u: "count_uses ps vs ?u = Some uses'" "length uses' = length uses"
        "\<forall>j < length uses. uses' ! j = ?u ! j + count_list vs (ps + j)"
      using Cons.IH [of ?u] Cons.prems by auto
    have "uses' ! j = uses ! j + count_list (v # vs) (ps + j)" if "j < length uses" for j
      using u(3) that False by (cases "j = v - ps") auto
    then show ?thesis using u False lt by auto
  qed
qed simp

lemma drop_uses_exact:
  assumes "\<forall>v \<in> set vs. v < ps + length uses" and "\<forall>j < length uses. count_list vs (ps + j) \<le> uses ! j"
  shows "\<exists>uses'. drop_uses ps vs uses = Some uses' \<and> length uses' = length uses
    \<and> (\<forall>j < length uses. uses' ! j = uses ! j - count_list vs (ps + j))"
  using assms
proof (induction vs arbitrary: uses)
  case (Cons v vs)
  show ?case
  proof (cases "v < ps")
    case True
    have "\<forall>j < length uses. count_list vs (ps + j) \<le> uses ! j" using Cons.prems(2) True by auto
    then show ?thesis using Cons.IH [of uses] Cons.prems(1) True by auto
  next
    case False
    let ?u = "uses[v - ps := uses ! (v - ps) - 1]"
    have lt: "v - ps < length uses" using Cons.prems(1) False by auto
    have pos: "count_list vs v < uses ! (v - ps)" using Cons.prems(2) [rule_format, OF lt] False by simp
    have "\<forall>j < length ?u. count_list vs (ps + j) \<le> ?u ! j"
    proof (intro allI impI)
      fix j assume "j < length ?u"
      then show "count_list vs (ps + j) \<le> ?u ! j"
        using Cons.prems(2) [rule_format, of j] pos False lt by (cases "j = v - ps") (auto split: if_splits)
    qed
    then obtain uses' where u: "drop_uses ps vs ?u = Some uses'" "length uses' = length uses"
        "\<forall>j < length uses. uses' ! j = ?u ! j - count_list vs (ps + j)"
      using Cons.IH [of ?u] Cons.prems(1) by auto
    have "uses' ! j = uses ! j - count_list (v # vs) (ps + j)" if "j < length uses" for j
      using u(3) that False lt by (cases "j = v - ps") auto
    then show ?thesis using u False lt pos by auto
  qed
qed simp

text \<open>The reads of a variable by the statements that stay and by the terminator.\<close>

definition reads :: "'p node list \<Rightarrow> ir_var list \<Rightarrow> bool list \<Rightarrow> ir_var \<Rightarrow> nat" where
  "reads ns tops dead v = (\<Sum>i < length ns. if dead ! i then 0 else count_list (operands (kind (ns ! i))) v) + count_list tops v"

definition counted :: "nat \<Rightarrow> 'p node list \<Rightarrow> ir_var list \<Rightarrow> nat list \<Rightarrow> bool list \<Rightarrow> bool" where
  "counted ps ns tops uses dead \<longleftrightarrow> length uses = length ns \<and> length dead = length ns
     \<and> (\<forall>j < length ns. uses ! j = reads ns tops dead (ps + j))
     \<and> (\<forall>j < length ns. dead ! j \<longrightarrow> uses ! j = 0 \<and> biir_is_pure (kind (ns ! j)))"

lemma reads_split:
  assumes "i < length ns" and "length dead = length ns"
  shows "reads ns tops (dead[i := True]) v + (if dead ! i then 0 else count_list (operands (kind (ns ! i))) v) = reads ns tops dead v"
proof -
  let ?g = "\<lambda>d k. if d ! k then 0 else count_list (operands (kind (ns ! k))) v"
  have "(\<Sum>k < length ns. ?g d k) = (\<Sum>k \<in> {..<length ns} - {i}. ?g d k) + ?g d i" for d
    using assms(1) by (simp add: sum.remove)
  moreover have "(\<Sum>k \<in> {..<length ns} - {i}. ?g (dead[i := True]) k) = (\<Sum>k \<in> {..<length ns} - {i}. ?g dead k)"
    by (rule sum.cong) auto
  ultimately show ?thesis using assms by (simp add: reads_def)
qed

lemma mark_dead_counted:
  assumes "counted ps ns tops uses dead" and "i \<le> length ns" and "\<forall>j < i. \<not> dead ! j"
    and "\<forall>n \<in> set ns. \<forall>v \<in> set (operands (kind n)). v < ps + length ns"
  shows "\<exists>dead' uses'. mark_dead ps ns i uses dead = Some dead' \<and> counted ps ns tops uses' dead'"
  using assms
proof (induction i arbitrary: uses dead)
  case (Suc i)
  let ?k = "kind (ns ! i)"
  have i: "i < length ns" "\<not> dead ! i" using Suc.prems by auto
  show ?case
  proof (cases "uses ! i = 0 \<and> biir_is_pure ?k")
    case True
    have split: "reads ns tops (dead[i := True]) v + count_list (operands ?k) v = reads ns tops dead v" for v
      using reads_split [of i ns dead tops v] i Suc.prems(1) by (simp add: counted_def)
    have len: "length uses = length ns" using Suc.prems(1) by (simp add: counted_def)
    have below: "\<forall>v \<in> set (operands ?k). v < ps + length uses" using Suc.prems(4) i(1) len nth_mem [OF i(1)] by auto
    have "count_list (operands ?k) (ps + j) \<le> uses ! j" if "j < length uses" for j
    proof -
      have "uses ! j = reads ns tops dead (ps + j)" using Suc.prems(1) that by (simp add: counted_def)
      then show ?thesis using split [of "ps + j"] by linarith
    qed
    then obtain uses' where u: "drop_uses ps (operands ?k) uses = Some uses'" "length uses' = length uses"
        "\<forall>j < length uses. uses' ! j = uses ! j - count_list (operands ?k) (ps + j)"
      using drop_uses_exact [of "operands ?k" ps uses] below len by blast
    have r: "uses' ! j = reads ns tops (dead[i := True]) (ps + j)" if "j < length ns" for j
      using u(3) Suc.prems(1) that split [of "ps + j"] by (auto simp: counted_def)
    have z: "uses' ! j = 0 \<and> biir_is_pure (kind (ns ! j))" if "j < length ns" "dead[i := True] ! j" for j
      using that u(3) Suc.prems(1) True i by (cases "j = i") (auto simp: counted_def)
    have "counted ps ns tops uses' (dead[i := True])"
      using u(2) r z Suc.prems(1) by (auto simp: counted_def)
    then show ?thesis using Suc.IH [of uses' "dead[i := True]"] Suc.prems u(1) True by simp
  next
    case False
    then have "mark_dead ps ns (Suc i) uses dead = mark_dead ps ns i uses dead"
      by (cases "uses ! i = 0") simp_all
    then show ?thesis using Suc.IH [of uses dead] Suc.prems by simp
  qed
qed auto

text \<open>
  What the sweep leaves: marked statements are pure, and nothing that stays reads them.
\<close>

definition unread :: "nat \<Rightarrow> 'p node list \<Rightarrow> ir_var list \<Rightarrow> bool list \<Rightarrow> bool" where
  "unread ps ns tops dead \<longleftrightarrow> length dead = length ns
     \<and> (\<forall>j < length ns. dead ! j \<longrightarrow> biir_is_pure (kind (ns ! j)) \<and> ps + j \<notin> set tops
          \<and> (\<forall>i < length ns. \<not> dead ! i \<longrightarrow> ps + j \<notin> set (operands (kind (ns ! i)))))"

lemma counted_unread:
  assumes "counted ps ns tops uses dead"
  shows "unread ps ns tops dead"
  unfolding unread_def
proof (intro conjI allI impI)
  show "length dead = length ns" using assms by (simp add: counted_def)
  fix j assume j: "j < length ns" "dead ! j"
  then have z: "reads ns tops dead (ps + j) = 0" and p: "biir_is_pure (kind (ns ! j))"
    using assms by (auto simp: counted_def)
  show "biir_is_pure (kind (ns ! j))" by (rule p)
  show "ps + j \<notin> set tops" using z by (simp add: reads_def count_list_0_iff)
  fix i assume i: "i < length ns" "\<not> dead ! i"
  have "count_list (operands (kind (ns ! i))) (ps + j) = 0"
    using z i by (auto simp: reads_def split: if_splits)
  then show "ps + j \<notin> set (operands (kind (ns ! i)))" by (simp add: count_list_0_iff)
qed

lemma marks_unread:
  assumes ops: "\<forall>n \<in> set ns. \<forall>v \<in> set (operands (kind n)). v < ps + length ns"
    and tops: "\<forall>v \<in> set tops. v < ps + length ns"
  shows "\<exists>uses dead. count_uses ps (concat (map (\<lambda>n. operands (kind n)) ns) @ tops) (replicate (length ns) 0) = Some uses
    \<and> mark_dead ps ns (length ns) uses (replicate (length ns) False) = Some dead \<and> unread ps ns tops dead"
proof -
  let ?vs = "concat (map (\<lambda>n. operands (kind n)) ns) @ tops" and ?d = "replicate (length ns) False"
  obtain uses where u: "count_uses ps ?vs (replicate (length ns) 0) = Some uses" "length uses = length ns"
      "\<forall>j < length ns. uses ! j = count_list ?vs (ps + j)"
    using count_uses_exact [of ?vs ps "replicate (length ns) 0"] ops tops by auto
  have "count_list (concat (map f ns)) v = (\<Sum>i < length ns. count_list (f (ns ! i)) v)" for f :: "'a node \<Rightarrow> ir_var list" and v
    by (induction ns rule: rev_induct) (simp_all add: nth_append)
  then have "reads ns tops ?d v = count_list ?vs v" for v by (simp add: reads_def)
  then have "counted ps ns tops uses ?d" using u by (simp add: counted_def)
  from mark_dead_counted [OF this le_refl _ ops] u(1) show ?thesis by (auto dest: counted_unread)
qed

section \<open>Positions among the statements that stay\<close>

definition rank :: "(nat \<Rightarrow> bool) \<Rightarrow> nat \<Rightarrow> nat" where
  "rank P j = length (filter P [0..<j])"

definition stay :: "bool list \<Rightarrow> nat \<Rightarrow> bool" where
  "stay dead j \<longleftrightarrow> \<not> dead ! j"

lemma rank_0 [simp]: "rank P 0 = 0"
  by (simp add: rank_def)

lemma rank_Suc [simp]: "rank P (Suc j) = rank P j + (if P j then 1 else 0)"
  by (simp add: rank_def)

lemma rank_le: "rank P j \<le> j"
  by (induction j) auto

lemma rank_mono: "i \<le> j \<Longrightarrow> rank P i \<le> rank P j"
  by (induction j) (auto simp: le_Suc_eq)

lemma rank_less: "P i \<Longrightarrow> i < j \<Longrightarrow> rank P i < rank P j"
  using rank_mono [of "Suc i" j P] by simp

lemma filter_rank: "P j \<Longrightarrow> j < n \<Longrightarrow> filter P [0..<n] ! rank P j = j"
proof (induction n)
  case (Suc n)
  show ?case
  proof (cases "j = n")
    case True
    then show ?thesis using Suc.prems(1) by (simp add: rank_def nth_append)
  next
    case False
    then have "rank P j < length (filter P [0..<n])"
      using rank_less [of P j n] Suc.prems by (simp add: rank_def)
    then show ?thesis using Suc False by (simp add: nth_append)
  qed
qed simp

lemma rank_filter:
  assumes "k < length (filter P [0..<n])"
  shows "rank P (filter P [0..<n] ! k) = k"
proof -
  let ?l = "filter P [0..<n]"
  have "?l ! k \<in> set ?l" using assms by (rule nth_mem)
  then have P: "P (?l ! k)" "?l ! k < n" by auto
  then have "?l ! rank P (?l ! k) = ?l ! k" by (rule filter_rank)
  moreover have "rank P (?l ! k) < length ?l" using rank_less [of P "?l ! k" n] P by (simp add: rank_def)
  ultimately show ?thesis using assms by (simp add: nth_eq_iff_index_eq)
qed

text \<open>The old names of the variables of the block that is left, after \<open>i\<close> statements.\<close>

definition old_names :: "nat \<Rightarrow> bool list \<Rightarrow> nat \<Rightarrow> ir_var list" where
  "old_names ps dead i = [0..<ps] @ map ((+) ps) (filter (stay dead) [0..<i])"

lemma old_names_Suc:
  "old_names ps dead (Suc i) = old_names ps dead i @ (if stay dead i then [ps + i] else [])"
  by (simp add: old_names_def)

definition new_name :: "nat \<Rightarrow> bool list \<Rightarrow> ir_var \<Rightarrow> ir_var" where
  "new_name ps dead v = (if v < ps then v else ps + rank (stay dead) (v - ps))"

lemma old_of_new:
  assumes "v < ps + i" and "ps \<le> v \<Longrightarrow> stay dead (v - ps)"
  shows "new_name ps dead v < length (old_names ps dead i) \<and> old_names ps dead i ! new_name ps dead v = v"
proof (cases "v < ps")
  case False
  then have "rank (stay dead) (v - ps) < length (filter (stay dead) [0..<i])"
    using assms rank_less [of "stay dead" "v - ps" i] by (simp add: rank_def)
  then show ?thesis
    using assms False filter_rank [of "stay dead" "v - ps" i] by (simp add: old_names_def new_name_def nth_append)
qed (simp add: old_names_def new_name_def nth_append)

definition kept_list :: "(nat \<Rightarrow> bool) \<Rightarrow> nat \<Rightarrow> 'a list \<Rightarrow> 'a list" where
  "kept_list P i ns = map (\<lambda>j. ns ! (j - i)) (filter P [i..<i + length ns])"

lemma kept_list_Nil [simp]: "kept_list P i [] = []"
  by (simp add: kept_list_def)

lemma kept_list_Cons: "kept_list P i (n # ns) = (if P i then [n] else []) @ kept_list P (Suc i) ns"
proof -
  have "[i..<i + length (n # ns)] = i # [Suc i..<i + length (n # ns)]" by (rule upt_conv_Cons) simp
  also have "i + length (n # ns) = Suc i + length ns" by simp
  finally have upt: "[i..<i + length (n # ns)] = i # [Suc i..<Suc i + length ns]" by simp
  have "map (\<lambda>j. (n # ns) ! (j - i)) (filter P [Suc i..<Suc i + length ns]) = kept_list P (Suc i) ns"
    unfolding kept_list_def by (rule map_cong [OF refl]) (auto simp: nth_Cons')
  then show ?thesis by (subst kept_list_def) (simp only: upt filter.simps list.map split: if_split, simp)
qed

text \<open>The loop that keeps the statements builds exactly this renumbering.\<close>

lemma keep_live_spec:
  assumes "length dead = i + length ns" and "k = rank (stay dead) i" and "\<And>v. v \<ge> ps + i \<Longrightarrow> remap v = None"
    and "keep_live ps i k ns dead remap = (ns', remap')"
  shows "ns' = kept_list (stay dead) i ns
    \<and> (\<forall>v < ps + i. renumber_var remap' v = renumber_var remap v)
    \<and> (\<forall>j. i \<le> j \<and> j < i + length ns \<and> stay dead j \<longrightarrow> renumber_var remap' (ps + j) = ps + rank (stay dead) j)"
  using assms
proof (induction ns arbitrary: i k remap ns')
  case (Cons n ns)
  show ?case
  proof (cases "stay dead i")
    case False
    then have run: "keep_live ps (Suc i) k ns dead remap = (ns', remap')" using Cons.prems(4) by (simp add: stay_def)
    have "k = rank (stay dead) (Suc i)" using Cons.prems(2) False by simp
    from Cons.IH [OF _ this _ run] Cons.prems(1,3)
    have IH: "ns' = kept_list (stay dead) (Suc i) ns"
      "\<forall>v < ps + Suc i. renumber_var remap' v = renumber_var remap v"
      "\<forall>j. Suc i \<le> j \<and> j < Suc i + length ns \<and> stay dead j \<longrightarrow> renumber_var remap' (ps + j) = ps + rank (stay dead) j"
      by auto
    have "renumber_var remap' (ps + j) = ps + rank (stay dead) j" if "i \<le> j" "j < i + length (n # ns)" "stay dead j" for j
      using IH(3) that False by (cases "j = i") auto
    then show ?thesis using IH(1,2) False by (simp add: kept_list_Cons)
  next
    case True
    let ?r = "if i \<noteq> k then remap(ps + i \<mapsto> ps + k) else remap"
    obtain ns1 where run: "keep_live ps (Suc i) (Suc k) ns dead ?r = (ns1, remap')" and ns': "ns' = n # ns1"
      using Cons.prems(4) True by (auto simp: stay_def Let_def split: prod.splits)
    have k: "Suc k = rank (stay dead) (Suc i)" using Cons.prems(2) True by simp
    have fresh: "?r v = None" if "v \<ge> ps + Suc i" for v using Cons.prems(3) that by simp
    from Cons.IH [OF _ k fresh run] Cons.prems(1)
    have IH: "ns1 = kept_list (stay dead) (Suc i) ns"
      "\<forall>v < ps + Suc i. renumber_var remap' v = renumber_var ?r v"
      "\<forall>j. Suc i \<le> j \<and> j < Suc i + length ns \<and> stay dead j \<longrightarrow> renumber_var remap' (ps + j) = ps + rank (stay dead) j"
      by auto
    have here: "renumber_var ?r (ps + i) = ps + k" using Cons.prems(3) by (simp add: renumber_var_def)
    have "renumber_var remap' (ps + j) = ps + rank (stay dead) j" if "i \<le> j" "j < i + length (n # ns)" "stay dead j" for j
      using IH(2,3) that here Cons.prems(2) by (cases "j = i") auto
    moreover have "\<forall>v < ps + i. renumber_var remap' v = renumber_var remap v"
      using IH(2) by (auto simp: renumber_var_def)
    ultimately show ?thesis using IH(1) True by (simp add: kept_list_Cons ns')
  qed
qed auto

lemma keep_live_all:
  assumes "length dead = length ns" and "keep_live ps 0 0 ns dead Map.empty = (ns', remap)"
  shows "ns' = map ((!) ns) (filter (stay dead) [0..<length ns])"
    and "v < ps + length ns \<Longrightarrow> (ps \<le> v \<Longrightarrow> stay dead (v - ps)) \<Longrightarrow> renumber_var remap v = new_name ps dead v"
proof -
  note spec = keep_live_spec [of dead 0 ns 0 ps Map.empty ns' remap, simplified, OF assms]
  show "ns' = map ((!) ns) (filter (stay dead) [0..<length ns])" using spec by (simp add: kept_list_def)
  assume v: "v < ps + length ns" "ps \<le> v \<Longrightarrow> stay dead (v - ps)"
  show "renumber_var remap v = new_name ps dead v"
  proof (cases "v < ps")
    case True
    then show ?thesis using spec by (simp add: new_name_def renumber_var_def)
  next
    case False
    then obtain j where "v = ps + j" using le_Suc_ex [of ps v] by auto
    then show ?thesis using spec v by (simp add: new_name_def)
  qed
qed

section \<open>Evaluation without the dead statements\<close>

lemma pure_out:
  assumes "biir_is_pure k" and "\<forall>v \<in> set (operands k). v < length vs"
  shows "\<exists>x bits. stmt_out E k vs ag st = Some (x, bits, st)"
  using assms by (cases k) auto

definition renumbered :: "nat \<Rightarrow> bool list \<Rightarrow> 'p node \<Rightarrow> 'p node" where
  "renumbered ps dead n = n\<lparr>kind := map_BIrStmt (new_name ps dead) id (kind n)\<rparr>"

definition live_prefix :: "nat \<Rightarrow> bool list \<Rightarrow> 'p node list \<Rightarrow> nat \<Rightarrow> 'p node list" where
  "live_prefix ps dead ns i = map (\<lambda>j. renumbered ps dead (ns ! j)) (filter (stay dead) [0..<i])"

lemma live_prefix_Suc:
  "live_prefix ps dead ns (Suc i) = live_prefix ps dead ns i @ (if stay dead i then [renumbered ps dead (ns ! i)] else [])"
  by (simp add: live_prefix_def)

lemma length_live_prefix [simp]: "length (live_prefix ps dead ns i) = rank (stay dead) i"
  by (simp add: live_prefix_def rank_def)

lemma length_old_names [simp]: "length (old_names ps dead i) = ps + rank (stay dead) i"
  by (simp add: old_names_def rank_def)

lemma live_operand:
  assumes "list_ok ps ns" and "unread ps ns tops dead" and "i < length ns" and "stay dead i"
    and "v \<in> set (operands (kind (ns ! i)))"
  shows "v < ps + i" and "ps \<le> v \<Longrightarrow> stay dead (v - ps)"
proof -
  show lt: "v < ps + i" using assms by (auto simp: list_ok_def)
  assume "ps \<le> v"
  then have j: "v - ps < length ns" "ps + (v - ps) = v" using lt assms(3) by auto
  show "stay dead (v - ps)"
  proof (rule ccontr)
    assume "\<not> stay dead (v - ps)"
    then have "ps + (v - ps) \<notin> set (operands (kind (ns ! i)))"
      using assms(2,3,4) j(1) unfolding unread_def stay_def by blast
    then show False using assms(5) j(2) by simp
  qed
qed

lemma live_step:
  assumes ok: "list_ok ps ns" and un: "unread ps ns tops dead" and i: "i < length ns" "stay dead i"
    and rs: "renamed_state (old_names ps dead i) vs ag vs' ag'"
  shows "stmt_out E (kind (renumbered ps dead (ns ! i))) vs ag st = stmt_out E (kind (ns ! i)) vs' ag' st"
proof -
  let ?k = "kind (ns ! i)" and ?\<rho> = "old_names ps dead i" and ?f = "new_name ps dead"
  have named: "?f v < length ?\<rho> \<and> ?\<rho> ! ?f v = v" if "v \<in> set (operands ?k)" for v
    using old_of_new [of v ps i dead] live_operand [OF ok un i that] by blast
  have "map_BIrStmt ((!) ?\<rho>) id (map_BIrStmt ?f id ?k) = map_BIrStmt ((!) ?\<rho> \<circ> ?f) id ?k"
    by (simp add: BIrStmt.map_comp)
  also have "\<dots> = ?k" by (rule map_BIrStmt_id_on) (use named in simp)
  finally have round: "map_BIrStmt ((!) ?\<rho>) id (map_BIrStmt ?f id ?k) = ?k" .
  have "\<forall>v \<in> set (operands (map_BIrStmt ?f id ?k)). v < length ?\<rho>" using named by (auto simp: operands_map)
  from renamed_state_out [OF rs this, of E st] show ?thesis by (simp add: round renumbered_def)
qed

definition same_run :: "ir_var list \<Rightarrow> estate option \<Rightarrow> estate option \<Rightarrow> bool" where
  "same_run \<rho> r r' \<longleftrightarrow>
     (case (r, r') of
        (None, None) \<Rightarrow> True
      | (Some (vs, ag, st), Some (vs', ag', st')) \<Rightarrow> renamed_state \<rho> vs ag vs' ag' \<and> st = st'
      | _ \<Rightarrow> False)"

lemma same_run_start: "length ins = ps \<Longrightarrow> same_run (old_names ps dead 0) (Some (ins, Map.empty, st)) (Some (ins, Map.empty, st))"
  by (auto simp: same_run_def renamed_state_def old_names_def)

lemma same_run_prefix:
  assumes ok: "list_ok ps ns" and un: "unread ps ns tops dead" and len: "length ins = ps" and i: "i \<le> length ns"
  shows "same_run (old_names ps dead i) (eval_stmts E (live_prefix ps dead ns i) ps (ins, Map.empty, st))
    (eval_stmts E (take i ns) ps (ins, Map.empty, st))"
  using i
proof (induction i)
  case 0
  then show ?case using same_run_start [OF len] by (simp add: live_prefix_def)
next
  case (Suc i)
  let ?L = "eval_stmts E (live_prefix ps dead ns i) ps (ins, Map.empty, st)"
  let ?R = "eval_stmts E (take i ns) ps (ins, Map.empty, st)"
  have i: "i < length ns" using Suc.prems by simp
  have tk: "take (Suc i) ns = take i ns @ [ns ! i]" using i by (rule take_Suc_conv_app_nth)
  have IH: "same_run (old_names ps dead i) ?L ?R" using Suc by simp
  show ?case
  proof (cases ?R)
    case None
    then have "?L = None" using IH by (cases ?L) (auto simp: same_run_def)
    then show ?thesis using None by (simp add: tk live_prefix_Suc eval_stmts_append same_run_def)
  next
    case (Some r')
    obtain vs' ag' st1 where r': "r' = (vs', ag', st1)" by (cases r') auto
    have "?L \<noteq> None" using IH Some by (cases ?L) (auto simp: same_run_def r')
    then obtain vs ag where L: "?L = Some (vs, ag, st1)" and rs: "renamed_state (old_names ps dead i) vs ag vs' ag'"
      using IH Some by (auto simp: same_run_def r')
    have vs: "length vs = ps + rank (stay dead) i" using rs by (simp add: renamed_state_def)
    have vs': "length vs' = ps + i" using eval_stmts_length [of E "take i ns" ps ins Map.empty st vs' ag' st1] Some r' i len by simp
    let ?out = "stmt_out E (kind (ns ! i)) vs' ag' st1"
    have R1: "eval_stmts E (take (Suc i) ns) ps (ins, Map.empty, st)
        = map_option (\<lambda>(x, bits, st'). (vs' @ [x], put_call (length vs') bits ag', st')) ?out"
      using Some r' i vs' by (cases ?out) (auto simp: tk eval_stmts_snoc eval_stmt_out min_def)
    show ?thesis
    proof (cases "stay dead i")
      case True
      have "stmt_out E (kind (renumbered ps dead (ns ! i))) vs ag st1 = ?out"
        by (rule live_step [OF ok un i True rs])
      then have "eval_stmts E (live_prefix ps dead ns (Suc i)) ps (ins, Map.empty, st)
          = map_option (\<lambda>(x, bits, st'). (vs @ [x], put_call (length vs) bits ag, st')) ?out"
        using L vs True by (cases ?out) (auto simp: live_prefix_Suc eval_stmts_snoc eval_stmt_out)
      then show ?thesis
        using R1 renamed_state_both [OF rs] True vs' by (cases ?out) (auto simp: same_run_def old_names_Suc)
    next
      case False
      then have "biir_is_pure (kind (ns ! i))" using un i by (auto simp: unread_def stay_def)
      moreover have "\<forall>v \<in> set (operands (kind (ns ! i))). v < length vs'" using ok i vs' by (auto simp: list_ok_def)
      ultimately obtain x bits where out: "?out = Some (x, bits, st1)" using pure_out by blast
      show ?thesis
        using R1 renamed_state_extra [OF rs] False L by (simp add: out same_run_def old_names_Suc live_prefix_Suc)
    qed
  qed
qed

section \<open>Blocks\<close>

lemma live_prefix_nth:
  assumes "j < n" and "stay dead j"
  shows "rank (stay dead) j < rank (stay dead) n \<and> live_prefix ps dead ns n ! rank (stay dead) j = renumbered ps dead (ns ! j)"
proof -
  have "rank (stay dead) j < rank (stay dead) n" using rank_less [of "stay dead" j n] assms by simp
  then show ?thesis using filter_rank [of "stay dead" j n] assms by (simp add: live_prefix_def rank_def)
qed

lemma live_prefix_origin:
  assumes "k < rank (stay dead) n"
  obtains j where "j < n" "stay dead j" "rank (stay dead) j = k"
    "live_prefix ps dead ns n ! k = renumbered ps dead (ns ! j)"
proof
  let ?l = "filter (stay dead) [0..<n]"
  have k: "k < length ?l" using assms by (simp add: rank_def)
  have "?l ! k \<in> set ?l" using k by (rule nth_mem)
  then show "?l ! k < n" "stay dead (?l ! k)" by auto
  show "rank (stay dead) (?l ! k) = k" by (rule rank_filter [OF k])
  show "live_prefix ps dead ns n ! k = renumbered ps dead (ns ! (?l ! k))" using k by (simp add: live_prefix_def)
qed

lemma new_name_less:
  assumes "v < ps + j" and "ps \<le> v \<Longrightarrow> stay dead (v - ps)"
  shows "new_name ps dead v < ps + rank (stay dead) j"
  using assms rank_less [of "stay dead" "v - ps" j] by (auto simp: new_name_def)

lemma is_call_renumbered [simp]: "is_call (kind (renumbered ps dead n)) = is_call (kind n)"
  by (simp add: renumbered_def)

lemma live_list_ok:
  assumes ok: "list_ok ps ns" and un: "unread ps ns tops dead"
  shows "list_ok ps (live_prefix ps dead ns (length ns))"
  unfolding list_ok_def
proof (intro allI impI)
  let ?n = "length ns" and ?ns = "live_prefix ps dead ns (length ns)"
  fix k assume "k < length ?ns"
  then have "k < rank (stay dead) ?n" by simp
  then obtain j where j: "j < ?n" "stay dead j" "rank (stay dead) j = k" "?ns ! k = renumbered ps dead (ns ! j)"
    by (rule live_prefix_origin)
  note op = live_operand [OF ok un j(1,2)]
  have new: "new_name ps dead v < ps + k" if "v \<in> set (operands (kind (ns ! j)))" for v
    using new_name_less [of v ps j dead] op [OF that] j(3) by blast
  have call: "new_name ps dead h \<in> calls ps ?ns" if h: "h \<in> set (handles (kind (ns ! j)))" for h
  proof -
    have hc: "h \<in> calls ps ns" using ok j(1) h by (auto simp: list_ok_def)
    have ho: "h \<in> set (operands (kind (ns ! j)))" using h by (simp add: set_operands)
    have st: "stay dead (h - ps)" and lt: "h - ps < ?n" "ps \<le> h" using op [OF ho] hc by (auto simp: calls_def)
    show ?thesis using live_prefix_nth [OF lt(1) st, of ps ns] hc lt by (auto simp: calls_def new_name_def)
  qed
  show "(\<forall>v \<in> set (operands (kind (?ns ! k))). v < ps + k) \<and> set (handles (kind (?ns ! k))) \<subseteq> calls ps ?ns"
    using new call by (auto simp: j(4) renumbered_def operands_map handles_map)
qed

lemma nth_opt_named:
  assumes rs: "renamed_state (old_names ps dead n) vs ag vs' ag'"
    and v: "v < ps + n" "ps \<le> v \<Longrightarrow> stay dead (v - ps)"
  shows "nth_opt vs (new_name ps dead v) = nth_opt vs' v"
proof -
  have named: "new_name ps dead v < length (old_names ps dead n)" "old_names ps dead n ! new_name ps dead v = v"
    using old_of_new [of v ps n dead] v by auto
  then have lt: "new_name ps dead v < length vs" using rs by (simp add: renamed_state_def)
  then have "v < length vs' \<and> vs' ! v = vs ! new_name ps dead v"
    using rs named(2) unfolding renamed_state_def by metis
  then show ?thesis using lt by simp
qed

lemma resolve_named:
  assumes "\<And>v. v \<in> set (tgt_args g) \<Longrightarrow> nth_opt vs (f v) = nth_opt vs' v"
  shows "resolve_target (g\<lparr>tgt_args := map f (tgt_args g)\<rparr>) vs = resolve_target g vs'"
  using nths_opt_map_cong [of "tgt_args g" vs f vs'] assms by (simp add: resolve_target_def)

lemma terminator_named:
  assumes "\<And>v. v \<in> set (terminator_operands t) \<Longrightarrow> nth_opt vs (renumber_var remap v) = nth_opt vs' v"
  shows "eval_terminator (renumber_biir_terminator remap t) vs = eval_terminator t vs'"
proof (cases t)
  case (Jmp g)
  then show ?thesis using assms by (simp add: renumber_target_def resolve_named)
next
  case (CondJmp val a b)
  then have "resolve_target (renumber_target remap a) vs = resolve_target a vs'"
    "resolve_target (renumber_target remap b) vs = resolve_target b vs'"
    "nth_opt vs (renumber_var remap val) = nth_opt vs' val"
    using assms by (auto simp: renumber_target_def intro!: resolve_named)
  then show ?thesis using CondJmp by (cases "nth_opt vs' val") auto
qed

lemma operands_renumber_terminator:
  "terminator_operands (renumber_biir_terminator remap t) = map (renumber_var remap) (terminator_operands t)"
  by (cases t) (simp_all add: renumber_target_def)

lemma for_each_terminator_operand: "for_each_biir_terminator_operand t = terminator_operands t"
  by (cases t) simp_all

lemma list_ok_bound: "list_ok ps ns \<Longrightarrow> \<forall>n \<in> set ns. \<forall>v \<in> set (operands (kind n)). v < ps + length ns"
  unfolding list_ok_def by (metis in_set_conv_nth add_strict_left_mono less_trans)

lemma unread_terminator:
  assumes "unread ps ns tops dead" and "v \<in> set tops" and "v < ps + length ns" and "ps \<le> v"
  shows "stay dead (v - ps)"
proof (rule ccontr)
  assume "\<not> stay dead (v - ps)"
  moreover have "v - ps < length ns" using assms(3,4) by linarith
  ultimately have "ps + (v - ps) \<notin> set tops" using assms(1) unfolding unread_def stay_def by blast
  then show False using assms(2,4) by simp
qed

lemma renumbered_statements:
  assumes ok: "list_ok ps ns" and un: "unread ps ns tops dead" and kl: "keep_live ps 0 0 ns dead Map.empty = (ns1, remap)"
  shows "map (\<lambda>nd. nd\<lparr>kind := renumber_biir_stmt remap (kind nd)\<rparr>) ns1 = live_prefix ps dead ns (length ns)"
proof -
  have len: "length dead = length ns" using un by (simp add: unread_def)
  note kept = keep_live_all [OF len kl]
  have "(ns ! j)\<lparr>kind := renumber_biir_stmt remap (kind (ns ! j))\<rparr> = renumbered ps dead (ns ! j)"
    if j: "j < length ns" "stay dead j" for j
  proof -
    have "renumber_var remap v = new_name ps dead v" if v: "v \<in> set (operands (kind (ns ! j)))" for v
    proof (rule kept(2))
      show "v < ps + length ns" using live_operand(1) [OF ok un j v] j(1) by linarith
      show "ps \<le> v \<Longrightarrow> stay dead (v - ps)" by (rule live_operand(2) [OF ok un j v])
    qed
    then have "renumber_biir_stmt remap (kind (ns ! j)) = map_BIrStmt (new_name ps dead) id (kind (ns ! j))"
      unfolding renumber_biir_stmt_def by (rule map_BIrStmt_cong_operands)
    then show ?thesis by (simp add: renumbered_def)
  qed
  then show ?thesis unfolding kept(1) live_prefix_def by simp
qed

lemma live_block_value:
  assumes ok: "list_ok (params b) (stmts b)" and un: "unread (params b) (stmts b) (terminator_operands (terminator b)) dead"
    and tops: "\<And>v. v \<in> set (terminator_operands (terminator b)) \<Longrightarrow>
      v < params b + length (stmts b) \<and> renumber_var remap v = new_name (params b) dead v"
  shows "eval_block E (b\<lparr>stmts := live_prefix (params b) dead (stmts b) (length (stmts b)),
      terminator := renumber_biir_terminator remap (terminator b)\<rparr>) = eval_block E b"
proof (intro ext)
  fix ins st
  let ?ps = "params b" and ?ns = "stmts b" and ?n = "length (stmts b)"
  let ?b = "b\<lparr>stmts := live_prefix ?ps dead ?ns ?n, terminator := renumber_biir_terminator remap (terminator b)\<rparr>"
  let ?L = "eval_stmts E (live_prefix ?ps dead ?ns ?n) ?ps (ins, Map.empty, st)"
  let ?R = "eval_stmts E ?ns ?ps (ins, Map.empty, st)"
  show "eval_block E ?b ins st = eval_block E b ins st"
  proof (cases "length ins = ?ps")
    case True
    have sr: "same_run (old_names ?ps dead ?n) ?L ?R"
      using same_run_prefix [OF ok un True le_refl] by simp
    show ?thesis
    proof (cases ?R)
      case None
      then have "?L = None" using sr by (cases ?L) (auto simp: same_run_def)
      then show ?thesis using None True by (simp add: eval_block_def)
    next
      case (Some r)
      obtain vs' ag' st1 where r: "r = (vs', ag', st1)" by (cases r) auto
      obtain vs ag where L: "?L = Some (vs, ag, st1)" and rs: "renamed_state (old_names ?ps dead ?n) vs ag vs' ag'"
        using sr Some r by (cases ?L) (auto simp: same_run_def)
      have "eval_terminator (renumber_biir_terminator remap (terminator b)) vs = eval_terminator (terminator b) vs'"
      proof (rule terminator_named)
        fix v assume v: "v \<in> set (terminator_operands (terminator b))"
        show "nth_opt vs (renumber_var remap v) = nth_opt vs' v"
          using nth_opt_named [OF rs, of v] tops [OF v] unread_terminator [OF un v] by simp
      qed
      then show ?thesis using L Some r by (simp add: eval_block_def)
    qed
  qed (simp add: eval_block_def)
qed

text \<open>One round, with what it keeps written out.\<close>

lemma dce_round:
  assumes ok: "block_ok b"
  obtains b' ch where "dce_biir_block_once b = Some (b', ch)" "block_ok b'" "\<And>E. eval_block E b' = eval_block E b"
    "ch \<Longrightarrow> length (stmts b') < length (stmts b)" "\<And>W. widths_ok W (stmts b) \<Longrightarrow> widths_ok W (stmts b')"
proof -
  let ?ps = "params b" and ?ns = "stmts b" and ?n = "length (stmts b)" and ?t = "terminator_operands (terminator b)"
  have lok: "list_ok ?ps ?ns" and tops: "\<forall>v \<in> set ?t. v < ?ps + ?n" using ok by (simp_all add: block_ok_def)
  obtain uses dead where m: "count_uses ?ps (concat (map (\<lambda>n. operands (kind n)) ?ns) @ ?t) (replicate ?n 0) = Some uses"
      "mark_dead ?ps ?ns ?n uses (replicate ?n False) = Some dead" and un: "unread ?ps ?ns ?t dead"
    using marks_unread [OF list_ok_bound [OF lok] tops] by blast
  have len: "length dead = ?n" using un by (simp add: unread_def)
  obtain ns1 remap where kl: "keep_live ?ps 0 0 ?ns dead Map.empty = (ns1, remap)" by fastforce
  note once = dce_biir_block_once_def [of b, unfolded Let_def for_each_terminator_operand m(1) bind.simps m(2) kl prod.case
      renumbered_statements [OF lok un kl]]
  let ?ns' = "live_prefix ?ps dead ?ns ?n"
  let ?b = "b\<lparr>stmts := ?ns', terminator := renumber_biir_terminator remap (terminator b)\<rparr>"
  show thesis
  proof (cases "list_ex id dead")
    case False
    then have "dce_biir_block_once b = Some (b, False)" unfolding once by simp
    then show thesis by (rule that) (use ok in simp_all)
  next
    case True
    then have run: "dce_biir_block_once b = Some (?b, True)" unfolding once by simp
    have named: "v < ?ps + ?n \<and> renumber_var remap v = new_name ?ps dead v" if v: "v \<in> set ?t" for v
      using keep_live_all(2) [OF len kl] tops v unread_terminator [OF un v] by blast
    have val: "eval_block E ?b = eval_block E b" for E by (rule live_block_value [OF lok un named])
    have "\<forall>v \<in> set (terminator_operands (terminator ?b)). v < ?ps + rank (stay dead) ?n"
    proof
      fix w assume "w \<in> set (terminator_operands (terminator ?b))"
      then obtain v where v: "v \<in> set ?t" "w = renumber_var remap v" by (auto simp: operands_renumber_terminator)
      show "w < ?ps + rank (stay dead) ?n"
        using new_name_less [of v ?ps ?n dead] named [OF v(1)] unread_terminator [OF un v(1)] v(2) by simp
    qed
    then have bok: "block_ok ?b" using live_list_ok [OF lok un] by (simp add: block_ok_def)
    obtain d where d: "d < ?n" "\<not> stay dead d" using True len by (auto simp: list_ex_length stay_def)
    then have "rank (stay dead) ?n < ?n"
    proof -
      have "rank (stay dead) (Suc d) \<le> d" using d(2) rank_le [of "stay dead" d] by simp
      moreover have "rank P (Suc d + k) \<le> rank P (Suc d) + k" for P k by (induction k) auto
      then have "rank (stay dead) ?n \<le> rank (stay dead) (Suc d) + (?n - Suc d)"
        using d(1) by (metis Suc_leI le_add_diff_inverse)
      ultimately show ?thesis using d(1) by linarith
    qed
    then have less: "length (stmts ?b) < ?n" by simp
    have w: "widths_ok W (stmts ?b)" if W: "widths_ok W ?ns" for W
      using W by (auto simp: widths_ok_def live_prefix_def renumbered_def)
    show thesis by (rule that [OF run bok val less w])
  qed
qed

lemma dce_block_round:
  "block_ok b \<Longrightarrow> \<exists>b' ch. dce_biir_block_once b = Some (b', ch) \<and> block_ok b' \<and> eval_block E b' = eval_block E b
    \<and> (ch \<longrightarrow> length (stmts b') < length (stmts b))"
  by (erule dce_round) blast

interpretation dce_blocks: program_pass block_ok dce_biir_block_once E "\<lambda>b. length (stmts b)" for E
  by unfold_locales (rule dce_block_round)

text \<open>A round that reports no change has found nothing dead.\<close>

lemma mark_dead_keeps:
  "mark_dead ps ns i uses dead = Some dead' \<Longrightarrow>
   length dead' = length dead \<and> (\<forall>j < length dead. dead ! j \<longrightarrow> dead' ! j)"
proof (induction i arbitrary: uses dead)
  case (Suc i)
  show ?case
  proof (cases "uses ! i = 0 \<and> biir_is_pure (kind (ns ! i))")
    case True
    then obtain uses' where "mark_dead ps ns i uses' (dead[i := True]) = Some dead'"
      using Suc.prems by (auto simp: bind_eq_Some_conv)
    from Suc.IH [OF this] have "length dead' = length dead" and "\<forall>j < length dead. dead[i := True] ! j \<longrightarrow> dead' ! j" by simp_all
    moreover have "dead[i := True] ! j" if "j < length dead" "dead ! j" for j using that by (cases "i = j") auto
    ultimately show ?thesis by blast
  next
    case False
    then have "mark_dead ps ns i uses dead = Some dead'" using Suc.prems by (cases "uses ! i = 0") simp_all
    then show ?thesis using Suc.IH by blast
  qed
qed simp

lemma mark_dead_idle:
  assumes "mark_dead ps ns i uses dead = Some dead'" and "\<not> list_ex id dead'" and "i \<le> length dead" and "j < i"
  shows "\<not> (uses ! j = 0 \<and> biir_is_pure (kind (ns ! j)))"
  using assms
proof (induction i arbitrary: uses dead)
  case (Suc i)
  have idle: "\<not> (uses ! i = 0 \<and> biir_is_pure (kind (ns ! i)))"
  proof
    assume "uses ! i = 0 \<and> biir_is_pure (kind (ns ! i))"
    then obtain uses' where "mark_dead ps ns i uses' (dead[i := True]) = Some dead'"
      using Suc.prems(1) by (auto simp: bind_eq_Some_conv)
    then have "i < length dead'" "dead' ! i" using mark_dead_keeps [of ps ns i uses' "dead[i := True]" dead'] Suc.prems(3) by auto
    then show False using Suc.prems(2) by (auto simp: list_ex_length)
  qed
  then have "mark_dead ps ns i uses dead = Some dead'" using Suc.prems(1) by (cases "uses ! i = 0") simp_all
  then show ?case using Suc.IH [of uses dead] Suc.prems idle by (cases "j = i") auto
qed simp

text \<open>A block in which nothing is dead: every pure statement is read by a statement or at the end.\<close>

definition nothing_dead :: "'p BIrBlock \<Rightarrow> bool" where
  "nothing_dead b \<longleftrightarrow> list_all (\<lambda>i. biir_is_pure (kind (stmts b ! i)) \<longrightarrow>
       list_ex (\<lambda>n. params b + i \<in> set (operands (kind n))) (stmts b)
       \<or> params b + i \<in> set (terminator_operands (terminator b))) [0..<length (stmts b)]"

lemma dce_round_idle:
  assumes ok: "block_ok b0" and once: "dce_biir_block_once b0 = Some (b, False)"
  shows "nothing_dead b"
proof -
  let ?ps = "params b0" and ?ns = "stmts b0" and ?n = "length (stmts b0)" and ?t = "terminator_operands (terminator b0)"
  let ?vs = "concat (map (\<lambda>n. operands (kind n)) ?ns) @ ?t"
  have lok: "list_ok ?ps ?ns" and tops: "\<forall>v \<in> set ?t. v < ?ps + ?n" using ok by (simp_all add: block_ok_def)
  have "\<forall>v \<in> set ?vs. v < ?ps + length (replicate ?n (0 :: nat))" using list_ok_bound [OF lok] tops by auto
  then obtain uses where u: "count_uses ?ps ?vs (replicate ?n 0) = Some uses"
      "\<forall>j < ?n. uses ! j = count_list ?vs (?ps + j)"
    using count_uses_exact [of ?vs ?ps "replicate ?n 0"] by auto
  obtain dead where dead: "mark_dead ?ps ?ns ?n uses (replicate ?n False) = Some dead"
    using once u(1) by (auto simp: dce_biir_block_once_def Let_def for_each_terminator_operand bind_eq_Some_conv)
  have none: "\<not> list_ex id dead" and b: "b = b0"
    using once by (auto simp: dce_biir_block_once_def Let_def for_each_terminator_operand u(1) dead split: if_splits prod.splits)
  have "?ps + j \<in> set ?vs" if j: "j < ?n" "biir_is_pure (kind (?ns ! j))" for j
  proof -
    have "uses ! j \<noteq> 0" using mark_dead_idle [OF dead none _ j(1)] j(2) by simp
    then have "count_list ?vs (?ps + j) \<noteq> 0" using u(2) j(1) by simp
    then show ?thesis by (simp only: count_list_0_iff not_not)
  qed
  then show ?thesis by (auto simp: nothing_dead_def b list_all_iff list_ex_iff)
qed

end
