(* ===== verification/OptProps.thy ===== *)
theory OptProps
  imports FoldCorrect CseCorrect DceCorrect
begin

text \<open>
  The properties of the Boolar optimiser: each pass returns and keeps the results of every program
  it accepts, and so does their sequence; dead-code elimination leaves nothing dead; and the two
  places where a pass is unsound on programs outside its preconditions.
\<close>

section \<open>Folding keeps widths\<close>

lemma has_width_const [simp]: "has_width W (const_stmt b)"
  by (simp add: const_stmt_def)

lemma fold_stmt_width:
  assumes "has_width W k" and "fold_stmt rv k fs = (k', fs')"
  shows "has_width W k'"
proof -
  obtain k1 ch where k1: "apply_aliases_to_biir_stmt k (alias_map fs) = (k1, ch)" by fastforce
  then have "has_width W k1" using assms(1) by (auto simp: apply_aliases_to_biir_stmt_def)
  moreover have "k' = k1 \<or> (\<exists>b. k' = const_stmt b)" if "act a rv k1 fs1 = (k', fs')" for a fs1
    using that by (cases "(a, rv, k1, fs1)" rule: act.cases) auto
  ultimately show ?thesis using assms(2) unfolding fold_stmt_def k1 Let_def prod.case by (metis has_width_const)
qed

lemma fold_stmts_width:
  "widths_ok W ns \<Longrightarrow> fold_stmts rv ns fs = (ns', fs') \<Longrightarrow> widths_ok W ns'"
proof (induction ns arbitrary: rv fs ns')
  case (Cons n ns)
  obtain k fs1 where k: "fold_stmt rv (kind n) fs = (k, fs1)" by fastforce
  obtain ns1 where ns1: "fold_stmts (Suc rv) ns fs1 = (ns1, fs')" and ns': "ns' = n\<lparr>kind := k\<rparr> # ns1"
    using Cons.prems(2) k by (auto split: prod.splits)
  have "has_width W k" using fold_stmt_width [OF _ k, of W] Cons.prems(1) by (simp add: widths_ok_def)
  moreover have "widths_ok W ns1" using Cons.IH [OF _ ns1] Cons.prems(1) by (simp add: widths_ok_def)
  ultimately show ?case by (simp add: widths_ok_def ns')
qed (simp add: widths_ok_def)

lemma fold_block_round_cse:
  assumes "cse_ok W E b"
  shows "\<exists>b' ch. Some (fold_biir_block_once b) = Some (b', ch) \<and> cse_ok W E b' \<and> eval_block E b' = eval_block E b
    \<and> (ch \<longrightarrow> block_weight b' < block_weight b)"
proof -
  have ok: "block_ok b" using assms by (simp add: cse_ok_def)
  obtain b' ch where b': "fold_biir_block_once b = (b', ch)" "block_ok b'" "eval_block E b' = eval_block E b"
      "ch \<longrightarrow> block_weight b' < block_weight b"
    using fold_block_round [OF ok, of E] by auto
  obtain ns' fs where ns': "fold_biir_stmts_once (params b) (stmts b) = (ns', fs)" by fastforce
  then have "stmts b' = ns'" using b'(1) by (auto simp: fold_biir_block_once_def split: prod.splits)
  moreover have "widths_ok W ns'"
    using fold_stmts_width [of W "stmts b"] ns' assms by (simp add: fold_biir_stmts_once_def cse_ok_def)
  ultimately show ?thesis using b' assms by (simp add: cse_ok_def)
qed

interpretation fold_cse_blocks: program_pass "cse_ok W E" "\<lambda>b. Some (fold_biir_block_once b)" E block_weight
  for W E
  by unfold_locales (rule fold_block_round_cse)

section \<open>A program to run the passes on\<close>

text \<open>A constant condition, a gate with a constant operand, a repeated gate and a dead one.\<close>

definition branching :: "unit BIrBlocks" where
  "branching = \<lparr>blocks = [\<lparr>params = 2,
      stmts = map (\<lambda>s. Node_new s () None) [BZero, BOr 2 0, BXor 3 1, BXor 1 3, BNot 5],
      terminator = CondJmp 2 \<lparr>tgt_block = Block 0, tgt_args = [6, 6]\<rparr> \<lparr>tgt_block = Return, tgt_args = [4]\<rparr>\<rparr>],
    pre_init = []\<rparr>"

lemma branching_ok: "\<forall>b \<in> set (blocks branching). block_ok b \<and> widths_ok W (stmts b)"
  by (simp add: branching_def block_ok_def list_ok_def all_less_numeral eval_nat_numeral Node_new_def widths_ok_def)

lemma eval_branching: "eval_biir_with_limit E branching [a, b] 1 = Some (Returned [a \<noteq> b])"
  by (simp add: eval_biir_with_limit_def eval_loop_round loop_round_def branching_def eval_block_def Node_new_def
      nth_opt_def nths_opt_Cons resolve_target_def)

lemma hash_blind [simp]: "occurrence_blind hash_externals"
  by (simp add: occurrence_blind_def hash_externals_def)

section \<open>Each pass\<close>

text \<open>C10. Folding is a semantics-preserving, terminating pass: on every program whose blocks define
  their variables before use, \<open>fold_biir_blocks\<close> returns, keeps that condition, and leaves the
  result of the reference evaluator unchanged for every input, limit and external source.\<close>

theorem folding_preserves:
  assumes "\<forall>b \<in> set (blocks p). block_ok b"
  shows "\<exists>p' ch. fold_biir_blocks p = Some (p', ch) \<and> (\<forall>b \<in> set (blocks p'). block_ok b)
    \<and> pre_init p' = pre_init p
    \<and> (\<forall>E ins m. eval_biir_with_limit E p' ins m = eval_biir_with_limit E p ins m)"
proof -
  from fold_blocks.program_same [OF assms]
  obtain bs' ch where run: "each_block (\<lambda>b. Some (fold_biir_block_once b)) (blocks p) False = Some (bs', ch)"
      and ok: "\<forall>b \<in> set bs'. block_ok b" unfolding fold_blocks.settled_def by blast
  have "eval_biir_with_limit E (p\<lparr>blocks := bs'\<rparr>) ins m = eval_biir_with_limit E p ins m" for E ins m
    using fold_blocks.program_same [OF assms, of E ins m] run by auto
  then show ?thesis using run ok by (auto simp: fold_biir_blocks_def)
qed

theorem folding_preserves_witness:
  "\<exists>p' ch. fold_biir_blocks branching = Some (p', ch)
    \<and> eval_biir_with_limit hash_externals p' [True, False] 1 = Some (Returned [True])"
proof -
  have "\<forall>b \<in> set (blocks branching). block_ok b" using branching_ok by blast
  from folding_preserves [OF this] show ?thesis using eval_branching [of hash_externals True False] by auto
qed

text \<open>C12. Common-subexpression elimination is a semantics-preserving, terminating pass on programs that
  call each oracle at one width, against sources that ignore a bit's occurrence number.\<close>

theorem cse_preserves:
  assumes "occurrence_blind E" and "\<forall>b \<in> set (blocks p). block_ok b \<and> widths_ok W (stmts b)"
  shows "\<exists>p' ch. cse_biir_blocks p = Some (p', ch) \<and> (\<forall>b \<in> set (blocks p'). block_ok b \<and> widths_ok W (stmts b))
    \<and> pre_init p' = pre_init p
    \<and> (\<forall>ins m. eval_biir_with_limit E p' ins m = eval_biir_with_limit E p ins m)"
proof -
  have ok: "\<forall>b \<in> set (blocks p). cse_ok W E b" using assms by (simp add: cse_ok_def)
  from cse_blocks.program_same [OF ok]
  obtain bs' ch where run: "each_block (\<lambda>b. Some (cse_biir_block_once b)) (blocks p) False = Some (bs', ch)"
      and ok': "\<forall>b \<in> set bs'. cse_ok W E b" unfolding cse_blocks.settled_def by blast
  have "eval_biir_with_limit E (p\<lparr>blocks := bs'\<rparr>) ins m = eval_biir_with_limit E p ins m" for ins m
    using cse_blocks.program_same [OF ok, of ins m] run by auto
  then show ?thesis using run ok' by (auto simp: cse_biir_blocks_def cse_ok_def)
qed

lemma settled_nothing_dead: "dce_blocks.settled b \<Longrightarrow> nothing_dead b"
  unfolding dce_blocks.settled_def by (blast dest: dce_round_idle)

theorem cse_preserves_witness:
  "\<exists>p' ch. cse_biir_blocks branching = Some (p', ch)
    \<and> eval_biir_with_limit hash_externals p' [True, False] 1 = Some (Returned [True])"
  using cse_preserves [OF hash_blind branching_ok [of "\<lambda>_. 0"]] eval_branching [of hash_externals True False] by auto

text \<open>C11. Dead-code elimination is a semantics-preserving, terminating pass that never panics - its
  use counts stay within the table and never go below zero - and leaves no pure statement that
  nothing reads.\<close>

theorem dce_preserves:
  assumes "\<forall>b \<in> set (blocks p). block_ok b"
  shows "\<exists>p' ch. dce_biir_blocks p = Some (p', ch) \<and> (\<forall>b \<in> set (blocks p'). block_ok b \<and> nothing_dead b)
    \<and> pre_init p' = pre_init p
    \<and> (\<forall>E ins m. eval_biir_with_limit E p' ins m = eval_biir_with_limit E p ins m)"
proof -
  from dce_blocks.program_same [OF assms]
  obtain bs' ch where run: "each_block dce_biir_block_once (blocks p) False = Some (bs', ch)"
      and set: "\<forall>b \<in> set bs'. dce_blocks.settled b" by blast
  have ok: "\<forall>b \<in> set bs'. block_ok b \<and> nothing_dead b"
    using set settled_nothing_dead by (auto simp: dce_blocks.settled_def)
  have "eval_biir_with_limit E (p\<lparr>blocks := bs'\<rparr>) ins m = eval_biir_with_limit E p ins m" for E ins m
    using dce_blocks.program_same [OF assms, of E ins m] run by auto
  then show ?thesis using run ok by (auto simp: dce_biir_blocks_def)
qed

theorem dce_preserves_witness:
  "\<exists>p' ch. dce_biir_blocks branching = Some (p', ch)
    \<and> eval_biir_with_limit hash_externals p' [True, False] 1 = Some (Returned [True])"
proof -
  have "\<forall>b \<in> set (blocks branching). block_ok b" using branching_ok by blast
  from dce_preserves [OF this] show ?thesis using eval_branching [of hash_externals True False] by auto
qed

text \<open>Folding a fused circuit keeps the circuit's function and storage effect, panics included.\<close>

theorem circuit_folding_preserves:
  assumes "circuit_ready c"
  shows "\<exists>c' ch. fold_biir_circuit c = Some (c', ch) \<and> circuit_ready c'
    \<and> (\<forall>E ins st. eval_circuit E c' ins st = eval_circuit E c ins st)"
proof -
  from fold_circuit.returns [OF assms]
  obtain c' ch where c': "fold_biir_circuit c = Some (c', ch)" "circuit_ready c'"
    unfolding fold_biir_circuit_def fold_circuit.settled_def by blast
  have "eval_circuit E c' = eval_circuit E c" for E
    using fold_circuit.returns [OF assms, of False E] c' unfolding fold_biir_circuit_def by auto
  then show ?thesis using c' by auto
qed

theorem circuit_folding_preserves_witness:
  "\<exists>c' ch. fold_biir_circuit xor_chain = Some (c', ch)
    \<and> eval_circuit hash_externals c' [True, False, True] Map.empty = Some ([False], Map.empty)"
proof -
  have "circuit_ready xor_chain"
    by (simp add: xor_chain_def circuit_ready_def list_ok_def all_less_numeral eval_nat_numeral Node_new_def var_space_def)
  from circuit_folding_preserves [OF this] show ?thesis by auto
qed

section \<open>The passes in sequence\<close>

definition optimise :: "'p BIrBlocks \<Rightarrow> 'p BIrBlocks option" where
  "optimise p = do { (p1, _) \<leftarrow> fold_biir_blocks p; (p2, _) \<leftarrow> cse_biir_blocks p1; (p3, _) \<leftarrow> dce_biir_blocks p2; Some p3 }"

text \<open>C9. The passes compose: on programs whose blocks define variables before their use and call each oracle at
  one width, against sources whose oracle bits ignore the occurrence number, folding, then common
  subexpressions, then dead code returns a program with the same results for every input and limit. (With
  two widths of one oracle common subexpressions change results.)\<close>

theorem optimiser_preserves:
  assumes "occurrence_blind E" and "\<forall>b \<in> set (blocks p). block_ok b \<and> widths_ok W (stmts b)"
  shows "\<exists>p'. optimise p = Some p' \<and> (\<forall>ins m. eval_biir_with_limit E p' ins m = eval_biir_with_limit E p ins m)"
proof -
  have ok: "\<forall>b \<in> set (blocks p). cse_ok W E b" using assms by (simp add: cse_ok_def)
  obtain bs1 c1 where 1: "each_block (\<lambda>b. Some (fold_biir_block_once b)) (blocks p) False = Some (bs1, c1)"
      "\<forall>b \<in> set bs1. cse_ok W E b" "\<And>ins m. eval_biir_with_limit E (p\<lparr>blocks := bs1\<rparr>) ins m = eval_biir_with_limit E p ins m"
    using fold_cse_blocks.program_same [OF ok] unfolding fold_cse_blocks.settled_def by (metis option.inject prod.inject)
  let ?p1 = "p\<lparr>blocks := bs1\<rparr>"
  have ok1: "\<forall>b \<in> set (blocks ?p1). cse_ok W E b" using 1(2) by simp
  obtain bs2 c2 where 2: "each_block (\<lambda>b. Some (cse_biir_block_once b)) (blocks ?p1) False = Some (bs2, c2)"
      "\<forall>b \<in> set bs2. cse_ok W E b" "\<And>ins m. eval_biir_with_limit E (?p1\<lparr>blocks := bs2\<rparr>) ins m = eval_biir_with_limit E ?p1 ins m"
    using cse_blocks.program_same [OF ok1] unfolding cse_blocks.settled_def by (metis option.inject prod.inject)
  let ?p2 = "?p1\<lparr>blocks := bs2\<rparr>"
  have ok2: "\<forall>b \<in> set (blocks ?p2). block_ok b" using 2(2) by (simp add: cse_ok_def)
  obtain bs3 c3 where 3: "each_block dce_biir_block_once (blocks ?p2) False = Some (bs3, c3)"
      "\<And>ins m. eval_biir_with_limit E (?p2\<lparr>blocks := bs3\<rparr>) ins m = eval_biir_with_limit E ?p2 ins m"
    using dce_blocks.program_same [OF ok2] by (metis option.inject prod.inject)
  have "optimise p = Some (?p2\<lparr>blocks := bs3\<rparr>)"
    using 1(1) 2(1) 3(1) by (simp add: optimise_def fold_biir_blocks_def cse_biir_blocks_def dce_biir_blocks_def)
  then show ?thesis using 1(3) 2(3) 3(2) by simp
qed

theorem optimiser_preserves_witness:
  "\<exists>p'. optimise branching = Some p' \<and> eval_biir_with_limit hash_externals p' [True, False] 1 = Some (Returned [True])"
  using optimiser_preserves [OF hash_blind branching_ok [of "\<lambda>_. 0"]] eval_branching [of hash_externals True False] by auto

section \<open>What the keys and counts leave out\<close>

text \<open>Two calls of one oracle at different widths, the second one projected past the first's width.\<close>

definition two_widths :: "unit BIrBlocks" where
  "two_widths = \<lparr>blocks = [\<lparr>params = 0,
      stmts = map (\<lambda>s. Node_new s () None)
        [OracleCall ''f'' [] 1, OracleCall ''f'' [] 2, OracleProjectedBit 0 0, OracleProjectedBit 1 1],
      terminator = Jmp \<lparr>tgt_block = Return, tgt_args = [2, 3]\<rparr>\<rparr>],
    pre_init = []\<rparr>"

definition all_ones :: externals where
  "all_ones = hash_externals\<lparr>oracle_call_fn := (\<lambda>_ _ n. replicate n True)\<rparr>"

text \<open>Common-subexpression elimination merges calls of one oracle at different widths, since its key
  leaves the width out: on a block that defines its variables before use, against an oracle whose
  bits are all set, the second bit of the wider call is lost.\<close>

theorem cse_merges_widths:
  "\<exists>b b'. blocks two_widths = [b] \<and> block_ok b \<and> cse_biir_block_once b = (b', True)
    \<and> eval_block all_ones b [] Map.empty = Some (BReturn [True, True], Map.empty)
    \<and> eval_block all_ones b' [] Map.empty = Some (BReturn [True, False], Map.empty)"
  by (simp add: two_widths_def all_ones_def block_ok_def list_ok_def calls_def all_less_numeral eval_nat_numeral
      Node_new_def cse_biir_block_once_def cse_stmt_def apply_aliases_to_biir_stmt_def apply_aliases_to_biir_target_def
      canon_alias_def eval_block_def nth_opt_def nths_opt_Cons resolve_target_def)

text \<open>Dead-code elimination does not count a dynamic jump target as a use: it deletes the statement
  that computes the target and leaves the jump naming a variable the block no longer defines.\<close>

theorem dce_drops_dynamic_target:
  "dce_biir_block_once \<lparr>params = 1, stmts = [\<lparr>kind = BNot 0, prov = (), side = None\<rparr>],
      terminator = Jmp \<lparr>tgt_block = Dyn 1, tgt_args = [0]\<rparr>\<rparr>
   = Some (\<lparr>params = 1, stmts = [], terminator = Jmp \<lparr>tgt_block = Dyn 1, tgt_args = [0]\<rparr>\<rparr>, True)"
  by (simp add: dce_biir_block_once_def renumber_target_def renumber_var_def)

end
