(* ===== verification/OrderedTable.thy ===== *)
theory OrderedTable
  imports Main
begin

text \<open>
  Vectors kept in strictly ascending key order and searched by \<open>slice::binary_search_by\<close>, the
  representation of storage tables and of polynomial coefficients. The search is the standard
  library's; the interface \<open>ordered_table\<close> states what a search promises on an ordered vector and
  proves once that lookup, insertion and removal are those of the finite map the vector stands for.
\<close>

section \<open>Binary search\<close>

datatype cmp = CLess | CEqual | CGreater

definition compare :: "'k::linorder \<Rightarrow> 'k \<Rightarrow> cmp" where
  "compare a b = (if a < b then CLess else if a = b then CEqual else CGreater)"

text \<open>The halving loop over \<open>base\<close> and \<open>len\<close>, and the last comparison.\<close>

function bs_base :: "(nat \<Rightarrow> cmp) \<Rightarrow> nat \<Rightarrow> nat \<Rightarrow> nat" where
  "bs_base c base len =
     (if len \<le> 1 then base
      else let half = len div 2; mid = base + half
           in bs_base c (if c mid = CGreater then base else mid) (len - half))"
  by pat_completeness auto
termination by (relation "measure (\<lambda>(c, base, len). len)") auto

declare bs_base.simps [simp del]

definition binary_search_by :: "('e \<Rightarrow> cmp) \<Rightarrow> 'e list \<Rightarrow> nat + nat" where
  "binary_search_by f xs =
     (if xs = [] then Inl 0
      else let i = bs_base (\<lambda>j. f (xs ! j)) 0 (length xs)
           in (case f (xs ! i) of CEqual \<Rightarrow> Inr i | CLess \<Rightarrow> Inl (Suc i) | CGreater \<Rightarrow> Inl i))"

lemma bs_base_split:
  assumes "0 < len" and "base + len \<le> n"
    and "\<And>i j. i < j \<Longrightarrow> j < n \<Longrightarrow> c i = CGreater \<Longrightarrow> c j = CGreater"
    and "\<forall>j < n. base + len \<le> j \<longrightarrow> c j = CGreater" and "base = 0 \<or> c base \<noteq> CGreater"
  shows "bs_base c base len < n \<and> (\<forall>j < n. bs_base c base len < j \<longrightarrow> c j = CGreater)
    \<and> (bs_base c base len = 0 \<or> c (bs_base c base len) \<noteq> CGreater)"
  using assms
proof (induction c base len rule: bs_base.induct)
  case (1 c base len)
  show ?case
  proof (cases "len \<le> 1")
    case True
    then have "len = 1" using "1.prems"(1) by simp
    moreover have "bs_base c base len = base" using True by (subst bs_base.simps) simp
    ultimately show ?thesis using "1.prems"(2,4,5) by simp
  next
    case False
    let ?half = "len div 2" and ?mid = "base + len div 2"
    let ?b = "if c ?mid = CGreater then base else ?mid"
    have mid: "base < ?mid" "?mid < n" using False "1.prems"(2) by auto
    have above: "\<forall>j < n. ?b + (len - ?half) \<le> j \<longrightarrow> c j = CGreater"
    proof (intro allI impI)
      fix j assume j: "j < n" "?b + (len - ?half) \<le> j"
      show "c j = CGreater"
      proof (cases "c ?mid = CGreater")
        case True
        then have "?mid \<le> j" using j(2) by simp
        then show ?thesis using True "1.prems"(3) [of ?mid j] j(1) by (cases "j = ?mid") auto
      next
        case F: False
        then show ?thesis using "1.prems"(4) j by simp
      qed
    qed
    have "bs_base c ?b (len - ?half) < n \<and> (\<forall>j < n. bs_base c ?b (len - ?half) < j \<longrightarrow> c j = CGreater)
        \<and> (bs_base c ?b (len - ?half) = 0 \<or> c (bs_base c ?b (len - ?half)) \<noteq> CGreater)"
    proof (rule "1.IH" [OF False refl refl])
      show "0 < len - ?half" using False by simp
      show "?b + (len - ?half) \<le> n" using "1.prems"(2) by (cases "c ?mid = CGreater") auto
      show "\<And>i j. i < j \<Longrightarrow> j < n \<Longrightarrow> c i = CGreater \<Longrightarrow> c j = CGreater" by (rule "1.prems"(3))
      show "\<forall>j < n. ?b + (len - ?half) \<le> j \<longrightarrow> c j = CGreater" by (rule above)
      show "?b = 0 \<or> c ?b \<noteq> CGreater" using "1.prems"(5) by simp
    qed
    moreover have "bs_base c base len = bs_base c ?b (len - ?half)"
      using False by (subst bs_base.simps) (simp add: Let_def)
    ultimately show ?thesis by simp
  qed
qed

section \<open>Ordered vectors\<close>

definition ascending :: "('e \<Rightarrow> 'k::linorder) \<Rightarrow> 'e list \<Rightarrow> bool" where
  "ascending key xs \<longleftrightarrow> sorted_wrt (<) (map key xs)"

lemma ascending_less: "ascending key xs \<Longrightarrow> i < j \<Longrightarrow> j < length xs \<Longrightarrow> key (xs ! i) < key (xs ! j)"
  using sorted_wrt_nth_less [of "(<)" "map key xs" i j] by (simp add: ascending_def)

lemma binary_search_ascending:
  assumes asc: "ascending key xs" and f: "\<And>e. f e = compare (key e) k"
  shows "binary_search_by f xs = Inr i \<Longrightarrow> i < length xs \<and> key (xs ! i) = k"
    and "binary_search_by f xs = Inl i \<Longrightarrow>
      i \<le> length xs \<and> (\<forall>j < i. key (xs ! j) < k) \<and> (\<forall>j < length xs. i \<le> j \<longrightarrow> k < key (xs ! j))"
proof -
  let ?c = "\<lambda>j. f (xs ! j)" and ?b = "bs_base (\<lambda>j. f (xs ! j)) 0 (length xs)"
  have up: "?c i = CGreater \<Longrightarrow> ?c j = CGreater" if "i < j" "j < length xs" for i j
    using ascending_less [OF asc that] by (auto simp: f compare_def split: if_splits)
  have b: "?b < length xs \<and> (\<forall>j < length xs. ?b < j \<longrightarrow> ?c j = CGreater) \<and> (?b = 0 \<or> ?c ?b \<noteq> CGreater)" if "xs \<noteq> []"
    using bs_base_split [of "length xs" 0 "length xs" ?c] that up by simp
  show "binary_search_by f xs = Inr i \<Longrightarrow> i < length xs \<and> key (xs ! i) = k"
    using b by (auto simp: binary_search_by_def Let_def f compare_def split: if_splits)
  assume r: "binary_search_by f xs = Inl i"
  show "i \<le> length xs \<and> (\<forall>j < i. key (xs ! j) < k) \<and> (\<forall>j < length xs. i \<le> j \<longrightarrow> k < key (xs ! j))"
  proof (cases "xs = []")
    case False
    note b = b [OF False]
    have above: "k < key (xs ! j)" if "?b < j" "j < length xs" for j
    proof -
      have "?c j = CGreater" using b that by blast
      then show ?thesis by (auto simp: f compare_def split: if_splits)
    qed
    show ?thesis
    proof (cases "?c ?b")
      case CLess
      then have i: "i = Suc ?b" and low: "key (xs ! ?b) < k"
        using r False by (auto simp: binary_search_by_def Let_def f compare_def split: if_splits)
      have "key (xs ! j) < k" if "j < i" for j
        using ascending_less [OF asc, of j ?b] that low b i by (cases "j = ?b") auto
      then show ?thesis using b i above by auto
    next
      case CGreater
      then have i: "i = 0" "?b = 0" using r False b by (auto simp: binary_search_by_def Let_def)
      have "k < key (xs ! j)" if "j < length xs" for j
        using above [of j] CGreater that i(2) by (cases "j = 0") (auto simp: f compare_def split: if_splits)
      then show ?thesis using i by simp
    qed (use r False in \<open>simp add: binary_search_by_def Let_def\<close>)
  qed (use r in \<open>simp add: binary_search_by_def\<close>)
qed

section \<open>The interface\<close>

text \<open>Indexed updates as the code writes them over the outcome of a search.\<close>

definition vec_insert :: "nat \<Rightarrow> 'e \<Rightarrow> 'e list \<Rightarrow> 'e list" where
  "vec_insert i e xs = take i xs @ e # drop i xs"

definition vec_remove :: "nat \<Rightarrow> 'e list \<Rightarrow> 'e list" where
  "vec_remove i xs = take i xs @ drop (Suc i) xs"

locale ordered_search =
  fixes key :: "'e \<Rightarrow> 'k::linorder" and find :: "'k \<Rightarrow> 'e list \<Rightarrow> nat + nat"
  assumes find_Inr: "ascending key xs \<Longrightarrow> find k xs = Inr i \<Longrightarrow> i < length xs \<and> key (xs ! i) = k"
    and find_Inl: "ascending key xs \<Longrightarrow> find k xs = Inl i \<Longrightarrow>
      i \<le> length xs \<and> (\<forall>j < i. key (xs ! j) < k) \<and> (\<forall>j < length xs. i \<le> j \<longrightarrow> k < key (xs ! j))"

text \<open>Entries made of a key and a value: the vector stands for a map.\<close>

locale ordered_table = ordered_search key find
  for key :: "'e \<Rightarrow> 'k::linorder" and find +
  fixes val :: "'e \<Rightarrow> 'v" and entry :: "'k \<Rightarrow> 'v \<Rightarrow> 'e"
  assumes key_entry [simp]: "key (entry k v) = k" and val_entry [simp]: "val (entry k v) = v"
begin

definition contents :: "'e list \<Rightarrow> 'k \<rightharpoonup> 'v" where
  "contents xs = map_of (map (\<lambda>e. (key e, val e)) xs)"

lemma contents_Nil [simp]: "contents [] = Map.empty"
  by (simp add: contents_def)

lemma contents_append: "contents (xs @ ys) = contents ys ++ contents xs"
  by (simp add: contents_def)

lemma contents_Cons: "contents (e # xs) = (contents xs)(key e \<mapsto> val e)"
  by (simp add: contents_def)

lemma contents_None: "(\<And>e. e \<in> set xs \<Longrightarrow> key e \<noteq> k) \<Longrightarrow> contents xs k = None"
  by (fastforce simp: contents_def map_of_eq_None_iff)

lemma ascending_append:
  "ascending key (xs @ ys) \<longleftrightarrow> ascending key xs \<and> ascending key ys \<and> (\<forall>x \<in> set xs. \<forall>y \<in> set ys. key x < key y)"
  by (auto simp: ascending_def sorted_wrt_append)

lemma ascending_Cons: "ascending key (x # xs) \<longleftrightarrow> (\<forall>y \<in> set xs. key x < key y) \<and> ascending key xs"
  by (auto simp: ascending_def)

text \<open>An ordered vector around a position.\<close>

lemma around:
  assumes "ascending key xs" and "i < length xs"
  shows "xs = take i xs @ xs ! i # drop (Suc i) xs"
    and "\<forall>e \<in> set (take i xs). key e < key (xs ! i)" and "\<forall>e \<in> set (drop (Suc i) xs). key (xs ! i) < key e"
    and "ascending key (take i xs)" and "ascending key (drop (Suc i) xs)"
proof -
  show eq: "xs = take i xs @ xs ! i # drop (Suc i) xs" using assms(2) by (rule id_take_nth_drop)
  have "ascending key (take i xs @ xs ! i # drop (Suc i) xs)" using assms(1) eq by simp
  then show "\<forall>e \<in> set (take i xs). key e < key (xs ! i)" "\<forall>e \<in> set (drop (Suc i) xs). key (xs ! i) < key e"
    "ascending key (take i xs)" "ascending key (drop (Suc i) xs)"
    by (auto simp: ascending_append ascending_Cons)
qed

lemma found:
  assumes asc: "ascending key xs" and fnd: "find k xs = Inr i"
  shows "contents xs k = Some (val (xs ! i))"
    and "ascending key (xs[i := entry k v])" and "contents (xs[i := entry k v]) = (contents xs)(k \<mapsto> v)"
    and "ascending key (vec_remove i xs)" and "contents (vec_remove i xs) = (contents xs)(k := None)"
proof -
  have i: "i < length xs" "key (xs ! i) = k" using find_Inr [OF asc fnd] by auto
  note ar = around [OF asc i(1), unfolded i(2)]
  have none: "contents (take i xs) k = None" "contents (drop (Suc i) xs) k = None"
    using ar(2,3) by (auto intro!: contents_None)
  have "contents xs = contents (take i xs @ xs ! i # drop (Suc i) xs)" by (rule arg_cong [OF ar(1)])
  then have c: "contents xs = (contents (drop (Suc i) xs))(k \<mapsto> val (xs ! i)) ++ contents (take i xs)"
    by (simp only: contents_append contents_Cons i(2))
  show "contents xs k = Some (val (xs ! i))" by (simp add: c none map_add_def)
  have u: "xs[i := entry k v] = take i xs @ entry k v # drop (Suc i) xs"
    using i(1) by (simp add: upd_conv_take_nth_drop)
  show "ascending key (xs[i := entry k v])"
    using ar(2-5) unfolding u by (auto simp: ascending_append ascending_Cons intro: less_trans)
  show "contents (xs[i := entry k v]) = (contents xs)(k \<mapsto> v)"
    using none by (auto simp: u c contents_append contents_Cons map_add_def fun_eq_iff split: option.splits)
  show "ascending key (vec_remove i xs)"
    using ar(2-5) by (auto simp: vec_remove_def ascending_append intro: less_trans)
  show "contents (vec_remove i xs) = (contents xs)(k := None)"
    using none by (auto simp: vec_remove_def c contents_append map_add_def fun_eq_iff split: option.splits)
qed

lemma missing:
  assumes asc: "ascending key xs" and fnd: "find k xs = Inl i"
  shows "contents xs k = None"
    and "ascending key (vec_insert i (entry k v) xs)" and "contents (vec_insert i (entry k v) xs) = (contents xs)(k \<mapsto> v)"
proof -
  have i: "i \<le> length xs" "\<forall>j < i. key (xs ! j) < k" "\<forall>j < length xs. i \<le> j \<longrightarrow> k < key (xs ! j)"
    using find_Inl [OF asc fnd] by auto
  have lo: "\<forall>e \<in> set (take i xs). key e < k" using i(1,2) by (auto simp: in_set_conv_nth)
  have hi: "\<forall>e \<in> set (drop i xs). k < key e" using i(1,3) by (auto simp: in_set_conv_nth)
  have eq: "xs = take i xs @ drop i xs" by simp
  have asc': "ascending key (take i xs)" "ascending key (drop i xs)"
    using asc eq ascending_append [of "take i xs" "drop i xs"] by auto
  have none: "contents (take i xs) k = None" "contents (drop i xs) k = None"
    using lo hi by (auto intro!: contents_None)
  have c: "contents xs = contents (drop i xs) ++ contents (take i xs)"
    using contents_append [of "take i xs" "drop i xs"] by simp
  show "contents xs k = None" by (simp add: c none map_add_def)
  show "ascending key (vec_insert i (entry k v) xs)"
    using asc' lo hi by (auto simp: vec_insert_def ascending_append ascending_Cons intro: less_trans)
  show "contents (vec_insert i (entry k v) xs) = (contents xs)(k \<mapsto> v)"
    using none by (auto simp: vec_insert_def c contents_append contents_Cons map_add_def fun_eq_iff split: option.splits)
qed

text \<open>The two operations over the outcome of the search.\<close>

lemma lookup: "ascending key xs \<Longrightarrow>
  (case find k xs of Inr i \<Rightarrow> Some (val (xs ! i)) | Inl _ \<Rightarrow> None) = contents xs k"
  by (cases "find k xs") (simp_all add: found(1) missing(1))

lemma put:
  assumes "ascending key xs"
  shows "ascending key (case find k xs of Inr i \<Rightarrow> xs[i := entry k v] | Inl i \<Rightarrow> vec_insert i (entry k v) xs)
    \<and> contents (case find k xs of Inr i \<Rightarrow> xs[i := entry k v] | Inl i \<Rightarrow> vec_insert i (entry k v) xs) = (contents xs)(k \<mapsto> v)"
  using assms by (cases "find k xs") (simp_all add: found missing)

lemma removal:
  assumes "ascending key xs"
  shows "ascending key (case find k xs of Inr i \<Rightarrow> vec_remove i xs | Inl _ \<Rightarrow> xs)
    \<and> contents (case find k xs of Inr i \<Rightarrow> vec_remove i xs | Inl _ \<Rightarrow> xs) = (contents xs)(k := None)"
  using assms by (cases "find k xs") (auto simp: found missing(1) fun_upd_idem)

end

end
