(* ===== verification/StorageTable.thy ===== *)
theory StorageTable
  imports Prelude OrderedTable
begin

text \<open>
  The storage-mutability sidecar (\<open>StorageTable\<close> of \<open>volar-ir-common/src/lib.rs\<close>): declarations in
  ascending storage order, searched by binary search; an absent declaration reads as read-write.
\<close>

section \<open>The table\<close>

datatype StorageAccess = ReadOnly | ReadWrite

record StorageDecl =
  decl_storage :: nat
  decl_access :: StorageAccess

datatype StorageRoute = Immutable | Mutable

datatype StorageTableError = NotStrictlyOrdered nat nat

type_synonym storage_table = "StorageDecl list"

definition table_new :: storage_table where
  "table_new = []"

definition find_decl :: "nat \<Rightarrow> storage_table \<Rightarrow> nat + nat" where
  "find_decl s = binary_search_by (\<lambda>e. compare (decl_storage e) s)"

definition access_of :: "storage_table \<Rightarrow> nat \<Rightarrow> StorageAccess" where
  "access_of t s = (case find_decl s t of Inr i \<Rightarrow> decl_access (t ! i) | Inl _ \<Rightarrow> ReadWrite)"

definition is_read_only :: "storage_table \<Rightarrow> nat \<Rightarrow> bool" where
  "is_read_only t s \<longleftrightarrow> access_of t s = ReadOnly"

definition route_for :: "storage_table \<Rightarrow> nat \<Rightarrow> StorageRoute" where
  "route_for t s = (if is_read_only t s then Immutable else Mutable)"

definition set_access :: "storage_table \<Rightarrow> nat \<Rightarrow> StorageAccess \<Rightarrow> storage_table" where
  "set_access t s a =
     (case find_decl s t of
        Inr i \<Rightarrow> t[i := (t ! i)\<lparr>decl_access := a\<rparr>]
      | Inl i \<Rightarrow> vec_insert i \<lparr>decl_storage = s, decl_access = a\<rparr> t)"

text \<open>The access two facts about one storage combine to, shared by \<open>merge_conservative\<close> and \<open>remap\<close>.\<close>

fun combine_access :: "StorageAccess option \<Rightarrow> StorageAccess \<Rightarrow> StorageAccess" where
  "combine_access None a = a"
| "combine_access (Some ReadOnly) ReadOnly = ReadOnly"
| "combine_access (Some _) _ = ReadWrite"

definition merge_decl :: "storage_table \<Rightarrow> nat \<Rightarrow> StorageAccess \<Rightarrow> storage_table" where
  "merge_decl t s a =
     set_access t s (combine_access (case find_decl s t of Inr i \<Rightarrow> Some (decl_access (t ! i)) | Inl _ \<Rightarrow> None) a)"

definition merge_conservative :: "storage_table \<Rightarrow> storage_table \<Rightarrow> storage_table" where
  "merge_conservative t other = foldl (\<lambda>t d. merge_decl t (decl_storage d) (decl_access d)) t other"

definition remap_table :: "storage_table \<Rightarrow> (nat \<Rightarrow> nat) \<Rightarrow> storage_table" where
  "remap_table t f = foldl (\<lambda>r d. merge_decl r (f (decl_storage d)) (decl_access d)) table_new t"

fun validate_table :: "storage_table \<Rightarrow> StorageTableError + unit" where
  "validate_table (d # e # ds) =
     (if decl_storage d \<ge> decl_storage e then Inl (NotStrictlyOrdered (decl_storage d) (decl_storage e))
      else validate_table (e # ds))"
| "validate_table _ = Inr ()"

section \<open>The interface on storage tables\<close>

definition mk_decl :: "nat \<Rightarrow> StorageAccess \<Rightarrow> StorageDecl" where
  "mk_decl s a = \<lparr>decl_storage = s, decl_access = a\<rparr>"

interpretation storages: ordered_table decl_storage find_decl decl_access mk_decl
  unfolding find_decl_def
  by unfold_locales
    (use binary_search_ascending [OF _ refl] in blast, use binary_search_ascending(2) [OF _ refl] in blast,
     simp_all add: mk_decl_def)

abbreviation table_ok :: "storage_table \<Rightarrow> bool" where
  "table_ok t \<equiv> ascending decl_storage t"

abbreviation declared :: "storage_table \<Rightarrow> nat \<rightharpoonup> StorageAccess" where
  "declared \<equiv> storages.contents"

lemma found_decl: "table_ok t \<Longrightarrow>
  (case find_decl s t of Inr i \<Rightarrow> Some (decl_access (t ! i)) | Inl _ \<Rightarrow> None) = declared t s"
  by (rule storages.lookup)

lemma access_of_declared: "table_ok t \<Longrightarrow> access_of t s = (case declared t s of Some a \<Rightarrow> a | None \<Rightarrow> ReadWrite)"
  using found_decl [of t s] by (cases "find_decl s t") (auto simp: access_of_def split: option.splits)

lemma set_access_put:
  assumes "table_ok t"
  shows "set_access t s a = (case find_decl s t of Inr i \<Rightarrow> t[i := mk_decl s a] | Inl i \<Rightarrow> vec_insert i (mk_decl s a) t)"
proof (cases "find_decl s t")
  case (Inr i)
  have "decl_storage (t ! i) = s" using storages.find_Inr [OF assms Inr] by simp
  then have "(t ! i)\<lparr>decl_access := a\<rparr> = mk_decl s a" by (simp add: mk_decl_def)
  then show ?thesis by (simp add: set_access_def Inr)
qed (simp add: set_access_def mk_decl_def)

lemma set_access_ok: "table_ok t \<Longrightarrow> table_ok (set_access t s a) \<and> declared (set_access t s a) = (declared t)(s \<mapsto> a)"
  unfolding set_access_put by (rule storages.put)

lemma merge_decl_ok:
  "table_ok t \<Longrightarrow> table_ok (merge_decl t s a)
     \<and> declared (merge_decl t s a) = (declared t)(s \<mapsto> combine_access (declared t s) a)"
  by (simp add: merge_decl_def found_decl set_access_ok)

lemma merge_all_ok:
  "table_ok t \<Longrightarrow> table_ok (foldl (\<lambda>t d. merge_decl t (f d) (g d)) t ds)
     \<and> (\<forall>s. declared (foldl (\<lambda>t d. merge_decl t (f d) (g d)) t ds) s =
          foldl (\<lambda>x d. if f d = s then Some (combine_access x (g d)) else x) (declared t s) ds)"
proof (induction ds arbitrary: t)
  case (Cons d ds)
  have m: "table_ok (merge_decl t (f d) (g d))"
    "declared (merge_decl t (f d) (g d)) = (declared t)(f d \<mapsto> combine_access (declared t (f d)) (g d))"
    using merge_decl_ok [OF Cons.prems] by auto
  from Cons.IH [OF m(1)] show ?case by (auto simp: m(2))
qed simp

lemma combine_access_all:
  "foldl (\<lambda>x d. if f d = s then Some (combine_access x (g d)) else x) x ds =
     (if x = None \<and> list_all (\<lambda>d. f d \<noteq> s) ds then None
      else if x \<noteq> Some ReadWrite \<and> list_all (\<lambda>d. f d = s \<longrightarrow> g d = ReadOnly) ds then Some ReadOnly
      else Some ReadWrite)"
proof (induction ds arbitrary: x)
  case (Cons d ds)
  then show ?case
    by (cases x; cases "g d"; cases "the x") (auto simp del: not_None_eq)
next
  case Nil
  show ?case by (cases x; cases "the x") auto
qed

lemma validate_ok: "validate_table t = Inr () \<longleftrightarrow> table_ok t"
proof (induction t rule: validate_table.induct)
  case (1 d e ds)
  then show ?case by (auto simp: ascending_def)
qed (auto simp: ascending_def)

lemma validate_bad:
  "validate_table t = Inl err \<Longrightarrow> \<exists>i. Suc i < length t \<and> table_ok (take (Suc i) t)
     \<and> decl_storage (t ! Suc i) \<le> decl_storage (t ! i) \<and> err = NotStrictlyOrdered (decl_storage (t ! i)) (decl_storage (t ! Suc i))"
proof (induction t rule: validate_table.induct)
  case (1 d e ds)
  show ?case
  proof (cases "decl_storage e \<le> decl_storage d")
    case True
    then show ?thesis using "1.prems" by (intro exI [of _ 0]) (auto simp: ascending_def)
  next
    case False
    then obtain i where i: "Suc i < length (e # ds)" "table_ok (take (Suc i) (e # ds))"
        "decl_storage ((e # ds) ! Suc i) \<le> decl_storage ((e # ds) ! i)"
        "err = NotStrictlyOrdered (decl_storage ((e # ds) ! i)) (decl_storage ((e # ds) ! Suc i))"
      using "1.IH" "1.prems" by auto
    have "table_ok (take (Suc (Suc i)) (d # e # ds))" using i(2) False by (auto simp: ascending_def)
    then show ?thesis using i by (intro exI [of _ "Suc i"]) auto
  qed
qed auto

section \<open>Properties\<close>

text \<open>A storage table is a finite map with a read-write default: \<open>set\<close> keeps the ascending order that
  \<open>validate\<close> checks, changes the access of exactly the storage it names, and \<open>route_for\<close> follows.\<close>

theorem storage_table_set:
  assumes "validate_table t = Inr ()"
  shows "validate_table (set_access t s a) = Inr ()
    \<and> access_of (set_access t s a) s' = (if s' = s then a else access_of t s')
    \<and> route_for (set_access t s a) s' = (if (if s' = s then a else access_of t s') = ReadOnly then Immutable else Mutable)"
proof -
  have t: "table_ok t" using assms validate_ok by blast
  then have ok: "table_ok (set_access t s a)" and d: "declared (set_access t s a) = (declared t)(s \<mapsto> a)"
    using set_access_ok [OF t, of s a] by auto
  have "access_of (set_access t s a) s' = (if s' = s then a else access_of t s')"
    by (simp add: access_of_declared [OF ok] access_of_declared [OF t] d)
  then show ?thesis using ok validate_ok by (auto simp: route_for_def is_read_only_def)
qed

theorem storage_table_set_witness:
  "access_of (set_access (set_access (set_access table_new 8 ReadOnly) 2 ReadOnly) 8 ReadWrite) 2 = ReadOnly
   \<and> validate_table (set_access (set_access table_new 8 ReadOnly) 2 ReadOnly) = Inr ()"
proof -
  have 0: "validate_table table_new = Inr ()" by (simp add: table_new_def)
  note 1 = storage_table_set [OF 0, of 8 ReadOnly]
  note 2 = storage_table_set [OF conjunct1 [OF 1], of 2 ReadOnly]
  note 3 = storage_table_set [OF conjunct1 [OF 2], of 8 ReadWrite 2]
  show ?thesis using 2 3 by simp
qed

text \<open>Validation accepts exactly the strictly ascending tables, and otherwise names the first
  adjacent pair that is out of order.\<close>

theorem storage_table_validation:
  "case validate_table t of
     Inr _ \<Rightarrow> sorted_wrt (<) (map decl_storage t)
   | Inl err \<Rightarrow> \<exists>i. Suc i < length t \<and> sorted_wrt (<) (map decl_storage (take (Suc i) t))
        \<and> decl_storage (t ! Suc i) \<le> decl_storage (t ! i)
        \<and> err = NotStrictlyOrdered (decl_storage (t ! i)) (decl_storage (t ! Suc i))"
proof (cases "validate_table t")
  case (Inl err)
  then show ?thesis using validate_bad [OF Inl] by (simp add: ascending_def)
next
  case (Inr u)
  then show ?thesis using validate_ok [of t] by (simp add: ascending_def)
qed

text \<open>What merging and renaming keep: a storage is read-only afterwards exactly when it is declared
  on some side (has some source) and no declaration of it (of a source) is read-write.\<close>

theorem merged_read_only:
  assumes "validate_table t = Inr ()"
  shows "(is_read_only (merge_conservative t other) s \<longleftrightarrow>
      (declared t s \<noteq> None \<or> list_ex (\<lambda>d. decl_storage d = s) other)
      \<and> declared t s \<noteq> Some ReadWrite \<and> list_all (\<lambda>d. decl_storage d \<noteq> s \<or> decl_access d = ReadOnly) other)
    \<and> (is_read_only (remap_table other f) s \<longleftrightarrow>
      list_ex (\<lambda>d. f (decl_storage d) = s) other \<and> list_all (\<lambda>d. f (decl_storage d) \<noteq> s \<or> decl_access d = ReadOnly) other)"
    (is "?merge \<and> ?remap")
proof
  have t: "table_ok t" using assms validate_ok by blast
  have new: "table_ok table_new" by (simp add: table_new_def ascending_def)
  note m = merge_all_ok [OF t, of decl_storage decl_access other]
  note r = merge_all_ok [OF new, of "\<lambda>d. f (decl_storage d)" decl_access other]
  show ?merge
    using m by (auto simp: is_read_only_def merge_conservative_def access_of_declared combine_access_all list_all_iff list_ex_iff)
  show ?remap
    using r by (auto simp: is_read_only_def remap_table_def access_of_declared combine_access_all list_all_iff list_ex_iff table_new_def)
qed

theorem merged_read_only_witness:
  "\<not> is_read_only (merge_conservative (set_access table_new 1 ReadWrite) [mk_decl 1 ReadOnly]) 1"
proof -
  have "validate_table [mk_decl 1 ReadWrite] = Inr ()" by simp
  moreover have "set_access table_new 1 ReadWrite = [mk_decl 1 ReadWrite]"
    by (simp add: set_access_def find_decl_def binary_search_by_def table_new_def vec_insert_def mk_decl_def)
  moreover have "declared [mk_decl 1 ReadWrite] 1 = Some ReadWrite" by (simp add: storages.contents_Cons mk_decl_def)
  ultimately show ?thesis using merged_read_only [of "[mk_decl 1 ReadWrite]" "[mk_decl 1 ReadOnly]" 1] by simp
qed

text \<open>Merging trusts one side: a storage that one table does not declare - and which that table so
  treats as read-write - is read-only after merging with a table that declares it read-only.\<close>

theorem merge_trusts_one_side:
  "access_of table_new 1 = ReadWrite \<and> access_of (merge_conservative table_new [mk_decl 1 ReadOnly]) 1 = ReadOnly
   \<and> access_of (merge_conservative [mk_decl 1 ReadOnly] table_new) 1 = ReadOnly"
  by (simp add: access_of_def merge_conservative_def merge_decl_def set_access_def find_decl_def binary_search_by_def
      table_new_def vec_insert_def mk_decl_def compare_def bs_base.simps)

end
