(* ===== verification/ReadonlyFold.thy ===== *)
theory ReadonlyFold
  imports StorageTable FoldCorrect
begin

text \<open>
  Folding of reads from read-only storage (\<open>fold_readonly_storage_*\<close> of \<open>volar-ir-opt/src/biir.rs\<close>):
  a read at a known address of a storage the sidecar proves immutable becomes the constant of the
  static image. The image is looked up with the optimiser's own address addition, which is shown
  to be the evaluator's.
\<close>

section \<open>The pass\<close>

text \<open>The carry loop reads and writes through an exclusive or; the address grows by a \<open>false\<close> first.\<close>

function carry_xor :: "nat \<Rightarrow> bool list \<Rightarrow> bool list" where
  "carry_xor at out =
     (let out1 = (if at = length out then out @ [False] else out);
          nxt = (out1 ! at \<noteq> True); carry = out1 ! at; out2 = out1[at := nxt]
      in if carry \<and> at < length out then carry_xor (Suc at) out2 else out2)"
  by pat_completeness auto
termination by (relation "measure (\<lambda>(at, out). length out - at)") auto

function add_bits :: "bool list \<Rightarrow> nat \<Rightarrow> nat \<Rightarrow> bool list" where
  "add_bits out addend j =
     (if addend = 0 then out
      else let out1 = (if j = length out then out @ [False] else out);
               out2 = (if odd addend then carry_xor j out1 else out1)
           in add_bits out2 (addend div 2) (Suc j))"
  by pat_completeness auto
termination by (relation "measure (\<lambda>(out, addend, j). addend)") auto

declare carry_xor.simps [simp del] add_bits.simps [simp del]

definition opt_add_to_address :: "bool list \<Rightarrow> nat \<Rightarrow> bool list" where
  "opt_add_to_address addr addend = add_bits addr addend 0"

text \<open>The last cell of the image that lies at the address wins; an absent cell is \<open>false\<close>.\<close>

fun image_cells :: "bool list \<Rightarrow> nat \<Rightarrow> bool list \<Rightarrow> bool list \<Rightarrow> bool \<Rightarrow> bool" where
  "image_cells base offset [] address value = value"
| "image_cells base offset (initialized # ds) address value =
     image_cells base (Suc offset) ds address
       (if opt_add_to_address base offset = address then initialized else value)"

definition readonly_bir_image_value ::
  "BIrPreInitSegment list \<Rightarrow> storage_id \<Rightarrow> lane_id \<Rightarrow> bool list \<Rightarrow> bool" where
  "readonly_bir_image_value img storage lane address =
     foldl (\<lambda>value seg. if seg_storage seg \<noteq> storage \<or> seg_lane seg \<noteq> lane then value
                        else image_cells (seg_addr seg) 0 (seg_data seg) address value) False img"

definition readonly_stmt ::
  "BIrPreInitSegment list \<Rightarrow> storage_table \<Rightarrow> (ir_var \<rightharpoonup> bool) \<Rightarrow> bstmt \<Rightarrow> bool option" where
  "readonly_stmt img t constants k =
     (case k of
        StorageRead storage lane addr \<Rightarrow>
          if access_of t storage = ReadOnly
          then map_option (readonly_bir_image_value img storage lane) (those (map constants addr))
          else None
      | _ \<Rightarrow> None)"

fun readonly_stmts ::
  "BIrPreInitSegment list \<Rightarrow> storage_table \<Rightarrow> nat \<Rightarrow> 'p node list \<Rightarrow> (ir_var \<rightharpoonup> bool) \<Rightarrow> 'p node list \<times> bool" where
  "readonly_stmts img t rv [] constants = ([], False)"
| "readonly_stmts img t rv (n # ns) constants =
     (case readonly_stmt img t constants (kind n) of
        Some value \<Rightarrow>
          let (ns', _) = readonly_stmts img t (Suc rv) ns (constants(rv \<mapsto> value))
          in (n\<lparr>kind := const_stmt value\<rparr> # ns', True)
      | None \<Rightarrow>
          let (ns', ch) = readonly_stmts img t (Suc rv) ns
                (case kind n of BZero \<Rightarrow> constants(rv \<mapsto> False) | BOne \<Rightarrow> constants(rv \<mapsto> True) | _ \<Rightarrow> constants)
          in (n # ns', ch))"

definition fold_readonly_storage_biir_stmts ::
  "nat \<Rightarrow> 'p node list \<Rightarrow> BIrPreInitSegment list \<Rightarrow> storage_table \<Rightarrow> 'p node list \<times> bool" where
  "fold_readonly_storage_biir_stmts ps ns img t = readonly_stmts img t ps ns Map.empty"

definition fold_readonly_storage_biir_blocks :: "'p BIrBlocks \<Rightarrow> storage_table \<Rightarrow> 'p BIrBlocks \<times> bool" where
  "fold_readonly_storage_biir_blocks p t =
     (let rs = map (\<lambda>b. fold_readonly_storage_biir_stmts (params b) (stmts b) (pre_init p) t) (blocks p)
      in (p\<lparr>blocks := map2 (\<lambda>b (ns, _). b\<lparr>stmts := ns\<rparr>) (blocks p) rs\<rparr>, list_ex snd rs))"

definition fold_readonly_storage_biir_circuit :: "'p BCircuit \<Rightarrow> storage_table \<Rightarrow> 'p BCircuit \<times> bool" where
  "fold_readonly_storage_biir_circuit c t =
     (let (ns, ch) = fold_readonly_storage_biir_stmts (bc_params c) (bc_stmts c) (bc_pre_init c) t
      in (c\<lparr>bc_stmts := ns\<rparr>, ch))"

section \<open>Address addition\<close>

lemma carry_xor_same: "at \<le> length out \<Longrightarrow> carry_xor at out = carry_at at out"
proof (induction at out rule: carry_at.induct)
  case (1 at out)
  show ?case
  proof (cases "at < length out")
    case True
    then show ?thesis
      using "1.IH" by (subst carry_xor.simps, subst carry_at.simps) (auto simp: Let_def)
  next
    case False
    then have at: "at = length out" using "1.prems" by simp
    show ?thesis by (subst carry_xor.simps, subst carry_at.simps) (simp add: at Let_def)
  qed
qed

lemma add_bits_step:
  assumes "addend \<noteq> 0"
  shows "add_bits out addend j = (let out1 = (if j = length out then out @ [False] else out)
    in add_bits (if odd addend then carry_xor j out1 else out1) (addend div 2) (Suc j))"
    and "add_loop out addend j = (let out1 = (if j = length out then out @ [False] else out)
    in add_loop (if odd addend then carry_at j out1 else out1) (addend div 2) (Suc j))"
  using assms by (subst add_bits.simps add_loop.simps, simp only: if_False Let_def)+

lemma add_bits_same: "j \<le> length out \<Longrightarrow> add_bits out addend j = add_loop out addend j"
proof (induction out addend j rule: add_loop.induct)
  case (1 out addend j)
  show ?case
  proof (cases "addend = 0")
    case True
    then show ?thesis by (simp add: add_bits.simps add_loop.simps)
  next
    case False
    define out1 where "out1 = (if j = length out then out @ [False] else out)"
    define out2 where "out2 = (if odd addend then carry_at j out1 else out1)"
    have le: "j < length out1" using "1.prems" by (auto simp: out1_def)
    have "length out1 \<le> length out2" using carry_at_val [of j out1] le by (auto simp: out2_def)
    then have "Suc j \<le> length out2" using le by linarith
    then have "add_bits out2 (addend div 2) (Suc j) = add_loop out2 (addend div 2) (Suc j)"
      using "1.IH" [OF False out1_def out2_def] by simp
    moreover have "carry_xor j out1 = carry_at j out1" by (rule carry_xor_same) (use le in simp)
    ultimately show ?thesis
      unfolding add_bits_step(1) [OF False] add_bits_step(2) [OF False] Let_def out1_def [symmetric]
      by (cases "odd addend") (simp_all add: out2_def)
  qed
qed

lemma opt_add_to_address_same [simp]: "opt_add_to_address addr n = add_to_address addr n"
  by (simp add: opt_add_to_address_def add_to_address_def add_bits_same)

section \<open>The image and the initial storage\<close>

lemma sread_init_cells:
  "sread (init_cells_from st s l base off ds) ((s', l'), a) =
     (if s' = s \<and> l' = l then image_cells base off ds a (sread st ((s, l), a)) else sread st ((s', l'), a))"
  by (induction ds arbitrary: st off) (auto simp: sread_def)

lemma sread_apply_pre_init:
  "sread (apply_pre_init Map.empty img) ((s, l), a) = readonly_bir_image_value img s l a"
proof -
  have "sread (apply_pre_init st img) ((s, l), a) =
      foldl (\<lambda>value seg. if seg_storage seg \<noteq> s \<or> seg_lane seg \<noteq> l then value
                         else image_cells (seg_addr seg) 0 (seg_data seg) a value) (sread st ((s, l), a)) img" for st
    by (induction img arbitrary: st) (auto simp: apply_pre_init_def sread_init_cells)
  from this [of Map.empty] show ?thesis by (simp add: readonly_bir_image_value_def sread_def)
qed

text \<open>The storages that the table proves immutable read as the image.\<close>

definition image_holds :: "BIrPreInitSegment list \<Rightarrow> storage_table \<Rightarrow> bstorage \<Rightarrow> bool" where
  "image_holds img t st \<longleftrightarrow> (\<forall>s l a. access_of t s = ReadOnly \<longrightarrow> sread st ((s, l), a) = readonly_bir_image_value img s l a)"

text \<open>What the table's producer guarantees: no statement writes to a storage declared read-only.\<close>

fun no_readonly_write :: "storage_table \<Rightarrow> bstmt \<Rightarrow> bool" where
  "no_readonly_write t (StorageWrite s l v a) \<longleftrightarrow> access_of t s = ReadWrite"
| "no_readonly_write t (ActionStoreBit n g as f s l a b occ) \<longleftrightarrow> access_of t s = ReadWrite"
| "no_readonly_write t _ \<longleftrightarrow> True"

lemma image_holds_upd:
  "image_holds img t st \<Longrightarrow> access_of t s = ReadWrite \<Longrightarrow> image_holds img t (st(((s, l), a) \<mapsto> x))"
  by (auto simp: image_holds_def sread_def)

lemma image_kept:
  assumes "image_holds img t st" and "no_readonly_write t k" and "stmt_out E k vs ag st = Some (x, bits, st')"
  shows "image_holds img t st'"
  using assms by (cases k) (auto simp: bind_eq_Some_conv image_holds_upd split: if_splits)

lemma those_consts:
  "consts_hold m vs \<Longrightarrow> those (map m as) = Some bs \<Longrightarrow> nths_opt vs as = Some bs"
  by (induction as arbitrary: bs) (auto simp: consts_hold_def nths_opt_Cons split: option.splits)

lemma readonly_stmt_out:
  assumes "image_holds img t st" and "consts_hold m vs" and "readonly_stmt img t m k = Some b"
  shows "stmt_out E k vs ag st = Some (b, None, st)"
proof -
  obtain s l as where k: "k = StorageRead s l as" and ro: "access_of t s = ReadOnly"
    using assms(3) by (auto simp: readonly_stmt_def split: BIrStmt.splits if_splits)
  obtain bs where bs: "those (map m as) = Some bs" "b = readonly_bir_image_value img s l bs"
    using assms(3) by (auto simp: readonly_stmt_def k ro)
  have "sread st ((s, l), bs) = b" using assms(1) ro bs(2) by (simp add: image_holds_def)
  then show ?thesis using those_consts [OF assms(2) bs(1)] by (simp add: k)
qed

lemma readonly_stmts_same:
  assumes "image_holds img t st" and "consts_hold m vs" and "\<forall>n \<in> set ns. no_readonly_write t (kind n)"
    and "readonly_stmts img t (length vs) ns m = (ns', ch)"
  shows "eval_stmts E ns' (length vs) (vs, ag, st) = eval_stmts E ns (length vs) (vs, ag, st)
    \<and> (\<forall>vs' ag' st'. eval_stmts E ns (length vs) (vs, ag, st) = Some (vs', ag', st') \<longrightarrow> image_holds img t st')"
  using assms
proof (induction ns arbitrary: m vs ag st ns' ch)
  case (Cons n ns)
  show ?case
  proof (cases "readonly_stmt img t m (kind n)")
    case (Some b)
    obtain ns1 c1 where ns1: "readonly_stmts img t (Suc (length vs)) ns (m(length vs \<mapsto> b)) = (ns1, c1)" by fastforce
    have ns': "ns' = n\<lparr>kind := const_stmt b\<rparr> # ns1" using Cons.prems(4) Some ns1 by auto
    have out: "stmt_out E (kind n) vs ag st = Some (b, None, st)"
      by (rule readonly_stmt_out [OF Cons.prems(1,2) Some])
    have cs: "consts_hold (m(length vs \<mapsto> b)) (vs @ [b])" by (rule consts_hold_add [OF Cons.prems(2)])
    have ok: "\<forall>n \<in> set ns. no_readonly_write t (kind n)" using Cons.prems(3) by simp
    have "readonly_stmts img t (length (vs @ [b])) ns (m(length vs \<mapsto> b)) = (ns1, c1)" using ns1 by simp
    from Cons.IH [OF Cons.prems(1) cs ok this, of ag] show ?thesis
      by (simp add: ns' eval_stmts_out out put_call_def del: eval_stmts.simps)
  next
    case None
    let ?m = "case kind n of BZero \<Rightarrow> m(length vs \<mapsto> False) | BOne \<Rightarrow> m(length vs \<mapsto> True) | _ \<Rightarrow> m"
    obtain ns1 c1 where ns1: "readonly_stmts img t (Suc (length vs)) ns ?m = (ns1, c1)" by fastforce
    have ns': "ns' = n # ns1" using Cons.prems(4) None ns1 by auto
    show ?thesis
    proof (cases "stmt_out E (kind n) vs ag st")
      case N: None
      show ?thesis by (simp add: ns' eval_stmts_out N del: eval_stmts.simps)
    next
      case S: (Some p)
      obtain x bits st1 where p: "p = (x, bits, st1)" by (cases p) auto
      have cs: "consts_hold ?m (vs @ [x])"
      proof (cases "kind n = BZero \<or> kind n = BOne")
        case True
        then show ?thesis using S consts_hold_add [OF Cons.prems(2)] by (auto simp: p)
      next
        case False
        then have "?m = m" by (cases "kind n") simp_all
        then show ?thesis using consts_hold_snoc [OF Cons.prems(2)] by simp
      qed
      have ok: "\<forall>n \<in> set ns. no_readonly_write t (kind n)" and ok1: "no_readonly_write t (kind n)"
        using Cons.prems(3) by simp_all
      have im: "image_holds img t st1" by (rule image_kept [OF Cons.prems(1) ok1 S [unfolded p]])
      have "readonly_stmts img t (length (vs @ [x])) ns ?m = (ns1, c1)" using ns1 by simp
      from Cons.IH [OF im cs ok this, of "put_call (length vs) bits ag"] show ?thesis
        by (simp add: ns' eval_stmts_out S p del: eval_stmts.simps)
    qed
  qed
qed simp

section \<open>Programs and circuits\<close>

definition readonly_block :: "BIrPreInitSegment list \<Rightarrow> storage_table \<Rightarrow> 'p BIrBlock \<Rightarrow> 'p BIrBlock" where
  "readonly_block img t b = b\<lparr>stmts := fst (fold_readonly_storage_biir_stmts (params b) (stmts b) img t)\<rparr>"

lemma blocks_readonly:
  "blocks (fst (fold_readonly_storage_biir_blocks p t)) = map (readonly_block (pre_init p) t) (blocks p)
   \<and> pre_init (fst (fold_readonly_storage_biir_blocks p t)) = pre_init p"
  by (auto simp: fold_readonly_storage_biir_blocks_def Let_def readonly_block_def map2_map_map zip_map2 zip_same_conv_map
      intro!: map_cong split: prod.splits)

lemma readonly_block_same:
  assumes "image_holds img t st" and "\<forall>n \<in> set (stmts b). no_readonly_write t (kind n)"
  shows "eval_block E b ins st = eval_block E (readonly_block img t b) ins st
    \<and> (\<forall>r st'. eval_block E b ins st = Some (r, st') \<longrightarrow> image_holds img t st')"
proof (cases "length ins = params b")
  case True
  obtain ns' ch where ns': "readonly_stmts img t (params b) (stmts b) Map.empty = (ns', ch)" by fastforce
  have "consts_hold Map.empty ins" by (simp add: consts_hold_def)
  from readonly_stmts_same [OF assms(1) this assms(2), of ns' ch E Map.empty] ns' True
  have same: "eval_stmts E ns' (params b) (ins, Map.empty, st) = eval_stmts E (stmts b) (params b) (ins, Map.empty, st)"
    and keep: "\<And>vs ag st'. eval_stmts E (stmts b) (params b) (ins, Map.empty, st) = Some (vs, ag, st') \<Longrightarrow> image_holds img t st'"
    by auto
  have "image_holds img t st'" if run: "eval_block E b ins st = Some (r, st')" for r st'
  proof -
    obtain vs ag st1 where ev: "eval_stmts E (stmts b) (params b) (ins, Map.empty, st) = Some (vs, ag, st1)"
      using run True by (cases "eval_stmts E (stmts b) (params b) (ins, Map.empty, st)") (auto simp: eval_block_def)
    have "st1 = st'" using run True ev by (cases "eval_terminator (terminator b) vs") (auto simp: eval_block_def)
    then show ?thesis using keep [OF ev] by simp
  qed
  then show ?thesis
    using same True by (simp add: eval_block_def readonly_block_def fold_readonly_storage_biir_stmts_def ns')
qed (simp add: eval_block_def readonly_block_def)

text \<open>C39. Reading the static image ahead of time is sound: on every program that writes to no storage the
  sidecar declares read-only, replacing reads at known addresses by the image's constants leaves
  every result unchanged - whatever the blocks look like otherwise.\<close>

theorem readonly_folding_preserves:
  assumes "\<forall>b \<in> set (blocks p). \<forall>n \<in> set (stmts b). no_readonly_write t (kind n)"
  shows "eval_biir_with_limit E (fst (fold_readonly_storage_biir_blocks p t)) ins m = eval_biir_with_limit E p ins m"
proof -
  let ?p = "fst (fold_readonly_storage_biir_blocks p t)" and ?st = "apply_pre_init Map.empty (pre_init p)"
  have "blocks_equiv_on (image_holds (pre_init p) t) E (blocks p) (blocks ?p)"
    unfolding blocks_equiv_on_def conjunct1 [OF blocks_readonly]
  proof (intro conjI allI impI)
    fix i ins st assume i: "i < length (blocks p)" and im: "image_holds (pre_init p) t st"
    have ok: "\<forall>n \<in> set (stmts (blocks p ! i)). no_readonly_write t (kind n)" using assms nth_mem [OF i] by blast
    note same = readonly_block_same [OF im ok, of E ins]
    show "eval_block E (blocks p ! i) ins st = eval_block E (map (readonly_block (pre_init p) t) (blocks p) ! i) ins st"
      using same i by simp
    fix r st' assume "eval_block E (blocks p ! i) ins st = Some (r, st')"
    then show "image_holds (pre_init p) t st'" using same by blast
  qed simp
  moreover have "image_holds (pre_init p) t ?st" by (simp add: image_holds_def sread_apply_pre_init)
  ultimately have "eval_loop E (blocks p) m 0 0 ins ?st = eval_loop E (blocks ?p) m 0 0 ins ?st"
    by (rule eval_loop_equiv_on)
  then show ?thesis by (simp add: eval_biir_with_limit_def blocks_readonly)
qed

text \<open>A two-cell lookup table read at a constant address.\<close>

definition lookup_program :: "unit BIrBlocks" where
  "lookup_program = \<lparr>blocks = [\<lparr>params = 0,
      stmts = map (\<lambda>s. Node_new s () None) [BOne, StorageRead 3 0 [0]],
      terminator = Jmp \<lparr>tgt_block = Return, tgt_args = [1]\<rparr>\<rparr>],
    pre_init = [\<lparr>seg_storage = 3, seg_lane = 0, seg_addr = [False], seg_data = [False, True]\<rparr>]\<rparr>"

lemma lookup_program_folds:
  "kind (stmts (blocks (fst (fold_readonly_storage_biir_blocks lookup_program [mk_decl 3 ReadOnly])) ! 0) ! 1) = BOne"
  by (simp add: blocks_readonly lookup_program_def readonly_block_def fold_readonly_storage_biir_stmts_def Node_new_def
      readonly_stmt_def access_of_def find_decl_def binary_search_by_def bs_base.simps mk_decl_def compare_def
      readonly_bir_image_value_def add_to_address_def add_loop.simps carry_at.simps const_stmt_def)

theorem readonly_folding_preserves_witness:
  "eval_biir_with_limit hash_externals (fst (fold_readonly_storage_biir_blocks lookup_program [mk_decl 3 ReadOnly])) [] 1
     = Some (Returned [True])"
proof -
  have "\<forall>b \<in> set (blocks lookup_program). \<forall>n \<in> set (stmts b). no_readonly_write [mk_decl 3 ReadOnly] (kind n)"
    by (simp add: lookup_program_def Node_new_def)
  from readonly_folding_preserves [OF this, of hash_externals "[]" 1] show ?thesis
    by (simp add: eval_biir_with_limit_def eval_loop_round loop_round_def lookup_program_def eval_block_def Node_new_def
        nth_opt_def nths_opt_Cons resolve_target_def apply_pre_init_def sread_def add_to_address_def add_loop.simps carry_at.simps)
qed

text \<open>The same for a fused circuit, run on any storage that holds the image: the folded circuit has
  the original's outputs and storage effect.\<close>

lemma readonly_circuit_folding_preserves:
  assumes "image_holds (bc_pre_init c) t st" and "\<forall>n \<in> set (bc_stmts c). no_readonly_write t (kind n)"
  shows "eval_circuit E (fst (fold_readonly_storage_biir_circuit c t)) ins st = eval_circuit E c ins st"
proof (cases "length ins = bc_params c")
  case True
  obtain ns' ch where ns': "readonly_stmts (bc_pre_init c) t (bc_params c) (bc_stmts c) Map.empty = (ns', ch)" by fastforce
  have "consts_hold Map.empty ins" by (simp add: consts_hold_def)
  from readonly_stmts_same [OF assms(1) this assms(2), of ns' ch E Map.empty] ns' True
  have "eval_stmts E ns' (bc_params c) (ins, Map.empty, st) = eval_stmts E (bc_stmts c) (bc_params c) (ins, Map.empty, st)"
    by simp
  then show ?thesis
    by (simp add: eval_circuit_def fold_readonly_storage_biir_circuit_def fold_readonly_storage_biir_stmts_def ns')
qed (auto simp: eval_circuit_def fold_readonly_storage_biir_circuit_def split: prod.splits)

end
