(* ===== verification/Dispatch.thy ===== *)
theory Dispatch
  imports OptSweep "HOL-Library.Sublist"
begin

text \<open>
  The gate-emission helpers shared by control-flow passes
  (\<open>volar-ir-passes/src/dispatch_accumulator.rs\<close>) and the calculus in which emitting passes are proved.

  An emission step takes the emitter's state and returns a result with the new state; \<open>None\<close> is a panic.
  \<open>emits at vs m R\<close> says that from every state whose code computes an extension of \<open>vs\<close>, \<open>m\<close> does not
  panic, extends what the code computes, and returns a result satisfying \<open>R\<close> there. The interface
  \<open>appender\<close> is an emitter that appends statements; \<open>bit_emitter\<close> is the trait
  \<open>DispatchBitPrimitives\<close> with the laws its clients rely on.
\<close>

section \<open>Emission steps\<close>

type_synonym ('s, 'a) emission = "'s \<Rightarrow> ('a \<times> 's) option"

definition ebind :: "('s, 'a) emission \<Rightarrow> ('a \<Rightarrow> ('s, 'b) emission) \<Rightarrow> ('s, 'b) emission" where
  "ebind m f s = (case m s of None \<Rightarrow> None | Some (x, s') \<Rightarrow> f x s')"

definition eret :: "'a \<Rightarrow> ('s, 'a) emission" where
  "eret x s = Some (x, s)"

text \<open>A lookup that panics when the index is out of range.\<close>

definition eget :: "'a option \<Rightarrow> ('s, 'a) emission" where
  "eget x s = map_option (\<lambda>v. (v, s)) x"

lemma ebind_eget_Some [simp]: "ebind (eget (Some v)) f = f v"
  by (rule ext) (simp add: ebind_def eget_def)

text \<open>\<open>iter().map(step).collect()\<close> with a step that emits.\<close>

fun emap :: "('a \<Rightarrow> ('s, 'b) emission) \<Rightarrow> 'a list \<Rightarrow> ('s, 'b list) emission" where
  "emap f [] = eret []"
| "emap f (x # xs) = ebind (f x) (\<lambda>y. ebind (emap f xs) (\<lambda>ys. eret (y # ys)))"

section \<open>The calculus\<close>

definition emits ::
  "('s \<Rightarrow> bool list \<Rightarrow> bool) \<Rightarrow> bool list \<Rightarrow> ('s, 'a) emission \<Rightarrow> (bool list \<Rightarrow> 'a \<Rightarrow> bool) \<Rightarrow> bool" where
  "emits at vs0 m R \<longleftrightarrow> (\<forall>s vs. at s vs \<longrightarrow> prefix vs0 vs \<longrightarrow>
     (\<exists>x s' vs'. m s = Some (x, s') \<and> at s' vs' \<and> prefix vs vs' \<and> R vs' x))"

definition lasting :: "(bool list \<Rightarrow> 'a \<Rightarrow> bool) \<Rightarrow> bool" where
  "lasting R \<longleftrightarrow> (\<forall>vs vs' x. R vs x \<longrightarrow> prefix vs vs' \<longrightarrow> R vs' x)"

lemma nth_opt_prefix: "nth_opt vs v = Some x \<Longrightarrow> prefix vs vs' \<Longrightarrow> nth_opt vs' v = Some x"
  by (auto simp: prefix_def intro: nth_opt_extend)

lemma nths_opt_prefix: "nths_opt vs as = Some xs \<Longrightarrow> prefix vs vs' \<Longrightarrow> nths_opt vs' as = Some xs"
  by (auto simp: prefix_def intro: nths_opt_extend)

lemma emitsI:
  "(\<And>s vs. at s vs \<Longrightarrow> prefix vs0 vs \<Longrightarrow>
     \<exists>x s' vs'. m s = Some (x, s') \<and> at s' vs' \<and> prefix vs vs' \<and> R vs' x) \<Longrightarrow> emits at vs0 m R"
  by (simp add: emits_def)

lemma emits_run:
  "emits at vs m R \<Longrightarrow> at s vs \<Longrightarrow> \<exists>x s' vs'. m s = Some (x, s') \<and> at s' vs' \<and> prefix vs vs' \<and> R vs' x"
  by (simp add: emits_def)

lemma emits_prefix: "emits at vs0 m R \<Longrightarrow> prefix vs0 vs \<Longrightarrow> emits at vs m R"
  unfolding emits_def by (blast intro: prefix_order.trans)

lemma emits_mono: "emits at vs m R \<Longrightarrow> (\<And>vs' x. prefix vs vs' \<Longrightarrow> R vs' x \<Longrightarrow> Q vs' x) \<Longrightarrow> emits at vs m Q"
  unfolding emits_def by (meson prefix_order.trans)

lemma emits_ret: "(\<And>vs. prefix vs0 vs \<Longrightarrow> R vs x) \<Longrightarrow> emits at vs0 (eret x) R"
  by (auto simp: emits_def eret_def)

lemma emits_bind:
  assumes "emits at vs0 m R" and "\<And>x vs. prefix vs0 vs \<Longrightarrow> R vs x \<Longrightarrow> emits at vs (f x) Q"
  shows "emits at vs0 (ebind m f) Q"
proof (rule emitsI)
  fix s vs assume at: "at s vs" and pre: "prefix vs0 vs"
  then obtain x s1 vs1 where one: "m s = Some (x, s1)" "at s1 vs1" "prefix vs vs1" "R vs1 x"
    using assms(1) unfolding emits_def by blast
  then obtain y s2 vs2 where "f x s1 = Some (y, s2)" "at s2 vs2" "prefix vs1 vs2" "Q vs2 y"
    using emits_run [OF assms(2)] pre by (meson prefix_order.trans)
  then show "\<exists>x s' vs'. ebind m f s = Some (x, s') \<and> at s' vs' \<and> prefix vs vs' \<and> Q vs' x"
    using one by (auto simp: ebind_def intro: prefix_order.trans)
qed

lemma emits_get: "x = Some v \<Longrightarrow> (\<And>vs. prefix vs0 vs \<Longrightarrow> R vs v) \<Longrightarrow> emits at vs0 (eget x) R"
  by (auto simp: emits_def eget_def)

text \<open>Variables that hold given values.\<close>

definition holding :: "bool \<Rightarrow> bool list \<Rightarrow> nat \<Rightarrow> bool" where
  "holding x vs v \<longleftrightarrow> nth_opt vs v = Some x"

definition holding_all :: "bool list \<Rightarrow> bool list \<Rightarrow> nat list \<Rightarrow> bool" where
  "holding_all xs vs as \<longleftrightarrow> nths_opt vs as = Some xs"

lemma holding_prefix: "holding x vs v \<Longrightarrow> prefix vs vs' \<Longrightarrow> holding x vs' v"
  unfolding holding_def by (rule nth_opt_prefix)

lemma holding_all_prefix: "holding_all xs vs as \<Longrightarrow> prefix vs vs' \<Longrightarrow> holding_all xs vs' as"
  unfolding holding_all_def by (rule nths_opt_prefix)

lemma holding_all_Nil [simp]: "holding_all xs vs [] \<longleftrightarrow> xs = []"
  by (auto simp: holding_all_def)

lemma holding_all_Cons [simp]:
  "holding_all xs vs (a # as) \<longleftrightarrow> (\<exists>y ys. xs = y # ys \<and> holding y vs a \<and> holding_all ys vs as)"
  by (auto simp: holding_all_def holding_def nths_opt_Cons bind_eq_Some_conv)

lemma holding_all_iff:
  "holding_all xs vs as \<longleftrightarrow> length xs = length as \<and> (\<forall>i < length as. holding (xs ! i) vs (as ! i))"
  by (auto simp: holding_all_def holding_def nths_opt_eq_Some nth_opt_eq_Some all_set_conv_all_nth intro: nth_equalityI)

lemma holding_all_length: "holding_all xs vs as \<Longrightarrow> length as = length xs"
  by (simp add: holding_all_iff)

lemma holding_all_nth: "holding_all xs vs as \<Longrightarrow> i < length xs \<Longrightarrow> holding (xs ! i) vs (as ! i)"
  by (simp add: holding_all_iff)

lemma holding_nth_prefix:
  "holding_all xs vs as \<Longrightarrow> i < length xs \<Longrightarrow> prefix vs vs' \<Longrightarrow> holding (xs ! i) vs' (as ! i)"
  by (rule holding_prefix [OF holding_all_nth])

lemma holding_all_append [simp]:
  "holding_all xs vs (as @ bs) \<longleftrightarrow> (\<exists>ys zs. xs = ys @ zs \<and> holding_all ys vs as \<and> holding_all zs vs bs)"
proof (induction as arbitrary: xs)
  case (Cons a as)
  then show ?case by (auto, metis append_Cons, blast)
qed simp

lemma holding_all_take: "holding_all xs vs as \<Longrightarrow> holding_all (take n xs) vs (take n as)"
  by (auto simp: holding_all_iff)

lemma emits_map:
  assumes "\<And>a vs. a \<in> set as \<Longrightarrow> prefix vs0 vs \<Longrightarrow> emits at vs (f a) (holding (g a))"
  shows "emits at vs0 (emap f as) (holding_all (map g as))"
  using assms
proof (induction as arbitrary: vs0)
  case Nil
  show ?case by (simp add: emits_ret)
next
  case (Cons a as)
  show ?case unfolding emap.simps
  proof (rule emits_bind [of _ _ _ "holding (g a)"])
    show "emits at vs0 (f a) (holding (g a))" using Cons.prems by simp
    fix y vs assume y: "prefix vs0 vs" "holding (g a) vs y"
    show "emits at vs (ebind (emap f as) (\<lambda>ys. eret (y # ys))) (holding_all (map g (a # as)))"
    proof (rule emits_bind)
      show "emits at vs (emap f as) (holding_all (map g as))"
        by (rule Cons.IH) (use Cons.prems y(1) in \<open>auto intro: prefix_order.trans\<close>)
      show "emits at vs' (eret (y # ys)) (holding_all (map g (a # as)))"
        if "prefix vs vs'" "holding_all (map g as) vs' ys" for ys vs'
        by (rule emits_ret) (use that y(2) in \<open>auto intro: holding_prefix holding_all_prefix\<close>)
    qed
  qed
qed


section \<open>Copied statements\<close>

text \<open>
  A table \<open>\<rho>\<close> of the copies of a block's variables: copies have the values of what they copy, and the
  copies of calls their bits. Unlike for \<open>renamed_state\<close>, two variables may have the same copy.
\<close>

definition tracked ::
  "ir_var list \<Rightarrow> bool list \<Rightarrow> oracle_agg \<Rightarrow> bool list \<Rightarrow> oracle_agg \<Rightarrow> bool" where
  "tracked \<rho> vs ag vs' ag' \<longleftrightarrow> length \<rho> = length vs
     \<and> (\<forall>v \<ge> length vs. ag v = None) \<and> (\<forall>v \<ge> length vs'. ag' v = None)
     \<and> (\<forall>v < length vs. \<rho> ! v < length vs' \<and> vs' ! (\<rho> ! v) = vs ! v \<and> (ag v \<noteq> None \<longrightarrow> ag' (\<rho> ! v) = ag v))"

lemma tracked_out:
  assumes "tracked \<rho> vs ag vs' ag'" and "\<forall>v \<in> set (operands k). v < length vs" and "\<forall>h \<in> set (handles k). ag h \<noteq> None"
  shows "stmt_out E (map_BIrStmt ((!) \<rho>) id k) vs' ag' st = stmt_out E k vs ag st"
  by (rule stmt_out_rename) (use assms in \<open>auto simp: tracked_def set_operands nth_opt_def\<close>)

lemma tracked_both:
  assumes "tracked \<rho> vs ag vs' ag'"
  shows "tracked (\<rho> @ [length vs']) (vs @ [x]) (put_call (length vs) bits ag)
    (vs' @ [x]) (put_call (length vs') bits ag')"
  using assms
  by (cases bits) (auto simp: tracked_def put_call_def nth_append less_Suc_eq)

lemma tracked_reuse:
  assumes "tracked \<rho> vs ag vs' ag'" and "holding x vs' w"
  shows "tracked (\<rho> @ [w]) (vs @ [x]) ag vs' ag'"
proof -
  have "(\<rho> @ [w]) ! v < length vs' \<and> vs' ! ((\<rho> @ [w]) ! v) = (vs @ [x]) ! v
      \<and> (ag v \<noteq> None \<longrightarrow> ag' ((\<rho> @ [w]) ! v) = ag v)" if "v < Suc (length vs)" for v
    using that assms by (cases "v = length vs") (auto simp: tracked_def nth_append holding_def nth_opt_eq_Some)
  then show ?thesis using assms(1) by (simp add: tracked_def)
qed

lemma tracked_extended:
  assumes "tracked \<rho> vs ag vs' ag'" and "prefix vs' vs2" and "\<forall>v < length vs'. ag2 v = ag' v"
    and "\<forall>v \<ge> length vs2. ag2 v = None"
  shows "tracked \<rho> vs ag vs2 ag2"
  using assms by (auto simp: tracked_def prefix_def nth_append)

text \<open>At the start of a block the copies are those of its parameters.\<close>

lemma tracked_start:
  assumes "holding_all xs vs' \<rho>" and "\<forall>v \<ge> length vs'. ag' v = None"
  shows "tracked \<rho> xs Map.empty vs' ag'"
  using assms by (auto simp: tracked_def holding_all_iff holding_def nth_opt_eq_Some)

lemma tracked_holding: "tracked \<rho> vs ag vs' ag' \<Longrightarrow> holding_all vs vs' \<rho>"
  by (auto simp: tracked_def holding_all_iff holding_def nth_opt_eq_Some)

section \<open>Emitters that append\<close>

fun is_gate :: "bstmt \<Rightarrow> bool" where
  "is_gate BZero = True"
| "is_gate BOne = True"
| "is_gate (BAnd _ _) = True"
| "is_gate (BOr _ _) = True"
| "is_gate (BXor _ _) = True"
| "is_gate (BNot _) = True"
| "is_gate _ = False"

text \<open>The statements a pass emits: its own gates, and copies of source statements.\<close>

definition drawn :: "bstmt set \<Rightarrow> bstmt \<Rightarrow> bool" where
  "drawn S k \<longleftrightarrow> is_gate k \<or> (\<exists>k' \<in> S. \<exists>f. k = map_BIrStmt f id k')"

lemma drawn_gate: "is_gate k \<Longrightarrow> drawn S k"
  by (simp add: drawn_def)

lemma drawn_copy: "k \<in> S \<Longrightarrow> drawn S (map_BIrStmt f id k)"
  by (auto simp: drawn_def)

lemma drawn_self: "k \<in> S \<Longrightarrow> drawn S k"
  unfolding drawn_def by (metis BIrStmt.map_id0 id_apply)

lemma gate_handles: "is_gate k \<Longrightarrow> handles k = []"
  by (cases k) auto

lemma gate_no_call: "is_gate k \<Longrightarrow> \<not> is_call k"
  by (cases k) auto

lemma gate_operands: "is_gate k \<Longrightarrow> stmt_out E k vs ag st = Some r \<Longrightarrow> \<forall>v \<in> set (operands k). v < length vs"
  by (cases k) (auto simp: bind_eq_Some_conv nth_opt_eq_Some)

text \<open>A gate's outcome depends on its operands' values only.\<close>

lemma gate_out:
  assumes "is_gate k" and "stmt_out E k vs ag st = Some (x, bits, st')" and pre: "prefix vs vs'"
  shows "bits = None \<and> st' = st \<and> stmt_out E k vs' ag' st'' = Some (x, None, st'')"
  using assms(1,2) by (cases k) (auto simp: bind_eq_Some_conv dest!: nth_opt_prefix [OF _ pre])

lemma stmt_out_call: "stmt_out E k vs ag st = Some (x, bits, st') \<Longrightarrow> bits \<noteq> None \<longleftrightarrow> is_call k"
  by (cases k) (auto simp: bind_eq_Some_conv split: if_splits)

lemma calls_snoc:
  "calls base (ns @ [n]) = calls base ns \<union> (if is_call (kind n) then {base + length ns} else {})"
proof (rule set_eqI)
  fix v show "v \<in> calls base (ns @ [n]) \<longleftrightarrow> v \<in> calls base ns \<union> (if is_call (kind n) then {base + length ns} else {})"
    by (cases "v = base + length ns") (auto simp: calls_def nth_append)
qed

lemma list_ok_snoc:
  "list_ok base ns \<Longrightarrow> \<forall>v \<in> set (operands (kind n)). v < base + length ns \<Longrightarrow> set (handles (kind n)) \<subseteq> calls base ns
   \<Longrightarrow> list_ok base (ns @ [n])"
  by (auto simp: list_ok_def calls_snoc nth_append less_Suc_eq)

lemma list_ok_Nil [simp]: "list_ok base []"
  by (simp add: list_ok_def)

text \<open>\<open>runs S E ins st0 ns vs ag st\<close>: the statements \<open>ns\<close>, which are well formed and drawn from \<open>S\<close>, started
  with parameters \<open>ins\<close> and storage \<open>st0\<close>, end with values \<open>vs\<close>, call bits \<open>ag\<close> and storage \<open>st\<close>.\<close>

definition runs ::
  "bstmt set \<Rightarrow> externals \<Rightarrow> bool list \<Rightarrow> bstorage \<Rightarrow> 'p node list \<Rightarrow> bool list \<Rightarrow> oracle_agg \<Rightarrow> bstorage \<Rightarrow> bool" where
  "runs S E ins st0 ns vs ag st \<longleftrightarrow> eval_stmts E ns (length ins) (ins, Map.empty, st0) = Some (vs, ag, st)
     \<and> list_ok (length ins) ns \<and> (\<forall>n \<in> set ns. drawn S (kind n))"

lemma runs_start: "runs S E ins st [] ins Map.empty st"
  by (simp add: runs_def)

lemma runs_length: "runs S E ins st0 ns vs ag st \<Longrightarrow> length vs = length ins + length ns"
  unfolding runs_def by (blast intro: eval_stmts_length)

text \<open>The calls of a run are the variables that hold call bits.\<close>

lemma evaluated_calls:
  "eval_stmts E ns (length ins) (ins, Map.empty, st0) = Some (vs, ag, st) \<Longrightarrow> ag v \<noteq> None \<longleftrightarrow> v \<in> calls (length ins) ns"
proof (induction ns arbitrary: vs ag st rule: rev_induct)
  case Nil
  then show ?case by (auto simp: calls_def)
next
  case (snoc n ns)
  then obtain vs1 ag1 st1 where one: "eval_stmts E ns (length ins) (ins, Map.empty, st0) = Some (vs1, ag1, st1)"
    by (auto simp: eval_stmts_snoc bind_eq_Some_conv)
  with snoc.prems obtain x bits st2 where "stmt_out E (kind n) vs1 ag1 st1 = Some (x, bits, st2)"
      "ag = put_call (length ins + length ns) bits ag1"
    by (auto simp: eval_stmts_snoc bind_eq_Some_conv eval_stmt_out)
  then show ?case using snoc.IH [OF one] stmt_out_call [of E "kind n" vs1 ag1 st1 x bits st2]
    by (cases bits) (auto simp: put_call_def calls_snoc)
qed

lemma runs_call_iff: "runs S E ins st0 ns vs ag st \<Longrightarrow> ag v \<noteq> None \<longleftrightarrow> v \<in> calls (length ins) ns"
  unfolding runs_def using evaluated_calls by blast

lemma runs_calls: "runs S E ins st0 ns vs ag st \<Longrightarrow> v \<ge> length vs \<Longrightarrow> ag v = None"
  using runs_call_iff [of S E ins st0 ns vs ag st v] runs_length [of S E ins st0 ns vs ag st] by (auto simp: calls_def)

lemma runs_snoc:
  assumes run: "runs S E ins st0 ns vs ag st" and "stmt_out E k vs ag st = Some (x, bits, st')"
    and "drawn S k" and "\<forall>v \<in> set (operands k). v < length vs" and "\<forall>h \<in> set (handles k). ag h \<noteq> None"
  shows "runs S E ins st0 (ns @ [Node_new k p sd]) (vs @ [x]) (put_call (length vs) bits ag) st'"
proof -
  have "set (handles k) \<subseteq> calls (length ins) ns" using assms(5) runs_call_iff [OF run] by blast
  then have "list_ok (length ins) (ns @ [Node_new k p sd])"
    using run assms(4) runs_length [OF run] by (intro list_ok_snoc) (auto simp: runs_def Node_new_def)
  then show ?thesis
    using assms(1-3) runs_length [OF run] by (simp add: runs_def eval_stmts_snoc eval_stmt_out Node_new_def)
qed

text \<open>One statement of a block that is being copied, and the run of its block so far.\<close>

lemma source_step:
  assumes run: "runs UNIV E src sta pre vs ag st" and ok: "list_ok (length src) (pre @ n # ns)"
    and ev: "eval_stmts E (n # ns) (length vs) (vs, ag, st) = Some res"
  obtains x bits st2 where "stmt_out E (kind n) vs ag st = Some (x, bits, st2)"
    and "\<forall>v \<in> set (operands (kind n)). v < length vs" and "\<forall>h \<in> set (handles (kind n)). ag h \<noteq> None"
    and "runs UNIV E src sta (pre @ [n]) (vs @ [x]) (put_call (length vs) bits ag) st2"
    and "eval_stmts E ns (length (vs @ [x])) (vs @ [x], put_call (length vs) bits ag, st2) = Some res"
proof -
  obtain x bits st2 where out: "stmt_out E (kind n) vs ag st = Some (x, bits, st2)"
    and rest: "eval_stmts E ns (Suc (length vs)) (vs @ [x], put_call (length vs) bits ag, st2) = Some res"
    using ev by (auto simp: eval_stmts_out bind_eq_Some_conv simp del: eval_stmts.simps)
  have len: "length vs = length src + length pre" using runs_length [OF run] .
  have n: "(pre @ n # ns) ! length pre = n" by (simp add: nth_append)
  have ops: "\<forall>v \<in> set (operands (kind n)). v < length vs" and hs: "set (handles (kind n)) \<subseteq> calls (length src) (pre @ n # ns)"
    using ok [unfolded list_ok_def, rule_format, of "length pre"] by (simp_all add: n len)
  have "ag h \<noteq> None" if "h \<in> set (handles (kind n))" for h
  proof -
    have "h < length src + length pre" "h \<in> calls (length src) (pre @ n # ns)"
      using that ops hs len by (auto simp: set_operands)
    moreover from this have "h - length src < length pre" by (auto simp: calls_def)
    ultimately have "h \<in> calls (length src) pre" by (simp add: calls_def nth_append)
    then show ?thesis using runs_call_iff [OF run] by (auto simp: calls_def)
  qed
  moreover have "drawn UNIV (kind n)" by (rule drawn_self) simp
  moreover have "Node_new (kind n) (prov n) (side n) = n" by (cases n) (simp add: Node_new_def)
  ultimately show ?thesis
    using that [OF out ops] rest runs_snoc [OF run out, of "prov n" "side n"] ops by simp
qed

text \<open>
  \<open>copy_stmts copy ns var_map\<close> re-emits a block's statements with their operands substituted;
  an operand outside the table panics. A \<open>copier\<close> returns for a copied statement a variable that
  computes what the statement computes (a new one, or an old one it knows to be equal).
\<close>

fun copy_stmts ::
  "(bstmt \<Rightarrow> 'p \<Rightarrow> ('s, nat) emission) \<Rightarrow> 'p node list \<Rightarrow> nat list \<Rightarrow> ('s, nat list) emission" where
  "copy_stmts copy [] var_map = eret var_map"
| "copy_stmts copy (n # ns) var_map =
     ebind (eget (if \<forall>v \<in> set (operands (kind n)). v < length var_map
                  then Some (map_BIrStmt ((!) var_map) id (kind n)) else None)) (\<lambda>k.
     ebind (copy k (prov n)) (\<lambda>i. copy_stmts copy ns (var_map @ [i])))"

locale copier =
  fixes copy :: "bstmt \<Rightarrow> 'p \<Rightarrow> ('s, nat) emission" and code :: "'s \<Rightarrow> 'p node list"
    and base :: nat and ok :: "'s \<Rightarrow> bool list \<Rightarrow> bool"
  assumes copy_law: "length ins = base \<Longrightarrow> ok s vs' \<Longrightarrow> runs S E ins st0 (code s) vs' ag' st
    \<Longrightarrow> tracked \<rho> vs ag vs' ag' \<Longrightarrow> \<forall>v \<in> set (operands k). v < length vs
    \<Longrightarrow> \<forall>h \<in> set (handles k). ag h \<noteq> None \<Longrightarrow> k \<in> S \<Longrightarrow> stmt_out E k vs ag st = Some (x, bits, st')
    \<Longrightarrow> \<exists>w s' vs2 ag2. copy (map_BIrStmt ((!) \<rho>) id k) p s = Some (w, s') \<and> ok s' vs2 \<and> prefix vs' vs2
      \<and> runs S E ins st0 (code s') vs2 ag2 st'
      \<and> tracked (\<rho> @ [w]) (vs @ [x]) (put_call (length vs) bits ag) vs2 ag2"
begin

lemma copy_stmts_run:
  assumes "length ins = base" and "ok s vs'" and "runs S E ins st0 (code s) vs' ag' st"
    and "tracked \<rho> vs ag vs' ag'" and "runs UNIV E src sta pre vs ag st"
    and "list_ok (length src) (pre @ ns)" and "\<forall>n \<in> set ns. kind n \<in> S"
    and "eval_stmts E ns (length vs) (vs, ag, st) = Some (vs1, ag1, st1)"
  shows "\<exists>\<rho>' s' vs2 ag2. copy_stmts copy ns \<rho> s = Some (\<rho>', s') \<and> ok s' vs2
    \<and> runs S E ins st0 (code s') vs2 ag2 st1 \<and> prefix vs' vs2 \<and> tracked \<rho>' vs1 ag1 vs2 ag2"
  using assms(2-)
proof (induction ns arbitrary: s vs' ag' st \<rho> vs ag pre)
  case Nil
  then show ?case by (auto simp: eret_def)
next
  case (Cons n ns)
  obtain x bits st2 where out: "stmt_out E (kind n) vs ag st = Some (x, bits, st2)"
    and ops: "\<forall>v \<in> set (operands (kind n)). v < length vs"
    and hs: "\<forall>h \<in> set (handles (kind n)). ag h \<noteq> None"
    and run: "runs UNIV E src sta (pre @ [n]) (vs @ [x]) (put_call (length vs) bits ag) st2"
    and rest: "eval_stmts E ns (length (vs @ [x])) (vs @ [x], put_call (length vs) bits ag, st2) = Some (vs1, ag1, st1)"
    using source_step [OF Cons.prems(4,5,7)] by blast
  have len: "length \<rho> = length vs" using Cons.prems(3) by (simp add: tracked_def)
  have S: "kind n \<in> S" "\<forall>n \<in> set ns. kind n \<in> S" using Cons.prems(6) by simp_all
  obtain w s1 vs2 ag2 where s1: "copy (map_BIrStmt ((!) \<rho>) id (kind n)) (prov n) s = Some (w, s1)"
      "ok s1 vs2" "prefix vs' vs2" "runs S E ins st0 (code s1) vs2 ag2 st2"
      "tracked (\<rho> @ [w]) (vs @ [x]) (put_call (length vs) bits ag) vs2 ag2"
    using copy_law [OF assms(1) Cons.prems(1-3) ops hs S(1) out] by blast
  have ok: "list_ok (length src) ((pre @ [n]) @ ns)" using Cons.prems(5) by simp
  from Cons.IH [OF s1(2,4,5) run ok S(2) rest]
  obtain \<rho>' s2 vs3 ag3 where "copy_stmts copy ns (\<rho> @ [w]) s1 = Some (\<rho>', s2)" "ok s2 vs3"
      "runs S E ins st0 (code s2) vs3 ag3 st1" "prefix vs2 vs3" "tracked \<rho>' vs1 ag1 vs3 ag3" by blast
  then show ?case
    using s1(1,3) ops len by (auto simp: ebind_def eget_def intro: prefix_order.trans)
qed

text \<open>A whole block, started on variables that hold its parameters.\<close>

lemma copy_block:
  assumes "length ins = base" and "ok s vs'" and run: "runs S E ins st0 (code s) vs' ag' st"
    and \<rho>: "holding_all src vs' \<rho>" and "list_ok (length src) ns" and "\<forall>n \<in> set ns. kind n \<in> S"
    and "eval_stmts E ns (length src) (src, Map.empty, st) = Some (vs1, ag1, st1)"
  shows "\<exists>\<rho>' s' vs2 ag2. copy_stmts copy ns \<rho> s = Some (\<rho>', s') \<and> ok s' vs2
    \<and> runs S E ins st0 (code s') vs2 ag2 st1 \<and> prefix vs' vs2 \<and> holding_all vs1 vs2 \<rho>'"
proof -
  have "tracked \<rho> src Map.empty vs' ag'" using tracked_start [OF \<rho>] runs_calls [OF run] by blast
  from copy_stmts_run [OF assms(1-3) this runs_start] assms(5-7) show ?thesis
    by (fastforce dest: tracked_holding)
qed

end

text \<open>
  \<open>push\<close> appends a statement with a provenance and returns its variable; \<open>ok\<close> is what the emitter's
  bookkeeping maintains about the values computed so far.
\<close>

locale appender =
  fixes push :: "bstmt \<Rightarrow> 'p \<Rightarrow> ('s, nat) emission" and code :: "'s \<Rightarrow> 'p node list"
    and base :: nat and ok :: "'s \<Rightarrow> bool list \<Rightarrow> bool"
  assumes push_law: "ok s vs \<Longrightarrow> length vs = base + length (code s) \<Longrightarrow>
    \<exists>s'. push k p s = Some (length vs, s') \<and> code s' = code s @ [Node_new k p None] \<and> ok s' (vs @ [x])"
begin

definition at :: "bstmt set \<Rightarrow> externals \<Rightarrow> bool list \<Rightarrow> bstorage \<Rightarrow> bstorage \<Rightarrow> 's \<Rightarrow> bool list \<Rightarrow> bool" where
  "at S E ins st0 st s vs \<longleftrightarrow> length ins = base \<and> ok s vs \<and> (\<exists>ag. runs S E ins st0 (code s) vs ag st)"

lemma push_run:
  assumes "length ins = base" and "ok s vs" and "runs S E ins st0 (code s) vs ag st"
    and "stmt_out E k vs ag st = Some (x, bits, st')"
    and "drawn S k" and "\<forall>v \<in> set (operands k). v < length vs" and "\<forall>h \<in> set (handles k). ag h \<noteq> None"
  shows "\<exists>s'. push k p s = Some (length vs, s') \<and> code s' = code s @ [Node_new k p None] \<and> ok s' (vs @ [x])
    \<and> runs S E ins st0 (code s') (vs @ [x]) (put_call (length vs) bits ag) st'"
  using push_law [OF assms(2), of k p x] runs_length [OF assms(3)] runs_snoc [OF assms(3-7)] assms(1) by fastforce

text \<open>A copied statement.\<close>

lemma push_copy:
  assumes "length ins = base" and "ok s vs'" and "runs S E ins st0 (code s) vs' ag' st"
    and tr: "tracked \<rho> vs ag vs' ag'" and ops: "\<forall>v \<in> set (operands k). v < length vs"
    and hs: "\<forall>h \<in> set (handles k). ag h \<noteq> None" and "k \<in> S"
    and "stmt_out E k vs ag st = Some (x, bits, st')"
  shows "\<exists>s'. push (map_BIrStmt ((!) \<rho>) id k) p s = Some (length vs', s') \<and> ok s' (vs' @ [x])
    \<and> runs S E ins st0 (code s') (vs' @ [x]) (put_call (length vs') bits ag') st'
    \<and> tracked (\<rho> @ [length vs']) (vs @ [x]) (put_call (length vs) bits ag) (vs' @ [x]) (put_call (length vs') bits ag')"
proof -
  have "\<forall>v \<in> set (operands (map_BIrStmt ((!) \<rho>) id k)). v < length vs'"
    using tr ops by (auto simp: tracked_def operands_map)
  moreover have "\<forall>h \<in> set (handles (map_BIrStmt ((!) \<rho>) id k)). ag' h \<noteq> None"
    using tr ops hs by (auto simp: tracked_def set_operands handles_map)
  ultimately show ?thesis
    using push_run [OF assms(1-3), of "map_BIrStmt ((!) \<rho>) id k" x bits st' p] tracked_out [OF tr ops, of E st]
      tracked_both [OF tr, of x bits] assms(7,8) hs drawn_copy by auto
qed

lemma emits_push:
  assumes "is_gate k" and "\<And>vs ag. prefix vs0 vs \<Longrightarrow> stmt_out E k vs ag st = Some (x, None, st)"
  shows "emits (at S E ins st0 st) vs0 (push k p) (holding x)"
proof (rule emitsI)
  fix s vs assume at: "at S E ins st0 st s vs" and pre: "prefix vs0 vs"
  then obtain ag where ag: "length ins = base" "ok s vs" "runs S E ins st0 (code s) vs ag st"
    by (auto simp: at_def)
  note out = assms(2) [OF pre]
  obtain s' where s': "push k p s = Some (length vs, s')" "ok s' (vs @ [x])"
      "runs S E ins st0 (code s') (vs @ [x]) (put_call (length vs) None ag) st"
    using push_run [OF ag out drawn_gate [OF assms(1)] gate_operands [OF assms(1) out], of p] gate_handles [OF assms(1)]
    by auto
  then have "at S E ins st0 st s' (vs @ [x])" using ag(1) by (auto simp: at_def)
  with s'(1) show "\<exists>v s' vs'. push k p s = Some (v, s') \<and> at S E ins st0 st s' vs' \<and> prefix vs vs' \<and> holding x vs' v"
    by (fastforce simp: holding_def nth_opt_def)
qed

lemma emits_zero: "emits (at S E ins st0 st) vs (push BZero p) (holding False)"
  by (rule emits_push) simp_all

lemma emits_one: "emits (at S E ins st0 st) vs (push BOne p) (holding True)"
  by (rule emits_push) simp_all

lemma emits_not: "holding x vs a \<Longrightarrow> emits (at S E ins st0 st) vs (push (BNot a) p) (holding (\<not> x))"
  by (rule emits_push, simp) ((drule (1) holding_prefix)+, simp add: holding_def)

lemma emits_and:
  "holding x vs a \<Longrightarrow> holding y vs b \<Longrightarrow> emits (at S E ins st0 st) vs (push (BAnd a b) p) (holding (x \<and> y))"
  by (rule emits_push, simp) ((drule (1) holding_prefix)+, simp add: holding_def)

lemma emits_or:
  "holding x vs a \<Longrightarrow> holding y vs b \<Longrightarrow> emits (at S E ins st0 st) vs (push (BOr a b) p) (holding (x \<or> y))"
  by (rule emits_push, simp) ((drule (1) holding_prefix)+, simp add: holding_def)

lemma emits_xor:
  "holding x vs a \<Longrightarrow> holding y vs b \<Longrightarrow> emits (at S E ins st0 st) vs (push (BXor a b) p) (holding (x \<noteq> y))"
  by (rule emits_push, simp) ((drule (1) holding_prefix)+, simp add: holding_def)

text \<open>\<open>mux(c, a, b) = ((a xor b) and c) xor b\<close>, in either order of the conjunction.\<close>

lemma emits_mux:
  assumes "holding c vs s" and "holding x vs a" and "holding y vs b"
  shows "emits (at S E ins st0 st) vs (ebind (push (BXor a b) p) (\<lambda>d. ebind (push (BAnd s d) p) (\<lambda>e. push (BXor e b) p)))
    (holding (if c then x else y))"
proof (rule emits_bind [OF emits_xor [OF assms(2,3)]], rule emits_bind)
  fix d vs1 assume d: "prefix vs vs1" "holding (x \<noteq> y) vs1 d"
  show "emits (at S E ins st0 st) vs1 (push (BAnd s d) p) (holding (c \<and> x \<noteq> y))"
    by (rule emits_and) (use d assms(1) in \<open>auto intro: holding_prefix\<close>)
  fix e vs2 assume e: "prefix vs1 vs2" "holding (c \<and> x \<noteq> y) vs2 e"
  have "holding y vs2 b" using assms(3) d(1) e(1) by (meson holding_prefix)
  from emits_xor [OF e(2) this]
  show "emits (at S E ins st0 st) vs2 (push (BXor e b) p) (holding (if c then x else y))"
    by (rule emits_mono) (cases c; cases x; cases y; simp)
qed

end

text \<open>An appender copies by appending.\<close>

sublocale appender \<subseteq> copier push code base ok
proof
  fix ins :: "bool list" and s :: 's and vs' S E st0 ag' st \<rho> vs ag k x bits st' and p :: 'p
  assume "length ins = base" "ok s vs'" "runs S E ins st0 (code s) vs' ag' st" "tracked \<rho> vs ag vs' ag'"
    "\<forall>v \<in> set (operands k). v < length vs" "\<forall>h \<in> set (handles k). ag h \<noteq> None" "k \<in> S"
    "stmt_out E k vs ag st = Some (x, bits, st')"
  from push_copy [OF this, of p]
  show "\<exists>w s' vs2 ag2. push (map_BIrStmt ((!) \<rho>) id k) p s = Some (w, s') \<and> ok s' vs2 \<and> prefix vs' vs2
      \<and> runs S E ins st0 (code s') vs2 ag2 st'
      \<and> tracked (\<rho> @ [w]) (vs @ [x]) (put_call (length vs) bits ag) vs2 ag2"
    by (metis prefixI)
qed

section \<open>The dispatch primitives\<close>

text \<open>\<open>DispatchBitPrimitives\<close>: the operations an emitter context provides.\<close>

record 's bit_prims =
  prim_zero :: "('s, nat) emission"
  prim_one :: "('s, nat) emission"
  prim_and :: "nat \<Rightarrow> nat \<Rightarrow> ('s, nat) emission"
  prim_xor :: "nat \<Rightarrow> nat \<Rightarrow> ('s, nat) emission"
  prim_not :: "nat \<Rightarrow> ('s, nat) emission"

definition emit_select_bit :: "'s bit_prims \<Rightarrow> nat \<Rightarrow> nat \<Rightarrow> nat \<Rightarrow> ('s, nat) emission" where
  "emit_select_bit c cond a b =
     ebind (prim_xor c a b) (\<lambda>xab. ebind (prim_and c cond xab) (\<lambda>sel. prim_xor c sel b))"

definition pc_literal :: "'s bit_prims \<Rightarrow> nat \<Rightarrow> nat \<Rightarrow> nat \<Rightarrow> ('s, nat) emission" where
  "pc_literal c block_idx j pc = (if bit block_idx j then eret pc else prim_not c pc)"

fun is_block_from :: "'s bit_prims \<Rightarrow> nat \<Rightarrow> nat \<Rightarrow> nat list \<Rightarrow> nat \<Rightarrow> ('s, nat) emission" where
  "is_block_from c block_idx j [] acc = eret acc"
| "is_block_from c block_idx j (pc # pcs) acc =
     ebind (pc_literal c block_idx j pc) (\<lambda>b. ebind (prim_and c acc b)
       (is_block_from c block_idx (Suc j) pcs))"

definition emit_is_block :: "'s bit_prims \<Rightarrow> nat list \<Rightarrow> nat \<Rightarrow> ('s, nat) emission" where
  "emit_is_block c pc_vars block_idx =
     (case pc_vars of
        [] \<Rightarrow> prim_one c
      | pc # pcs \<Rightarrow> ebind (pc_literal c block_idx 0 pc) (is_block_from c block_idx 1 pcs))"

definition encode_pc_bits :: "'s bit_prims \<Rightarrow> nat \<Rightarrow> nat \<Rightarrow> ('s, nat list) emission" where
  "encode_pc_bits c block_idx pc_width =
     emap (\<lambda>j. if bit block_idx j then prim_one c else prim_zero c) [0..<pc_width]"

definition pc_bits :: "nat \<Rightarrow> nat \<Rightarrow> bool list" where
  "pc_bits w i = map (bit i) [0..<w]"

lemma length_pc_bits [simp]: "length (pc_bits w i) = w"
  by (simp add: pc_bits_def)

locale bit_emitter =
  fixes c :: "'s bit_prims" and at :: "'s \<Rightarrow> bool list \<Rightarrow> bool"
  assumes zero: "emits at vs (prim_zero c) (holding False)"
    and one: "emits at vs (prim_one c) (holding True)"
    and conj: "holding x vs a \<Longrightarrow> holding y vs b \<Longrightarrow> emits at vs (prim_and c a b) (holding (x \<and> y))"
    and xor: "holding x vs a \<Longrightarrow> holding y vs b \<Longrightarrow> emits at vs (prim_xor c a b) (holding (x \<noteq> y))"
    and neg: "holding x vs a \<Longrightarrow> emits at vs (prim_not c a) (holding (\<not> x))"
begin

lemma select_bit:
  assumes "holding s vs cond" and "holding x vs a" and "holding y vs b"
  shows "emits at vs (emit_select_bit c cond a b) (holding (if s then x else y))"
  unfolding emit_select_bit_def
proof (rule emits_bind [OF xor [OF assms(2,3)]], rule emits_bind)
  fix d vs1 assume d: "prefix vs vs1" "holding (x \<noteq> y) vs1 d"
  show "emits at vs1 (prim_and c cond d) (holding (s \<and> x \<noteq> y))"
    by (rule conj) (use d assms(1) in \<open>auto intro: holding_prefix\<close>)
  fix e vs2 assume e: "prefix vs1 vs2" "holding (s \<and> x \<noteq> y) vs2 e"
  have "holding y vs2 b" using assms(3) d(1) e(1) by (meson holding_prefix)
  from xor [OF e(2) this] show "emits at vs2 (prim_xor c e b) (holding (if s then x else y))"
    by (rule emits_mono) (cases s; cases x; cases y; simp)
qed

lemma literal:
  "holding x vs pc \<Longrightarrow> emits at vs (pc_literal c i j pc) (holding (x = bit i j))"
  using neg [of x vs pc] by (auto simp: pc_literal_def intro: emits_ret holding_prefix)

lemma is_block_tail:
  "holding_all xs vs pcs \<Longrightarrow> holding a vs acc \<Longrightarrow>
   emits at vs (is_block_from c i j pcs acc) (holding (a \<and> xs = map (bit i) [j..<j + length pcs]))"
proof (induction pcs arbitrary: j acc a xs vs)
  case Nil
  then show ?case by (auto intro: emits_ret holding_prefix)
next
  case (Cons pc pcs)
  then obtain x ys where xs: "xs = x # ys" "holding x vs pc" "holding_all ys vs pcs" by auto
  show ?case unfolding is_block_from.simps
  proof (rule emits_bind [OF literal [OF xs(2)]], rule emits_bind)
    fix b vs1 assume b: "prefix vs vs1" "holding (x = bit i j) vs1 b"
    show "emits at vs1 (prim_and c acc b) (holding (a \<and> x = bit i j))"
      by (rule conj) (use b Cons.prems(2) in \<open>auto intro: holding_prefix\<close>)
    fix acc' vs2 assume acc': "prefix vs1 vs2" "holding (a \<and> x = bit i j) vs2 acc'"
    have rest: "holding_all ys vs2 pcs" using xs(3) b(1) acc'(1) by (meson holding_all_prefix)
    have "[j..<j + length (pc # pcs)] = j # [Suc j..<Suc j + length pcs]"
      by (simp add: upt_conv_Cons del: upt_Suc)
    with Cons.IH [OF rest acc'(2), of "Suc j"]
    show "emits at vs2 (is_block_from c i (Suc j) pcs acc')
        (holding (a \<and> xs = map (bit i) [j..<j + length (pc # pcs)]))"
      by (simp add: xs(1) conj_assoc)
  qed
qed

text \<open>The dispatch condition of block \<open>i\<close>: the program counter is \<open>i\<close> in its width.\<close>

lemma is_block:
  assumes "holding_all pc vs pcs"
  shows "emits at vs (emit_is_block c pcs i) (holding (pc = pc_bits (length pcs) i))"
proof (cases pcs)
  case Nil
  then show ?thesis using assms one by (simp add: emit_is_block_def pc_bits_def)
next
  case (Cons q qs)
  then obtain x ys where pc: "pc = x # ys" "holding x vs q" "holding_all ys vs qs" using assms by auto
  have "emits at vs1 (is_block_from c i 1 qs b) (holding (pc = pc_bits (length pcs) i))"
    if "prefix vs vs1" "holding (x = bit i 0) vs1 b" for vs1 b
    using is_block_tail [OF holding_all_prefix [OF pc(3) that(1)] that(2), of i 1]
    by (simp add: pc(1) Cons pc_bits_def upt_conv_Cons del: upt_Suc)
  then show ?thesis
    unfolding emit_is_block_def Cons list.case
    by (intro emits_bind [OF literal [OF pc(2)]]) (simp add: Cons)
qed

lemma encode: "emits at vs (encode_pc_bits c i w) (holding_all (pc_bits w i))"
  unfolding encode_pc_bits_def pc_bits_def
  by (rule emits_map) (use zero one in auto)

end

end
