(* ===== verification/LowerCircuit.thy ===== *)
theory LowerCircuit
  imports Dispatch
begin

unbundle bit_operations_syntax

text \<open>
  Loop lowering (\<open>volar-ir-passes/src/lower_to_circuit.rs\<close>, Boolar half, and \<open>fuse_to_circuit.rs\<close>): a single
  self-looping block is unrolled a bounded number of times into a circuit, with multiplexers that
  select the results of the first iteration that exits. Only definitions; the theorems are in
  \<open>LowerCircuitProps\<close>. \<open>None\<close> is a panic.
\<close>

datatype LoweringMode = Unconditional | WithTerminationFlag

section \<open>The emitter and its cache of pure gates\<close>

datatype SubstitutedGateKind = KZero | KOne | KAnd | KOr | KXor | KNot

record SubstitutedGateKey =
  key_kind :: SubstitutedGateKind
  key_lo :: nat
  key_hi :: nat

definition key_constant :: "SubstitutedGateKind \<Rightarrow> SubstitutedGateKey" where
  "key_constant k = \<lparr>key_kind = k, key_lo = 0, key_hi = 0\<rparr>"

definition key_binary :: "SubstitutedGateKind \<Rightarrow> nat \<Rightarrow> nat \<Rightarrow> SubstitutedGateKey" where
  "key_binary k a b =
     (let (lo, hi) = (if a \<le> b then (a, b) else (b, a)) in \<lparr>key_kind = k, key_lo = lo, key_hi = hi\<rparr>)"

fun key_from_stmt :: "bstmt \<Rightarrow> SubstitutedGateKey option" where
  "key_from_stmt BZero = Some (key_constant KZero)"
| "key_from_stmt BOne = Some (key_constant KOne)"
| "key_from_stmt (BAnd a b) = Some (key_binary KAnd a b)"
| "key_from_stmt (BOr a b) = Some (key_binary KOr a b)"
| "key_from_stmt (BXor a b) = Some (key_binary KXor a b)"
| "key_from_stmt (BNot a) = Some \<lparr>key_kind = KNot, key_lo = a, key_hi = 0\<rparr>"
| "key_from_stmt _ = None"

text \<open>
  The direct-mapped cache: an array of \<open>CAPACITY\<close> slots, kept as the finite map of the slots that are
  filled. The slot of a key is a 64-bit hash; variable identifiers are \<open>u32\<close>.
\<close>

definition CAPACITY :: nat where
  "CAPACITY = 2 ^ 18"

type_synonym gate_cache = "nat \<rightharpoonup> SubstitutedGateKey \<times> nat"

definition kind_tag :: "SubstitutedGateKind \<Rightarrow> 64 word" where
  "kind_tag k = (case k of KZero \<Rightarrow> 0 | KOne \<Rightarrow> 1 | KAnd \<Rightarrow> 2 | KOr \<Rightarrow> 3 | KXor \<Rightarrow> 4 | KNot \<Rightarrow> 5)"

definition cache_slot :: "SubstitutedGateKey \<Rightarrow> nat" where
  "cache_slot key =
     (let h0 = push_bit 32 (word_of_nat (key_lo key)) OR word_of_nat (key_hi key) :: 64 word;
          h1 = h0 XOR kind_tag (key_kind key) * 0x9e3779b97f4a7c15;
          h2 = (h1 XOR drop_bit 30 h1) * 0xbf58476d1ce4e5b9;
          h3 = (h2 XOR drop_bit 27 h2) * 0x94d049bb133111eb;
          h4 = h3 XOR drop_bit 31 h3
      in unat (h4 AND word_of_nat (CAPACITY - 1)))"

definition cache_get :: "gate_cache \<Rightarrow> SubstitutedGateKey \<Rightarrow> nat option" where
  "cache_get c key =
     (case c (cache_slot key) of None \<Rightarrow> None
      | Some (stored, v) \<Rightarrow> if stored = key then Some v else None)"

definition cache_insert :: "gate_cache \<Rightarrow> SubstitutedGateKey \<Rightarrow> nat \<Rightarrow> gate_cache" where
  "cache_insert c key v = c(cache_slot key \<mapsto> (key, v))"

record 'p Emitter =
  em_stmts :: "'p node list"
  em_next_id :: nat
  em_substituted_gates :: "gate_cache option"

type_synonym ('p, 'a) em_step = "('p Emitter, 'a) emission"

definition em_new :: "nat \<Rightarrow> 'p Emitter" where
  "em_new first_id = \<lparr>em_stmts = [], em_next_id = first_id, em_substituted_gates = None\<rparr>"

definition em_emit :: "bstmt \<Rightarrow> 'p \<Rightarrow> ('p, nat) em_step" where
  "em_emit k p s = Some (em_next_id s,
     s\<lparr>em_stmts := em_stmts s @ [Node_new k p None], em_next_id := em_next_id s + 1\<rparr>)"

definition em_remember :: "SubstitutedGateKey \<Rightarrow> nat \<Rightarrow> ('p, nat) em_step" where
  "em_remember key v s =
     (let cache = (case em_substituted_gates s of None \<Rightarrow> Map.empty | Some c \<Rightarrow> c)
      in Some (v, s\<lparr>em_substituted_gates := Some (cache_insert cache key v)\<rparr>))"

definition emit_substituted :: "bstmt \<Rightarrow> 'p \<Rightarrow> ('p, nat) em_step" where
  "emit_substituted k p s =
     (case key_from_stmt k of
        None \<Rightarrow> em_emit k p s
      | Some key \<Rightarrow>
          (case Option.bind (em_substituted_gates s) (\<lambda>c. cache_get c key) of
             Some existing \<Rightarrow> Some (existing, s)
           | None \<Rightarrow> ebind (em_emit k p) (em_remember key) s))"

section \<open>Gates\<close>

definition emit_mux :: "nat \<Rightarrow> nat \<Rightarrow> nat \<Rightarrow> 'p \<Rightarrow> ('p, nat) em_step" where
  "emit_mux s a b p =
     ebind (em_emit (BXor a b) p) (\<lambda>xab. ebind (em_emit (BAnd s xab) p) (\<lambda>sel. em_emit (BXor sel b) p))"

definition emit_or :: "nat \<Rightarrow> nat \<Rightarrow> 'p \<Rightarrow> ('p, nat) em_step" where
  "emit_or a b p =
     ebind (em_emit (BNot a) p) (\<lambda>na. ebind (em_emit (BNot b) p) (\<lambda>nb.
     ebind (em_emit (BAnd na nb) p) (\<lambda>nand. em_emit (BNot nand) p)))"

section \<open>One iteration\<close>

definition subst_stmt :: "bstmt \<Rightarrow> nat list \<Rightarrow> bstmt option" where
  "subst_stmt s var_map =
     (if \<forall>v \<in> set (operands s). v < length var_map then Some (map_BIrStmt ((!) var_map) id s) else None)"

fun unroll_stmts :: "'p node list \<Rightarrow> nat list \<Rightarrow> ('p, nat list) em_step" where
  "unroll_stmts [] var_map = eret var_map"
| "unroll_stmts (n # ns) var_map =
     ebind (eget (subst_stmt (kind n) var_map)) (\<lambda>k. ebind (emit_substituted k (prov n)) (\<lambda>i.
       unroll_stmts ns (var_map @ [i])))"

text \<open>The done wire, the result wires, and the parameters of the next iteration.\<close>

fun process_terminator ::
  "ir_var BIrTerminator \<Rightarrow> nat list \<Rightarrow> nat list \<Rightarrow> 'p \<Rightarrow> ('p, nat \<times> nat list \<times> nat list) em_step" where
  "process_terminator (Jmp t) var_map current_state p =
     (case tgt_block t of
        Return \<Rightarrow>
          ebind (em_emit BOne p) (\<lambda>one. ebind (eget (nths_opt var_map (tgt_args t))) (\<lambda>result.
            eret (one, result, result)))
      | Block b \<Rightarrow>
          if b = 0 then
            ebind (em_emit BZero p) (\<lambda>z. ebind (eget (nths_opt var_map (tgt_args t))) (\<lambda>nxt.
              eret (z, current_state, nxt)))
          else (\<lambda>_. None)
      | Dyn _ \<Rightarrow> (\<lambda>_. None))"
| "process_terminator (CondJmp val then_target else_target) var_map current_state p =
     ebind (eget (nth_opt var_map val)) (\<lambda>v.
       case (tgt_block then_target, tgt_block else_target) of
         (Return, Block b) \<Rightarrow>
           if b = 0 then
             ebind (eget (nths_opt var_map (tgt_args then_target))) (\<lambda>result.
             ebind (eget (nths_opt var_map (tgt_args else_target))) (\<lambda>nxt. eret (v, result, nxt)))
           else (\<lambda>_. None)
       | (Block a, Return) \<Rightarrow>
           if a = 0 then
             ebind (em_emit (BNot v) p) (\<lambda>not_v.
             ebind (eget (nths_opt var_map (tgt_args else_target))) (\<lambda>result.
             ebind (eget (nths_opt var_map (tgt_args then_target))) (\<lambda>nxt. eret (not_v, result, nxt))))
           else (\<lambda>_. None)
       | (Return, Return) \<Rightarrow>
           ebind (em_emit BOne p) (\<lambda>one.
           ebind (eget (nths_opt var_map (tgt_args then_target))) (\<lambda>ts.
           ebind (eget (nths_opt var_map (tgt_args else_target))) (\<lambda>es.
             if length ts \<noteq> length es then (\<lambda>_. None)
             else ebind (emap (\<lambda>(a, b). emit_mux v a b p) (zip ts es)) (\<lambda>result.
               eret (one, result, current_state)))))
       | _ \<Rightarrow> (\<lambda>_. None))"

text \<open>\<open>limit\<close> iterations: the done wires, the result wires, and the last state.\<close>

fun unroll ::
  "'p BIrBlock \<Rightarrow> 'p \<Rightarrow> nat \<Rightarrow> nat list \<Rightarrow> ('p, (nat \<times> nat list) list \<times> nat list) em_step" where
  "unroll b p 0 current_state = eret ([], current_state)"
| "unroll b p (Suc n) current_state =
     ebind (unroll_stmts (stmts b) current_state) (\<lambda>var_map.
     ebind (process_terminator (terminator b) var_map current_state p) (\<lambda>(d, result, nxt).
     ebind (unroll b p n nxt) (\<lambda>(rest, final). eret ((d, result) # rest, final))))"

section \<open>The cascades\<close>

text \<open>\<open>v.resize(width, *v.last().unwrap_or(&0))\<close>.\<close>

definition resize :: "nat list \<Rightarrow> nat \<Rightarrow> nat list" where
  "resize v width = take width v @ replicate (width - length v) (if v = [] then 0 else last v)"

text \<open>From the last iteration to the first; a result too narrow keeps the later value.\<close>

fun mux_cascade :: "(nat \<times> nat list) list \<Rightarrow> nat list \<Rightarrow> 'p \<Rightarrow> ('p, nat list) em_step" where
  "mux_cascade [] gated p = eret gated"
| "mux_cascade ((d, result) # rest) gated p =
     ebind (mux_cascade rest gated p) (\<lambda>g.
       emap (\<lambda>i. emit_mux d (if i < length result then result ! i else g ! i) (g ! i) p) [0..<length g])"

fun or_cascade :: "nat \<Rightarrow> nat list \<Rightarrow> 'p \<Rightarrow> ('p, nat) em_step" where
  "or_cascade acc [] p = eret acc"
| "or_cascade acc (d # ds) p = ebind (emit_or acc d p) (\<lambda>acc'. or_cascade acc' ds p)"

definition overall_done :: "nat list \<Rightarrow> 'p \<Rightarrow> ('p, nat) em_step" where
  "overall_done ds p = (case ds of [] \<Rightarrow> em_emit BZero p | d # rest \<Rightarrow> or_cascade d rest p)"

text \<open>The arguments of the return jump.\<close>

definition lowered_returns :: "'p BIrBlock \<Rightarrow> 'p \<Rightarrow> nat \<Rightarrow> LoweringMode \<Rightarrow> ('p, nat list) em_step" where
  "lowered_returns b p limit mode =
     ebind (unroll b p limit [0..<params b]) (\<lambda>(iterations, current_state).
       let output_width = (case iterations of [] \<Rightarrow> length current_state | (_, r) # _ \<Rightarrow> length r)
       in ebind (mux_cascade iterations (resize current_state output_width) p) (\<lambda>gated.
          ebind (overall_done (map fst iterations) p) (\<lambda>flag.
            eret ((if mode = WithTerminationFlag then [flag] else []) @ gated))))"

definition lower_to_circuit_impl ::
  "'p BIrBlocks \<Rightarrow> nat \<Rightarrow> LoweringMode \<Rightarrow> 'p option \<Rightarrow> 'p BIrBlocks option" where
  "lower_to_circuit_impl bs limit mode control_prov =
     (if is_circuit bs then Some bs
      else if length (blocks bs) \<noteq> 1 then None
      else let b = blocks bs ! 0 in
        (case (case stmts b of n # _ \<Rightarrow> Some (prov n) | [] \<Rightarrow> control_prov) of
           None \<Rightarrow> None
         | Some p \<Rightarrow>
             map_option (\<lambda>(rets, s).
               \<lparr>blocks = [\<lparr>params = params b, stmts = em_stmts s,
                  terminator = Jmp \<lparr>tgt_block = Return, tgt_args = rets\<rparr>\<rparr>],
                pre_init = pre_init bs\<rparr>)
               (lowered_returns b p limit mode (em_new (params b)))))"

definition lower_to_circuit :: "'p BIrBlocks \<Rightarrow> nat \<Rightarrow> LoweringMode \<Rightarrow> 'p BIrBlocks option" where
  "lower_to_circuit bs limit mode = lower_to_circuit_impl bs limit mode None"

definition lower_to_circuit_with_control_provenance ::
  "'p BIrBlocks \<Rightarrow> nat \<Rightarrow> LoweringMode \<Rightarrow> 'p \<Rightarrow> 'p BIrBlocks option" where
  "lower_to_circuit_with_control_provenance bs limit mode p = lower_to_circuit_impl bs limit mode (Some p)"

record SkipBoundary =
  sb_state_width :: nat
  sb_has_done_flag :: bool

definition lower_to_circuit_with_boundary ::
  "'p BIrBlocks \<Rightarrow> nat \<Rightarrow> LoweringMode \<Rightarrow> ('p BIrBlocks \<times> SkipBoundary) option" where
  "lower_to_circuit_with_boundary bs limit mode =
     map_option (\<lambda>circuit.
       let has_done_flag = (mode = WithTerminationFlag);
           ret_len = (case terminator (blocks circuit ! 0) of Jmp t \<Rightarrow> length (tgt_args t) | _ \<Rightarrow> 0)
       in (circuit, \<lparr>sb_state_width = ret_len - of_bool has_done_flag, sb_has_done_flag = has_done_flag\<rparr>))
       (lower_to_circuit bs limit mode)"

section \<open>Lowering and fusing\<close>

definition to_circuit_fused_boolar :: "'p BIrBlocks \<Rightarrow> CircuitFusionError + 'p BCircuit" where
  "to_circuit_fused_boolar bs = try_from_ir bs"

text \<open>\<open>P::default()\<close> is the argument \<open>dflt\<close>.\<close>

definition lower_to_circuit_fused ::
  "'p \<Rightarrow> 'p BIrBlocks \<Rightarrow> nat \<Rightarrow> LoweringMode \<Rightarrow> (CircuitFusionError + 'p BCircuit) option" where
  "lower_to_circuit_fused dflt bs limit mode =
     map_option to_circuit_fused_boolar (lower_to_circuit_with_control_provenance bs limit mode dflt)"

end
