(* ===== verification/Movfuscate.thy ===== *)
theory Movfuscate
  imports Dispatch
begin

text \<open>
  Movfuscation of Boolar programs (\<open>volar-ir-passes/src/movfuscate.rs\<close>): the blocks of a program are
  combined into one self-looping block that evaluates all of them and selects the outcome of the one
  named by a binary program counter. Only definitions; the theorems are in \<open>MovfuscateCorrect\<close>.

  The pass is generic over \<open>MovfuscCtx\<close>; this is its Boolar instance \<open>BIrCtx\<close>, whose slots are all
  bits, so the slot types of the trait are unit and only their number is kept. \<open>None\<close> is a panic.
\<close>

text \<open>\<open>usize::BITS - x.leading_zeros()\<close>.\<close>

fun bit_length :: "nat \<Rightarrow> nat" where
  "bit_length x = (if x = 0 then 0 else Suc (bit_length (x div 2)))"

declare bit_length.simps [simp del]

definition pc_bits_needed :: "nat \<Rightarrow> nat" where
  "pc_bits_needed n = (if n \<le> 1 then 0 else bit_length (n - 1))"

section \<open>Results of the parts\<close>

record TermResult =
  tr_done :: nat
  tr_next_pc_bits :: "nat list"
  tr_next_state :: "nat list"
  tr_ret_vals :: "nat list"

record MovfuscBlockBoundary =
  bd_start :: nat
  bd_end :: nat
  bd_is_active :: nat
  bd_done :: nat
  bd_next_pc_bits :: "nat list"
  bd_next_state :: "nat list"
  bd_ret_vals :: "nat list"
  bd_synthetic_out :: "nat list"
  bd_synthetic_in :: "nat list"

record MovfuscAccumStep =
  as_start :: nat
  as_end :: nat
  as_done_acc :: nat
  as_next_pc :: "nat list"
  as_next_state :: "nat list"
  as_ret_vals :: "nat list"
  as_synthetic_out :: "nat list"
  as_synthetic_in :: "nat list"

text \<open>\<open>MovfuscAccumInit\<close> has the fields of \<open>MovfuscAccumStep\<close>.\<close>

type_synonym MovfuscAccumInit = MovfuscAccumStep

record MovfuscAccumInfo =
  ai_init :: MovfuscAccumInit
  ai_steps :: "MovfuscAccumStep list"

section \<open>The Boolar context\<close>

definition subst_biir :: "bstmt \<Rightarrow> nat list \<Rightarrow> bstmt option" where
  "subst_biir s var_map =
     (if \<forall>v \<in> set (operands s). v < length var_map then Some (map_BIrStmt ((!) var_map) id s) else None)"

record 'p BIrCtx =
  ctx_stmts :: "'p node list"
  ctx_next_id :: nat
  ctx_ctrl_prov :: 'p

type_synonym ('p, 'a) ctx_step = "('p BIrCtx, 'a) emission"

definition ctx_new :: "nat \<Rightarrow> 'p \<Rightarrow> 'p BIrCtx" where
  "ctx_new first_id p = \<lparr>ctx_stmts = [], ctx_next_id = first_id, ctx_ctrl_prov = p\<rparr>"

definition ctx_push :: "bstmt \<Rightarrow> 'p \<Rightarrow> ('p, nat) ctx_step" where
  "ctx_push k p s = Some (ctx_next_id s,
     s\<lparr>ctx_stmts := ctx_stmts s @ [Node_new k p None], ctx_next_id := ctx_next_id s + 1\<rparr>)"

definition stmt_position :: "('p, nat) ctx_step" where
  "stmt_position s = Some (ctx_next_id s, s)"

text \<open>A gate of the pass's own, with the control provenance.\<close>

definition ctx_gate :: "bstmt \<Rightarrow> ('p, nat) ctx_step" where
  "ctx_gate k s = ctx_push k (ctx_ctrl_prov s) s"

definition ctx_and :: "nat \<Rightarrow> nat \<Rightarrow> ('p, nat) ctx_step" where
  "ctx_and a b = (if a = b then eret a else ctx_gate (BAnd a b))"

definition ctx_xor :: "nat \<Rightarrow> nat \<Rightarrow> ('p, nat) ctx_step" where
  "ctx_xor a b = (if a = b then ctx_gate BZero else ctx_gate (BXor a b))"

definition bir_prims :: "'p BIrCtx bit_prims" where
  "bir_prims = \<lparr>prim_zero = ctx_gate BZero, prim_one = ctx_gate BOne, prim_and = ctx_and,
     prim_xor = ctx_xor, prim_not = (\<lambda>a. ctx_gate (BNot a))\<rparr>"

text \<open>The slot operations \<open>emit_zero_slot\<close>, \<open>emit_gate\<close>, \<open>emit_field_add\<close> of the trait.\<close>

definition slot_zero :: "('p, nat) ctx_step" where
  "slot_zero = prim_zero bir_prims"

definition slot_gate :: "nat \<Rightarrow> nat \<Rightarrow> ('p, nat) ctx_step" where
  "slot_gate is_active v = prim_and bir_prims is_active v"

definition slot_add :: "nat \<Rightarrow> nat \<Rightarrow> ('p, nat) ctx_step" where
  "slot_add a b = prim_xor bir_prims a b"

section \<open>Blocks and terminators\<close>

fun emit_mapped :: "'p node list \<Rightarrow> nat list \<Rightarrow> ('p, nat list) ctx_step" where
  "emit_mapped [] var_map = eret var_map"
| "emit_mapped (n # ns) var_map =
     ebind (eget (subst_biir (kind n) var_map)) (\<lambda>k. ebind (ctx_push k (prov n)) (\<lambda>i.
       emit_mapped ns (var_map @ [i])))"

definition emit_block_stmts :: "'p BIrBlock \<Rightarrow> nat list \<Rightarrow> ('p, nat list) ctx_step" where
  "emit_block_stmts b state_vars =
     ebind (eget (if params b \<le> length state_vars then Some (take (params b) state_vars) else None))
       (emit_mapped (stmts b))"

text \<open>\<open>while xs.len() < width { xs.push(zero) }\<close>.\<close>

definition pad_zeros :: "nat list \<Rightarrow> nat \<Rightarrow> ('p, nat list) ctx_step" where
  "pad_zeros xs width =
     ebind (emap (\<lambda>_. prim_zero bir_prims) [0..<width - length xs]) (\<lambda>zs. eret (xs @ zs))"

definition process_biir_target ::
  "ir_var BIrTarget \<Rightarrow> nat list \<Rightarrow> nat \<Rightarrow> nat \<Rightarrow> nat \<Rightarrow> ('p, TermResult) ctx_step" where
  "process_biir_target t block_vals pc_width state_width ret_width =
     (case tgt_block t of
        Return \<Rightarrow>
          ebind (prim_one bir_prims) (\<lambda>d. ebind (encode_pc_bits bir_prims 0 pc_width) (\<lambda>pc.
          ebind (emap (\<lambda>_. prim_zero bir_prims) [0..<state_width]) (\<lambda>st.
          ebind (eget (nths_opt block_vals (tgt_args t))) (\<lambda>vals.
          ebind (pad_zeros vals ret_width) (\<lambda>ret.
            eret \<lparr>tr_done = d, tr_next_pc_bits = pc, tr_next_state = st, tr_ret_vals = ret\<rparr>)))))
      | Block j \<Rightarrow>
          ebind (prim_zero bir_prims) (\<lambda>d. ebind (encode_pc_bits bir_prims j pc_width) (\<lambda>pc.
          ebind (eget (nths_opt block_vals (tgt_args t))) (\<lambda>vals.
          ebind (pad_zeros vals state_width) (\<lambda>st.
          ebind (emap (\<lambda>_. prim_zero bir_prims) [0..<ret_width]) (\<lambda>ret.
            eret \<lparr>tr_done = d, tr_next_pc_bits = pc, tr_next_state = st, tr_ret_vals = ret\<rparr>)))))
      | Dyn _ \<Rightarrow> (\<lambda>_. None))"

text \<open>Selection position by position; indexing past the end of a target's values panics.\<close>

definition select_all :: "nat \<Rightarrow> nat list \<Rightarrow> nat list \<Rightarrow> nat \<Rightarrow> ('p, nat list) ctx_step" where
  "select_all cond ts es width =
     emap (\<lambda>j. ebind (eget (nth_opt ts j)) (\<lambda>t. ebind (eget (nth_opt es j)) (\<lambda>e.
       emit_select_bit bir_prims cond t e))) [0..<width]"

fun emit_block_terminator ::
  "ir_var BIrTerminator \<Rightarrow> nat list \<Rightarrow> nat \<Rightarrow> nat \<Rightarrow> nat \<Rightarrow> ('p, TermResult) ctx_step" where
  "emit_block_terminator (Jmp t) block_vals pc_width state_width ret_width =
     process_biir_target t block_vals pc_width state_width ret_width"
| "emit_block_terminator (CondJmp val then_target else_target) block_vals pc_width state_width ret_width =
     ebind (eget (nth_opt block_vals val)) (\<lambda>cond.
     ebind (process_biir_target then_target block_vals pc_width state_width ret_width) (\<lambda>t.
     ebind (process_biir_target else_target block_vals pc_width state_width ret_width) (\<lambda>e.
     ebind (emit_select_bit bir_prims cond (tr_done t) (tr_done e)) (\<lambda>d.
     ebind (select_all cond (tr_next_pc_bits t) (tr_next_pc_bits e) pc_width) (\<lambda>pc.
     ebind (select_all cond (tr_next_state t) (tr_next_state e) state_width) (\<lambda>st.
     ebind (select_all cond (tr_ret_vals t) (tr_ret_vals e) ret_width) (\<lambda>ret.
       eret \<lparr>tr_done = d, tr_next_pc_bits = pc, tr_next_state = st, tr_ret_vals = ret\<rparr>)))))))"

section \<open>The combined block\<close>

text \<open>One original block: its dispatch condition, its statements, its terminator. The result carries
  the diagnostic watch entries of the block.\<close>

definition watched_vals :: "(nat \<times> nat) list \<Rightarrow> nat \<Rightarrow> nat list \<Rightarrow> (nat \<times> nat \<times> nat) list" where
  "watched_vals watch i block_vals =
     concat (map (\<lambda>(wb, wv). if wb = i then
        (case nth_opt block_vals wv of None \<Rightarrow> [] | Some combined \<Rightarrow> [(wb, wv, combined)]) else []) watch)"

definition movfuscate_block ::
  "(nat \<times> nat) list \<Rightarrow> nat list \<Rightarrow> nat list \<Rightarrow> nat \<Rightarrow> nat \<Rightarrow> 'p BIrBlock
   \<Rightarrow> ('p, MovfuscBlockBoundary \<times> (nat \<times> nat \<times> nat) list) ctx_step" where
  "movfuscate_block watch pc_vars state_vars ret_width i b =
     ebind stmt_position (\<lambda>start.
     ebind (emit_is_block bir_prims pc_vars i) (\<lambda>active.
     ebind (emit_block_stmts b state_vars) (\<lambda>block_vals.
     ebind (emit_block_terminator (terminator b) block_vals (length pc_vars) (length state_vars) ret_width) (\<lambda>term.
     ebind stmt_position (\<lambda>stop.
       eret (\<lparr>bd_start = start, bd_end = stop, bd_is_active = active, bd_done = tr_done term,
              bd_next_pc_bits = tr_next_pc_bits term, bd_next_state = tr_next_state term,
              bd_ret_vals = tr_ret_vals term, bd_synthetic_out = [], bd_synthetic_in = []\<rparr>,
             watched_vals watch i block_vals))))))"

fun movfuscate_all ::
  "(nat \<times> nat) list \<Rightarrow> nat list \<Rightarrow> nat list \<Rightarrow> nat \<Rightarrow> nat \<Rightarrow> 'p BIrBlock list
   \<Rightarrow> ('p, (MovfuscBlockBoundary \<times> (nat \<times> nat \<times> nat) list) list) ctx_step" where
  "movfuscate_all watch pc_vars state_vars ret_width i [] = eret []"
| "movfuscate_all watch pc_vars state_vars ret_width i (b # bs) =
     ebind (movfuscate_block watch pc_vars state_vars ret_width i b) (\<lambda>r.
     ebind (movfuscate_all watch pc_vars state_vars ret_width (Suc i) bs) (\<lambda>rs. eret (r # rs)))"

text \<open>The contributions of one block, gated by its dispatch condition, folded into the running values.\<close>

definition accumulate_bit :: "nat \<Rightarrow> nat \<Rightarrow> nat \<Rightarrow> ('p, nat) ctx_step" where
  "accumulate_bit active acc x =
     ebind (prim_and bir_prims active x) (\<lambda>g. prim_xor bir_prims acc g)"

definition accumulate_state :: "nat \<Rightarrow> nat \<Rightarrow> nat \<Rightarrow> nat \<Rightarrow> ('p, nat) ctx_step" where
  "accumulate_state active seed acc x =
     (if x \<noteq> seed then
        ebind (slot_add x seed) (\<lambda>diff. ebind (slot_gate active diff) (\<lambda>g. slot_add acc g))
      else eret acc)"

definition accumulate_ret :: "nat \<Rightarrow> nat \<Rightarrow> nat \<Rightarrow> ('p, nat) ctx_step" where
  "accumulate_ret active acc x = ebind (slot_gate active x) (\<lambda>g. slot_add acc g)"

text \<open>Indexing position by position; a value list that is too short panics.\<close>

definition accumulate_pc_all :: "nat \<Rightarrow> nat list \<Rightarrow> nat list \<Rightarrow> ('p, nat list) ctx_step" where
  "accumulate_pc_all active accs xs =
     emap (\<lambda>j. ebind (eget (nth_opt xs j)) (\<lambda>x. accumulate_bit active (accs ! j) x)) [0..<length accs]"

definition accumulate_state_all :: "nat \<Rightarrow> nat list \<Rightarrow> nat list \<Rightarrow> nat list \<Rightarrow> ('p, nat list) ctx_step" where
  "accumulate_state_all active seeds accs xs =
     emap (\<lambda>k. ebind (eget (nth_opt xs k)) (\<lambda>x. accumulate_state active (seeds ! k) (accs ! k) x)) [0..<length accs]"

definition accumulate_ret_all :: "nat \<Rightarrow> nat list \<Rightarrow> nat list \<Rightarrow> ('p, nat list) ctx_step" where
  "accumulate_ret_all active accs xs =
     emap (\<lambda>m. ebind (eget (nth_opt xs m)) (\<lambda>x. accumulate_ret active (accs ! m) x)) [0..<length accs]"

definition accumulate_block ::
  "nat list \<Rightarrow> MovfuscAccumStep \<Rightarrow> MovfuscBlockBoundary \<Rightarrow> ('p, MovfuscAccumStep) ctx_step" where
  "accumulate_block state_vars acc br =
     ebind stmt_position (\<lambda>start.
     ebind (accumulate_bit (bd_is_active br) (as_done_acc acc) (bd_done br)) (\<lambda>d.
     ebind (accumulate_pc_all (bd_is_active br) (as_next_pc acc) (bd_next_pc_bits br)) (\<lambda>pc.
     ebind (accumulate_state_all (bd_is_active br) state_vars (as_next_state acc) (bd_next_state br)) (\<lambda>st.
     ebind (accumulate_ret_all (bd_is_active br) (as_ret_vals acc) (bd_ret_vals br)) (\<lambda>ret.
     ebind stmt_position (\<lambda>stop.
       eret \<lparr>as_start = start, as_end = stop, as_done_acc = d, as_next_pc = pc, as_next_state = st,
             as_ret_vals = ret, as_synthetic_out = [], as_synthetic_in = []\<rparr>))))))"

text \<open>All steps, first to last; the running values are those of the step before.\<close>

fun accumulate_all ::
  "nat list \<Rightarrow> MovfuscAccumStep \<Rightarrow> MovfuscBlockBoundary list \<Rightarrow> ('p, MovfuscAccumStep list) ctx_step" where
  "accumulate_all state_vars acc [] = eret []"
| "accumulate_all state_vars acc (br # brs) =
     ebind (accumulate_block state_vars acc br) (\<lambda>a.
     ebind (accumulate_all state_vars a brs) (\<lambda>as. eret (a # as)))"

definition build_output :: "'p BIrCtx \<Rightarrow> nat \<Rightarrow> nat \<Rightarrow> nat list \<Rightarrow> nat list \<Rightarrow> 'p BIrBlocks" where
  "build_output s combined_params done_var loop_vars ret_vars =
     \<lparr>blocks = [\<lparr>params = combined_params, stmts = ctx_stmts s,
        terminator = CondJmp done_var \<lparr>tgt_block = Return, tgt_args = ret_vars\<rparr>
                       \<lparr>tgt_block = Block 0, tgt_args = loop_vars\<rparr>\<rparr>],
      pre_init = []\<rparr>"

text \<open>The emission phase over a program of two blocks or more.\<close>

definition movfuscate_emit ::
  "(nat \<times> nat) list \<Rightarrow> nat \<Rightarrow> nat \<Rightarrow> nat \<Rightarrow> 'p BIrBlock list
   \<Rightarrow> ('p, (MovfuscBlockBoundary \<times> (nat \<times> nat \<times> nat) list) list \<times> MovfuscAccumInfo) ctx_step" where
  "movfuscate_emit watch pc_width state_width ret_width bs =
     (let pc_vars = [0..<pc_width]; state_vars = [pc_width..<pc_width + state_width] in
      ebind (prim_zero bir_prims) (\<lambda>bit_zero.
      ebind (movfuscate_all watch pc_vars state_vars ret_width 0 bs) (\<lambda>results.
      ebind stmt_position (\<lambda>start.
      ebind (emap (\<lambda>_. slot_zero) [0..<ret_width]) (\<lambda>ret_vals.
      ebind stmt_position (\<lambda>stop.
        let init = \<lparr>as_start = start, as_end = stop, as_done_acc = bit_zero,
                    as_next_pc = replicate pc_width bit_zero, as_next_state = state_vars,
                    as_ret_vals = ret_vals, as_synthetic_out = [], as_synthetic_in = []\<rparr>
        in ebind (accumulate_all state_vars init (map fst results)) (\<lambda>steps.
             eret (results, \<lparr>ai_init = init, ai_steps = steps\<rparr>))))))))"

definition movfuscate ::
  "'p BIrCtx \<Rightarrow> 'p BIrBlocks \<Rightarrow> nat \<Rightarrow> nat \<Rightarrow> (nat \<times> nat) list
   \<Rightarrow> ('p BIrBlocks \<times> MovfuscBlockBoundary list \<times> MovfuscAccumInfo \<times> (nat \<times> nat \<times> nat) list) option" where
  "movfuscate ctx bs state_width ret_width watch =
     (let n = length (blocks bs) in
      if n = 0 then None
      else if n = 1 then
        Some (bs, [], \<lparr>ai_init = \<lparr>as_start = 0, as_end = 0, as_done_acc = 0, as_next_pc = [],
          as_next_state = [], as_ret_vals = [], as_synthetic_out = [], as_synthetic_in = []\<rparr>, ai_steps = []\<rparr>, [])
      else let pc_width = pc_bits_needed n in
        (case movfuscate_emit watch pc_width state_width ret_width (blocks bs) ctx of
           None \<Rightarrow> None
         | Some ((results, accum), s) \<Rightarrow>
             let final = last (ai_init accum # ai_steps accum) in
             Some (build_output s (pc_width + state_width) (as_done_acc final)
                     (as_next_pc final @ as_next_state final) (as_ret_vals final),
                   map fst results, accum, concat (map snd results))))"

section \<open>The entry points\<close>

fun return_args :: "ir_var BIrTerminator \<Rightarrow> nat option" where
  "return_args (Jmp t) = (case tgt_block t of Return \<Rightarrow> Some (length (tgt_args t)) | _ \<Rightarrow> None)"
| "return_args (CondJmp _ t e) =
     (case tgt_block t of
        Return \<Rightarrow> Some (length (tgt_args t))
      | _ \<Rightarrow> (case tgt_block e of Return \<Rightarrow> Some (length (tgt_args e)) | _ \<Rightarrow> None))"

fun return_val_width :: "'p BIrBlock list \<Rightarrow> nat" where
  "return_val_width [] = 0"
| "return_val_width (b # bs) =
     (case return_args (terminator b) of Some n \<Rightarrow> n | None \<Rightarrow> return_val_width bs)"

definition movfuscate_biir_impl :: "'p BIrBlocks \<Rightarrow> 'p option \<Rightarrow> 'p BIrBlocks option" where
  "movfuscate_biir_impl bs control_prov =
     (let n = length (blocks bs) in
      if n = 1 then Some bs
      else
        let pc_width = pc_bits_needed n;
            state_width = foldr max (map params (blocks bs)) 0;
            provs = concat (map (\<lambda>b. map prov (stmts b)) (blocks bs))
        in (case (case provs of p # _ \<Rightarrow> Some p | [] \<Rightarrow> control_prov) of
              None \<Rightarrow> None
            | Some ctrl_prov \<Rightarrow>
                map_option (\<lambda>(result, _). result\<lparr>pre_init := pre_init bs\<rparr>)
                  (movfuscate (ctx_new (pc_width + state_width) ctrl_prov) bs state_width
                     (return_val_width (blocks bs)) [])))"

definition movfuscate_biir :: "'p BIrBlocks \<Rightarrow> 'p BIrBlocks option" where
  "movfuscate_biir bs = movfuscate_biir_impl bs None"

definition movfuscate_biir_with_control_provenance :: "'p BIrBlocks \<Rightarrow> 'p \<Rightarrow> 'p BIrBlocks option" where
  "movfuscate_biir_with_control_provenance bs control_prov = movfuscate_biir_impl bs (Some control_prov)"

end
