(* ===== verification/MovfuscateCorrect.thy ===== *)
theory MovfuscateCorrect
  imports Movfuscate BoolarProps
begin

text \<open>
  Movfuscation is correct: one round of the combined block does what one block of the program does,
  so a limit of \<open>n\<close> on the combined program is exactly \<open>n\<close> block steps of the original.
\<close>

section \<open>The context is an emitter\<close>

interpretation ctx: appender ctx_push ctx_stmts base "\<lambda>s vs. ctx_next_id s = length vs" for base
  by unfold_locales (simp add: ctx_push_def)

lemma emits_gate: "(\<And>p. emits at vs (ctx_push k p) R) \<Longrightarrow> emits at vs (ctx_gate k) R"
  by (simp add: emits_def ctx_gate_def)

lemma holding_same: "holding x vs a \<Longrightarrow> holding y vs a \<Longrightarrow> x = y"
  by (simp add: holding_def)

interpretation bir: bit_emitter bir_prims "ctx.at base S E ins st0 st" for base S E ins st0 st
proof
  fix vs x y a b
  show "emits (ctx.at base S E ins st0 st) vs (prim_zero bir_prims) (holding False)"
    by (simp add: bir_prims_def emits_gate ctx.emits_zero)
  show "emits (ctx.at base S E ins st0 st) vs (prim_one bir_prims) (holding True)"
    by (simp add: bir_prims_def emits_gate ctx.emits_one)
  show "emits (ctx.at base S E ins st0 st) vs (prim_not bir_prims a) (holding (\<not> x))" if "holding x vs a"
    using that by (simp add: bir_prims_def emits_gate ctx.emits_not)
  assume ab: "holding x vs a" "holding y vs b"
  show "emits (ctx.at base S E ins st0 st) vs (prim_and bir_prims a b) (holding (x \<and> y))"
    using ab holding_same [of x vs a y]
    by (auto simp: bir_prims_def ctx_and_def intro!: emits_gate ctx.emits_and emits_ret intro: holding_prefix)
  show "emits (ctx.at base S E ins st0 st) vs (prim_xor bir_prims a b) (holding (x \<noteq> y))"
    using ab holding_same [of x vs a y] emits_gate [OF ctx.emits_xor [OF ab]] emits_gate [OF ctx.emits_zero]
    by (auto simp: bir_prims_def ctx_xor_def)
qed

lemma emits_stmt_position: "emits at vs stmt_position (\<lambda>_ _. True)"
  by (auto simp: emits_def stmt_position_def)

section \<open>Programs that can be combined\<close>

fun is_storage_write :: "bstmt \<Rightarrow> bool" where
  "is_storage_write (StorageWrite _ _ _ _) = True"
| "is_storage_write (ActionStoreBit _ _ _ _ _ _ _ _ _) = True"
| "is_storage_write _ = False"

fun target_fits :: "'p BIrBlock list \<Rightarrow> ir_var BIrTarget \<Rightarrow> bool" where
  "target_fits bs t = (case tgt_block t of
      Return \<Rightarrow> length (tgt_args t) = return_val_width bs
    | Block j \<Rightarrow> j < length bs \<and> length (tgt_args t) = params (bs ! j)
    | Dyn _ \<Rightarrow> False)"

definition runnable :: "'p BIrBlock \<Rightarrow> bool" where
  "runnable b \<longleftrightarrow> block_ok b \<and> (\<forall>n \<in> set (stmts b). is_pure_stmt (kind n))"

text \<open>Well-formed blocks of statements that neither panic nor write storage, and jumps that fit.\<close>

definition combinable :: "'p BIrBlock list \<Rightarrow> bool" where
  "combinable bs \<longleftrightarrow> (\<forall>b \<in> set bs. runnable b \<and> (\<forall>n \<in> set (stmts b). \<not> is_storage_write (kind n))
     \<and> (\<forall>t \<in> set (jump_targets (terminator b)). target_fits bs t))"

lemma stmt_out_storage: "stmt_out E k vs ag st = Some (x, bits, st') \<Longrightarrow> \<not> is_storage_write k \<Longrightarrow> st' = st"
  by (cases k) (auto simp: bind_eq_Some_conv split: if_splits)

lemma eval_stmts_storage:
  "eval_stmts E ns rv (vs, ag, st) = Some (vs', ag', st') \<Longrightarrow> \<forall>n \<in> set ns. \<not> is_storage_write (kind n) \<Longrightarrow> st' = st"
proof (induction ns arbitrary: rv vs ag st)
  case (Cons n ns)
  then obtain x bits st1 where "stmt_out E (kind n) vs ag st = Some (x, bits, st1)"
      "eval_stmts E ns (Suc rv) (vs @ [x], put_call rv bits ag, st1) = Some (vs', ag', st')"
    by (auto simp: eval_stmts_out bind_eq_Some_conv simp del: eval_stmts.simps)
  then show ?case using Cons.IH Cons.prems(2) stmt_out_storage by fastforce
qed simp

lemma list_ok_ssa: "list_ok base ns \<Longrightarrow> ssa_ordered base ns"
  by (simp add: list_ok_def ssa_ordered_def)

lemma list_ok_handles: "list_ok base ns \<Longrightarrow> i < length ns \<Longrightarrow> h \<in> set (handles (kind (ns ! i))) \<Longrightarrow> base \<le> h"
  by (auto simp: list_ok_def calls_def)

lemma resolve_target_Some:
  assumes "\<forall>v \<in> set (tgt_args t). v < length vs" and "target_fits bs t"
  shows "\<exists>res. resolve_target t vs = Some res"
  using assms by (cases "tgt_block t") (auto simp: resolve_target_def)

lemma eval_terminator_Some:
  assumes "\<forall>v \<in> set (terminator_operands tm). v < length vs" and "\<forall>t \<in> set (jump_targets tm). target_fits bs t"
  shows "\<exists>res. eval_terminator tm vs = Some res"
  using assms by (cases tm) (auto intro: resolve_target_Some)

text \<open>A runnable block evaluates on every input of its width.\<close>

lemma runnable_evaluates:
  assumes "runnable b" and "\<forall>t \<in> set (jump_targets (terminator b)). target_fits bs t" and "length ins = params b"
  shows "\<exists>vs ag st' res. eval_stmts E (stmts b) (params b) (ins, Map.empty, st) = Some (vs, ag, st')
    \<and> length vs = params b + length (stmts b)
    \<and> eval_terminator (terminator b) vs = Some res \<and> eval_block E b ins st = Some (res, st')"
proof -
  have "ssa_ordered (length ins) (stmts b)"
    using assms by (auto simp: runnable_def block_ok_def intro: list_ok_ssa)
  then obtain vs ag st' where ev: "eval_stmts E (stmts b) (params b) (ins, Map.empty, st) = Some (vs, ag, st')"
    using eval_stmts_total [of ins "stmts b" E "params b" Map.empty st] assms(1) by (auto simp: runnable_def)
  then have len: "length vs = params b + length (stmts b)" using eval_stmts_length assms(3) by fastforce
  then obtain res where "eval_terminator (terminator b) vs = Some res"
    using eval_terminator_Some [of "terminator b" vs bs] assms(1,2) by (auto simp: runnable_def block_ok_def)
  then show ?thesis using ev len assms(3) by (simp add: eval_block_def)
qed

section \<open>The statements of a block\<close>

lemma emit_mapped_copies: "emit_mapped ns \<rho> = copy_stmts ctx_push ns \<rho>"
  by (induction ns arbitrary: \<rho>) (simp_all add: subst_biir_def)

text \<open>The copy of a block computes the block's values on the leading state slots.\<close>

lemma emits_block_stmts:
  fixes b :: "'p BIrBlock"
  assumes "runnable b" and "\<forall>n \<in> set (stmts b). \<not> is_storage_write (kind n) \<and> kind n \<in> S"
    and sv: "holding_all sv vs0 state_vars" "params b \<le> length sv"
    and ev: "eval_stmts E (stmts b) (params b) (take (params b) sv, Map.empty, st) = Some (vals, ag, st')"
  shows "emits (ctx.at base S E ins st0 st) vs0 (emit_block_stmts b state_vars) (holding_all vals)"
proof (rule emitsI)
  fix s :: "'p BIrCtx" and vs assume at: "ctx.at base S E ins st0 st s vs" and pre: "prefix vs0 vs"
  then obtain ag0 where ag0: "length ins = base" "ctx_next_id s = length vs" "runs S E ins st0 (ctx_stmts s) vs ag0 st"
    by (auto simp: ctx.at_def)
  have len: "length state_vars = length sv" using holding_all_length [OF sv(1)] .
  have pl: "length (take (params b) sv) = params b" using sv(2) by simp
  have "holding_all (take (params b) sv) vs (take (params b) state_vars)"
    using sv(1) pre by (blast intro: holding_all_take holding_all_prefix)
  moreover have "list_ok (length (take (params b) sv)) (stmts b)"
    using assms(1) pl by (simp add: runnable_def block_ok_def)
  moreover have "st' = st" using eval_stmts_storage [OF ev] assms(2) by blast
  ultimately obtain \<rho>' s' vs2 ag2 where "copy_stmts ctx_push (stmts b) (take (params b) state_vars) s = Some (\<rho>', s')"
      "ctx_next_id s' = length vs2" "runs S E ins st0 (ctx_stmts s') vs2 ag2 st" "prefix vs vs2" "holding_all vals vs2 \<rho>'"
    using ctx.copy_block [OF ag0, of "take (params b) sv" "take (params b) state_vars" "stmts b" vals ag st'] assms(2) ev pl
    by auto
  then show "\<exists>x s' vs'. emit_block_stmts b state_vars s = Some (x, s') \<and> ctx.at base S E ins st0 st s' vs'
      \<and> prefix vs vs' \<and> holding_all vals vs' x"
    using sv(2) ag0(1) len by (auto simp: emit_block_stmts_def emit_mapped_copies ebind_def eget_def ctx.at_def)
qed

section \<open>Terminators\<close>

text \<open>What a terminator's four outputs hold, for each outcome of the block.\<close>

fun outcome_vals ::
  "nat \<Rightarrow> nat \<Rightarrow> nat \<Rightarrow> block_result \<Rightarrow> bool \<times> bool list \<times> bool list \<times> bool list" where
  "outcome_vals pw sw rw (BReturn r) =
     (True, pc_bits pw 0, replicate sw False, r @ replicate (rw - length r) False)"
| "outcome_vals pw sw rw (BJump j args) =
     (False, pc_bits pw j, args @ replicate (sw - length args) False, replicate rw False)"

fun has_outcome ::
  "bool \<times> bool list \<times> bool list \<times> bool list \<Rightarrow> bool list \<Rightarrow> TermResult \<Rightarrow> bool" where
  "has_outcome (d, pc, sv, ret) vs tr \<longleftrightarrow> holding d vs (tr_done tr) \<and> holding_all pc vs (tr_next_pc_bits tr)
     \<and> holding_all sv vs (tr_next_state tr) \<and> holding_all ret vs (tr_ret_vals tr)"

lemma emits_zeros:
  "emits (ctx.at base S E ins st0 st) vs (emap (\<lambda>_. prim_zero bir_prims) xs) (holding_all (replicate (length xs) False))"
  using emits_map [of xs vs "ctx.at base S E ins st0 st" "\<lambda>_. prim_zero bir_prims" "\<lambda>_. False"]
  by (simp add: bir.zero map_replicate_const)

lemma emits_pad:
  assumes "holding_all xs vs as"
  shows "emits (ctx.at base S E ins st0 st) vs (pad_zeros as w) (holding_all (xs @ replicate (w - length xs) False))"
  unfolding pad_zeros_def holding_all_length [OF assms]
  by (rule emits_bind [OF emits_zeros], rule emits_ret)
    (use assms in \<open>auto intro: holding_all_prefix prefix_order.trans\<close>)

lemma holding_looked_up:
  assumes "holding_all vals vs bvs" and "nths_opt vals as = Some xs"
  shows "\<exists>ws. nths_opt bvs as = Some ws \<and> holding_all xs vs ws"
proof -
  have "\<forall>a \<in> set as. a < length bvs" and "xs = map ((!) vals) as"
    using assms by (auto simp: nths_opt_eq_Some holding_all_iff)
  then show ?thesis using assms(1) by (auto simp: holding_all_iff)
qed

lemma emits_target:
  assumes res: "resolve_target t vals = Some res" and bvs: "holding_all vals vs bvs"
  shows "emits (ctx.at base S E ins st0 st) vs (process_biir_target t bvs pw sw rw) (has_outcome (outcome_vals pw sw rw res))"
proof -
  obtain xs where xs: "nths_opt vals (tgt_args t) = Some xs"
    using res by (auto simp: resolve_target_def bind_eq_Some_conv)
  obtain ws where ws: "nths_opt bvs (tgt_args t) = Some ws" "holding_all xs vs ws"
    using holding_looked_up [OF bvs xs] by blast
  show ?thesis
  proof (cases "tgt_block t")
    case (Block j)
    then have r: "res = BJump j xs" using res xs by (simp add: resolve_target_def)
    show ?thesis unfolding process_biir_target_def Block IRBlockTargetId.case r outcome_vals.simps
    proof (rule emits_bind [OF bir.zero], rule emits_bind [OF bir.encode], rule emits_bind,
        rule emits_get [OF ws(1), where R = "\<lambda>_ v. v = ws"], rule refl, rule emits_bind, clarify)
      fix d vs1 pc vs2 vs3
      assume c: "prefix vs vs1" "holding False vs1 d" "prefix vs1 vs2" "holding_all (pc_bits pw j) vs2 pc" "prefix vs2 vs3"
      have "holding_all xs vs3 ws" using ws(2) c by (meson holding_all_prefix)
      then show "emits (ctx.at base S E ins st0 st) vs3 (pad_zeros ws sw) (holding_all (xs @ replicate (sw - length xs) False))"
        by (rule emits_pad)
      fix sts vs4 assume s: "prefix vs3 vs4" "holding_all (xs @ replicate (sw - length xs) False) vs4 sts"
      have "holding False vs4 d" "holding_all (pc_bits pw j) vs4 pc"
        using c s(1) by (meson holding_prefix holding_all_prefix)+
      then show "emits (ctx.at base S E ins st0 st) vs4
          (ebind (emap (\<lambda>_. prim_zero bir_prims) [0..<rw]) (\<lambda>ret. eret \<lparr>tr_done = d, tr_next_pc_bits = pc, tr_next_state = sts, tr_ret_vals = ret\<rparr>))
          (has_outcome (False, pc_bits pw j, xs @ replicate (sw - length xs) False, replicate rw False))"
        using s(2) by (intro emits_bind [OF emits_zeros] emits_ret)
          (auto intro: holding_prefix holding_all_prefix prefix_order.trans)
    qed
  next
    case Return
    then have r: "res = BReturn xs" using res xs by (simp add: resolve_target_def)
    show ?thesis unfolding process_biir_target_def Return IRBlockTargetId.case r outcome_vals.simps
    proof (rule emits_bind [OF bir.one], rule emits_bind [OF bir.encode], rule emits_bind [OF emits_zeros], rule emits_bind,
        rule emits_get [OF ws(1), where R = "\<lambda>_ v. v = ws"], rule refl, clarify)
      fix d vs1 pc vs2 sts vs3 vs4
      assume c: "prefix vs vs1" "holding True vs1 d" "prefix vs1 vs2" "holding_all (pc_bits pw 0) vs2 pc" "prefix vs2 vs3"
        "holding_all (replicate (length [0..<sw]) False) vs3 sts" "prefix vs3 vs4"
      have "holding_all xs vs4 ws" using ws(2) c by (meson holding_all_prefix)
      moreover have "holding True vs4 d" "holding_all (pc_bits pw 0) vs4 pc" "holding_all (replicate sw False) vs4 sts"
        using c by (simp, meson holding_prefix holding_all_prefix)+
      ultimately show "emits (ctx.at base S E ins st0 st) vs4
          (ebind (pad_zeros ws rw) (\<lambda>ret. eret \<lparr>tr_done = d, tr_next_pc_bits = pc, tr_next_state = sts, tr_ret_vals = ret\<rparr>))
          (has_outcome (True, pc_bits pw 0, replicate sw False, xs @ replicate (rw - length xs) False))"
        by (intro emits_bind [OF emits_pad] emits_ret)
          (auto intro: holding_prefix holding_all_prefix prefix_order.trans)
    qed
  qed (use res xs in \<open>simp add: resolve_target_def\<close>)
qed

lemma emits_select_all:
  assumes "holding c vs cond" and "holding_all ts vs tvs" and "holding_all es vs evs"
    and "length ts = w" and "length es = w"
  shows "emits (ctx.at base S E ins st0 st) vs (select_all cond tvs evs w) (holding_all (if c then ts else es))"
proof -
  have "emits (ctx.at base S E ins st0 st) vs (select_all cond tvs evs w)
      (holding_all (map (\<lambda>j. if c then ts ! j else es ! j) [0..<w]))"
    unfolding select_all_def
  proof (rule emits_map)
    fix j vs1 assume j: "j \<in> set [0..<w]" and pre: "prefix vs vs1"
    have len: "length tvs = w" "length evs = w" using assms holding_all_length by metis+
    have "holding c vs1 cond" by (rule holding_prefix [OF assms(1) pre])
    moreover have "holding (ts ! j) vs1 (tvs ! j)" "holding (es ! j) vs1 (evs ! j)"
      using holding_nth_prefix [OF assms(2) _ pre] holding_nth_prefix [OF assms(3) _ pre] assms(4,5) j by simp_all
    ultimately have "emits (ctx.at base S E ins st0 st) vs1 (emit_select_bit bir_prims cond (tvs ! j) (evs ! j))
        (holding (if c then ts ! j else es ! j))"
      by (rule bir.select_bit)
    moreover have "nth_opt tvs j = Some (tvs ! j)" "nth_opt evs j = Some (evs ! j)" using j len by simp_all
    ultimately show "emits (ctx.at base S E ins st0 st) vs1
        (ebind (eget (nth_opt tvs j)) (\<lambda>t. ebind (eget (nth_opt evs j)) (emit_select_bit bir_prims cond t)))
        (holding (if c then ts ! j else es ! j))"
      by (simp add: eget_def ebind_def)
  qed
  moreover have "map (\<lambda>j. if c then ts ! j else es ! j) [0..<w] = (if c then ts else es)"
    using assms(4,5) by (auto intro: nth_equalityI)
  ultimately show ?thesis by simp
qed

text \<open>All four outputs of a terminator, selected by its condition.\<close>

definition picked ::
  "bool \<Rightarrow> bool \<times> bool list \<times> bool list \<times> bool list \<Rightarrow> bool \<times> bool list \<times> bool list \<times> bool list
   \<Rightarrow> bool \<times> bool list \<times> bool list \<times> bool list" where
  "picked c t e = (if c then t else e)"

fun sized :: "nat \<Rightarrow> nat \<Rightarrow> nat \<Rightarrow> bool \<times> bool list \<times> bool list \<times> bool list \<Rightarrow> bool" where
  "sized pw sw rw (d, pc, sv, ret) \<longleftrightarrow> length pc = pw \<and> length sv = sw \<and> length ret = rw"

fun within :: "nat \<Rightarrow> nat \<Rightarrow> block_result \<Rightarrow> bool" where
  "within sw rw (BReturn r) \<longleftrightarrow> length r \<le> rw"
| "within sw rw (BJump j args) \<longleftrightarrow> length args \<le> sw"

lemma sized_outcome: "within sw rw res \<Longrightarrow> sized pw sw rw (outcome_vals pw sw rw res)"
  by (cases res) auto

lemma has_outcome_prefix: "has_outcome q vs tr \<Longrightarrow> prefix vs vs' \<Longrightarrow> has_outcome q vs' tr"
  by (cases q) (auto intro: holding_prefix holding_all_prefix)

lemma emits_choice:
  assumes c: "holding c vs cond" and t: "has_outcome tq vs t" and e: "has_outcome eq vs e"
    and sz: "sized pw sw rw tq" "sized pw sw rw eq"
  shows "emits (ctx.at base S E ins st0 st) vs
     (ebind (emit_select_bit bir_prims cond (tr_done t) (tr_done e)) (\<lambda>d.
      ebind (select_all cond (tr_next_pc_bits t) (tr_next_pc_bits e) pw) (\<lambda>pc.
      ebind (select_all cond (tr_next_state t) (tr_next_state e) sw) (\<lambda>st.
      ebind (select_all cond (tr_ret_vals t) (tr_ret_vals e) rw) (\<lambda>ret.
        eret \<lparr>tr_done = d, tr_next_pc_bits = pc, tr_next_state = st, tr_ret_vals = ret\<rparr>)))))
     (has_outcome (picked c tq eq))"
proof -
  obtain td tpc tst tret ed epc est erv where q: "tq = (td, tpc, tst, tret)" "eq = (ed, epc, est, erv)"
    by (metis surj_pair)
  note sel = holding_prefix [OF c] has_outcome_prefix [OF t] has_outcome_prefix [OF e]
  show ?thesis
  proof (rule emits_bind, rule bir.select_bit [OF c])
    show "holding td vs (tr_done t)" "holding ed vs (tr_done e)" using t e q by auto
    fix d vs1 assume d: "prefix vs vs1" "holding (if c then td else ed) vs1 d"
    show "emits (ctx.at base S E ins st0 st) vs1
     (ebind (select_all cond (tr_next_pc_bits t) (tr_next_pc_bits e) pw) (\<lambda>pc.
      ebind (select_all cond (tr_next_state t) (tr_next_state e) sw) (\<lambda>st.
      ebind (select_all cond (tr_ret_vals t) (tr_ret_vals e) rw) (\<lambda>ret.
        eret \<lparr>tr_done = d, tr_next_pc_bits = pc, tr_next_state = st, tr_ret_vals = ret\<rparr>))))
     (has_outcome (picked c tq eq))"
    proof (rule emits_bind, rule emits_select_all [OF sel(1) [OF d(1)]])
      show "holding_all tpc vs1 (tr_next_pc_bits t)" "holding_all epc vs1 (tr_next_pc_bits e)"
        "length tpc = pw" "length epc = pw" using sel(2,3) [OF d(1)] sz q by auto
      fix pc vs2 assume pc: "prefix vs1 vs2" "holding_all (if c then tpc else epc) vs2 pc"
      have p2: "prefix vs vs2" using d(1) pc(1) by (rule prefix_order.trans)
      show "emits (ctx.at base S E ins st0 st) vs2
       (ebind (select_all cond (tr_next_state t) (tr_next_state e) sw) (\<lambda>st.
        ebind (select_all cond (tr_ret_vals t) (tr_ret_vals e) rw) (\<lambda>ret.
          eret \<lparr>tr_done = d, tr_next_pc_bits = pc, tr_next_state = st, tr_ret_vals = ret\<rparr>)))
       (has_outcome (picked c tq eq))"
      proof (rule emits_bind, rule emits_select_all [OF sel(1) [OF p2]])
        show "holding_all tst vs2 (tr_next_state t)" "holding_all est vs2 (tr_next_state e)"
          "length tst = sw" "length est = sw" using sel(2,3) [OF p2] sz q by auto
        fix sts vs3 assume sts: "prefix vs2 vs3" "holding_all (if c then tst else est) vs3 sts"
        have p3: "prefix vs vs3" using p2 sts(1) by (rule prefix_order.trans)
        have so_far: "holding (if c then td else ed) vs3 d" "holding_all (if c then tpc else epc) vs3 pc"
          using d pc sts(1) by (meson holding_prefix holding_all_prefix)+
        show "emits (ctx.at base S E ins st0 st) vs3
         (ebind (select_all cond (tr_ret_vals t) (tr_ret_vals e) rw) (\<lambda>ret.
            eret \<lparr>tr_done = d, tr_next_pc_bits = pc, tr_next_state = sts, tr_ret_vals = ret\<rparr>))
         (has_outcome (picked c tq eq))"
        proof (rule emits_bind, rule emits_select_all [OF sel(1) [OF p3]])
          show "holding_all tret vs3 (tr_ret_vals t)" "holding_all erv vs3 (tr_ret_vals e)"
            "length tret = rw" "length erv = rw" using sel(2,3) [OF p3] sz q by auto
        qed (rule emits_ret, cases c, use so_far sts(2) in
            \<open>auto simp: picked_def q intro: holding_prefix holding_all_prefix prefix_order.trans\<close>)
      qed
    qed
  qed
qed

lemma emits_terminator:
  assumes res: "eval_terminator tm vals = Some res" and bvs: "holding_all vals vs bvs"
    and ok: "\<forall>v \<in> set (terminator_operands tm). v < length vals"
    and fits: "\<And>t r. t \<in> set (jump_targets tm) \<Longrightarrow> resolve_target t vals = Some r \<Longrightarrow> within sw rw r"
    and defd: "\<And>t. t \<in> set (jump_targets tm) \<Longrightarrow> \<exists>r. resolve_target t vals = Some r"
  shows "emits (ctx.at base S E ins st0 st) vs (emit_block_terminator tm bvs pw sw rw) (has_outcome (outcome_vals pw sw rw res))"
proof (cases tm)
  case (Jmp t)
  then show ?thesis using res emits_target [OF _ bvs] by simp
next
  case (CondJmp v t e)
  have v: "v < length vals" using ok CondJmp by simp
  then have hv: "holding (vals ! v) vs (bvs ! v)" "nth_opt bvs v = Some (bvs ! v)"
    using holding_all_nth [OF bvs v] holding_all_length [OF bvs] by auto
  obtain rt re where r: "resolve_target t vals = Some rt" "resolve_target e vals = Some re"
    using defd [of t] defd [of e] CondJmp by auto
  then have w: "within sw rw rt" "within sw rw re" using fits CondJmp by auto
  have pick: "outcome_vals pw sw rw res = picked (vals ! v) (outcome_vals pw sw rw rt) (outcome_vals pw sw rw re)"
    using res v r by (auto simp: CondJmp picked_def)
  show ?thesis unfolding CondJmp emit_block_terminator.simps hv(2) ebind_eget_Some pick
  proof (rule emits_bind [OF emits_target [OF r(1) bvs]], rule emits_bind)
    fix tt vs1 assume tt: "prefix vs vs1" "has_outcome (outcome_vals pw sw rw rt) vs1 tt"
    show "emits (ctx.at base S E ins st0 st) vs1 (process_biir_target e bvs pw sw rw) (has_outcome (outcome_vals pw sw rw re))"
      by (rule emits_target [OF r(2) holding_all_prefix [OF bvs tt(1)]])
    fix ee vs2 assume ee: "prefix vs1 vs2" "has_outcome (outcome_vals pw sw rw re) vs2 ee"
    show "emits (ctx.at base S E ins st0 st) vs2
     (ebind (emit_select_bit bir_prims (bvs ! v) (tr_done tt) (tr_done ee)) (\<lambda>d.
      ebind (select_all (bvs ! v) (tr_next_pc_bits tt) (tr_next_pc_bits ee) pw) (\<lambda>pc.
      ebind (select_all (bvs ! v) (tr_next_state tt) (tr_next_state ee) sw) (\<lambda>st.
      ebind (select_all (bvs ! v) (tr_ret_vals tt) (tr_ret_vals ee) rw) (\<lambda>ret.
        eret \<lparr>tr_done = d, tr_next_pc_bits = pc, tr_next_state = st, tr_ret_vals = ret\<rparr>)))))
     (has_outcome (picked (vals ! v) (outcome_vals pw sw rw rt) (outcome_vals pw sw rw re)))"
      by (rule emits_choice [OF _ has_outcome_prefix [OF tt(2) ee(1)] ee(2) sized_outcome [OF w(1)] sized_outcome [OF w(2)]])
        (use hv(1) tt(1) ee(1) in \<open>meson holding_prefix\<close>)
  qed
qed

section \<open>One block of the combination\<close>

definition kinds :: "'p BIrBlock list \<Rightarrow> bstmt set" where
  "kinds bs = {k. \<exists>b \<in> set bs. \<exists>n \<in> set (stmts b). k = kind n}"

definition block_res :: "externals \<Rightarrow> bstorage \<Rightarrow> bool list \<Rightarrow> 'p BIrBlock \<Rightarrow> block_result" where
  "block_res E st sv b = fst (the (eval_block E b (take (params b) sv) st))"

definition bd_term :: "MovfuscBlockBoundary \<Rightarrow> TermResult" where
  "bd_term bd = \<lparr>tr_done = bd_done bd, tr_next_pc_bits = bd_next_pc_bits bd,
     tr_next_state = bd_next_state bd, tr_ret_vals = bd_ret_vals bd\<rparr>"

text \<open>What the variables of a block's boundary hold when the program counter is \<open>pc\<close> and the state \<open>sv\<close>.\<close>

definition block_holds ::
  "externals \<Rightarrow> bstorage \<Rightarrow> bool list \<Rightarrow> bool list \<Rightarrow> nat \<Rightarrow> nat \<Rightarrow> 'p BIrBlock \<Rightarrow> bool list \<Rightarrow> MovfuscBlockBoundary \<Rightarrow> bool" where
  "block_holds E st pc sv rw i b vs bd \<longleftrightarrow> holding (pc = pc_bits (length pc) i) vs (bd_is_active bd)
     \<and> has_outcome (outcome_vals (length pc) (length sv) rw (block_res E st sv b)) vs (bd_term bd)"

lemma block_holds_prefix: "block_holds E st pc sv rw i b vs bd \<Longrightarrow> prefix vs vs' \<Longrightarrow> block_holds E st pc sv rw i b vs' bd"
  by (auto simp: block_holds_def intro: holding_prefix has_outcome_prefix)

lemma resolve_within:
  "target_fits bs t \<Longrightarrow> resolve_target t vals = Some r \<Longrightarrow> \<forall>b \<in> set bs. params b \<le> sw \<Longrightarrow> within sw (return_val_width bs) r"
  by (cases "tgt_block t") (auto simp: resolve_target_def bind_eq_Some_conv nths_opt_eq_Some)

lemma emits_movfuscate_block:
  fixes b :: "'p BIrBlock"
  assumes bs: "combinable bs" and b: "b \<in> set bs" and wide: "\<forall>b \<in> set bs. params b \<le> length sv"
    and pc: "holding_all pc vs pcv" and sv: "holding_all sv vs stv"
  shows "emits (ctx.at base (kinds bs) E ins st0 st) vs (movfuscate_block watch pcv stv (return_val_width bs) i b)
    (\<lambda>vs' r. block_holds E st pc sv (return_val_width bs) i b vs' (fst r))"
proof -
  let ?rw = "return_val_width bs"
  have run: "runnable b" and fits: "\<forall>t \<in> set (jump_targets (terminator b)). target_fits bs t"
    and nw: "\<forall>n \<in> set (stmts b). \<not> is_storage_write (kind n) \<and> kind n \<in> kinds bs"
    using bs b by (auto simp: combinable_def kinds_def)
  have wb: "params b \<le> length sv" using wide b by simp
  then have pl: "length (take (params b) sv) = params b" by simp
  obtain vals ag st' res where ev: "eval_stmts E (stmts b) (params b) (take (params b) sv, Map.empty, st) = Some (vals, ag, st')"
    and len: "length vals = params b + length (stmts b)" and tm: "eval_terminator (terminator b) vals = Some res"
    and blk: "eval_block E b (take (params b) sv) st = Some (res, st')"
    using runnable_evaluates [OF run fits pl, of E st] by blast
  have res: "block_res E st sv b = res" by (simp add: block_res_def blk)
  have ops: "\<forall>v \<in> set (terminator_operands (terminator b)). v < length vals"
    using run by (auto simp: runnable_def block_ok_def len)
  have lens: "length pcv = length pc" "length stv = length sv" using holding_all_length pc sv by metis+
  have targets: "\<exists>r. resolve_target t vals = Some r" "\<And>r. resolve_target t vals = Some r \<Longrightarrow> within (length sv) ?rw r"
    if "t \<in> set (jump_targets (terminator b))" for t
  proof -
    have "\<forall>v \<in> set (tgt_args t). v < length vals" using that ops by (cases "terminator b") auto
    then show "\<exists>r. resolve_target t vals = Some r" using resolve_target_Some fits that by blast
    show "within (length sv) ?rw r" if "resolve_target t vals = Some r" for r
      using resolve_within [OF _ that wide] fits \<open>t \<in> _\<close> by blast
  qed
  show ?thesis unfolding movfuscate_block_def lens
  proof (rule emits_bind [OF emits_stmt_position], rule emits_bind, rule bir.is_block, rule holding_all_prefix [OF pc], assumption,
      rule emits_bind, rule emits_block_stmts [OF run nw holding_all_prefix [OF sv] wb ev], erule (1) prefix_order.trans,
      rule emits_bind, rule emits_terminator [OF tm _ ops targets(2,1)], assumption)
    fix start vs1 active vs2 bvs vs3 tr vs4
    assume c: "prefix vs1 vs2" "holding (pc = pc_bits (length pcv) i) vs2 active" "prefix vs2 vs3" "prefix vs3 vs4"
      and tr: "has_outcome (outcome_vals (length pc) (length sv) ?rw res) vs4 tr"
    have "holding (pc = pc_bits (length pc) i) vs4 active" using c lens by (metis holding_prefix)
    then show "emits (ctx.at base (kinds bs) E ins st0 st) vs4
     (ebind stmt_position (\<lambda>stop.
       eret (\<lparr>bd_start = start, bd_end = stop, bd_is_active = active, bd_done = tr_done tr,
              bd_next_pc_bits = tr_next_pc_bits tr, bd_next_state = tr_next_state tr,
              bd_ret_vals = tr_ret_vals tr, bd_synthetic_out = [], bd_synthetic_in = []\<rparr>,
             watched_vals watch i bvs)))
     (\<lambda>vs' r. block_holds E st pc sv ?rw i b vs' (fst r))"
      using tr by (intro emits_bind [OF emits_stmt_position] emits_ret, cases tr)
        (auto simp: block_holds_def bd_term_def res intro: holding_prefix has_outcome_prefix [OF has_outcome_prefix])
  qed
qed

lemma emits_movfuscate_all:
  assumes bs: "combinable bs" and sub: "set bs' \<subseteq> set bs" and wide: "\<forall>b \<in> set bs. params b \<le> length sv"
    and pc: "holding_all pc vs pcv" and sv: "holding_all sv vs stv"
  shows "emits (ctx.at base (kinds bs) E ins st0 st) vs (movfuscate_all watch pcv stv (return_val_width bs) i bs')
    (\<lambda>vs' rs. length rs = length bs'
      \<and> (\<forall>k < length bs'. block_holds E st pc sv (return_val_width bs) (i + k) (bs' ! k) vs' (fst (rs ! k))))"
  using sub pc sv
proof (induction bs' arbitrary: i vs)
  case Nil
  show ?case by (simp add: emits_ret)
next
  case (Cons b bs')
  have b: "b \<in> set bs" using Cons.prems(1) by simp
  show ?case unfolding movfuscate_all.simps
  proof (rule emits_bind [OF emits_movfuscate_block [OF bs b wide Cons.prems(2,3)]], rule emits_bind, rule Cons.IH)
    fix r :: "MovfuscBlockBoundary \<times> (nat \<times> nat \<times> nat) list" and vs1
    assume r: "prefix vs vs1" "block_holds E st pc sv (return_val_width bs) i b vs1 (fst r)"
    show "set bs' \<subseteq> set bs" "holding_all pc vs1 pcv" "holding_all sv vs1 stv"
      using Cons.prems r(1) by (auto intro: holding_all_prefix)
    fix rs :: "(MovfuscBlockBoundary \<times> (nat \<times> nat \<times> nat) list) list" and vs2
    assume "prefix vs1 vs2" "length rs = length bs' \<and> (\<forall>k < length bs'.
      block_holds E st pc sv (return_val_width bs) (Suc i + k) (bs' ! k) vs2 (fst (rs ! k)))"
    then show "emits (ctx.at base (kinds bs) E ins st0 st) vs2 (eret (r # rs)) (\<lambda>vs' rs. length rs = length (b # bs')
        \<and> (\<forall>k < length (b # bs'). block_holds E st pc sv (return_val_width bs) (i + k) ((b # bs') ! k) vs' (fst (rs ! k))))"
      using r by (intro emits_ret)
        (auto simp: nth_Cons split: nat.split intro: block_holds_prefix [OF block_holds_prefix])
  qed
qed

section \<open>Accumulation\<close>

text \<open>The running values: the outcome \<open>q\<close> of the active block once it has been folded in (\<open>on\<close>), and
  before that no exit, a zero program counter, the incoming state and zero results.\<close>

fun gated ::
  "bool \<Rightarrow> bool list \<Rightarrow> bool \<times> bool list \<times> bool list \<times> bool list \<Rightarrow> bool \<times> bool list \<times> bool list \<times> bool list" where
  "gated on sv (d, pc, st, ret) = (on \<and> d, map ((\<and>) on) pc, if on then st else sv, map ((\<and>) on) ret)"

lemma map_and_False [simp]: "map ((\<and>) False) xs = replicate (length xs) False"
  by (rule nth_equalityI) simp_all

lemma gated_True [simp]: "gated True sv q = q"
  by (cases q) (auto intro: nth_equalityI)

definition as_term :: "MovfuscAccumStep \<Rightarrow> TermResult" where
  "as_term a = \<lparr>tr_done = as_done_acc a, tr_next_pc_bits = as_next_pc a,
     tr_next_state = as_next_state a, tr_ret_vals = as_ret_vals a\<rparr>"

lemma emits_accumulate_bit:
  assumes "holding a vs active" and "holding (on \<and> x) vs acc" and "holding y vs v"
    and "\<not> (on \<and> a)" and "a \<Longrightarrow> y = x"
  shows "emits (ctx.at base S E ins st0 st) vs (accumulate_bit active acc v) (holding ((on \<or> a) \<and> x))"
  unfolding accumulate_bit_def
proof (rule emits_bind [OF bir.conj [OF assms(1,3)]])
  fix g vs1 assume g: "prefix vs vs1" "holding (a \<and> y) vs1 g"
  from bir.xor [OF holding_prefix [OF assms(2) g(1)] g(2)]
  show "emits (ctx.at base S E ins st0 st) vs1 (prim_xor bir_prims acc g) (holding ((on \<or> a) \<and> x))"
    by (rule emits_mono) (use assms(4,5) in \<open>cases on; cases a; simp\<close>)
qed

lemma slot_ops: "slot_add = prim_xor bir_prims" "slot_gate = prim_and bir_prims"
  by (intro ext, simp add: slot_add_def slot_gate_def)+

lemma accumulate_ret_bit: "accumulate_ret = accumulate_bit"
  by (intro ext) (simp add: accumulate_ret_def accumulate_bit_def slot_ops)

lemma accumulate_ret_pc: "accumulate_ret_all = accumulate_pc_all"
  by (intro ext) (simp add: accumulate_ret_all_def accumulate_pc_all_def accumulate_ret_bit)

lemma emits_accumulate_state:
  assumes "holding a vs active" and "holding s vs seed" and "holding (if on then x else s) vs acc" and "holding y vs v"
    and "\<not> (on \<and> a)" and "a \<Longrightarrow> y = x"
  shows "emits (ctx.at base S E ins st0 st) vs (accumulate_state active seed acc v) (holding (if on \<or> a then x else s))"
proof (cases "v = seed")
  case True
  then have "y = s" using assms(2,4) holding_same by blast
  then show ?thesis using True assms(3,5,6)
    by (auto simp: accumulate_state_def intro!: emits_ret split: if_splits intro: holding_prefix)
next
  case False
  have "emits (ctx.at base S E ins st0 st) vs
      (ebind (prim_xor bir_prims v seed) (\<lambda>diff. ebind (prim_and bir_prims active diff) (\<lambda>g. prim_xor bir_prims acc g)))
      (holding (if on \<or> a then x else s))"
  proof (rule emits_bind [OF bir.xor [OF assms(4,2)]], rule emits_bind, rule bir.conj [OF holding_prefix [OF assms(1)]], assumption+)
    fix diff vs1 g vs2 assume g: "prefix vs vs1" "prefix vs1 vs2" "holding (a \<and> y \<noteq> s) vs2 g"
    have "holding (if on then x else s) vs2 acc" using assms(3) g by (meson holding_prefix)
    from bir.xor [OF this g(3)]
    show "emits (ctx.at base S E ins st0 st) vs2 (prim_xor bir_prims acc g) (holding (if on \<or> a then x else s))"
      by (rule emits_mono) (use assms(5,6) in \<open>cases on; cases a; cases s; simp\<close>)
  qed
  then show ?thesis using False by (simp add: accumulate_state_def slot_ops)
qed

lemma emits_accumulate_pc_all:
  assumes "holding a vs active" and "holding_all (map ((\<and>) on) xs) vs accs" and "holding_all ys vs vals"
    and "length ys = length xs" and "\<not> (on \<and> a)" and "a \<Longrightarrow> ys = xs"
  shows "emits (ctx.at base S E ins st0 st) vs (accumulate_pc_all active accs vals) (holding_all (map ((\<and>) (on \<or> a)) xs))"
proof -
  have len: "length accs = length xs" "length vals = length xs" using assms(2-4) holding_all_length by (metis length_map)+
  have "emits (ctx.at base S E ins st0 st) vs (accumulate_pc_all active accs vals)
      (holding_all (map (\<lambda>j. (on \<or> a) \<and> xs ! j) [0..<length xs]))"
    unfolding accumulate_pc_all_def len
  proof (rule emits_map)
    fix j vs1 assume "j \<in> set [0..<length xs]" and pre: "prefix vs vs1"
    then have j: "j < length xs" by simp
    have "holding (on \<and> xs ! j) vs1 (accs ! j)" "holding (ys ! j) vs1 (vals ! j)"
      using holding_nth_prefix [OF assms(2) _ pre, of j] holding_nth_prefix [OF assms(3) _ pre, of j] j assms(4) by simp_all
    from emits_accumulate_bit [OF holding_prefix [OF assms(1) pre] this assms(5)] assms(6) j len(2)
    show "emits (ctx.at base S E ins st0 st) vs1 (ebind (eget (nth_opt vals j)) (accumulate_bit active (accs ! j)))
        (holding ((on \<or> a) \<and> xs ! j))" by simp
  qed
  moreover have "map (\<lambda>j. (on \<or> a) \<and> xs ! j) [0..<length xs] = map ((\<and>) (on \<or> a)) xs"
    by (rule nth_equalityI) auto
  ultimately show ?thesis by simp
qed

lemma emits_accumulate_state_all:
  assumes "holding a vs active" and "holding_all sv vs seeds" and "holding_all (if on then xs else sv) vs accs"
    and "holding_all ys vs vals" and "length xs = length sv" and "length ys = length sv"
    and "\<not> (on \<and> a)" and "a \<Longrightarrow> ys = xs"
  shows "emits (ctx.at base S E ins st0 st) vs (accumulate_state_all active seeds accs vals)
    (holding_all (if on \<or> a then xs else sv))"
proof -
  have len: "length seeds = length sv" "length accs = length sv" "length vals = length sv"
    using holding_all_length [OF assms(2)] holding_all_length [OF assms(3)] holding_all_length [OF assms(4)] assms(5,6)
    by (auto split: if_splits)
  have "emits (ctx.at base S E ins st0 st) vs (accumulate_state_all active seeds accs vals)
      (holding_all (map (\<lambda>k. if on \<or> a then xs ! k else sv ! k) [0..<length sv]))"
    unfolding accumulate_state_all_def len
  proof (rule emits_map)
    fix k vs1 assume "k \<in> set [0..<length sv]" and pre: "prefix vs vs1"
    then have k: "k < length sv" by simp
    have h: "holding (sv ! k) vs1 (seeds ! k)" "holding (if on then xs ! k else sv ! k) vs1 (accs ! k)"
        "holding (ys ! k) vs1 (vals ! k)"
      using holding_nth_prefix [OF assms(2) _ pre, of k] holding_nth_prefix [OF assms(3) _ pre, of k]
        holding_nth_prefix [OF assms(4) _ pre, of k] k assms(5,6) by (cases on; simp)+
    from emits_accumulate_state [OF holding_prefix [OF assms(1) pre] h assms(7)] assms(8) k len(3)
    show "emits (ctx.at base S E ins st0 st) vs1 (ebind (eget (nth_opt vals k)) (accumulate_state active (seeds ! k) (accs ! k)))
        (holding (if on \<or> a then xs ! k else sv ! k))" by (simp split del: if_split)
  qed
  moreover have "map (\<lambda>k. if on \<or> a then xs ! k else sv ! k) [0..<length sv] = (if on \<or> a then xs else sv)"
    using assms(5) by (intro nth_equalityI) auto
  ultimately show ?thesis by simp
qed

lemma emits_accumulate_block:
  assumes sv: "holding_all sv vs stv" and acc: "has_outcome (gated on sv q) vs (as_term acc)"
    and active: "holding a vs (bd_is_active br)" and out: "has_outcome q' vs (bd_term br)"
    and sz: "sized pw (length sv) rw q" "sized pw (length sv) rw q'" and "\<not> (on \<and> a)" and "a \<Longrightarrow> q' = q"
  shows "emits (ctx.at base S E ins st0 st) vs (accumulate_block stv acc br)
    (\<lambda>vs' a'. has_outcome (gated (on \<or> a) sv q) vs' (as_term a'))"
proof -
  obtain d pc sts ret where q: "q = (d, pc, sts, ret)" by (metis surj_pair)
  obtain d' pc' sts' ret' where q': "q' = (d', pc', sts', ret')" by (metis surj_pair)
  have len: "length pc' = length pc" "length sts = length sv" "length sts' = length sv" "length ret' = length ret"
    using sz by (auto simp: q q')
  have same: "a \<Longrightarrow> d' = d" "a \<Longrightarrow> pc' = pc" "a \<Longrightarrow> sts' = sts" "a \<Longrightarrow> ret' = ret" using assms(8) by (auto simp: q q')
  have h: "holding (on \<and> d) vs (as_done_acc acc)" "holding_all (map ((\<and>) on) pc) vs (as_next_pc acc)"
      "holding_all (if on then sts else sv) vs (as_next_state acc)" "holding_all (map ((\<and>) on) ret) vs (as_ret_vals acc)"
      "holding d' vs (bd_done br)" "holding_all pc' vs (bd_next_pc_bits br)"
      "holding_all sts' vs (bd_next_state br)" "holding_all ret' vs (bd_ret_vals br)"
    using acc out by (simp_all add: q q' as_term_def bd_term_def)
  show ?thesis unfolding accumulate_block_def accumulate_ret_pc
  proof (rule emits_bind [OF emits_stmt_position], rule emits_bind, rule emits_accumulate_bit [OF _ _ _ assms(7) same(1)],
      (rule holding_prefix [OF active], assumption), (rule holding_prefix [OF h(1)], assumption),
      (rule holding_prefix [OF h(5)], assumption), assumption)
    fix start vs1 dv vs2 assume d: "prefix vs vs1" "prefix vs1 vs2" "holding ((on \<or> a) \<and> d) vs2 dv"
    have p2: "prefix vs vs2" using d by (meson prefix_order.trans)
    show "emits (ctx.at base S E ins st0 st) vs2
     (ebind (accumulate_pc_all (bd_is_active br) (as_next_pc acc) (bd_next_pc_bits br)) (\<lambda>pc.
      ebind (accumulate_state_all (bd_is_active br) stv (as_next_state acc) (bd_next_state br)) (\<lambda>st.
      ebind (accumulate_pc_all (bd_is_active br) (as_ret_vals acc) (bd_ret_vals br)) (\<lambda>ret.
      ebind stmt_position (\<lambda>stop.
       eret \<lparr>as_start = start, as_end = stop, as_done_acc = dv, as_next_pc = pc, as_next_state = st,
             as_ret_vals = ret, as_synthetic_out = [], as_synthetic_in = []\<rparr>)))))
     (\<lambda>vs' a'. has_outcome (gated (on \<or> a) sv q) vs' (as_term a'))"
    proof (rule emits_bind, rule emits_accumulate_pc_all [OF holding_prefix [OF active p2] holding_all_prefix [OF h(2) p2]
          holding_all_prefix [OF h(6) p2] len(1) assms(7) same(2)], assumption, rule emits_bind)
      fix pcv vs3 assume pc: "prefix vs2 vs3" "holding_all (map ((\<and>) (on \<or> a)) pc) vs3 pcv"
      have p3: "prefix vs vs3" using p2 pc(1) by (rule prefix_order.trans)
      show "emits (ctx.at base S E ins st0 st) vs3
        (accumulate_state_all (bd_is_active br) stv (as_next_state acc) (bd_next_state br)) (holding_all (if on \<or> a then sts else sv))"
        by (rule emits_accumulate_state_all [OF holding_prefix [OF active p3] holding_all_prefix [OF sv p3]
          holding_all_prefix [OF h(3) p3] holding_all_prefix [OF h(7) p3] len(2,3) assms(7) same(3)])
      fix stsv vs4 assume st: "prefix vs3 vs4" "holding_all (if on \<or> a then sts else sv) vs4 stsv"
      have p4: "prefix vs vs4" using p3 st(1) by (rule prefix_order.trans)
      have p24: "prefix vs2 vs4" using pc(1) st(1) by (rule prefix_order.trans)
      have so_far: "holding ((on \<or> a) \<and> d) vs4 dv" "holding_all (map ((\<and>) (on \<or> a)) pc) vs4 pcv"
        by (rule holding_prefix [OF d(3) p24], rule holding_all_prefix [OF pc(2) st(1)])
      show "emits (ctx.at base S E ins st0 st) vs4
       (ebind (accumulate_pc_all (bd_is_active br) (as_ret_vals acc) (bd_ret_vals br)) (\<lambda>ret.
        ebind stmt_position (\<lambda>stop.
         eret \<lparr>as_start = start, as_end = stop, as_done_acc = dv, as_next_pc = pcv, as_next_state = stsv,
             as_ret_vals = ret, as_synthetic_out = [], as_synthetic_in = []\<rparr>)))
       (\<lambda>vs' a'. has_outcome (gated (on \<or> a) sv q) vs' (as_term a'))"
      proof (rule emits_bind, rule emits_accumulate_pc_all [OF holding_prefix [OF active p4] holding_all_prefix [OF h(4) p4]
          holding_all_prefix [OF h(8) p4] len(4) assms(7) same(4)], assumption, rule emits_bind [OF emits_stmt_position], rule emits_ret)
        fix retv vs5 stop vs6 vs7 assume r: "prefix vs4 vs5" "holding_all (map ((\<and>) (on \<or> a)) ret) vs5 retv"
          "prefix vs5 vs6" "prefix vs6 vs7"
        have p47: "prefix vs4 vs7" and p57: "prefix vs5 vs7" using r by (meson prefix_order.trans)+
        show "has_outcome (gated (on \<or> a) sv q) vs7 (as_term \<lparr>as_start = start, as_end = stop, as_done_acc = dv,
            as_next_pc = pcv, as_next_state = stsv, as_ret_vals = retv, as_synthetic_out = [], as_synthetic_in = []\<rparr>)"
          using holding_prefix [OF so_far(1) p47] holding_all_prefix [OF so_far(2) p47]
            holding_all_prefix [OF st(2) p47] holding_all_prefix [OF r(2) p57]
          by (simp add: q as_term_def split del: if_split)
      qed
    qed
  qed
qed

lemma emits_accumulate_all:
  assumes "holding_all sv vs stv" and "has_outcome (gated (cur < i) sv q) vs (as_term acc)" and "sized pw (length sv) rw q"
    and "\<forall>k < length brs. holding (cur = i + k) vs (bd_is_active (brs ! k))
      \<and> (\<exists>q'. has_outcome q' vs (bd_term (brs ! k)) \<and> sized pw (length sv) rw q' \<and> (cur = i + k \<longrightarrow> q' = q))"
  shows "emits (ctx.at base S E ins st0 st) vs (accumulate_all stv acc brs)
    (\<lambda>vs' as. has_outcome (gated (cur < i + length brs) sv q) vs' (as_term (last (acc # as))))"
    (is "emits ?at _ _ _")
  using assms
proof (induction brs arbitrary: i acc vs)
  case Nil
  then show ?case using has_outcome_prefix [OF Nil.prems(2)]
    by (simp only: accumulate_all.simps, intro emits_ret) simp
next
  case (Cons br brs)
  from Cons.prems(4) [rule_format, of 0] obtain q' where br: "holding (cur = i) vs (bd_is_active br)"
      "has_outcome q' vs (bd_term br)" "sized pw (length sv) rw q'" "cur = i \<longrightarrow> q' = q" by auto
  have on: "(cur < i \<or> cur = i) = (cur < Suc i)" by auto
  show ?case unfolding accumulate_all.simps
  proof (rule emits_bind [OF emits_accumulate_block [OF Cons.prems(1,2) br(1,2) Cons.prems(3) br(3)]])
    show "\<not> (cur < i \<and> cur = i)" "cur = i \<Longrightarrow> q' = q" using br(4) by auto
    fix a vs1 assume a: "prefix vs vs1" "has_outcome (gated (cur < i \<or> cur = i) sv q) vs1 (as_term a)"
    have rest: "\<forall>k < length brs. holding (cur = Suc i + k) vs1 (bd_is_active (brs ! k))
      \<and> (\<exists>q'. has_outcome q' vs1 (bd_term (brs ! k)) \<and> sized pw (length sv) rw q' \<and> (cur = Suc i + k \<longrightarrow> q' = q))"
    proof (intro allI impI)
      fix k assume "k < length brs"
      with Cons.prems(4) [rule_format, of "Suc k"]
      have hk: "holding (cur = Suc i + k) vs (bd_is_active (brs ! k))
        \<and> (\<exists>q'. has_outcome q' vs (bd_term (brs ! k)) \<and> sized pw (length sv) rw q' \<and> (cur = Suc i + k \<longrightarrow> q' = q))"
        by (simp del: has_outcome.simps sized.simps split_paired_Ex)
      then show "holding (cur = Suc i + k) vs1 (bd_is_active (brs ! k))
        \<and> (\<exists>q'. has_outcome q' vs1 (bd_term (brs ! k)) \<and> sized pw (length sv) rw q' \<and> (cur = Suc i + k \<longrightarrow> q' = q))"
        using holding_prefix [OF _ a(1)] has_outcome_prefix [OF _ a(1)] by blast
    qed
    have "emits ?at vs1 (accumulate_all stv a brs)
      (\<lambda>vs' as. has_outcome (gated (cur < Suc i + length brs) sv q) vs' (as_term (last (a # as))))"
      by (rule Cons.IH [OF holding_all_prefix [OF Cons.prems(1) a(1)] _ Cons.prems(3) rest]) (use a(2) on in simp)
    then show "emits ?at vs1 (ebind (accumulate_all stv a brs) (\<lambda>as. eret (a # as)))
      (\<lambda>vs' as. has_outcome (gated (cur < i + length (br # brs)) sv q) vs' (as_term (last (acc # as))))"
      by (rule emits_bind) (auto intro!: emits_ret dest: has_outcome_prefix)
  qed
qed

section \<open>Program counters\<close>

lemma bit_length_bound: "x < 2 ^ bit_length x"
proof (induction x rule: bit_length.induct)
  case (1 x)
  show ?case
  proof (cases "x = 0")
    case False
    then have "x div 2 < 2 ^ bit_length (x div 2)" by (rule 1)
    then show ?thesis using False by (subst bit_length.simps) simp
  qed simp
qed

lemma pc_bits_needed_bound: "n \<le> 2 ^ pc_bits_needed n"
  using bit_length_bound [of "n - 1"] by (auto simp: pc_bits_needed_def)

lemma pc_bits_inject: "i < 2 ^ w \<Longrightarrow> j < 2 ^ w \<Longrightarrow> pc_bits w i = pc_bits w j \<longleftrightarrow> i = j"
proof
  assume i: "i < 2 ^ w" and j: "j < 2 ^ w" and same: "pc_bits w i = pc_bits w j"
  have "bit i k = bit j k" for k
  proof (cases "k < w")
    case True
    then show ?thesis using same by (auto simp: pc_bits_def map_eq_conv)
  next
    case False
    have "take_bit w i = i" "take_bit w j = j" using i j by (simp_all add: take_bit_nat_eq_self)
    then show ?thesis using False by (metis bit_take_bit_iff)
  qed
  then show "i = j" by (simp add: bit_eq_iff)
qed simp

lemma pc_bits_0: "pc_bits w 0 = replicate w False"
  by (rule nth_equalityI) (simp_all add: pc_bits_def)

section \<open>The combined block\<close>

lemma holding_all_slice: "holding_all ys (xs @ ys @ zs) [length xs..<length xs + length ys]"
  by (auto simp: holding_all_iff holding_def nth_opt_eq_Some nth_append)

text \<open>Every block's outcome has the widths of the combination.\<close>

lemma outcome_sized:
  assumes bs: "combinable bs" and b: "b \<in> set bs" and wide: "\<forall>b \<in> set bs. params b \<le> length sv"
  shows "sized pw (length sv) (return_val_width bs) (outcome_vals pw (length sv) (return_val_width bs) (block_res E st sv b))"
proof -
  have run: "runnable b" and fits: "\<forall>t \<in> set (jump_targets (terminator b)). target_fits bs t"
    using bs b by (auto simp: combinable_def)
  have "length (take (params b) sv) = params b" using wide b by simp
  then obtain vals res st' where "eval_terminator (terminator b) vals = Some res"
      "eval_block E b (take (params b) sv) st = Some (res, st')"
    using runnable_evaluates [OF run fits, of "take (params b) sv" E st] by blast
  then have "within (length sv) (return_val_width bs) (block_res E st sv b)"
    using fits wide resolve_within by (cases "terminator b") (auto simp: block_res_def bind_eq_Some_conv split: if_splits)
  then show ?thesis by (rule sized_outcome)
qed

text \<open>The whole emission phase, from a program counter naming block \<open>cur\<close> and a state.\<close>

lemma emits_movfuscate:
  assumes bs: "combinable bs" and cur: "cur < length bs" and big: "length bs \<le> 2 ^ pw"
    and wide: "\<forall>b \<in> set bs. params b \<le> length sv" and ins: "ins = pc_bits pw cur @ sv"
  shows "emits (ctx.at base (kinds bs) E ins st0 st) ins (movfuscate_emit watch pw (length sv) (return_val_width bs) bs)
    (\<lambda>vs' r. has_outcome (outcome_vals pw (length sv) (return_val_width bs) (block_res E st sv (bs ! cur))) vs'
        (as_term (last (ai_init (snd r) # ai_steps (snd r)))))"
proof -
  let ?rw = "return_val_width bs" and ?sw = "length sv" and ?at = "ctx.at base (kinds bs) E ins st0 st"
  let ?q = "outcome_vals pw ?sw ?rw (block_res E st sv (bs ! cur))"
  have pc: "holding_all (pc_bits pw cur) ins [0..<pw]"
    using holding_all_slice [of "pc_bits pw cur" "[]" sv] by (simp add: ins)
  have sv: "holding_all sv ins [pw..<pw + ?sw]"
    using holding_all_slice [of sv "pc_bits pw cur" "[]"] by (simp add: ins)
  note sz = outcome_sized [OF bs _ wide, of _ pw E st]
  show ?thesis unfolding movfuscate_emit_def Let_def
  proof (rule emits_bind [OF bir.zero], rule emits_bind, rule emits_movfuscate_all [OF bs _ wide, of bs],
      simp, (rule holding_all_prefix [OF pc], assumption), (rule holding_all_prefix [OF sv], assumption),
      rule emits_bind [OF emits_stmt_position], rule emits_bind)
    fix z vs1 and rs :: "(MovfuscBlockBoundary \<times> (nat \<times> nat \<times> nat) list) list" and vs2 start vs3
    assume c: "prefix ins vs1" "holding False vs1 z" "prefix vs1 vs2" "prefix vs2 vs3"
      and rs: "length rs = length bs \<and> (\<forall>k < length bs. block_holds E st (pc_bits pw cur) sv ?rw (0 + k) (bs ! k) vs2 (fst (rs ! k)))"
    show "emits ?at vs3 (emap (\<lambda>_. slot_zero) [0..<?rw]) (holding_all (replicate ?rw False))"
      using emits_zeros [of base "kinds bs" E ins st0 st vs3 "[0..<?rw]"] by (simp add: slot_zero_def [abs_def])
    fix zs vs4 assume zs: "prefix vs3 vs4" "holding_all (replicate ?rw False) vs4 zs"
    let ?init = "\<lambda>stop. \<lparr>as_start = start, as_end = stop, as_done_acc = z, as_next_pc = replicate pw z,
        as_next_state = [pw..<pw + ?sw], as_ret_vals = zs, as_synthetic_out = [], as_synthetic_in = []\<rparr>"
    show "emits ?at vs4 (ebind stmt_position (\<lambda>stop.
        ebind (accumulate_all [pw..<pw + ?sw] (?init stop) (map fst rs)) (\<lambda>steps.
          eret (rs, \<lparr>ai_init = ?init stop, ai_steps = steps\<rparr>))))
      (\<lambda>vs' r. has_outcome ?q vs' (as_term (last (ai_init (snd r) # ai_steps (snd r)))))"
    proof (rule emits_bind [OF emits_stmt_position], rule emits_bind, rule emits_accumulate_all)
      fix stop vs5 assume p45: "prefix vs4 vs5"
      note p25 = prefix_order.trans [OF c(4) prefix_order.trans [OF zs(1) p45]]
      note p15 = prefix_order.trans [OF c(3) p25]
      note p = prefix_order.trans [OF c(1) p15] p15 p25 p45
      show "holding_all sv vs5 [pw..<pw + ?sw]" by (rule holding_all_prefix [OF sv p(1)])
      show "sized pw ?sw ?rw ?q" using sz cur by simp
      obtain d npc sts ret where q: "?q = (d, npc, sts, ret)" by (rule prod_cases4)
      have "length npc = pw" "length ret = ?rw" using sz [OF nth_mem [OF cur]] unfolding q by auto
      moreover have "holding_all (replicate pw False) vs5 (replicate pw z)"
        using holding_prefix [OF c(2) p(2)] by (simp add: holding_all_iff)
      ultimately show "has_outcome (gated (cur < 0) sv ?q) vs5 (as_term (?init stop))"
        using holding_prefix [OF c(2) p(2)] holding_all_prefix [OF sv p(1)] holding_all_prefix [OF zs(2) p(4)]
        unfolding q by (simp add: as_term_def map_replicate_const)
      show "\<forall>k < length (map fst rs). holding (cur = 0 + k) vs5 (bd_is_active (map fst rs ! k))
        \<and> (\<exists>q'. has_outcome q' vs5 (bd_term (map fst rs ! k)) \<and> sized pw ?sw ?rw q' \<and> (cur = 0 + k \<longrightarrow> q' = ?q))"
      proof (intro allI impI)
        fix k assume "k < length (map fst rs)"
        then have k: "k < length bs" and k': "k < length rs" using rs by simp_all
        then have "block_holds E st (pc_bits pw cur) sv ?rw k (bs ! k) vs5 (fst (rs ! k))"
          using rs p(3) by (auto intro: block_holds_prefix)
        moreover have "(pc_bits pw cur = pc_bits pw k) = (cur = k)"
          using pc_bits_inject [of cur pw k] cur k big by simp
        ultimately have h: "holding (cur = 0 + k) vs5 (bd_is_active (map fst rs ! k))"
            "has_outcome (outcome_vals pw ?sw ?rw (block_res E st sv (bs ! k))) vs5 (bd_term (map fst rs ! k))"
          using k' by (simp_all add: block_holds_def)
        moreover have "cur = 0 + k \<longrightarrow> outcome_vals pw ?sw ?rw (block_res E st sv (bs ! k)) = ?q" by simp
        ultimately show "holding (cur = 0 + k) vs5 (bd_is_active (map fst rs ! k))
          \<and> (\<exists>q'. has_outcome q' vs5 (bd_term (map fst rs ! k)) \<and> sized pw ?sw ?rw q' \<and> (cur = 0 + k \<longrightarrow> q' = ?q))"
          using sz [OF nth_mem [OF k]] by blast
      qed
      fix steps vs6 assume steps: "prefix vs5 vs6"
        "has_outcome (gated (cur < 0 + length (map fst rs)) sv ?q) vs6 (as_term (last (?init stop # steps)))"
      have "gated (cur < 0 + length (map fst rs)) sv ?q = ?q"
        using rs cur by simp
      then show "emits ?at vs6 (eret (rs, \<lparr>ai_init = ?init stop, ai_steps = steps\<rparr>))
        (\<lambda>vs' r. has_outcome ?q vs' (as_term (last (ai_init (snd r) # ai_steps (snd r)))))"
        using steps(2) by (intro emits_ret) (auto dest: has_outcome_prefix)
    qed
  qed
qed

end
