(* ===== verification/BlockSteps.thy ===== *)
theory BlockSteps
  imports BoolarProps
begin

text \<open>
  A specification of running a Boolar program that counts block steps, and its agreement with the
  evaluator's loop, which counts entries of block 0. The control-flow passes are proved against it.
\<close>

fun run_for :: "externals \<Rightarrow> 'p BIrBlock list \<Rightarrow> nat \<Rightarrow> block_id \<Rightarrow> bool list \<Rightarrow> bstorage \<Rightarrow> eval_result" where
  "run_for E bs 0 cur ins st = LimitExceeded"
| "run_for E bs (Suc n) cur ins st =
     (case nth_opt bs cur of
        None \<Rightarrow> Panicked
      | Some b \<Rightarrow>
          (case eval_block E b ins st of
             None \<Rightarrow> Panicked
           | Some (BReturn bits, _) \<Rightarrow> Returned bits
           | Some (BJump j args, st') \<Rightarrow> run_for E bs n j args st'))"

lemma run_for_more: "run_for E bs n cur ins st \<noteq> LimitExceeded \<Longrightarrow> n \<le> n' \<Longrightarrow> run_for E bs n' cur ins st = run_for E bs n cur ins st"
proof (induction n arbitrary: n' cur ins st)
  case (Suc n)
  then obtain k where n': "n' = Suc k" and k: "n \<le> k" by (cases n') auto
  have IH: "run_for E bs n j args st' \<noteq> LimitExceeded \<Longrightarrow> run_for E bs k j args st' = run_for E bs n j args st'"
    for j args st' by (rule Suc.IH [OF _ k])
  show ?case
    using Suc.prems(1) IH by (auto simp: n' split: option.splits block_result.splits prod.splits)
qed simp

lemma run_for_loop:
  "run_for E bs n cur ins st \<noteq> LimitExceeded \<Longrightarrow> k + n \<le> m \<Longrightarrow> eval_loop E bs m k cur ins st = Some (run_for E bs n cur ins st)"
proof (induction n arbitrary: k cur ins st)
  case (Suc n)
  have lim: "\<not> (cur = 0 \<and> m < Suc k)" using Suc.prems(2) by simp
  have IH: "run_for E bs n j args st' \<noteq> LimitExceeded \<Longrightarrow>
      eval_loop E bs m (if cur = 0 then Suc k else k) j args st' = Some (run_for E bs n j args st')" for j args st'
    using Suc.prems(2) by (intro Suc.IH) simp_all
  show ?case
  proof (cases "\<exists>b j args st'. nth_opt bs cur = Some b \<and> eval_block E b ins st = Some (BJump j args, st')")
    case True
    then obtain b j args st' where b: "nth_opt bs cur = Some b" "eval_block E b ins st = Some (BJump j args, st')"
      by blast
    then have "run_for E bs n j args st' \<noteq> LimitExceeded" using Suc.prems(1) by simp
    from IH [OF this] show ?thesis
      using b lim by (subst eval_loop_round) (auto simp: loop_round_def Let_def)
  next
    case False
    then show ?thesis
      using lim by (subst eval_loop_round)
        (auto simp: loop_round_def Let_def split: option.splits block_result.splits prod.splits)
  qed
qed simp

lemma loop_run_for:
  assumes ret: "eval_loop E bs m k cur ins st = Some r" and r: "r \<noteq> LimitExceeded"
  shows "\<exists>n. run_for E bs n cur ins st = r"
proof -
  have "r \<noteq> LimitExceeded \<longrightarrow> (\<exists>n. run_for E bs n cur ins st = r)"
  proof (rule eval_loop.raw_induct
      [where P = "\<lambda>E bs m k cur ins st r. r \<noteq> LimitExceeded \<longrightarrow> (\<exists>n. run_for E bs n cur ins st = r)", OF _ ret],
      fold loop_round_def, intro impI)
    fix f and E1 :: externals and bs1 :: "'a BIrBlock list" and m1 k1 cur1 ins1 st1 r1
    assume IH: "\<And>E bs m k cur ins st r. f E bs m k cur ins st = Some r \<Longrightarrow>
        r \<noteq> LimitExceeded \<longrightarrow> (\<exists>n. run_for E bs n cur ins st = r)"
      and round: "loop_round E1 bs1 m1 (f E1 bs1 m1) k1 cur1 ins1 st1 = Some r1" and r1: "r1 \<noteq> LimitExceeded"
    show "\<exists>n. run_for E1 bs1 n cur1 ins1 st1 = r1"
    proof (cases "\<exists>b j args st'. nth_opt bs1 cur1 = Some b \<and> eval_block E1 b ins1 st1 = Some (BJump j args, st')")
      case True
      then obtain b j args st' where b: "nth_opt bs1 cur1 = Some b" "eval_block E1 b ins1 st1 = Some (BJump j args, st')"
        by blast
      then have "f E1 bs1 m1 (if cur1 = 0 then Suc k1 else k1) j args st' = Some r1"
        using round r1 by (auto simp: loop_round_def Let_def split: if_splits)
      then obtain n where "run_for E1 bs1 n j args st' = r1" using IH r1 by blast
      then have "run_for E1 bs1 (Suc n) cur1 ins1 st1 = r1" using b by simp
      then show ?thesis by blast
    next
      case False
      then have "run_for E1 bs1 (Suc 0) cur1 ins1 st1 = r1"
        using round r1 by (auto simp: loop_round_def Let_def split: option.splits block_result.splits prod.splits if_splits)
      then show ?thesis by blast
    qed
  qed
  then show ?thesis using r by blast
qed

text \<open>Counting block steps and counting entries of block 0 give the same results: a program returns, or
  panics, under some limit of the evaluator exactly when it does within some number of block steps.\<close>

lemma loops_as_steps:
  assumes r: "r \<noteq> LimitExceeded"
  shows "(\<exists>m. eval_biir_with_limit E p ins m = Some r)
     \<longleftrightarrow> (\<exists>n. run_for E (blocks p) n 0 ins (apply_pre_init Map.empty (pre_init p)) = r)"
  using loop_run_for [OF _ r] run_for_loop [of E "blocks p" _ 0 ins _ 0] r
  by (fastforce simp: eval_biir_with_limit_def)

section \<open>One self-looping block\<close>

definition self_looping :: "'p BIrBlock \<Rightarrow> bool" where
  "self_looping b \<longleftrightarrow> (\<forall>t \<in> set (jump_targets (terminator b)). \<forall>j. tgt_block t = Block j \<longrightarrow> j = 0)"

lemma single_loop:
  assumes "self_looping b"
  shows "eval_loop E [b] m k 0 ins st = Some (run_for E [b] (m - k) 0 ins st)"
proof (induction "m - k" arbitrary: k ins st)
  case 0
  then show ?case by (subst eval_loop_round) (simp add: loop_round_def)
next
  case (Suc n)
  then have k: "\<not> m < Suc k" and n: "n = m - Suc k" and mk: "m - k = Suc n" by simp_all
  have jump: "j = 0" if "eval_block E b ins st = Some (BJump j args, st')" for j args st'
    using eval_block_BJump [OF that] assms by (auto simp: self_looping_def)
  show ?case
    by (subst eval_loop_round)
      (use Suc.hyps(1) [OF n] jump in \<open>auto simp: loop_round_def Let_def mk k n [symmetric]
        split: option.splits block_result.splits prod.splits\<close>)
qed

lemma single_block_limit:
  assumes "self_looping b" and "blocks p = [b]"
  shows "eval_biir_with_limit E p ins m = Some (run_for E [b] m 0 ins (apply_pre_init Map.empty (pre_init p)))"
  by (simp add: eval_biir_with_limit_def assms single_loop)

section \<open>What the limit bounds\<close>

text \<open>The blocks entered in the first \<open>n\<close> block steps.\<close>

fun entered :: "externals \<Rightarrow> 'p BIrBlock list \<Rightarrow> nat \<Rightarrow> block_id \<Rightarrow> bool list \<Rightarrow> bstorage \<Rightarrow> block_id list" where
  "entered E bs 0 cur ins st = []"
| "entered E bs (Suc n) cur ins st =
     cur # (case nth_opt bs cur of
              None \<Rightarrow> []
            | Some b \<Rightarrow>
                (case eval_block E b ins st of
                   Some (BJump j args, st') \<Rightarrow> entered E bs n j args st'
                 | _ \<Rightarrow> []))"

definition restarts :: "externals \<Rightarrow> 'p BIrBlock list \<Rightarrow> nat \<Rightarrow> block_id \<Rightarrow> bool list \<Rightarrow> bstorage \<Rightarrow> nat" where
  "restarts E bs n cur ins st = count_list (entered E bs n cur ins st) 0"

lemma restarts_0 [simp]: "restarts E bs 0 cur ins st = 0"
  by (simp add: restarts_def)

lemma restarts_jump:
  "nth_opt bs cur = Some b \<Longrightarrow> eval_block E b ins st = Some (BJump j args, st') \<Longrightarrow>
   restarts E bs (Suc n) cur ins st = (if cur = 0 then 1 else 0) + restarts E bs n j args st'"
  by (simp add: restarts_def)

lemma loop_diverges_within:
  "eval_loop E bs m k cur ins st = None \<Longrightarrow> k \<le> m \<Longrightarrow>
   run_for E bs n cur ins st = LimitExceeded \<and> k + restarts E bs n cur ins st \<le> m"
proof (induction n arbitrary: k cur ins st)
  case (Suc n)
  have round: "loop_round E bs m (eval_loop E bs m) k cur ins st = None"
    using Suc.prems(1) by (subst (asm) eval_loop_round)
  then obtain b j args st' where step: "nth_opt bs cur = Some b" "eval_block E b ins st = Some (BJump j args, st')"
      "eval_loop E bs m (if cur = 0 then Suc k else k) j args st' = None" "\<not> (cur = 0 \<and> m < Suc k)"
    by (auto simp: loop_round_def Let_def split: if_split_asm option.split_asm prod.split_asm block_result.split_asm)
  have "(if cur = 0 then Suc k else k) \<le> m" using step(4) Suc.prems(2) by auto
  from Suc.IH [OF step(3) this] show ?case
    using step(1,2) by (auto simp: restarts_jump split: if_split_asm)
qed simp

lemma loop_returns_early:
  assumes ret: "eval_loop E bs m k cur ins st = Some r"
  shows "\<exists>n. run_for E bs n cur ins st \<noteq> LimitExceeded \<or> m < k + restarts E bs n cur ins st"
proof (rule eval_loop.raw_induct
    [where P = "\<lambda>E bs m k cur ins st r. \<exists>n. run_for E bs n cur ins st \<noteq> LimitExceeded \<or> m < k + restarts E bs n cur ins st", OF _ ret],
    fold loop_round_def)
  fix f and E1 :: externals and bs1 :: "'a BIrBlock list" and m1 k1 cur1 ins1 st1 r1
  assume IH: "\<And>E bs m k cur ins st r. f E bs m k cur ins st = Some r \<Longrightarrow>
      \<exists>n. run_for E bs n cur ins st \<noteq> LimitExceeded \<or> m < k + restarts E bs n cur ins st"
    and round: "loop_round E1 bs1 m1 (f E1 bs1 m1) k1 cur1 ins1 st1 = Some r1"
  show "\<exists>n. run_for E1 bs1 n cur1 ins1 st1 \<noteq> LimitExceeded \<or> m1 < k1 + restarts E1 bs1 n cur1 ins1 st1"
  proof (cases "cur1 = 0 \<and> m1 < Suc k1")
    case True
    then have "m1 < k1 + restarts E1 bs1 (Suc 0) cur1 ins1 st1" by (simp add: restarts_def)
    then show ?thesis by blast
  next
    case lim: False
    show ?thesis
    proof (cases "\<exists>b j args st'. nth_opt bs1 cur1 = Some b \<and> eval_block E1 b ins1 st1 = Some (BJump j args, st')")
      case True
      then obtain b j args st' where b: "nth_opt bs1 cur1 = Some b" "eval_block E1 b ins1 st1 = Some (BJump j args, st')"
        by blast
      then have "f E1 bs1 m1 (if cur1 = 0 then Suc k1 else k1) j args st' = Some r1"
        using round lim by (auto simp: loop_round_def Let_def split: if_splits)
      then obtain n where "run_for E1 bs1 n j args st' \<noteq> LimitExceeded
          \<or> m1 < (if cur1 = 0 then Suc k1 else k1) + restarts E1 bs1 n j args st'" using IH by blast
      then have "run_for E1 bs1 (Suc n) cur1 ins1 st1 \<noteq> LimitExceeded \<or> m1 < k1 + restarts E1 bs1 (Suc n) cur1 ins1 st1"
        using b by (auto simp: restarts_jump split: if_split_asm)
      then show ?thesis by blast
    next
      case False
      then have "run_for E1 bs1 (Suc 0) cur1 ins1 st1 \<noteq> LimitExceeded"
        by (auto split: option.splits block_result.splits prod.splits)
      then show ?thesis by blast
    qed
  qed
qed

text \<open>C35. The limit bounds the entries of block 0 and nothing else: the evaluator fails to return exactly on
  the runs that neither end nor panic after any number of block steps and enter block 0 at most as often
  as the limit allows. So a run that stays in a cycle avoiding block 0 is never cut off, and every
  run that keeps coming back to block 0 is.\<close>

theorem evaluator_diverges_exactly:
  "eval_biir_with_limit E p ins m = None \<longleftrightarrow>
     (\<forall>n. run_for E (blocks p) n 0 ins (apply_pre_init Map.empty (pre_init p)) = LimitExceeded
       \<and> restarts E (blocks p) n 0 ins (apply_pre_init Map.empty (pre_init p)) \<le> m)"
proof
  assume "eval_biir_with_limit E p ins m = None"
  then show "\<forall>n. run_for E (blocks p) n 0 ins (apply_pre_init Map.empty (pre_init p)) = LimitExceeded
       \<and> restarts E (blocks p) n 0 ins (apply_pre_init Map.empty (pre_init p)) \<le> m"
    using loop_diverges_within [of E "blocks p" m 0 0 ins] by (simp add: eval_biir_with_limit_def)
next
  assume all: "\<forall>n. run_for E (blocks p) n 0 ins (apply_pre_init Map.empty (pre_init p)) = LimitExceeded
       \<and> restarts E (blocks p) n 0 ins (apply_pre_init Map.empty (pre_init p)) \<le> m"
  show "eval_biir_with_limit E p ins m = None"
  proof (rule ccontr)
    assume "eval_biir_with_limit E p ins m \<noteq> None"
    then obtain r where "eval_loop E (blocks p) m 0 0 ins (apply_pre_init Map.empty (pre_init p)) = Some r"
      by (auto simp: eval_biir_with_limit_def)
    from loop_returns_early [OF this] obtain n where "run_for E (blocks p) n 0 ins (apply_pre_init Map.empty (pre_init p)) \<noteq> LimitExceeded
        \<or> m < restarts E (blocks p) n 0 ins (apply_pre_init Map.empty (pre_init p))" by auto
    then show False using all [rule_format, of n] by simp
  qed
qed

end
