(* ===== verification/MovfuscateProps.thy ===== *)
theory MovfuscateProps
  imports MovfuscateCorrect BlockSteps
begin

text \<open>
  The theorems about movfuscation: the combined block simulates the program step by step, the combined
  program returns what the program returns, and what the Boolar instance does not protect.
\<close>

section \<open>One round\<close>

definition state_width :: "'p BIrBlock list \<Rightarrow> nat" where
  "state_width bs = foldr max (map params bs) 0"

lemma state_width_bound: "b \<in> set bs \<Longrightarrow> params b \<le> state_width bs"
  by (induction bs) (auto simp: state_width_def)

text \<open>The emission phase of a program of two blocks or more does not panic, and what it emits is well formed.\<close>

lemma holding_bound: "holding x vs v \<Longrightarrow> v < length vs"
  by (simp add: holding_def nth_opt_eq_Some)

lemma holding_all_bound: "holding_all xs vs as \<Longrightarrow> \<forall>v \<in> set as. v < length vs"
  by (simp add: holding_all_def nths_opt_eq_Some)

fun term_within :: "nat \<Rightarrow> nat \<Rightarrow> nat \<Rightarrow> nat \<Rightarrow> TermResult \<Rightarrow> bool" where
  "term_within N pw sw rw t \<longleftrightarrow> length (tr_next_pc_bits t) = pw \<and> length (tr_next_state t) = sw \<and> length (tr_ret_vals t) = rw
     \<and> (\<forall>v \<in> set (tr_done t # tr_next_pc_bits t @ tr_next_state t @ tr_ret_vals t). v < N)"

lemma outcome_term_within:
  "has_outcome q vs t \<Longrightarrow> sized pw sw rw q \<Longrightarrow> term_within (length vs) pw sw rw t"
  by (cases q) (auto simp: holding_all_length dest: holding_bound holding_all_bound)

lemma movfuscate_emits:
  assumes bs: "combinable bs" and ne: "bs \<noteq> []" and pw: "length bs \<le> 2 ^ pw"
  shows "\<exists>results accum s. movfuscate_emit watch pw (state_width bs) (return_val_width bs) bs
      (ctx_new (pw + state_width bs) p) = Some ((results, accum), s)
    \<and> list_ok (pw + state_width bs) (ctx_stmts s) \<and> (\<forall>n \<in> set (ctx_stmts s). drawn (kinds bs) (kind n))
    \<and> term_within (pw + state_width bs + length (ctx_stmts s)) pw (state_width bs) (return_val_width bs)
        (as_term (last (ai_init accum # ai_steps accum)))"
proof -
  let ?sv = "replicate (state_width bs) False" and ?E = hash_externals
  let ?ins = "pc_bits pw 0 @ ?sv"
  have at: "ctx.at (pw + state_width bs) (kinds bs) ?E ?ins Map.empty Map.empty (ctx_new (pw + state_width bs) p) ?ins"
    using runs_start [of "kinds bs" ?E ?ins Map.empty] by (auto simp: ctx.at_def ctx_new_def)
  have wide: "\<forall>b \<in> set bs. params b \<le> length ?sv" using state_width_bound by auto
  have ne': "0 < length bs" using ne by simp
  obtain r s vs where run: "movfuscate_emit watch pw (state_width bs) (return_val_width bs) bs
      (ctx_new (pw + state_width bs) p) = Some (r, s)" "ctx.at (pw + state_width bs) (kinds bs) ?E ?ins Map.empty Map.empty s vs"
      and q: "has_outcome (outcome_vals pw (length ?sv) (return_val_width bs) (block_res ?E Map.empty ?sv (bs ! 0))) vs
        (as_term (last (ai_init (snd r) # ai_steps (snd r))))"
    using emits_run [OF emits_movfuscate [OF bs ne' pw wide refl] at] unfolding length_replicate by blast
  from run(2) obtain ag where ag: "runs (kinds bs) ?E ?ins Map.empty (ctx_stmts s) vs ag Map.empty"
    by (auto simp: ctx.at_def)
  note outcome_term_within [OF q outcome_sized [OF bs nth_mem [OF ne'] wide]]
  then show ?thesis using run(1) ag runs_length [OF ag] by (cases r) (auto simp: runs_def)
qed

text \<open>Every round of the block the pass builds is one block of the program.\<close>

lemma combined_round:
  fixes bs :: "'p BIrBlock list"
  assumes bs: "combinable bs" and cur: "cur < length bs" and pw: "length bs \<le> 2 ^ pw"
    and sv: "length sv = state_width bs"
    and emit: "movfuscate_emit watch pw (state_width bs) (return_val_width bs) bs (ctx_new (pw + state_width bs) p)
      = Some ((results, accum), s)"
    and final: "final = last (ai_init accum # ai_steps accum)"
    and out: "out = blocks (build_output s (pw + state_width bs) (as_done_acc final)
      (as_next_pc final @ as_next_state final) (as_ret_vals final)) ! 0"
  shows "\<exists>res. eval_block E (bs ! cur) (take (params (bs ! cur)) sv) st = Some (res, st)
    \<and> (case res of
         BReturn r \<Rightarrow> eval_block E out (pc_bits pw cur @ sv) st = Some (BReturn r, st)
       | BJump j args \<Rightarrow> j < length bs \<and> length args = params (bs ! j)
           \<and> eval_block E out (pc_bits pw cur @ sv) st
             = Some (BJump 0 (pc_bits pw j @ args @ replicate (state_width bs - length args) False), st))"
proof -
  let ?b = "bs ! cur" and ?ins = "pc_bits pw cur @ sv"
  have b: "?b \<in> set bs" using cur by simp
  have wide: "\<forall>b \<in> set bs. params b \<le> length sv" using sv state_width_bound by auto
  have run: "runnable ?b" and fits: "\<forall>t \<in> set (jump_targets (terminator ?b)). target_fits bs t"
    and nw: "\<forall>n \<in> set (stmts ?b). \<not> is_storage_write (kind n)" using bs b by (auto simp: combinable_def)
  have "length (take (params ?b) sv) = params ?b" using wide b by simp
  then obtain vals ag st' res where ev: "eval_stmts E (stmts ?b) (params ?b) (take (params ?b) sv, Map.empty, st) = Some (vals, ag, st')"
      and tm: "eval_terminator (terminator ?b) vals = Some res"
      and blk: "eval_block E ?b (take (params ?b) sv) st = Some (res, st')"
    using runnable_evaluates [OF run fits, of "take (params ?b) sv" E st] by blast
  have st': "st' = st" using eval_stmts_storage [OF ev nw] .
  have res: "block_res E st sv ?b = res" by (simp add: block_res_def blk)
  have fit: "case res of BReturn r \<Rightarrow> length r = return_val_width bs | BJump j args \<Rightarrow> j < length bs \<and> length args = params (bs ! j)"
    using tm fits by (cases "terminator ?b")
      (auto simp: resolve_target_def bind_eq_Some_conv nths_opt_eq_Some split: IRBlockTargetId.splits if_splits)
  have "ctx.at (pw + state_width bs) (kinds bs) E ?ins st st (ctx_new (pw + state_width bs) p) ?ins"
    using runs_start [of "kinds bs" E ?ins st] sv by (auto simp: ctx.at_def ctx_new_def)
  from emits_run [OF emits_movfuscate [OF bs cur pw wide refl, unfolded sv, of _ E _ _ watch] this] emit
  obtain vs where "ctx.at (pw + state_width bs) (kinds bs) E ?ins st st s vs"
      and q: "has_outcome (outcome_vals pw (state_width bs) (return_val_width bs) res) vs (as_term final)"
    by (auto simp: final res simp del: last.simps)
  then obtain ag where ag: "eval_stmts E (ctx_stmts s) (pw + state_width bs) (?ins, Map.empty, st) = Some (vs, ag, st)"
    using sv by (auto simp: ctx.at_def runs_def)
  have out': "params out = pw + state_width bs" "stmts out = ctx_stmts s"
      "terminator out = CondJmp (as_done_acc final) \<lparr>tgt_block = Return, tgt_args = as_ret_vals final\<rparr>
         \<lparr>tgt_block = Block 0, tgt_args = as_next_pc final @ as_next_state final\<rparr>"
    by (simp_all add: out build_output_def)
  show ?thesis
  proof (cases res)
    case (BReturn r)
    then have "nth_opt vs (as_done_acc final) = Some True" "nths_opt vs (as_ret_vals final) = Some r"
      using q fit by (simp_all add: as_term_def holding_def holding_all_def)
    then show ?thesis using BReturn blk st' ag sv
      by (simp add: eval_block_def out' resolve_target_def)
  next
    case (BJump j args)
    then have "nth_opt vs (as_done_acc final) = Some False"
        "holding_all (pc_bits pw j @ args @ replicate (state_width bs - length args) False) vs (as_next_pc final @ as_next_state final)"
      using q by (auto simp: as_term_def holding_def)
    then show ?thesis using BJump blk st' ag sv fit
      by (simp add: eval_block_def out' resolve_target_def holding_all_def)
  qed
qed

section \<open>The whole program\<close>

lemma take_extended: "length args \<le> n \<Longrightarrow> take (length args) (args @ replicate (n - length args) False) = args"
  by simp

text \<open>A combined block that simulates every block of a program runs as the program does.\<close>

lemma combined_runs:
  assumes round: "\<And>cur sv. cur < length bs \<Longrightarrow> length sv = w \<Longrightarrow>
      \<exists>res. eval_block E (bs ! cur) (take (params (bs ! cur)) sv) st = Some (res, st)
      \<and> (case res of
           BReturn r \<Rightarrow> eval_block E out (pc_bits pw cur @ sv) st = Some (BReturn r, st)
         | BJump j args \<Rightarrow> j < length bs \<and> length args = params (bs ! j)
             \<and> eval_block E out (pc_bits pw cur @ sv) st
               = Some (BJump 0 (pc_bits pw j @ args @ replicate (w - length args) False), st))"
    and wide: "\<forall>b \<in> set bs. params b \<le> w"
    and "cur < length bs" and "length sv = w"
  shows "run_for E [out] n 0 (pc_bits pw cur @ sv) st = run_for E bs n cur (take (params (bs ! cur)) sv) st"
  using assms(3,4)
proof (induction n arbitrary: cur sv)
  case (Suc n)
  obtain res where res: "eval_block E (bs ! cur) (take (params (bs ! cur)) sv) st = Some (res, st)"
    and sim: "case res of
           BReturn r \<Rightarrow> eval_block E out (pc_bits pw cur @ sv) st = Some (BReturn r, st)
         | BJump j args \<Rightarrow> j < length bs \<and> length args = params (bs ! j)
             \<and> eval_block E out (pc_bits pw cur @ sv) st
               = Some (BJump 0 (pc_bits pw j @ args @ replicate (w - length args) False), st)"
    using round [OF Suc.prems] by blast
  show ?case
  proof (cases res)
    case (BReturn r)
    then show ?thesis using res sim Suc.prems(1) by simp
  next
    case (BJump j args)
    then have j: "j < length bs" "length args = params (bs ! j)"
      and ev: "eval_block E out (pc_bits pw cur @ sv) st
               = Some (BJump 0 (pc_bits pw j @ args @ replicate (w - length args) False), st)"
      using sim by simp_all
    have le: "length args \<le> w" using wide j by simp
    from Suc.IH [OF j(1), of "args @ replicate (w - length args) False"]
    have "run_for E [out] n 0 (pc_bits pw j @ args @ replicate (w - length args) False) st = run_for E bs n j args st"
      using le j(2) by simp
    then show ?thesis using res ev BJump Suc.prems(1) by simp
  qed
qed simp

definition has_statement :: "'p BIrBlock list \<Rightarrow> bool" where
  "has_statement bs \<longleftrightarrow> (\<exists>b \<in> set bs. stmts b \<noteq> [])"

lemma first_prov: "has_statement bs \<Longrightarrow> concat (map (\<lambda>b. map prov (stmts b)) bs) \<noteq> []"
  by (auto simp: has_statement_def)

lemma state_width_single [simp]: "state_width [b] = params b"
  by (simp add: state_width_def)

text \<open>The statements a pass draws from a well-formed program have its properties.\<close>

lemma drawn_combinable:
  assumes "drawn (kinds bs) k" and "combinable bs"
  shows "is_pure_stmt k \<and> \<not> is_storage_write k"
proof (cases "is_gate k")
  case True
  then show ?thesis by (cases k) auto
next
  case False
  then obtain b n f where "b \<in> set bs" "n \<in> set (stmts b)" "k = map_BIrStmt f id (kind n)"
    using assms(1) by (auto simp: drawn_def kinds_def)
  then show ?thesis using assms(2)
    by (cases "kind n") (auto simp: combinable_def runnable_def dest!: bspec)
qed

lemma combined_well_formed:
  assumes bs: "combinable bs" and ok: "list_ok (pw + sw) (ctx_stmts s)"
    and drawn: "\<forall>n \<in> set (ctx_stmts s). drawn (kinds bs) (kind n)"
    and final: "term_within (pw + sw + length (ctx_stmts s)) pw sw rw (as_term final)"
  shows "combinable (blocks (build_output s (pw + sw) (as_done_acc final) (as_next_pc final @ as_next_state final) (as_ret_vals final)))"
  using ok final drawn_combinable [OF _ bs] drawn
  by (auto simp: build_output_def combinable_def runnable_def block_ok_def as_term_def)

lemma self_looping_output:
  "self_looping (blocks (build_output s n d l r) ! 0)"
  by (simp add: self_looping_def build_output_def)

lemma movfuscated_program:
  fixes p :: "'p BIrBlocks"
  assumes bs: "combinable (blocks p)" and two: "2 \<le> length (blocks p)"
    and prov: "cp \<noteq> None \<or> has_statement (blocks p)"
  shows "\<exists>q. movfuscate_biir_impl p cp = Some q \<and> is_movfuscated q \<and> self_looping (blocks q ! 0)
    \<and> combinable (blocks q) \<and> (\<forall>k \<in> kinds (blocks q). drawn (kinds (blocks p)) k)
    \<and> (\<exists>v t e. terminator (blocks q ! 0) = CondJmp v t e \<and> tgt_block t = Return
        \<and> length (tgt_args t) = return_val_width (blocks p))
    \<and> pre_init q = pre_init p \<and> params (blocks q ! 0) = pc_bits_needed (length (blocks p)) + state_width (blocks p)
    \<and> (\<forall>E st cur sv n. cur < length (blocks p) \<longrightarrow> length sv = state_width (blocks p) \<longrightarrow>
        run_for E (blocks q) n 0 (pc_bits (pc_bits_needed (length (blocks p))) cur @ sv) st
          = run_for E (blocks p) n cur (take (params (blocks p ! cur)) sv) st)"
proof -
  let ?bs = "blocks p" and ?pw = "pc_bits_needed (length (blocks p))"
  obtain c where c: "(case concat (map (\<lambda>b. map prov (stmts b)) ?bs) of q # _ \<Rightarrow> Some q | [] \<Rightarrow> cp) = Some c"
    using prov first_prov [of ?bs] by (cases "concat (map (\<lambda>b. map prov (stmts b)) ?bs)") auto
  have ne: "?bs \<noteq> []" using two by auto
  obtain results accum s where emit: "movfuscate_emit [] ?pw (state_width ?bs) (return_val_width ?bs) ?bs
      (ctx_new (?pw + state_width ?bs) c) = Some ((results, accum), s)"
    and wf: "list_ok (?pw + state_width ?bs) (ctx_stmts s)" "\<forall>n \<in> set (ctx_stmts s). drawn (kinds ?bs) (kind n)"
      "term_within (?pw + state_width ?bs + length (ctx_stmts s)) ?pw (state_width ?bs) (return_val_width ?bs)
        (as_term (last (ai_init accum # ai_steps accum)))"
    using movfuscate_emits [OF bs ne pc_bits_needed_bound] by blast
  define final where "final = last (ai_init accum # ai_steps accum)"
  define q where "q = (build_output s (?pw + state_width ?bs) (as_done_acc final)
      (as_next_pc final @ as_next_state final) (as_ret_vals final))\<lparr>pre_init := pre_init p\<rparr>"
  have "movfuscate_biir_impl p cp = Some q"
    using two emit ne
    by (simp add: movfuscate_biir_impl_def c [unfolded list.case_eq_if] c movfuscate_def Let_def state_width_def [symmetric]
        final_def [symmetric] q_def del: last.simps)
  moreover have b: "blocks q = [blocks q ! 0]" by (simp add: q_def build_output_def)
  moreover have "run_for E (blocks q) n 0 (pc_bits ?pw cur @ sv) st = run_for E ?bs n cur (take (params (?bs ! cur)) sv) st"
    if "cur < length ?bs" "length sv = state_width ?bs" for E st cur sv n
  proof (subst b, rule combined_runs [OF combined_round [OF bs _ pc_bits_needed_bound _ emit final_def]])
    show "blocks q ! 0 = blocks (build_output s (?pw + state_width ?bs) (as_done_acc final)
      (as_next_pc final @ as_next_state final) (as_ret_vals final)) ! 0" by (simp add: q_def)
  qed (use that state_width_bound in auto)
  moreover have "self_looping (blocks q ! 0)" using self_looping_output by (simp add: q_def)
  moreover have "combinable (blocks q)"
    using combined_well_formed [OF bs wf(1,2)] wf(3) by (simp add: q_def final_def)
  moreover have "\<forall>k \<in> kinds (blocks q). drawn (kinds ?bs) k"
    using wf(2) by (auto simp: q_def kinds_def build_output_def)
  moreover have "\<exists>v t e. terminator (blocks q ! 0) = CondJmp v t e \<and> tgt_block t = Return
      \<and> length (tgt_args t) = return_val_width ?bs"
    using wf(3) by (simp add: q_def build_output_def as_term_def final_def)
  ultimately show ?thesis
    by (intro exI [of _ q]) (simp add: is_movfuscated_def q_def build_output_def)
qed

lemma combinable_targets:
  "combinable bs \<Longrightarrow> b \<in> set bs \<Longrightarrow> t \<in> set (jump_targets (terminator b)) \<Longrightarrow> tgt_block t = Block j \<Longrightarrow> j < length bs"
  by (auto simp: combinable_def split: IRBlockTargetId.splits)

lemma movfuscated_limit:
  fixes p :: "'p BIrBlocks"
  assumes bs: "combinable (blocks p)" and ne: "blocks p \<noteq> []"
    and prov: "cp \<noteq> None \<or> has_statement (blocks p) \<or> length (blocks p) = 1"
    and ins: "length ins = params (blocks p ! 0)" "length ins + length pad = state_width (blocks p)"
  shows "\<exists>q. movfuscate_biir_impl p cp = Some q \<and> is_movfuscated q \<and> combinable (blocks q)
    \<and> self_looping (blocks q ! 0) \<and> (\<forall>k \<in> kinds (blocks q). drawn (kinds (blocks p)) k)
    \<and> params (blocks q ! 0) = pc_bits_needed (length (blocks p)) + state_width (blocks p)
    \<and> (\<forall>E m. eval_biir_with_limit E q (replicate (pc_bits_needed (length (blocks p))) False @ ins @ pad) m
        = Some (run_for E (blocks p) m 0 ins (apply_pre_init Map.empty (pre_init p))))"
proof (cases "length (blocks p) = 1")
  case True
  then obtain b where b: "blocks p = [b]" by (cases "blocks p") auto
  then have "self_looping b" using combinable_targets [OF bs, of b] by (auto simp: self_looping_def)
  moreover have "pad = []" using ins b by simp
  moreover have "\<forall>k \<in> kinds (blocks p). drawn (kinds (blocks p)) k" by (simp add: drawn_self)
  ultimately show ?thesis
    using b bs by (simp add: movfuscate_biir_impl_def is_movfuscated_def single_block_limit pc_bits_needed_def)
next
  case False
  then have two: "2 \<le> length (blocks p)" using ne by (cases "blocks p" rule: list.exhaust [case_product list.exhaust]) (auto simp: Suc_le_eq)
  obtain q where q: "movfuscate_biir_impl p cp = Some q" "is_movfuscated q" "self_looping (blocks q ! 0)" "pre_init q = pre_init p"
      "combinable (blocks q)" "\<forall>k \<in> kinds (blocks q). drawn (kinds (blocks p)) k"
      "params (blocks q ! 0) = pc_bits_needed (length (blocks p)) + state_width (blocks p)"
    and run: "\<And>E st cur sv n. cur < length (blocks p) \<Longrightarrow> length sv = state_width (blocks p) \<Longrightarrow>
        run_for E (blocks q) n 0 (pc_bits (pc_bits_needed (length (blocks p))) cur @ sv) st
          = run_for E (blocks p) n cur (take (params (blocks p ! cur)) sv) st"
    using movfuscated_program [OF bs two] prov False by blast
  have b: "blocks q = [blocks q ! 0]" using q(2) by (cases "blocks q") (auto simp: is_movfuscated_def)
  have "eval_biir_with_limit E q (pc_bits (pc_bits_needed (length (blocks p))) 0 @ ins @ pad) m
      = Some (run_for E (blocks p) m 0 ins (apply_pre_init Map.empty (pre_init p)))" for E m
    using single_block_limit [OF q(3) b] run [of 0 "ins @ pad" E m "apply_pre_init Map.empty (pre_init p)"] ne ins b q(4)
    by simp
  then show ?thesis using q by (auto simp: pc_bits_0)
qed

section \<open>Theorems\<close>

text \<open>C13. Movfuscation refines the program step for step: on well-formed blocks of statements that neither
  panic nor write storage, it returns one self-looping block which, started with the program counter
  of block 0, the inputs and any padding of the state, returns under a limit of \<open>m\<close> rounds exactly what
  \<open>m\<close> block steps of the program return.\<close>

theorem movfuscation_refines:
  assumes "combinable (blocks p)" and "blocks p \<noteq> []"
    and "length ins = params (blocks p ! 0)" and "length ins + length pad = state_width (blocks p)"
  shows "\<exists>q. movfuscate_biir_with_control_provenance p cp = Some q \<and> is_movfuscated q
    \<and> eval_biir_with_limit E q (replicate (pc_bits_needed (length (blocks p))) False @ ins @ pad) m
        = Some (run_for E (blocks p) m 0 ins (apply_pre_init Map.empty (pre_init p)))"
  using movfuscated_limit [OF assms(1,2) _ assms(3,4), of "Some cp"]
  by (auto simp: movfuscate_biir_with_control_provenance_def)

text \<open>A two-block program: block 0 negates its input and passes it on with a constant; block 1 goes back
  while its first parameter is set and otherwise returns the conjunction.\<close>

definition two_blocks :: "unit BIrBlocks" where
  "two_blocks = \<lparr>blocks =
     [\<lparr>params = 1, stmts = [Node_new (BNot 0) () None, Node_new BOne () None],
       terminator = Jmp \<lparr>tgt_block = Block 1, tgt_args = [1, 2]\<rparr>\<rparr>,
      \<lparr>params = 2, stmts = [Node_new (BAnd 0 1) () None],
       terminator = CondJmp 0 \<lparr>tgt_block = Block 0, tgt_args = [1]\<rparr> \<lparr>tgt_block = Return, tgt_args = [2, 1]\<rparr>\<rparr>],
     pre_init = []\<rparr>"

lemma combinable_two_blocks: "combinable (blocks two_blocks)"
  by (auto simp: combinable_def two_blocks_def runnable_def block_ok_def list_ok_def Node_new_def less_Suc_eq
      nth_Cons split: nat.splits)

theorem movfuscation_refines_witness:
  "\<exists>q. movfuscate_biir_with_control_provenance two_blocks () = Some q \<and> is_movfuscated q
    \<and> eval_biir_with_limit hash_externals q ([False] @ [False] @ [True]) 4 = Some (Returned [False, True])"
proof -
  have "run_for hash_externals (blocks two_blocks) 4 0 [False] (apply_pre_init Map.empty (pre_init two_blocks))
      = Returned [False, True]"
    by code_simp
  moreover have "pc_bits_needed (length (blocks two_blocks)) = 1" "state_width (blocks two_blocks) = 2" by code_simp+
  moreover have "params (blocks two_blocks ! 0) = 1" "blocks two_blocks \<noteq> []" by (simp_all add: two_blocks_def)
  ultimately show ?thesis
    using movfuscation_refines [OF combinable_two_blocks, of "[False]" "[True]" "()" hash_externals 4] by simp
qed

lemma jump_args:
  "eval_terminator tm vs = Some (BJump j args) \<Longrightarrow>
   \<exists>t \<in> set (jump_targets tm). tgt_block t = Block j \<and> length args = length (tgt_args t)"
proof -
  have one: "tgt_block t = Block j \<and> length args = length (tgt_args t)" if "resolve_target t vs = Some (BJump j args)" for t
    using that by (cases "tgt_block t") (auto simp: resolve_target_def bind_eq_Some_conv nths_opt_eq_Some)
  assume "eval_terminator tm vs = Some (BJump j args)"
  then have "\<exists>t \<in> set (jump_targets tm). resolve_target t vs = Some (BJump j args)"
    by (cases tm) (auto simp: bind_eq_Some_conv split: if_split_asm)
  then show ?thesis using one by blast
qed

lemma combinable_no_panic:
  assumes "combinable bs"
  shows "cur < length bs \<Longrightarrow> length ins = params (bs ! cur) \<Longrightarrow> run_for E bs n cur ins st \<noteq> Panicked"
proof (induction n arbitrary: cur ins st)
  case (Suc n)
  let ?b = "bs ! cur"
  have b: "?b \<in> set bs" using Suc.prems(1) by simp
  then have run: "runnable ?b" "\<forall>t \<in> set (jump_targets (terminator ?b)). target_fits bs t"
    using assms by (auto simp: combinable_def)
  obtain vs res st' where res: "eval_terminator (terminator ?b) vs = Some res" "eval_block E ?b ins st = Some (res, st')"
    using runnable_evaluates [OF run Suc.prems(2)] by blast
  show ?case
  proof (cases res)
    case (BReturn bits)
    then show ?thesis using res(2) Suc.prems(1) by (simp add: nth_opt_def)
  next
    case (BJump j args)
    obtain t where t: "t \<in> set (jump_targets (terminator ?b))" "tgt_block t = Block j" "length args = length (tgt_args t)"
      using jump_args [OF res(1) [unfolded BJump]] by blast
    have "target_fits bs t" using run(2) t(1) by blast
    then have "j < length bs" "length args = params (bs ! j)" using t(2,3) by simp_all
    from Suc.IH [OF this] show ?thesis using res(2) Suc.prems(1) by (simp add: BJump nth_opt_def)
  qed
qed simp

text \<open>C14. Movfuscation keeps results: for well-formed blocks of pure statements that do not write storage,
  with jumps that fit, at least one of which has a statement (to supply the provenance), the combined
  program returns \<open>r\<close> under some limit exactly when the original does, although the one counts rounds and
  the other entries of block 0; neither ever panics, and the combined program returns or reports the
  limit under every limit, also where the original's loop does not end.\<close>

theorem movfuscation_preserves_results:
  assumes "combinable (blocks p)" and "blocks p \<noteq> []" and "has_statement (blocks p)"
    and "length ins = params (blocks p ! 0)" and "length ins + length pad = state_width (blocks p)"
  shows "\<exists>q. movfuscate_biir p = Some q
    \<and> (\<forall>r. (\<exists>m. eval_biir_with_limit E q (replicate (pc_bits_needed (length (blocks p))) False @ ins @ pad) m = Some (Returned r))
        \<longleftrightarrow> (\<exists>m. eval_biir_with_limit E p ins m = Some (Returned r)))
    \<and> (\<forall>m. eval_biir_with_limit E p ins m \<noteq> Some Panicked
        \<and> (\<exists>res. eval_biir_with_limit E q (replicate (pc_bits_needed (length (blocks p))) False @ ins @ pad) m = Some res \<and> res \<noteq> Panicked))"
proof -
  let ?run = "\<lambda>n. run_for E (blocks p) n 0 ins (apply_pre_init Map.empty (pre_init p))"
  obtain q where q: "movfuscate_biir p = Some q"
    and lim: "\<And>m. eval_biir_with_limit E q (replicate (pc_bits_needed (length (blocks p))) False @ ins @ pad) m = Some (?run m)"
    using movfuscated_limit [OF assms(1,2) _ assms(4,5), of None] assms(3) unfolding movfuscate_biir_def by blast
  have ok: "?run n \<noteq> Panicked" for n by (rule combinable_no_panic [OF assms(1)]) (use assms(2,4) in simp_all)
  have "(\<exists>m. eval_biir_with_limit E p ins m = Some r) \<longleftrightarrow> (\<exists>n. ?run n = r)" if "r \<noteq> LimitExceeded" for r
    by (rule loops_as_steps [OF that])
  from this [of Panicked] this [of "Returned _"] show ?thesis using q lim ok by simp
qed

theorem movfuscation_preserves_results_witness:
  "\<exists>q. movfuscate_biir two_blocks = Some q
    \<and> ((\<exists>m. eval_biir_with_limit hash_externals q ([False] @ [False] @ [True]) m = Some (Returned [False, True]))
        \<longleftrightarrow> (\<exists>m. eval_biir_with_limit hash_externals two_blocks [False] m = Some (Returned [False, True])))"
proof -
  have "pc_bits_needed (length (blocks two_blocks)) = 1" "state_width (blocks two_blocks) = 2" by code_simp+
  moreover have "params (blocks two_blocks ! 0) = 1" "blocks two_blocks \<noteq> []" "has_statement (blocks two_blocks)"
    by (simp_all add: two_blocks_def has_statement_def)
  ultimately show ?thesis
    using movfuscation_preserves_results [OF combinable_two_blocks, of "[False]" "[True]" hash_externals] by fastforce
qed

text \<open>C15. What movfuscation returns is well formed again: from well-formed blocks of statements that neither panic
  nor write storage, with fitting jumps and some statement, it makes one block whose operands are earlier
  variables and whose call handles name calls, with a jump back that fits its parameters, of the width of
  the program counter and the widest block, and with statements that are gates or copies of the program's.\<close>

theorem movfuscation_well_formed:
  assumes "combinable (blocks p)" and "blocks p \<noteq> []" and "has_statement (blocks p)"
  shows "\<exists>q. movfuscate_biir p = Some q \<and> is_movfuscated q \<and> combinable (blocks q)
    \<and> params (blocks q ! 0) = pc_bits_needed (length (blocks p)) + state_width (blocks p)
    \<and> (\<forall>n \<in> set (stmts (blocks q ! 0)). drawn (kinds (blocks p)) (kind n))"
proof -
  have "length (replicate (params (blocks p ! 0)) False) = params (blocks p ! 0)"
    "length (replicate (params (blocks p ! 0)) False)
      + length (replicate (state_width (blocks p) - params (blocks p ! 0)) False) = state_width (blocks p)"
    using state_width_bound [of "blocks p ! 0" "blocks p"] assms(2) by simp_all
  from movfuscated_limit [OF assms(1,2) _ this, of None] assms(3)
  obtain q where q: "movfuscate_biir p = Some q" "is_movfuscated q" "combinable (blocks q)"
      "\<forall>k \<in> kinds (blocks q). drawn (kinds (blocks p)) k"
      "params (blocks q ! 0) = pc_bits_needed (length (blocks p)) + state_width (blocks p)"
    unfolding movfuscate_biir_def by blast
  then have "blocks q ! 0 \<in> set (blocks q)" by (intro nth_mem) (auto simp: is_movfuscated_def)
  then show ?thesis using q by (intro exI [of _ q]) (auto simp: kinds_def)
qed

theorem movfuscation_well_formed_witness:
  "\<exists>q. movfuscate_biir two_blocks = Some q \<and> combinable (blocks q) \<and> params (blocks q ! 0) = 3"
proof -
  have "pc_bits_needed (length (blocks two_blocks)) = 1" "state_width (blocks two_blocks) = 2" by code_simp+
  then show ?thesis using movfuscation_well_formed [OF combinable_two_blocks]
    by (auto simp: two_blocks_def has_statement_def)
qed

text \<open>A program whose block 1 is never entered and writes a cell that block 2 reads.\<close>

definition leaky :: "unit BIrBlocks" where
  "leaky = \<lparr>blocks =
     [\<lparr>params = 0, stmts = [], terminator = Jmp \<lparr>tgt_block = Block 2, tgt_args = []\<rparr>\<rparr>,
      \<lparr>params = 0, stmts = [Node_new BOne () None, Node_new (StorageWrite 0 0 0 []) () None],
       terminator = Jmp \<lparr>tgt_block = Return, tgt_args = [0]\<rparr>\<rparr>,
      \<lparr>params = 0, stmts = [Node_new (StorageRead 0 0 []) () None],
       terminator = Jmp \<lparr>tgt_block = Return, tgt_args = [0]\<rparr>\<rparr>],
     pre_init = []\<rparr>"

definition leaky_combined :: "unit BIrBlocks" where
  "leaky_combined = the (movfuscate_biir leaky)"

lemma leaky_runs:
  "run_for hash_externals (blocks leaky) 2 0 [] Map.empty = Returned [False]"
  "movfuscate_biir leaky = Some leaky_combined"
  "run_for hash_externals (blocks leaky_combined) 2 0 [False, False] Map.empty = Returned [True]"
  by code_simp+

lemma leaky_combined_shape: "pre_init leaky_combined = []"
  by code_simp

text \<open>The Boolar instance does not gate storage writes by the dispatch condition: block 1 is never
  entered, yet its write happens in the first round of the combined block, and the result changes.\<close>

theorem movfuscation_leaks_writes:
  "eval_biir hash_externals leaky [] = Some (Returned [False])
   \<and> movfuscate_biir leaky = Some leaky_combined
   \<and> eval_biir hash_externals leaky_combined [False, False] = Some (Returned [True])"
proof -
  have "eval_biir hash_externals leaky [] = Some (Returned [False])"
    using run_for_loop [of hash_externals "blocks leaky" 2 0 "[]" Map.empty 0 MAX_ITERS] leaky_runs(1)
    by (simp add: eval_biir_def eval_biir_with_limit_def MAX_ITERS_def leaky_def apply_pre_init_def)
  moreover have "eval_biir hash_externals leaky_combined [False, False] = Some (Returned [True])"
    using run_for_loop [of hash_externals "blocks leaky_combined" 2 0 "[False, False]" Map.empty 0 MAX_ITERS] leaky_runs(3)
      leaky_combined_shape
    by (simp add: eval_biir_def eval_biir_with_limit_def MAX_ITERS_def apply_pre_init_def)
  ultimately show ?thesis using leaky_runs(2) by blast
qed

end
