(* ===== verification/LowerCircuitCorrect.thy ===== *)
theory LowerCircuitCorrect
  imports LowerCircuit MovfuscateProps
begin

text \<open>
  Loop lowering is correct: every unrolled iteration computes what one round of the block computes, the
  multiplexers select the results of the first iteration that exits, and the disjunction says whether
  one did. The cache of pure gates is proved sound on the way.
\<close>

section \<open>The emitter\<close>

text \<open>Every cache entry names a gate that was emitted and has its key.\<close>

definition em_ok :: "nat \<Rightarrow> 'p Emitter \<Rightarrow> bool list \<Rightarrow> bool" where
  "em_ok base s vs \<longleftrightarrow> em_next_id s = length vs
     \<and> (\<forall>c i key v. em_substituted_gates s = Some c \<longrightarrow> c i = Some (key, v) \<longrightarrow>
          base \<le> v \<and> v < base + length (em_stmts s) \<and> key_from_stmt (kind (em_stmts s ! (v - base))) = Some key)"

lemma em_ok_emitted:
  assumes "em_ok base s vs"
  shows "em_ok base (s\<lparr>em_stmts := em_stmts s @ [n], em_next_id := em_next_id s + 1\<rparr>) (vs @ [x])"
proof -
  have "base \<le> v \<and> v < base + length (em_stmts s @ [n]) \<and> key_from_stmt (kind ((em_stmts s @ [n]) ! (v - base))) = Some key"
    if "em_substituted_gates s = Some c" "c i = Some (key, v)" for c i key v
  proof -
    have "base \<le> v \<and> v < base + length (em_stmts s) \<and> key_from_stmt (kind (em_stmts s ! (v - base))) = Some key"
      using assms that unfolding em_ok_def by blast
    moreover from this have "v - base < length (em_stmts s)" by auto
    ultimately show ?thesis by (simp add: nth_append)
  qed
  then show ?thesis using assms by (simp add: em_ok_def)
qed

interpretation em: appender em_emit em_stmts base "em_ok base" for base
proof
  fix s :: "'p Emitter" and vs k p x assume ok: "em_ok base s vs"
  then show "\<exists>s'. em_emit k p s = Some (length vs, s') \<and> em_stmts s' = em_stmts s @ [Node_new k p None] \<and> em_ok base s' (vs @ [x])"
    using em_ok_emitted [OF ok, of "Node_new k p None" x] by (simp add: em_emit_def em_ok_def)
qed

section \<open>The cache\<close>

lemma key_gate: "key_from_stmt k = Some key \<Longrightarrow> is_gate k"
  by (cases k) auto

text \<open>Gates with one key compute the same value: conjunction, disjunction and XOR are commutative.\<close>

lemma key_out:
  "key_from_stmt k = Some key \<Longrightarrow> key_from_stmt k' = Some key \<Longrightarrow> stmt_out E k vs ag st = stmt_out E k' vs ag st"
  by (cases k; cases k') (auto simp: key_constant_def key_binary_def Let_def split: if_splits Option.bind_splits)

lemma evaluated_gate:
  "eval_stmts E ns (length ins) (ins, Map.empty, st0) = Some (vs, ag, st) \<Longrightarrow> i < length ns \<Longrightarrow> is_gate (kind (ns ! i))
   \<Longrightarrow> stmt_out E (kind (ns ! i)) vs ag' st' = Some (vs ! (length ins + i), None, st')"
proof (induction ns arbitrary: vs ag st rule: rev_induct)
  case (snoc n ns)
  then obtain vs1 ag1 st1 where one: "eval_stmts E ns (length ins) (ins, Map.empty, st0) = Some (vs1, ag1, st1)"
    by (auto simp: eval_stmts_snoc bind_eq_Some_conv)
  with snoc.prems(1) obtain x bits st2 where out: "stmt_out E (kind n) vs1 ag1 st1 = Some (x, bits, st2)" "vs = vs1 @ [x]"
    by (auto simp: eval_stmts_snoc bind_eq_Some_conv eval_stmt_out)
  have len: "length vs1 = length ins + length ns" using eval_stmts_length [OF one] by simp
  show ?case
  proof (cases "i = length ns")
    case True
    then have "is_gate (kind n)" using snoc.prems(3) by simp
    from gate_out [OF this out(1), of vs ag' st'] show ?thesis using True by (simp add: out(2) len [symmetric])
  next
    case False
    then have i: "i < length ns" using snoc.prems(2) by simp
    have g: "is_gate (kind (ns ! i))" using snoc.prems(3) i by (simp add: nth_append)
    from gate_out [OF g snoc.IH [OF one i g], of vs ag' st'] show ?thesis
      using i len by (simp add: out(2) nth_append)
  qed
qed simp

lemma cache_get_entry: "cache_get c key = Some v \<Longrightarrow> \<exists>i. c i = Some (key, v)"
  by (auto simp: cache_get_def split: option.splits if_splits)

lemma em_ok_remembered:
  assumes "em_ok base s vs" and "base \<le> v" and "v < base + length (em_stmts s)"
    and "key_from_stmt (kind (em_stmts s ! (v - base))) = Some key"
  shows "\<exists>s'. em_remember key v s = Some (v, s') \<and> em_stmts s' = em_stmts s \<and> em_ok base s' vs"
  using assms by (auto simp: em_remember_def em_ok_def cache_insert_def Let_def split: option.splits)

text \<open>Re-emitting a statement reuses a cached gate or appends.\<close>

interpretation sub: copier emit_substituted em_stmts base "em_ok base" for base
proof
  fix ins :: "bool list" and s :: "'p Emitter" and vs' S E st0 ag' st vs ag x bits st'
    and \<rho> :: "nat list" and k :: bstmt and p :: 'p
  let ?k = "map_BIrStmt ((!) \<rho>) id k"
  assume ins: "length ins = base" and ok: "em_ok base s vs'" and run: "runs S E ins st0 (em_stmts s) vs' ag' st"
    and tr: "tracked \<rho> vs ag vs' ag'" and ops: "\<forall>v \<in> set (operands k). v < length vs"
    and hs: "\<forall>h \<in> set (handles k). ag h \<noteq> None" and k: "k \<in> S" and out: "stmt_out E k vs ag st = Some (x, bits, st')"
  obtain s1 where s1: "em_emit ?k p s = Some (length vs', s1)" "em_ok base s1 (vs' @ [x])"
      "runs S E ins st0 (em_stmts s1) (vs' @ [x]) (put_call (length vs') bits ag') st'"
      "tracked (\<rho> @ [length vs']) (vs @ [x]) (put_call (length vs) bits ag) (vs' @ [x]) (put_call (length vs') bits ag')"
    using em.push_copy [OF ins ok run tr ops hs k out] by blast
  show "\<exists>w s' vs2 ag2. emit_substituted ?k p s = Some (w, s') \<and> em_ok base s' vs2 \<and> prefix vs' vs2
      \<and> runs S E ins st0 (em_stmts s') vs2 ag2 st'
      \<and> tracked (\<rho> @ [w]) (vs @ [x]) (put_call (length vs) bits ag) vs2 ag2"
  proof (cases "key_from_stmt ?k")
    case None
    then show ?thesis using s1 by (intro exI [of _ "length vs'"] exI) (auto simp: emit_substituted_def)
  next
    case (Some key)
    note gate = key_gate [OF Some]
    have out': "stmt_out E ?k vs' ag' st = Some (x, bits, st')"
      using tracked_out [OF tr ops, of E st] hs out by simp
    note pure = gate_out [OF gate out', of vs']
    show ?thesis
    proof (cases "Option.bind (em_substituted_gates s) (\<lambda>c. cache_get c key)")
      case hit: (Some w)
      then obtain c i where "em_substituted_gates s = Some c" "c i = Some (key, w)"
        by (auto simp: bind_eq_Some_conv dest: cache_get_entry)
      then have w: "base \<le> w" "w < base + length (em_stmts s)" "key_from_stmt (kind (em_stmts s ! (w - base))) = Some key"
        using ok by (auto simp: em_ok_def)
      note g = key_gate [OF w(3)]
      have i: "w - base < length (em_stmts s)" using w by simp
      have ev: "eval_stmts E (em_stmts s) (length ins) (ins, Map.empty, st0) = Some (vs', ag', st)"
        using run by (simp add: runs_def)
      have "vs' ! w = x"
        using evaluated_gate [OF ev i g, of ag' st] key_out [OF Some w(3), of E vs' ag' st] out' w(1) ins by simp
      moreover have "w < length vs'" using runs_length [OF run] w ins by simp
      ultimately have "tracked (\<rho> @ [w]) (vs @ [x]) ag vs' ag'"
        by (intro tracked_reuse [OF tr]) (simp add: holding_def)
      moreover have "bits = None" "st' = st" using pure by simp_all
      ultimately show ?thesis using hit Some ok run
        by (intro exI [of _ w] exI [of _ s] exI [of _ vs'] exI [of _ ag']) (simp add: emit_substituted_def put_call_def)
    next
      case None
      have len: "length vs' = base + length (em_stmts s)" using runs_length [OF run] ins by simp
      have s1': "em_stmts s1 = em_stmts s @ [Node_new ?k p None]" using s1(1) by (auto simp: em_emit_def)
      have "\<exists>s2. em_remember key (length vs') s1 = Some (length vs', s2) \<and> em_stmts s2 = em_stmts s1 \<and> em_ok base s2 (vs' @ [x])"
        by (rule em_ok_remembered [OF s1(2)]) (simp_all add: s1' len Node_new_def Some)
      then obtain s2 where "em_remember key (length vs') s1 = Some (length vs', s2)" "em_stmts s2 = em_stmts s1" "em_ok base s2 (vs' @ [x])"
        by blast
      then show ?thesis using Some None s1
        by (intro exI [of _ "length vs'"] exI [of _ s2] exI) (auto simp: emit_substituted_def ebind_def)
    qed
  qed
qed

lemma unroll_stmts_copies: "unroll_stmts ns \<rho> = copy_stmts emit_substituted ns \<rho>"
  by (induction ns arbitrary: \<rho>) (simp_all add: subst_stmt_def)

section \<open>Gates\<close>

lemma emits_em_mux:
  "holding c vs s \<Longrightarrow> holding x vs a \<Longrightarrow> holding y vs b \<Longrightarrow>
   emits (em.at base S E ins st0 st) vs (emit_mux s a b p) (holding (if c then x else y))"
  unfolding emit_mux_def by (rule em.emits_mux)

lemma emits_em_or:
  assumes a: "holding x vs a" and b: "holding y vs b"
  shows "emits (em.at base S E ins st0 st) vs (emit_or a b p) (holding (x \<or> y))"
  unfolding emit_or_def
proof (rule emits_bind [OF em.emits_not [OF a]], rule emits_bind)
  fix na vs1 assume na: "prefix vs vs1" "holding (\<not> x) vs1 na"
  show "emits (em.at base S E ins st0 st) vs1 (em_emit (BNot b) p) (holding (\<not> y))"
    by (rule em.emits_not [OF holding_prefix [OF b na(1)]])
  fix nb vs2 assume nb: "prefix vs1 vs2" "holding (\<not> y) vs2 nb"
  show "emits (em.at base S E ins st0 st) vs2 (ebind (em_emit (BAnd na nb) p) (\<lambda>nand. em_emit (BNot nand) p)) (holding (x \<or> y))"
  proof (rule emits_bind [OF em.emits_and [OF holding_prefix [OF na(2) nb(1)] nb(2)]])
    fix n vs3 assume "holding (\<not> x \<and> \<not> y) vs3 n"
    from em.emits_not [OF this]
    show "emits (em.at base S E ins st0 st) vs3 (em_emit (BNot n) p) (holding (x \<or> y))" by simp
  qed
qed

lemma emap_map: "emap f (map h xs) = emap (\<lambda>x. f (h x)) xs"
  by (induction xs) simp_all

lemma emap_cong: "(\<And>x. x \<in> set xs \<Longrightarrow> f x = g x) \<Longrightarrow> emap f xs = emap g xs"
  by (induction xs) simp_all

text \<open>Multiplexers position by position.\<close>

lemma emits_mux_all:
  assumes c: "holding c vs s" and ts: "holding_all xs vs ts" and es: "holding_all ys vs es" and len: "length xs = length ys"
  shows "emits (em.at base S E ins st0 st) vs (emap (\<lambda>(a, b). emit_mux s a b p) (zip ts es))
    (holding_all (if c then xs else ys))"
proof -
  have lens: "length ts = length xs" "length es = length xs" using ts es len holding_all_length by metis+
  have zip: "zip ts es = map (\<lambda>i. (ts ! i, es ! i)) [0..<length xs]"
    by (rule nth_equalityI) (simp_all add: lens)
  have "emits (em.at base S E ins st0 st) vs (emap (\<lambda>i. emit_mux s (ts ! i) (es ! i) p) [0..<length xs])
      (holding_all (map (\<lambda>i. if c then xs ! i else ys ! i) [0..<length xs]))"
  proof (rule emits_map)
    fix i vs1 assume i: "i \<in> set [0..<length xs]" and pre: "prefix vs vs1"
    show "emits (em.at base S E ins st0 st) vs1 (emit_mux s (ts ! i) (es ! i) p) (holding (if c then xs ! i else ys ! i))"
      by (rule emits_em_mux [OF holding_prefix [OF c pre] holding_nth_prefix [OF ts _ pre] holding_nth_prefix [OF es _ pre]])
        (use i len in simp_all)
  qed
  moreover have "map (\<lambda>i. if c then xs ! i else ys ! i) [0..<length xs] = (if c then xs else ys)"
    by (rule nth_equalityI) (simp_all add: len)
  ultimately show ?thesis by (simp add: zip emap_map)
qed

section \<open>One iteration\<close>

text \<open>Loops that can be lowered: every jump fits the block, and some jump of a conditional one returns.\<close>

fun leaves_loop :: "ir_var BIrTerminator \<Rightarrow> bool" where
  "leaves_loop (Jmp t) = (tgt_block t \<noteq> Return)"
| "leaves_loop (CondJmp _ t e) = (tgt_block t = Return \<or> tgt_block e = Return)"

definition loop_block :: "'p BIrBlock \<Rightarrow> bool" where
  "loop_block b \<longleftrightarrow> runnable b \<and> (\<forall>t \<in> set (jump_targets (terminator b)). target_fits [b] t) \<and> leaves_loop (terminator b)"

definition result_width :: "'p BIrBlock \<Rightarrow> nat" where
  "result_width b = (case terminator b of Jmp _ \<Rightarrow> params b | CondJmp _ _ _ \<Rightarrow> return_val_width [b])"

text \<open>The three outputs of an iteration, for each outcome of the block.\<close>

fun round_vals :: "'p BIrBlock \<Rightarrow> block_result \<Rightarrow> bool \<times> bool list \<times> bool list \<Rightarrow> bool" where
  "round_vals b (BReturn q) (d, r, nxt) \<longleftrightarrow> d \<and> r = q \<and> length r = result_width b \<and> length nxt = params b"
| "round_vals b (BJump j args) (d, r, nxt) \<longleftrightarrow> \<not> d \<and> j = 0 \<and> nxt = args \<and> length r = result_width b \<and> length nxt = params b"

fun round_holds :: "bool \<times> bool list \<times> bool list \<Rightarrow> bool list \<Rightarrow> nat \<times> nat list \<times> nat list \<Rightarrow> bool" where
  "round_holds (d, r, nxt) vs (dv, rv, nv) \<longleftrightarrow> holding d vs dv \<and> holding_all r vs rv \<and> holding_all nxt vs nv"

lemma looked_up:
  assumes "\<forall>v \<in> set as. v < length vals" and "holding_all vals vs bvs"
  shows "\<exists>ws. nths_opt bvs as = Some ws \<and> holding_all (map ((!) vals) as) vs ws"
  using holding_looked_up [OF assms(2), of as "map ((!) vals) as"] assms(1) by (simp add: nths_opt_eq_Some)

lemma loop_targets:
  assumes "loop_block b" and "t \<in> set (jump_targets (terminator b))"
  shows "tgt_block t = Return \<and> length (tgt_args t) = return_val_width [b]
    \<or> tgt_block t = Block 0 \<and> length (tgt_args t) = params b"
  using assms by (cases "tgt_block t") (auto simp: loop_block_def dest!: bspec)

lemma loop_operands:
  "loop_block b \<Longrightarrow> v \<in> set (terminator_operands (terminator b)) \<Longrightarrow> v < params b + length (stmts b)"
  by (auto simp: loop_block_def runnable_def block_ok_def)

lemma emits_process_terminator:
  assumes lb: "loop_block b" and res: "eval_terminator (terminator b) vals = Some res"
    and len: "length vals = params b + length (stmts b)" and bvs: "holding_all vals vs bvs"
    and cur: "holding_all sv vs cur" "length sv = params b"
  shows "emits (em.at base S E ins st0 st) vs (process_terminator (terminator b) bvs cur p)
    (\<lambda>vs' r. \<exists>q. round_vals b res q \<and> round_holds q vs' r)" (is "emits ?at _ _ ?R")
proof (cases "terminator b")
  case (Jmp t)
  then have t: "tgt_block t = Block 0" "length (tgt_args t) = params b"
    using loop_targets [OF lb, of t] lb by (auto simp: loop_block_def)
  let ?n = "map ((!) vals) (tgt_args t)"
  have ops: "\<forall>v \<in> set (tgt_args t). v < length vals" using loop_operands [OF lb] by (simp add: Jmp len)
  then obtain ws where ws: "nths_opt bvs (tgt_args t) = Some ws" "holding_all ?n vs ws" using looked_up [OF _ bvs] by blast
  have "res = BJump 0 ?n" using res ops by (simp add: Jmp resolve_target_def t nths_opt_eq_Some)
  then have q: "round_vals b res (False, sv, ?n)" using t cur(2) by (simp add: result_width_def Jmp)
  show ?thesis unfolding Jmp process_terminator.simps t ws(1) ebind_eget_Some IRBlockTargetId.case if_P [OF refl]
    by (rule emits_bind [OF em.emits_zero], rule emits_ret, rule exI, rule conjI [OF q])
      (use ws(2) cur(1) in \<open>auto intro: holding_prefix holding_all_prefix prefix_order.trans\<close>)
next
  case (CondJmp v t e)
  define W where "W = return_val_width [b]"
  have T: "tgt_block t = Return \<and> length (tgt_args t) = W \<or> tgt_block t = Block 0 \<and> length (tgt_args t) = params b"
    and F: "tgt_block e = Return \<and> length (tgt_args e) = W \<or> tgt_block e = Block 0 \<and> length (tgt_args e) = params b"
    unfolding W_def by (rule loop_targets [OF lb], simp add: CondJmp)+
  have v: "v < length vals" and opst: "\<forall>v \<in> set (tgt_args t). v < length vals" and opse: "\<forall>v \<in> set (tgt_args e). v < length vals"
    using loop_operands [OF lb] by (simp_all add: CondJmp len)
  let ?t = "map ((!) vals) (tgt_args t)" and ?e = "map ((!) vals) (tgt_args e)"
  obtain tw where tw: "nths_opt bvs (tgt_args t) = Some tw" "holding_all ?t vs tw" using looked_up [OF opst bvs] by blast
  obtain ew where ew: "nths_opt bvs (tgt_args e) = Some ew" "holding_all ?e vs ew" using looked_up [OF opse bvs] by blast
  have hv: "holding (vals ! v) vs (bvs ! v)" "nth_opt bvs v = Some (bvs ! v)"
    using holding_all_nth [OF bvs v] holding_all_length [OF bvs] v by simp_all
  have rw: "result_width b = W" by (simp add: result_width_def CondJmp W_def del: return_val_width.simps)
  have r: "res = (if vals ! v then (if tgt_block t = Return then BReturn ?t else BJump 0 ?t)
      else (if tgt_block e = Return then BReturn ?e else BJump 0 ?e))"
    using res T F v opst opse by (auto simp: CondJmp resolve_target_def nths_opt_eq_Some split: if_splits)
  have "tgt_block t = Return \<or> tgt_block e = Return" using lb by (simp add: loop_block_def CondJmp)
  with T F consider (te) "tgt_block t = Return" "tgt_block e = Block 0" | (et) "tgt_block t = Block 0" "tgt_block e = Return"
    | (both) "tgt_block t = Return" "tgt_block e = Return" by blast
  then show ?thesis
  proof cases
    case te
    then have q: "round_vals b res (vals ! v, ?t, ?e)" using T F by (cases "vals ! v") (auto simp: r rw)
    show ?thesis unfolding CondJmp process_terminator.simps te tw(1) ew(1) hv(2) ebind_eget_Some IRBlockTargetId.case prod.case if_P [OF refl]
      by (rule emits_ret, rule exI, rule conjI [OF q])
        (use tw(2) ew(2) hv(1) in \<open>auto intro: holding_prefix holding_all_prefix prefix_order.trans\<close>)
  next
    case et
    then have q: "round_vals b res (\<not> vals ! v, ?e, ?t)" using T F by (cases "vals ! v") (auto simp: r rw)
    show ?thesis unfolding CondJmp process_terminator.simps et tw(1) ew(1) hv(2) ebind_eget_Some IRBlockTargetId.case prod.case if_P [OF refl]
      by (rule emits_bind [OF em.emits_not [OF hv(1)]], rule emits_ret, rule exI, rule conjI [OF q])
        (use tw(2) ew(2) in \<open>auto intro: holding_prefix holding_all_prefix prefix_order.trans\<close>)
  next
    case both
    have len2: "length ?t = W" "length ?e = W" using T F both by simp_all
    then have q: "round_vals b res (True, if vals ! v then ?t else ?e, sv)" using cur(2) both len2 by (cases "vals ! v") (simp_all add: r rw)
    have same: "length tw = length ew" using holding_all_length tw(2) ew(2) len2 by metis
    show ?thesis unfolding CondJmp process_terminator.simps both tw(1) ew(1) hv(2) ebind_eget_Some IRBlockTargetId.case prod.case
    proof (rule emits_bind [OF em.emits_one])
      fix one vs1 assume one: "prefix vs vs1" "holding True vs1 one"
      have "emits ?at vs1 (emap (\<lambda>(a, c). emit_mux (bvs ! v) a c p) (zip tw ew)) (holding_all (if vals ! v then ?t else ?e))"
        by (rule emits_mux_all [OF holding_prefix [OF hv(1) one(1)] holding_all_prefix [OF tw(2) one(1)] holding_all_prefix [OF ew(2) one(1)]])
          (simp add: len2 del: length_map)
      from this have "emits ?at vs1 (ebind (emap (\<lambda>(a, c). emit_mux (bvs ! v) a c p) (zip tw ew)) (\<lambda>result. eret (one, result, cur))) ?R"
      proof (rule emits_bind)
        fix x vs2 assume x: "prefix vs1 vs2" "holding_all (if vals ! v then ?t else ?e) vs2 x"
        show "emits ?at vs2 (eret (one, x, cur)) ?R"
          by (rule emits_ret, rule exI, rule conjI [OF q])
            (use x one cur(1) in \<open>auto intro: holding_prefix holding_all_prefix prefix_order.trans\<close>)
      qed
      then show "emits ?at vs1 (if length tw \<noteq> length ew then \<lambda>_. None
          else ebind (emap (\<lambda>(a, c). emit_mux (bvs ! v) a c p) (zip tw ew)) (\<lambda>result. eret (one, result, cur))) ?R"
        by (simp add: same)
    qed
  qed
qed

section \<open>The unrolled loop\<close>

fun first_exit :: "(bool \<times> bool list) list \<Rightarrow> bool list option" where
  "first_exit [] = None"
| "first_exit ((d, r) # rest) = (if d then Some r else first_exit rest)"

fun exits_hold :: "(bool \<times> bool list) list \<Rightarrow> bool list \<Rightarrow> (nat \<times> nat list) list \<Rightarrow> bool" where
  "exits_hold [] vs [] = True"
| "exits_hold ((d, r) # xs) vs ((dv, rv) # its) \<longleftrightarrow> holding d vs dv \<and> holding_all r vs rv \<and> exits_hold xs vs its"
| "exits_hold _ vs _ = False"

lemma exits_hold_prefix: "exits_hold xs vs its \<Longrightarrow> prefix vs vs' \<Longrightarrow> exits_hold xs vs' its"
  by (induction xs vs its rule: exits_hold.induct) (auto intro: holding_prefix holding_all_prefix)

definition exit_result :: "(bool \<times> bool list) list \<Rightarrow> eval_result" where
  "exit_result xs = (case first_exit xs of None \<Rightarrow> LimitExceeded | Some r \<Rightarrow> Returned r)"

text \<open>One iteration: the copied statements and the terminator.\<close>

lemma iteration_run:
  fixes b :: "'p BIrBlock"
  assumes lb: "loop_block b" and S: "\<forall>n \<in> set (stmts b). kind n \<in> S"
    and at: "em.at base S E ins st0 st s vs" and cur: "holding_all sv vs cur" "length sv = params b"
  shows "\<exists>\<rho> s1 r s2 vs2 st' res q. unroll_stmts (stmts b) cur s = Some (\<rho>, s1)
    \<and> process_terminator (terminator b) \<rho> cur p s1 = Some (r, s2) \<and> em.at base S E ins st0 st' s2 vs2 \<and> prefix vs vs2
    \<and> eval_block E b sv st = Some (res, st') \<and> round_vals b res q \<and> round_holds q vs2 r"
proof -
  have run: "runnable b" and fits: "\<forall>t \<in> set (jump_targets (terminator b)). target_fits [b] t"
    and ok: "list_ok (length sv) (stmts b)"
    using lb cur(2) by (simp_all add: loop_block_def runnable_def block_ok_def)
  obtain vals ag st' res where ev: "eval_stmts E (stmts b) (params b) (sv, Map.empty, st) = Some (vals, ag, st')"
      "length vals = params b + length (stmts b)" "eval_terminator (terminator b) vals = Some res"
      "eval_block E b sv st = Some (res, st')"
    using runnable_evaluates [OF run fits cur(2)] by blast
  obtain ag0 where ag0: "length ins = base" "em_ok base s vs" "runs S E ins st0 (em_stmts s) vs ag0 st"
    using at by (auto simp: em.at_def)
  obtain \<rho> s1 vs1 ag1 where one: "copy_stmts emit_substituted (stmts b) cur s = Some (\<rho>, s1)" "em_ok base s1 vs1"
      "runs S E ins st0 (em_stmts s1) vs1 ag1 st'" "prefix vs vs1" "holding_all vals vs1 \<rho>"
    using sub.copy_block [OF ag0 cur(1) ok S] ev(1) cur(2) by metis
  have at1: "em.at base S E ins st0 st' s1 vs1" using one ag0(1) by (auto simp: em.at_def)
  from emits_run [OF emits_process_terminator [OF lb ev(3,2) one(5) holding_all_prefix [OF cur(1) one(4)] cur(2)] at1, of p]
  obtain r s2 vs2 q where "process_terminator (terminator b) \<rho> cur p s1 = Some (r, s2)"
      "em.at base S E ins st0 st' s2 vs2" "prefix vs1 vs2" "round_vals b res q" "round_holds q vs2 r" by blast
  moreover from this one(4) have "prefix vs vs2" by (blast intro: prefix_order.trans)
  ultimately show ?thesis using one(1) ev(4) unfolding unroll_stmts_copies by blast
qed

lemma unroll_run:
  fixes b :: "'p BIrBlock"
  assumes lb: "loop_block b" and S: "\<forall>n \<in> set (stmts b). kind n \<in> S"
    and "em.at base S E ins st0 st s vs" and "holding_all sv vs cur" and "length sv = params b"
  shows "\<exists>its fin s' vs' st' xs fv. unroll b p n cur s = Some ((its, fin), s') \<and> em.at base S E ins st0 st' s' vs'
    \<and> prefix vs vs' \<and> exits_hold xs vs' its \<and> holding_all fv vs' fin \<and> length fv = params b \<and> length its = n
    \<and> (\<forall>x \<in> set xs. length (snd x) = result_width b) \<and> run_for E [b] n 0 sv st = exit_result xs"
  using assms(3-)
proof (induction n arbitrary: s vs sv cur st)
  case 0
  then show ?case
    by (intro exI [of _ "[]"] exI [of _ cur] exI [of _ s] exI [of _ vs] exI [of _ st] exI [of _ sv]) (simp add: eret_def exit_result_def)
next
  case (Suc n)
  obtain \<rho> s1 r s2 vs2 st' res q where it: "unroll_stmts (stmts b) cur s = Some (\<rho>, s1)"
      "process_terminator (terminator b) \<rho> cur p s1 = Some (r, s2)" "em.at base S E ins st0 st' s2 vs2" "prefix vs vs2"
      "eval_block E b sv st = Some (res, st')" "round_vals b res q" "round_holds q vs2 r"
    using iteration_run [OF lb S Suc.prems] by blast
  obtain dv rv nv where r: "r = (dv, rv, nv)" by (rule prod_cases3)
  obtain d rs nx where q: "q = (d, rs, nx)" by (rule prod_cases3)
  have h: "holding d vs2 dv" "holding_all rs vs2 rv" "holding_all nx vs2 nv" using it(7) by (simp_all add: q r)
  have w: "length nx = params b" "length rs = result_width b" using it(6) by (cases res; simp add: q)+
  obtain its fin s' vs' st'' xs fv where rest: "unroll b p n nv s2 = Some ((its, fin), s')" "em.at base S E ins st0 st'' s' vs'"
      "prefix vs2 vs'" "exits_hold xs vs' its" "holding_all fv vs' fin" "length fv = params b" "length its = n"
      "\<forall>x \<in> set xs. length (snd x) = result_width b" "run_for E [b] n 0 nx st' = exit_result xs"
    using Suc.IH [OF it(3) h(3) w(1)] by blast
  have "unroll b p (Suc n) cur s = Some (((dv, rv) # its, fin), s')"
    using it(1,2) rest(1) by (simp add: ebind_def eret_def r)
  moreover have "exits_hold ((d, rs) # xs) vs' ((dv, rv) # its)"
    using rest(4) h rest(3) by (auto intro: holding_prefix holding_all_prefix)
  moreover have "run_for E [b] (Suc n) 0 sv st = exit_result ((d, rs) # xs)"
    using it(5,6) rest(9) by (cases res) (simp_all add: q exit_result_def)
  moreover have "prefix vs vs'" using it(4) rest(3) by (rule prefix_order.trans)
  ultimately show ?case using rest w(2)
    by (intro exI [of _ "(dv, rv) # its"] exI [of _ fin] exI [of _ s'] exI [of _ vs'] exI [of _ st'']
        exI [of _ "(d, rs) # xs"] exI [of _ fv]) simp
qed

section \<open>The cascades\<close>

lemma emits_mux_cascade:
  assumes "exits_hold xs vs its" and "holding_all g vs fb" and "\<forall>x \<in> set xs. length (snd x) = length g"
  shows "emits (em.at base S E ins st0 st) vs (mux_cascade its fb p)
    (holding_all (case first_exit xs of None \<Rightarrow> g | Some r \<Rightarrow> r))"
  using assms
proof (induction xs vs its rule: exits_hold.induct)
  case (1 vs)
  then show ?case by (auto intro: emits_ret holding_all_prefix)
next
  case (2 d r xs vs dv rv its)
  let ?out = "case first_exit xs of None \<Rightarrow> g | Some r \<Rightarrow> r"
  have len: "length ?out = length g" "length r = length g"
    using 2(4) by (induction xs rule: first_exit.induct) auto
  show ?case unfolding mux_cascade.simps
  proof (rule emits_bind [OF "2.IH"])
    show "exits_hold xs vs its" "holding_all g vs fb" "\<forall>x \<in> set xs. length (snd x) = length g"
      using 2 by auto
    fix gv vs1 assume gv: "prefix vs vs1" "holding_all ?out vs1 gv"
    have rv: "holding_all r vs1 rv" "holding d vs1 dv" using 2(2) gv(1) by (auto intro: holding_prefix holding_all_prefix)
    have lens: "length rv = length gv" using holding_all_length [OF rv(1)] holding_all_length [OF gv(2)] len by simp
    have zip: "zip rv gv = map (\<lambda>i. (rv ! i, gv ! i)) [0..<length gv]"
      by (rule nth_equalityI) (simp_all add: lens)
    have "emap (\<lambda>i. emit_mux dv (if i < length rv then rv ! i else gv ! i) (gv ! i) p) [0..<length gv]
        = emap (\<lambda>(a, b). emit_mux dv a b p) (zip rv gv)"
      unfolding zip emap_map prod.case by (rule emap_cong) (simp add: lens)
    then show "emits (em.at base S E ins st0 st) vs1
        (emap (\<lambda>i. emit_mux dv (if i < length rv then rv ! i else gv ! i) (gv ! i) p) [0..<length gv])
        (holding_all (case first_exit ((d, r) # xs) of None \<Rightarrow> g | Some r \<Rightarrow> r))"
      using emits_mux_all [OF rv(2,1) gv(2), of base S E ins st0 st p] len by (cases d) simp_all
  qed
qed simp_all

lemma exits_hold_Cons:
  "exits_hold ((d, r) # xs) vs its \<longleftrightarrow> (\<exists>dv rv its'. its = (dv, rv) # its' \<and> holding d vs dv \<and> holding_all r vs rv \<and> exits_hold xs vs its')"
  by (cases its) auto

lemma exits_hold_Nil: "exits_hold [] vs its \<longleftrightarrow> its = []"
  by (cases its) auto

lemma emits_or_cascade:
  "holding d vs acc \<Longrightarrow> exits_hold xs vs its \<Longrightarrow>
   emits (em.at base S E ins st0 st) vs (or_cascade acc (map fst its) p) (holding (d \<or> first_exit xs \<noteq> None))"
proof (induction xs arbitrary: d acc vs its)
  case Nil
  then show ?case by (auto simp: exits_hold_Nil intro: emits_ret holding_prefix)
next
  case (Cons x xs)
  obtain e r where x: "x = (e, r)" by (rule prod.exhaust)
  then obtain ev rv its' where its: "its = (ev, rv) # its'" "holding e vs ev" "exits_hold xs vs its'"
    using Cons.prems(2) by (auto simp: exits_hold_Cons)
  show ?case unfolding its(1) list.map fst_conv or_cascade.simps
  proof (rule emits_bind [OF emits_em_or [OF Cons.prems(1) its(2)]])
    fix a vs1 assume a: "prefix vs vs1" "holding (d \<or> e) vs1 a"
    have "(d \<or> first_exit (x # xs) \<noteq> None) = ((d \<or> e) \<or> first_exit xs \<noteq> None)" by (simp add: x)
    then show "emits (em.at base S E ins st0 st) vs1 (or_cascade a (map fst its') p) (holding (d \<or> first_exit (x # xs) \<noteq> None))"
      using Cons.IH [OF a(2) exits_hold_prefix [OF its(3) a(1)]] by simp
  qed
qed

lemma emits_overall_done:
  assumes "exits_hold xs vs its"
  shows "emits (em.at base S E ins st0 st) vs (overall_done (map fst its) p) (holding (first_exit xs \<noteq> None))"
proof (cases xs)
  case Nil
  then show ?thesis using assms em.emits_zero by (simp add: exits_hold_Nil overall_done_def)
next
  case (Cons x rest)
  obtain e r where x: "x = (e, r)" by (rule prod.exhaust)
  then obtain ev rv its' where its: "its = (ev, rv) # its'" "holding e vs ev" "exits_hold rest vs its'"
    using assms by (auto simp: exits_hold_Cons Cons)
  from emits_or_cascade [OF its(2,3)] show ?thesis
    by (cases e) (auto simp: overall_done_def its(1) Cons x)
qed

section \<open>The lowered block\<close>

text \<open>The fallback: the last state, cut or padded to the width of the results.\<close>

lemma resize_holds:
  assumes fin: "holding_all fv vs fin" and w: "fin \<noteq> [] \<or> w = 0 \<or> vs \<noteq> []"
  shows "\<exists>g. holding_all g vs (resize fin w) \<and> length g = w"
proof -
  have "\<forall>v \<in> set (resize fin w). v < length vs"
    using holding_all_bound [OF fin] w by (auto simp: resize_def dest: in_set_takeD split: if_splits)
  then have "holding_all (map ((!) vs) (resize fin w)) vs (resize fin w)"
    by (simp add: holding_all_def nths_opt_eq_Some)
  moreover have "length (resize fin w) = w" by (simp add: resize_def)
  ultimately show ?thesis by (intro exI [of _ "map ((!) vs) (resize fin w)"]) simp
qed

text \<open>The flag (in its mode) says whether the loop was left, and then the outputs are its result.\<close>

definition lowered_outputs :: "LoweringMode \<Rightarrow> eval_result \<Rightarrow> nat \<Rightarrow> bool list \<Rightarrow> bool list \<Rightarrow> bool" where
  "lowered_outputs mode res w outs out \<longleftrightarrow> res \<noteq> Panicked \<and> length out = w
     \<and> outs = (if mode = WithTerminationFlag then [res \<noteq> LimitExceeded] else []) @ out
     \<and> (\<forall>r. res = Returned r \<longrightarrow> out = r)"

lemma exits_hold_length: "exits_hold xs vs its \<Longrightarrow> length its = length xs"
  by (induction xs vs its rule: exits_hold.induct) auto

lemma lowered_returns_run:
  fixes b :: "'p BIrBlock"
  assumes lb: "loop_block b" and ins: "length ins = params b"
  shows "\<exists>rets s vs st' outs out. lowered_returns b p n mode (em_new (params b)) = Some (rets, s)
    \<and> em.at (params b) (kinds [b]) E ins st st' s vs \<and> holding_all outs vs rets
    \<and> lowered_outputs mode (run_for E [b] n 0 ins st) (if n = 0 then params b else result_width b) outs out"
proof -
  have S: "\<forall>k \<in> set (stmts b). kind k \<in> kinds [b]" by (auto simp: kinds_def)
  have at: "em.at (params b) (kinds [b]) E ins st st (em_new (params b)) ins"
    using runs_start [of "kinds [b]" E ins st] ins by (auto simp: em.at_def em_new_def em_ok_def)
  have cur: "holding_all ins ins [0..<params b]" using holding_all_slice [of ins "[]" "[]"] ins by simp
  obtain its fin s vs st' xs fv where u: "unroll b p n [0..<params b] (em_new (params b)) = Some ((its, fin), s)"
      "em.at (params b) (kinds [b]) E ins st st' s vs" "exits_hold xs vs its" "holding_all fv vs fin" "length fv = params b"
      "length its = n" "\<forall>x \<in> set xs. length (snd x) = result_width b" "run_for E [b] n 0 ins st = exit_result xs"
    using unroll_run [OF lb S at cur ins] by blast
  define w where "w = (case its of [] \<Rightarrow> length fin | (_, r) # _ \<Rightarrow> length r)"
  have fin: "length fin = params b" using holding_all_length [OF u(4)] u(5) by simp
  have xs: "\<forall>x \<in> set xs. length (snd x) = w" and w: "w = (if n = 0 then params b else result_width b)"
    and ne: "fin \<noteq> [] \<or> w = 0 \<or> vs \<noteq> []"
    using u(3,6,7) fin by (cases xs; auto simp: w_def exits_hold_Nil exits_hold_Cons holding_all_length dest: holding_bound)+
  obtain g where g: "holding_all g vs (resize fin w)" "length g = w" using resize_holds [OF u(4) ne] by blast
  let ?out = "case first_exit xs of None \<Rightarrow> g | Some r \<Rightarrow> r"
  have len: "length ?out = w" using xs g(2) by (induction xs rule: first_exit.induct) auto
  have "emits (em.at (params b) (kinds [b]) E ins st st') vs
      (ebind (mux_cascade its (resize fin w) p) (\<lambda>gv. ebind (overall_done (map fst its) p) (\<lambda>flag.
         eret ((if mode = WithTerminationFlag then [flag] else []) @ gv))))
      (holding_all ((if mode = WithTerminationFlag then [first_exit xs \<noteq> None] else []) @ ?out))"
  proof (rule emits_bind [OF emits_mux_cascade [OF u(3) g(1)]], use xs g in simp, rule emits_bind, rule emits_overall_done,
      rule exits_hold_prefix [OF u(3)], assumption, rule emits_ret)
    fix gv vs1 flag vs2 vs3
    assume "prefix vs vs1" "holding_all ?out vs1 gv" "prefix vs1 vs2" "holding (first_exit xs \<noteq> None) vs2 flag" "prefix vs2 vs3"
    then have "holding_all ?out vs3 gv" "holding (first_exit xs \<noteq> None) vs3 flag"
      by (blast intro: holding_prefix holding_all_prefix prefix_order.trans)+
    then show "holding_all ((if mode = WithTerminationFlag then [first_exit xs \<noteq> None] else []) @ ?out) vs3
        ((if mode = WithTerminationFlag then [flag] else []) @ gv)"
      by (cases "mode = WithTerminationFlag") simp_all
  qed
  from emits_run [OF this u(2)] obtain rets s' vs' where r: "ebind (mux_cascade its (resize fin w) p) (\<lambda>gv.
        ebind (overall_done (map fst its) p) (\<lambda>flag. eret ((if mode = WithTerminationFlag then [flag] else []) @ gv))) s
        = Some (rets, s')" "em.at (params b) (kinds [b]) E ins st st' s' vs'"
      "holding_all ((if mode = WithTerminationFlag then [first_exit xs \<noteq> None] else []) @ ?out) vs' rets" by blast
  have "lowered_returns b p n mode (em_new (params b)) = Some (rets, s')"
    using u(1) r(1) by (simp add: lowered_returns_def ebind_def [of "unroll b p n [0..<params b]"] Let_def w_def)
  moreover have "lowered_outputs mode (run_for E [b] n 0 ins st) (if n = 0 then params b else result_width b)
      ((if mode = WithTerminationFlag then [first_exit xs \<noteq> None] else []) @ ?out) ?out"
    using len by (auto simp: lowered_outputs_def u(8) exit_result_def w [symmetric] split: option.splits)
  ultimately show ?thesis using r(2,3) by blast
qed

text \<open>The whole pass on one self-looping block: a circuit of well-formed statements drawn from the block,
  whose results are the lowered outputs of the loop.\<close>

definition lowered_block :: "'p BIrBlock \<Rightarrow> 'p node list \<Rightarrow> nat list \<Rightarrow> 'p BIrBlock" where
  "lowered_block b ns rets = \<lparr>params = params b, stmts = ns, terminator = Jmp \<lparr>tgt_block = Return, tgt_args = rets\<rparr>\<rparr>"

lemma is_circuit_lowered: "blocks q = [lowered_block b ns rets] \<Longrightarrow> is_circuit q"
  by (simp add: is_circuit_def is_movfuscated_def lowered_block_def)

lemma lowered_evaluates:
  assumes "em.at (params b) S E ins st st' s vs" and "holding_all outs vs rets"
  shows "eval_block E (lowered_block b (em_stmts s) rets) ins st = Some (BReturn outs, st')"
  using assms by (auto simp: em.at_def runs_def eval_block_def lowered_block_def resolve_target_def holding_all_def)

lemma lowered_program:
  fixes p :: "'p BIrBlocks"
  assumes b: "blocks p = [b]" and lb: "loop_block b" and prov: "cp \<noteq> None \<or> stmts b \<noteq> []"
  shows "\<exists>q ns rets. lower_to_circuit_impl p n mode cp = Some q
    \<and> q = \<lparr>blocks = [lowered_block b ns rets], pre_init = pre_init p\<rparr>
    \<and> list_ok (params b) ns \<and> (\<forall>m \<in> set ns. drawn (kinds (blocks p)) (kind m)) \<and> (\<forall>v \<in> set rets. v < params b + length ns)
    \<and> (\<forall>E ins st. length ins = params b \<longrightarrow> (\<exists>outs out st'.
        eval_block E (lowered_block b ns rets) ins st = Some (BReturn outs, st')
        \<and> lowered_outputs mode (run_for E [b] n 0 ins st) (if n = 0 then params b else result_width b) outs out))"
proof -
  obtain c where c: "(case stmts b of m # _ \<Rightarrow> Some (prov m) | [] \<Rightarrow> cp) = Some c"
    using prov by (cases "stmts b") auto
  let ?ins = "replicate (params b) False" and ?w = "if n = 0 then params b else result_width b"
  obtain rets s where r: "lowered_returns b c n mode (em_new (params b)) = Some (rets, s)"
    using lowered_returns_run [OF lb, of ?ins c n mode hash_externals Map.empty] by auto
  have run: "\<exists>vs st' outs out. em.at (params b) (kinds [b]) E ins st st' s vs \<and> holding_all outs vs rets
      \<and> lowered_outputs mode (run_for E [b] n 0 ins st) ?w outs out"
    if "length ins = params b" for E ins st
    using lowered_returns_run [OF lb that, of c n mode E st] r by auto
  obtain vs st' outs where at: "em.at (params b) (kinds [b]) hash_externals ?ins Map.empty st' s vs" "holding_all outs vs rets"
    using run [of ?ins hash_externals Map.empty] by auto
  then obtain ag where ag: "runs (kinds [b]) hash_externals ?ins Map.empty (em_stmts s) vs ag st'"
    by (auto simp: em.at_def)
  have "\<not> is_circuit p"
    using lb b by (cases "terminator b") (auto simp: is_circuit_def loop_block_def split: IRBlockTargetId.splits)
  then have "lower_to_circuit_impl p n mode cp
      = Some \<lparr>blocks = [lowered_block b (em_stmts s) rets], pre_init = pre_init p\<rparr>"
    using r by (simp add: lower_to_circuit_impl_def b c lowered_block_def)
  moreover have "list_ok (params b) (em_stmts s)" "\<forall>m \<in> set (em_stmts s). drawn (kinds (blocks p)) (kind m)"
    using ag by (simp_all add: runs_def b)
  moreover have "\<forall>v \<in> set rets. v < params b + length (em_stmts s)"
    using holding_all_bound [OF at(2)] runs_length [OF ag] by simp
  moreover have "\<exists>outs out st'. eval_block E (lowered_block b (em_stmts s) rets) ins st = Some (BReturn outs, st')
      \<and> lowered_outputs mode (run_for E [b] n 0 ins st) ?w outs out" if "length ins = params b" for E ins st
    using run [OF that, of E st] lowered_evaluates by blast
  ultimately show ?thesis by blast
qed

end
