(* ===== verification/LowerCircuitProps.thy ===== *)
theory LowerCircuitProps
  imports LowerCircuitCorrect
begin

text \<open>
  The theorems about loop lowering: the circuit computes the loop up to the limit, is well formed, and the
  lowering succeeds exactly on the programs it is meant for.
\<close>

section \<open>The lowered circuit\<close>

lemma loop_block_looping: "loop_block b \<Longrightarrow> self_looping b"
  using loop_targets unfolding self_looping_def by fastforce

lemma eval_biir_single:
  assumes "blocks q = [b]" and "eval_block E b ins (apply_pre_init Map.empty (pre_init q)) = Some (BReturn outs, st')"
  shows "eval_biir E q ins = Some (Returned outs)"
  using assms
  by (simp add: eval_biir_def eval_biir_with_limit_def MAX_ITERS_def eval_loop_round loop_round_def)

text \<open>C16. Lowering a self-looping block gives a circuit that computes the loop up to the limit: its outputs are,
  after the termination flag in the mode that has one, the values the loop returns within \<open>n\<close>
  rounds; the flag says whether it does. Otherwise the outputs have the announced width.\<close>

theorem lowering_computes_loop:
  assumes "blocks p = [b]" and "loop_block b" and "length ins = params b"
  shows "\<exists>q res out. lower_to_circuit_with_control_provenance p n mode cp = Some q \<and> is_circuit q
    \<and> eval_biir_with_limit E p ins n = Some res \<and> res \<noteq> Panicked
    \<and> eval_biir E q ins = Some (Returned ((if mode = WithTerminationFlag then [res \<noteq> LimitExceeded] else []) @ out))
    \<and> length out = (if n = 0 then params b else result_width b) \<and> (\<forall>r. res = Returned r \<longrightarrow> out = r)"
proof -
  let ?st = "apply_pre_init Map.empty (pre_init p)"
  obtain q ns rets where q: "lower_to_circuit_impl p n mode (Some cp) = Some q"
      "q = \<lparr>blocks = [lowered_block b ns rets], pre_init = pre_init p\<rparr>"
    and ev: "\<exists>outs out st'. eval_block E (lowered_block b ns rets) ins ?st = Some (BReturn outs, st')
        \<and> lowered_outputs mode (run_for E [b] n 0 ins ?st) (if n = 0 then params b else result_width b) outs out"
    using lowered_program [OF assms(1,2), of "Some cp" n mode] assms(3) by blast
  then obtain outs out st' where o: "eval_block E (lowered_block b ns rets) ins ?st = Some (BReturn outs, st')"
      "lowered_outputs mode (run_for E [b] n 0 ins ?st) (if n = 0 then params b else result_width b) outs out"
    by blast
  have "eval_biir_with_limit E p ins n = Some (run_for E [b] n 0 ins ?st)"
    using single_block_limit [OF loop_block_looping [OF assms(2)] assms(1)] .
  moreover have "eval_biir E q ins = Some (Returned outs)"
    using eval_biir_single [of q "lowered_block b ns rets"] o(1) by (simp add: q(2))
  moreover have "is_circuit q" using is_circuit_lowered [of q] by (simp add: q(2))
  ultimately show ?thesis
    using q(1) o(2) unfolding lower_to_circuit_with_control_provenance_def lowered_outputs_def by blast
qed

text \<open>A counter loop: shift a one through three bits and leave with the negated input when it drops out.\<close>

definition shifting :: "unit BIrBlocks" where
  "shifting = \<lparr>blocks =
     [\<lparr>params = 3, stmts = [Node_new BZero () None, Node_new (BNot 0) () None],
       terminator = CondJmp 2 \<lparr>tgt_block = Return, tgt_args = [4]\<rparr> \<lparr>tgt_block = Block 0, tgt_args = [0, 3, 1]\<rparr>\<rparr>],
     pre_init = []\<rparr>"

lemma loop_block_shifting: "loop_block (blocks shifting ! 0)"
  by (auto simp: loop_block_def shifting_def runnable_def block_ok_def list_ok_def Node_new_def less_Suc_eq)

theorem lowering_computes_loop_witness:
  "\<exists>q. lower_to_circuit_with_control_provenance shifting 4 WithTerminationFlag () = Some q
    \<and> eval_biir hash_externals q [False, True, False] = Some (Returned [True, True])"
proof -
  have run: "run_for hash_externals (blocks shifting) 4 0 [False, True, False] Map.empty = Returned [True]" by code_simp
  have b: "blocks shifting = [blocks shifting ! 0]" "pre_init shifting = []" "params (blocks shifting ! 0) = 3"
    by (simp_all add: shifting_def)
  have "eval_biir_with_limit hash_externals shifting [False, True, False] 4 = Some (Returned [True])"
    using single_block_limit [OF loop_block_looping [OF loop_block_shifting] b(1), of hash_externals "[False, True, False]" 4]
      run b by (simp add: apply_pre_init_def)
  then show ?thesis
    using lowering_computes_loop [OF b(1) loop_block_shifting, of "[False, True, False]" 4 WithTerminationFlag "()" hash_externals]
      b(3) by fastforce
qed

section \<open>Which programs are lowered\<close>

definition fitting :: "'p BIrBlock list \<Rightarrow> bool" where
  "fitting bs \<longleftrightarrow> (\<forall>b \<in> set bs. runnable b \<and> (\<forall>t \<in> set (jump_targets (terminator b)). target_fits bs t))"

lemma ebind_None: "(\<And>x s. f x s = None) \<Longrightarrow> ebind m f s = None"
  by (auto simp: ebind_def split: option.splits)

lemma stuck_terminator:
  assumes "\<forall>t \<in> set (jump_targets tm). tgt_block t = Return \<or> tgt_block t = Block 0"
    and "\<not> leaves_loop tm" and "\<not> is_return_jump tm"
  shows "process_terminator tm \<rho> cur p s = None"
proof (cases tm)
  case (Jmp t)
  then show ?thesis using assms by auto
next
  case (CondJmp v t e)
  then have "tgt_block t = Block 0" "tgt_block e = Block 0" using assms by auto
  then show ?thesis by (auto simp: CondJmp intro: ebind_None)
qed

lemma stuck_lowering:
  assumes "\<forall>t \<in> set (jump_targets (terminator b)). tgt_block t = Return \<or> tgt_block t = Block 0"
    and "\<not> leaves_loop (terminator b)" and "\<not> is_return_jump (terminator b)" and "n \<noteq> 0"
  shows "lowered_returns b p n mode s = None"
proof -
  obtain k where n: "n = Suc k" using assms(4) not0_implies_Suc by blast
  have "unroll b p n cur s = None" for cur s
    unfolding n unroll.simps
    by (rule ebind_None) (simp add: ebind_def stuck_terminator [OF assms(1-3)])
  then show ?thesis by (simp add: lowered_returns_def ebind_def)
qed

lemma lowered_without_rounds: "lowered_returns b p 0 mode s \<noteq> None"
  by (auto simp: lowered_returns_def ebind_def eret_def overall_done_def em_emit_def Let_def)

text \<open>C17. On blocks of statements that do not panic, with jumps that fit, \<open>lower_to_circuit\<close> returns exactly on
  circuits and on single blocks that have a statement (to supply the provenance) and, unless no round
  is asked for, a jump out of the loop or an unconditional jump back; every other program makes it panic.\<close>

theorem lowering_accepts:
  assumes fit: "fitting (blocks p)"
  shows "(\<exists>q. lower_to_circuit p n mode = Some q) \<longleftrightarrow>
    is_circuit p \<or> (\<exists>b. blocks p = [b] \<and> stmts b \<noteq> [] \<and> (n = 0 \<or> leaves_loop (terminator b)))"
proof (cases "is_circuit p \<or> length (blocks p) \<noteq> 1")
  case True
  then show ?thesis by (auto simp: lower_to_circuit_def lower_to_circuit_impl_def)
next
  case False
  then obtain b where b: "blocks p = [b]" and nc: "\<not> is_circuit p" by (cases "blocks p") auto
  have nr: "\<not> is_return_jump (terminator b)" using nc b by (simp add: is_circuit_def is_movfuscated_def)
  have rb: "runnable b" "\<forall>t \<in> set (jump_targets (terminator b)). target_fits [b] t"
    using fit by (simp_all add: fitting_def b)
  have jumps: "\<forall>t \<in> set (jump_targets (terminator b)). tgt_block t = Return \<or> tgt_block t = Block 0"
  proof
    fix t assume "t \<in> set (jump_targets (terminator b))"
    then have "target_fits [b] t" using rb(2) by blast
    then show "tgt_block t = Return \<or> tgt_block t = Block 0" by (cases "tgt_block t") auto
  qed
  show ?thesis
  proof (cases "leaves_loop (terminator b)")
    case True
    then have "loop_block b" using rb by (simp add: loop_block_def)
    then have "stmts b \<noteq> [] \<Longrightarrow> \<exists>q. lower_to_circuit p n mode = Some q"
      using lowered_program [OF b, of None n mode] by (auto simp: lower_to_circuit_def)
    then show ?thesis using True b nc
      by (auto simp: lower_to_circuit_def lower_to_circuit_impl_def split: list.splits)
  next
    case stays: False
    show ?thesis
    proof (cases "n = 0")
      case True
      then show ?thesis using b nc lowered_without_rounds [of b _ mode "em_new (params b)"]
        by (auto simp: lower_to_circuit_def lower_to_circuit_impl_def split: list.splits)
    next
      case False
      then show ?thesis using b nc stays stuck_lowering [OF jumps stays nr False]
        by (auto simp: lower_to_circuit_def lower_to_circuit_impl_def split: list.splits)
    qed
  qed
qed

theorem lowering_accepts_witness:
  "(\<exists>q. lower_to_circuit shifting 5 Unconditional = Some q) \<and> \<not> (\<exists>q. lower_to_circuit two_blocks 5 Unconditional = Some q)"
proof -
  have "fitting (blocks shifting)" "fitting (blocks two_blocks)"
    using loop_block_shifting combinable_two_blocks
    by (auto simp: fitting_def combinable_def loop_block_def shifting_def)
  from lowering_accepts [OF this(1)] lowering_accepts [OF this(2)] show ?thesis
    by (auto simp: shifting_def two_blocks_def is_circuit_def is_movfuscated_def)
qed

end
