(* ===== verification/Pipeline.thy ===== *)
theory Pipeline
  imports LowerCircuitProps NaiveEmbedding
begin

text \<open>
  The passes composed: a program of several blocks is movfuscated into one self-looping block, unrolled
  into a circuit, fused, and embedded into a reversible circuit.
\<close>

lemma list_ok_wf_circuit:
  assumes "list_ok (bc_params c) (bc_stmts c)" and "\<forall>v \<in> set (bc_outputs c). v < var_space c"
    and "\<forall>n \<in> set (bc_stmts c). is_pure_stmt (kind n)"
  shows "wf_circuit c"
proof -
  have "base \<le> h \<and> h - base < length ns \<and> is_oracle_call (kind (ns ! (h - base)))"
    if ok: "list_ok base ns" and pure: "\<forall>n \<in> set ns. is_pure_stmt (kind n)" and i: "i < length ns"
      "kind (ns ! i) = OracleProjectedBit h b" for base and ns :: "'a node list" and i h b
  proof -
    have h: "h \<in> calls base ns" using ok i unfolding list_ok_def by (metis handles.simps(1) list.set_intros(1) subsetD)
    then have "ns ! (h - base) \<in> set ns" by (auto simp: calls_def)
    then have "is_pure_stmt (kind (ns ! (h - base)))" using pure by blast
    then show ?thesis using h by (cases "kind (ns ! (h - base))") (auto simp: calls_def)
  qed
  then show ?thesis using assms list_ok_ssa unfolding wf_circuit_def handles_ok_def by blast
qed

lemma combinable_pure: "combinable bs \<Longrightarrow> drawn (kinds bs) k \<Longrightarrow> is_pure_stmt k"
  using drawn_combinable by blast

lemma pure_no_action_store: "is_pure_stmt k \<Longrightarrow> \<not> is_action_store k"
  by (cases k) auto

text \<open>Copies of copies are copies.\<close>

lemma drawn_trans: "drawn S k \<Longrightarrow> \<forall>k' \<in> S. drawn T k' \<Longrightarrow> drawn T k"
proof -
  assume k: "drawn S k" and S: "\<forall>k' \<in> S. drawn T k'"
  show "drawn T k"
  proof (cases "is_gate k")
    case False
    then obtain k' f where k': "k' \<in> S" "k = map_BIrStmt f id k'" using k by (auto simp: drawn_def)
    then have "\<not> is_gate k'" using False by (cases k') auto
    then obtain k'' g where "k'' \<in> T" "k' = map_BIrStmt g id k''" using S k'(1) by (auto simp: drawn_def)
    then have "k'' \<in> T" "k = map_BIrStmt (f \<circ> g) id k''" by (simp_all add: k'(2) BIrStmt.map_comp)
    then show ?thesis by (metis drawn_copy)
  qed (simp add: drawn_def)
qed

lemma compiled_circuit:
  fixes p :: "'p BIrBlocks"
  assumes bs: "combinable (blocks p)" and two: "2 \<le> length (blocks p)" and n: "0 < n"
    and ins: "length ins = params (blocks p ! 0)" "length ins + length pad = state_width (blocks p)"
  shows "\<exists>q c. movfuscate_biir_with_control_provenance p cp = Some q
    \<and> lower_to_circuit_fused dflt q n WithTerminationFlag = Some (Inr c)
    \<and> circuit_ready c \<and> (\<forall>m \<in> set (bc_stmts c). drawn (kinds (blocks p)) (kind m))
    \<and> length (bc_outputs c) = Suc (return_val_width (blocks p))
    \<and> (\<forall>E. \<exists>out st'. let res = run_for E (blocks p) n 0 ins (apply_pre_init Map.empty (pre_init p)) in
        eval_circuit E c (replicate (pc_bits_needed (length (blocks p))) False @ ins @ pad)
          (apply_pre_init Map.empty (pre_init p)) = Some ((res \<noteq> LimitExceeded) # out, st')
        \<and> res \<noteq> Panicked \<and> length out = return_val_width (blocks p) \<and> (\<forall>r. res = Returned r \<longrightarrow> out = r))"
proof -
  let ?st = "apply_pre_init Map.empty (pre_init p)" and ?pw = "pc_bits_needed (length (blocks p))"
  let ?ins = "replicate ?pw False @ ins @ pad"
  obtain q v t e where q: "movfuscate_biir_impl p (Some cp) = Some q" "is_movfuscated q" "combinable (blocks q)"
      "\<forall>k \<in> kinds (blocks q). drawn (kinds (blocks p)) k" "pre_init q = pre_init p"
      "params (blocks q ! 0) = ?pw + state_width (blocks p)"
    and tm: "terminator (blocks q ! 0) = CondJmp v t e" "tgt_block t = Return" "length (tgt_args t) = return_val_width (blocks p)"
    and run: "\<And>E st cur sv n. cur < length (blocks p) \<Longrightarrow> length sv = state_width (blocks p) \<Longrightarrow>
        run_for E (blocks q) n 0 (pc_bits ?pw cur @ sv) st = run_for E (blocks p) n cur (take (params (blocks p ! cur)) sv) st"
    using movfuscated_program [OF bs two, of "Some cp"] by blast
  define b where "b = blocks q ! 0"
  have b: "blocks q = [b]" using q(2) by (cases "blocks q") (auto simp: is_movfuscated_def b_def)
  have lb: "loop_block b" using q(3) tm by (simp add: loop_block_def combinable_def b b_def [symmetric])
  have rw: "result_width b = return_val_width (blocks p)" using tm by (simp add: result_width_def b_def [symmetric])
  have len: "length ?ins = params b" using q(6) ins(2) by (simp add: b_def)
  obtain r ns rets where r: "lower_to_circuit_impl q n WithTerminationFlag (Some dflt) = Some r"
      "r = \<lparr>blocks = [lowered_block b ns rets], pre_init = pre_init q\<rparr>"
    and wf: "list_ok (params b) ns" "\<forall>m \<in> set ns. drawn (kinds (blocks q)) (kind m)" "\<forall>v \<in> set rets. v < params b + length ns"
    and ev: "\<And>E ins st. length ins = params b \<Longrightarrow> \<exists>outs out st'.
        eval_block E (lowered_block b ns rets) ins st = Some (BReturn outs, st')
        \<and> lowered_outputs WithTerminationFlag (run_for E [b] n 0 ins st) (if n = 0 then params b else result_width b) outs out"
    using lowered_program [OF b lb, of "Some dflt" n WithTerminationFlag] by blast
  define c where "c = \<lparr>bc_params = params b, bc_stmts = ns, bc_pre_init = pre_init q, bc_outputs = rets\<rparr>"
  have "try_from_ir r = Inr c" using wf(3) by (simp add: r(2) c_def lowered_block_def try_from_ir_def check_outputs_ok)
  then have fused: "lower_to_circuit_fused dflt q n WithTerminationFlag = Some (Inr c)"
    using r(1) by (simp add: lower_to_circuit_fused_def lower_to_circuit_with_control_provenance_def to_circuit_fused_boolar_def)
  have ready: "circuit_ready c" using wf by (simp add: circuit_ready_def c_def var_space_def)
  have copies: "\<forall>m \<in> set (bc_stmts c). drawn (kinds (blocks p)) (kind m)"
    using wf(2) q(4) drawn_trans by (auto simp: c_def)
  have out: "\<exists>out st'. eval_circuit E c ?ins ?st = Some ((res \<noteq> LimitExceeded) # out, st') \<and> length rets = Suc (length out)
        \<and> res \<noteq> Panicked \<and> length out = return_val_width (blocks p) \<and> (\<forall>r. res = Returned r \<longrightarrow> out = r)"
    if res: "res = run_for E (blocks p) n 0 ins ?st" for E res
  proof -
    obtain outs out st' where o: "eval_block E (lowered_block b ns rets) ?ins ?st = Some (BReturn outs, st')"
        "lowered_outputs WithTerminationFlag (run_for E [b] n 0 ?ins ?st) (result_width b) outs out"
      using ev [OF len, of E ?st] n by auto
    have "0 < length (blocks p)" using two by linarith
    from run [OF this, of "ins @ pad" E n ?st] have sim: "run_for E [b] n 0 ?ins ?st = res"
      using ins by (simp add: b pc_bits_0 res)
    from o(1) obtain vs ag where vs: "eval_stmts E ns (params b) (?ins, Map.empty, ?st) = Some (vs, ag, st')"
        "nths_opt vs rets = Some outs"
      by (auto simp: eval_block_def lowered_block_def resolve_target_def bind_eq_Some_conv split: if_splits)
    have "eval_circuit E c ?ins ?st = Some (outs, st')" using vs len by (simp add: eval_circuit_def c_def)
    moreover have "length rets = length outs" using vs(2) by (auto simp: nths_opt_eq_Some)
    ultimately show ?thesis using o(2) rw unfolding lowered_outputs_def sim by auto
  qed
  have outs: "length (bc_outputs c) = Suc (return_val_width (blocks p))"
    using out [OF refl, of hash_externals] by (auto simp: c_def)
  have mov: "movfuscate_biir_with_control_provenance p cp = Some q"
    using q(1) by (simp add: movfuscate_biir_with_control_provenance_def)
  have all: "\<exists>out st'. eval_circuit E c ?ins ?st = Some ((run_for E (blocks p) n 0 ins ?st \<noteq> LimitExceeded) # out, st')
      \<and> run_for E (blocks p) n 0 ins ?st \<noteq> Panicked \<and> length out = return_val_width (blocks p)
      \<and> (\<forall>r. run_for E (blocks p) n 0 ins ?st = Returned r \<longrightarrow> out = r)" for E
    using out [OF refl, of E] by metis
  show ?thesis unfolding Let_def
    by (intro exI [of _ q] exI [of _ c] conjI allI mov fused ready copies outs all)
qed

section \<open>Theorems\<close>

text \<open>C2. Movfuscation, lowering with a limit and fusion compose to a compiler for programs of at least two
  well-formed blocks of pure statements (no actions, no randomness) that do not write storage (movfuscation
  does not gate storage writes), with jumps that fit: such a program becomes a well-formed circuit that, on the zero program
  counter, the inputs and any padding, computes whether the program returns within \<open>n > 0\<close> block steps
  and, if so, what it returns.\<close>

theorem compiled_program_correct:
  assumes "combinable (blocks p)" and "2 \<le> length (blocks p)" and "0 < n"
    and "length ins = params (blocks p ! 0)" and "length ins + length pad = state_width (blocks p)"
    and "res = run_for E (blocks p) n 0 ins (apply_pre_init Map.empty (pre_init p))"
  shows "\<exists>q c out st'. movfuscate_biir_with_control_provenance p cp = Some q
    \<and> lower_to_circuit_fused dflt q n WithTerminationFlag = Some (Inr c) \<and> circuit_ready c
    \<and> eval_circuit E c (replicate (pc_bits_needed (length (blocks p))) False @ ins @ pad)
        (apply_pre_init Map.empty (pre_init p)) = Some ((res \<noteq> LimitExceeded) # out, st')
    \<and> res \<noteq> Panicked \<and> length out = return_val_width (blocks p) \<and> (\<forall>r. res = Returned r \<longrightarrow> out = r)"
  using compiled_circuit [OF assms(1-5), of cp dflt] unfolding assms(6) Let_def by blast

theorem compiled_program_correct_witness:
  "\<exists>q c st'. movfuscate_biir_with_control_provenance two_blocks () = Some q
    \<and> lower_to_circuit_fused () q 4 WithTerminationFlag = Some (Inr c)
    \<and> eval_circuit hash_externals c [False, False, True] Map.empty = Some ([True, False, True], st')"
proof -
  have run: "run_for hash_externals (blocks two_blocks) 4 0 [False] (apply_pre_init Map.empty (pre_init two_blocks))
      = Returned [False, True]" by code_simp
  have w: "pc_bits_needed (length (blocks two_blocks)) = 1" "state_width (blocks two_blocks) = 2" by code_simp+
  moreover have "2 \<le> length (blocks two_blocks)" "params (blocks two_blocks ! 0) = 1"
      "apply_pre_init Map.empty (pre_init two_blocks) = Map.empty"
    by (simp_all add: two_blocks_def apply_pre_init_def)
  ultimately show ?thesis
    using compiled_program_correct [OF combinable_two_blocks _ _ _ _ run [symmetric], of "[True]" "()" "()"] by fastforce
qed

text \<open>C1. The whole chain: on a program of at least two well-formed blocks of pure statements (no
  actions, no randomness) that do not write storage and that the synthesis supports (no aggregate oracle
  calls), with jumps that fit, a positive limit \<open>n\<close> and inputs of the width of block 0, the reversible
  circuit synthesised from the compiled one, on clean workspace and the initialised storage, maps \<open>(x, y)\<close> to \<open>(x, y xor f(x))\<close>, where \<open>f\<close> is the flag that the program returned within \<open>n\<close>
  block steps, followed, if it did, by what it returned (after the limit only the flag is specified).\<close>

theorem compiled_program_reversible:
  assumes "combinable (blocks p)" and "2 \<le> length (blocks p)" and "0 < n"
    and "\<forall>k \<in> kinds (blocks p). synthesizable k"
    and "length ins = params (blocks p ! 0)" and "length ins + length pad = state_width (blocks p)"
    and "res = run_for E (blocks p) n 0 ins (apply_pre_init Map.empty (pre_init p))"
    and "length ys = Suc (return_val_width (blocks p))"
  shows "\<exists>q c rc m ws' st'. movfuscate_biir_with_control_provenance p cp = Some q
    \<and> lower_to_circuit_fused dflt q n WithTerminationFlag = Some (Inr c)
    \<and> to_reversible_with_options c \<lparr>opt_mode = Naive, opt_share_scratch = share\<rparr> = Ok (rc, m)
    \<and> apply_with_externals (ext_registry E) rc
        (embed m (replicate (pc_bits_needed (length (blocks p))) False @ ins @ pad) ys)
        (apply_pre_init Map.empty (pre_init p)) = Some (ws', st')
    \<and> take (bc_params c) ws' = replicate (pc_bits_needed (length (blocks p))) False @ ins @ pad
    \<and> ws' ! vw_y_base m = (ys ! 0 \<noteq> (res \<noteq> LimitExceeded))
    \<and> (\<forall>r. res = Returned r \<longrightarrow> (\<forall>k < length r. ws' ! (vw_y_base m + Suc k) = (ys ! Suc k \<noteq> r ! k)))"
proof -
  let ?x = "replicate (pc_bits_needed (length (blocks p))) False @ ins @ pad"
  let ?st = "apply_pre_init Map.empty (pre_init p)"
  obtain q c where q: "movfuscate_biir_with_control_provenance p cp = Some q"
      "lower_to_circuit_fused dflt q n WithTerminationFlag = Some (Inr c)"
    and c: "circuit_ready c" "\<forall>m \<in> set (bc_stmts c). drawn (kinds (blocks p)) (kind m)"
      "length (bc_outputs c) = Suc (return_val_width (blocks p))"
    and ev: "\<exists>out st'. eval_circuit E c ?x ?st = Some ((res \<noteq> LimitExceeded) # out, st')
        \<and> length out = return_val_width (blocks p) \<and> (\<forall>r. res = Returned r \<longrightarrow> out = r)"
    using compiled_circuit [OF assms(1-3,5,6), of cp dflt] unfolding assms(7) Let_def by blast
  have pure: "\<forall>m \<in> set (bc_stmts c). is_pure_stmt (kind m)" using c(2) combinable_pure [OF assms(1)] by blast
  have "synthesizable k" if "drawn (kinds (blocks p)) k" for k
  proof (cases "is_gate k")
    case True
    then show ?thesis by (cases k) auto
  next
    case False
    then obtain k' f where "k' \<in> kinds (blocks p)" "k = map_BIrStmt f id k'" using \<open>drawn _ k\<close> by (auto simp: drawn_def)
    then show ?thesis using assms(4) by (cases k') (auto dest!: bspec)
  qed
  then have sup: "synth_supported E c"
    using c(2) pure pure_no_action_store by (simp add: synth_supported_def)
  have wf: "wf_circuit c" using c(1) pure by (intro list_ok_wf_circuit) (auto simp: circuit_ready_def)
  obtain out st' where fx: "eval_circuit E c ?x ?st = Some ((res \<noteq> LimitExceeded) # out, st')"
      "length out = return_val_width (blocks p)" "\<forall>r. res = Returned r \<longrightarrow> out = r" using ev by blast
  obtain vs ag where vs: "length ?x = bc_params c" "eval_stmts E (bc_stmts c) (bc_params c) (?x, Map.empty, ?st) = Some (vs, ag, st')"
      "(res \<noteq> LimitExceeded) # out = map ((!) vs) (bc_outputs c)"
    using eval_circuit_Some [OF fx(1)] by metis
  obtain rc m ws' st'' where r: "synthesize_naive c share = Ok (rc, m)"
      "apply_with_externals (ext_registry E) rc (embed m ?x ys) ?st = Some (ws', st'')" "take (bc_params c) ws' = ?x"
      "\<forall>k < length ys. ws' ! (vw_y_base m + k) = (ys ! k \<noteq> vs ! (bc_outputs c ! k))"
    using naive_run [OF wf sup _ vs(1,2), of ys share] assms(8) c(3) by auto
  have nth: "vs ! (bc_outputs c ! k) = ((res \<noteq> LimitExceeded) # out) ! k" if "k < length ys" for k
    using that assms(8) c(3) by (simp add: vs(3) del: list.simps)
  have "ws' ! vw_y_base m = (ys ! 0 \<noteq> (res \<noteq> LimitExceeded))"
    using r(4) [rule_format, of 0] nth [of 0] assms(8) by simp
  moreover have "\<forall>k < length r. ws' ! (vw_y_base m + Suc k) = (ys ! Suc k \<noteq> r ! k)" if "res = Returned r" for r
    using r(4) [rule_format, of "Suc _"] nth [of "Suc _"] assms(8) fx(2,3) that by simp
  ultimately show ?thesis
    using q r(1-3) unfolding to_reversible_naive by blast
qed

theorem compiled_program_reversible_witness:
  "\<exists>q c rc m ws' st'. movfuscate_biir_with_control_provenance two_blocks () = Some q
    \<and> lower_to_circuit_fused () q 4 WithTerminationFlag = Some (Inr c)
    \<and> to_reversible_with_options c \<lparr>opt_mode = Naive, opt_share_scratch = True\<rparr> = Ok (rc, m)
    \<and> apply_with_externals (ext_registry hash_externals) rc
        (embed m [False, False, True] [False, False, False]) Map.empty = Some (ws', st')
    \<and> ws' ! vw_y_base m \<and> \<not> ws' ! (vw_y_base m + 1) \<and> ws' ! (vw_y_base m + 2)"
proof -
  have run: "run_for hash_externals (blocks two_blocks) 4 0 [False] (apply_pre_init Map.empty (pre_init two_blocks))
      = Returned [False, True]" by code_simp
  have w: "pc_bits_needed (length (blocks two_blocks)) = 1" "state_width (blocks two_blocks) = 2"
      "return_val_width (blocks two_blocks) = 2" by code_simp+
  have t: "2 \<le> length (blocks two_blocks)" "\<forall>k \<in> kinds (blocks two_blocks). synthesizable k"
      "length [False] = params (blocks two_blocks ! 0)" "length [False] + length [True] = state_width (blocks two_blocks)"
      "length [False, False, False] = Suc (return_val_width (blocks two_blocks))"
      "apply_pre_init Map.empty (pre_init two_blocks) = Map.empty"
    unfolding w by (auto simp: two_blocks_def apply_pre_init_def kinds_def Node_new_def)
  have pc: "replicate (pc_bits_needed (length (blocks two_blocks))) False @ [False] @ [True] = [False, False, True]"
    by (simp add: w)
  obtain q c rc m ws' st' where r: "movfuscate_biir_with_control_provenance two_blocks () = Some q"
      "lower_to_circuit_fused () q 4 WithTerminationFlag = Some (Inr c)"
      "to_reversible_with_options c \<lparr>opt_mode = Naive, opt_share_scratch = True\<rparr> = Ok (rc, m)"
      "apply_with_externals (ext_registry hash_externals) rc (embed m [False, False, True] [False, False, False]) Map.empty = Some (ws', st')"
      "ws' ! vw_y_base m = ([False, False, False] ! 0 \<noteq> (Returned [False, True] \<noteq> LimitExceeded))"
    and out: "\<forall>r. Returned [False, True] = Returned r \<longrightarrow>
        (\<forall>k < length r. ws' ! (vw_y_base m + Suc k) = ([False, False, False] ! Suc k \<noteq> r ! k))"
    using compiled_program_reversible [OF combinable_two_blocks t(1) _ t(2-4) run [symmetric] t(5), of "()" "()" True]
    unfolding t(6) pc by auto
  have "ws' ! (vw_y_base m + Suc k) = ([False, False, False] ! Suc k \<noteq> [False, True] ! k)" if "k < 2" for k
    using out that by simp
  from this [of 0] this [of 1] have "\<not> ws' ! (vw_y_base m + 1)" "ws' ! (vw_y_base m + 2)" by (simp_all add: numeral_2_eq_2)
  moreover have "ws' ! vw_y_base m" using r(5) by simp
  ultimately show ?thesis using r(1-4) by blast
qed

end
