(* ===== verification/StorageMux.thy ===== *)
theory StorageMux
  imports Dispatch StorageTable
begin

text \<open>
  Promotion of a small Boolar storage to a register file (\<open>volar-ir-passes/src/storage_to_mux_boolar.rs\<close>):
  reads of the selected storage and lane become multiplexers over one variable per cell, writes become
  demultiplexers that replace every cell. Only definitions; the theorems are in \<open>StorageMuxProps\<close>.

  An \<open>outcome\<close> is the pass's result or error, \<open>Panic\<close> an index out of range or a shift past the 64 bits
  of \<open>usize\<close> (in an address longer than that). The emission state is the block under construction.
\<close>

record StorageToMuxBoolarConfig =
  cfg_storage :: storage_id
  cfg_lane :: lane_id
  cfg_num_cells :: nat

datatype StorageToMuxBoolarError =
    ReadOnlyWrite storage_id
  | NotSingleBlockCircuit
  | ZeroCells
  | AddressTooNarrow nat nat
  | PreInitAddressTooWide nat

section \<open>Gates\<close>

definition mux_push :: "bstmt \<Rightarrow> 'p \<Rightarrow> ('p BIrBlock, nat) emission" where
  "mux_push k p b = Some (params b + length (stmts b), block_push_stmt b k p None)"

text \<open>The loop over the address bits, from bit \<open>j\<close>; \<open>index >> j\<close> overflows past the width of \<open>usize\<close>.\<close>

fun eq_const_from :: "nat \<Rightarrow> nat \<Rightarrow> nat list \<Rightarrow> nat option \<Rightarrow> 'p \<Rightarrow> ('p BIrBlock, nat option) emission" where
  "eq_const_from index j [] acc p = eret acc"
| "eq_const_from index j (v # vs) acc p =
     (if 64 \<le> j then (\<lambda>_. None)
      else ebind (if bit index j then eret v else mux_push (BNot v) p) (\<lambda>t.
           ebind (case acc of None \<Rightarrow> eret t | Some a \<Rightarrow> mux_push (BAnd a t) p) (\<lambda>a.
             eq_const_from index (Suc j) vs (Some a) p)))"

definition eq_const :: "nat list \<Rightarrow> nat \<Rightarrow> 'p \<Rightarrow> ('p BIrBlock, nat) emission" where
  "eq_const addr index p =
     ebind (eq_const_from index 0 addr None p) (\<lambda>acc. case acc of None \<Rightarrow> mux_push BOne p | Some a \<Rightarrow> eret a)"

definition mux :: "nat \<Rightarrow> nat \<Rightarrow> nat \<Rightarrow> 'p \<Rightarrow> ('p BIrBlock, nat) emission" where
  "mux cond a b p =
     ebind (mux_push (BXor a b) p) (\<lambda>xor_ab. ebind (mux_push (BAnd cond xor_ab) p) (\<lambda>and_c. mux_push (BXor and_c b) p))"

text \<open>The folds over the cells, from cell \<open>i\<close>.\<close>

fun mux_read_from :: "nat list \<Rightarrow> 'p \<Rightarrow> nat \<Rightarrow> nat list \<Rightarrow> nat \<Rightarrow> ('p BIrBlock, nat) emission" where
  "mux_read_from addr p i [] acc = eret acc"
| "mux_read_from addr p i (cell # cells) acc =
     ebind (eq_const addr i p) (\<lambda>eq_i. ebind (mux eq_i cell acc p) (mux_read_from addr p (Suc i) cells))"

definition mux_read :: "nat list \<Rightarrow> nat list \<Rightarrow> 'p \<Rightarrow> ('p BIrBlock, nat) emission" where
  "mux_read cells addr p = ebind (mux_push BZero p) (mux_read_from addr p 0 cells)"

definition mux_write :: "nat list \<Rightarrow> nat list \<Rightarrow> nat \<Rightarrow> 'p \<Rightarrow> ('p BIrBlock, nat list) emission" where
  "mux_write cells addr src p =
     emap (\<lambda>i. ebind (eq_const addr i p) (\<lambda>eq_i. mux eq_i src (cells ! i) p)) [0..<length cells]"

section \<open>The initial cells\<close>

definition address_to_usize :: "bool list \<Rightarrow> nat option" where
  "address_to_usize addr =
     (if 64 < length addr then None
      else Some (foldl (\<lambda>value (i, set). value + (if set then 2 ^ i else 0)) 0 (enumerate 0 addr)))"

fun init_values ::
  "bool list \<Rightarrow> nat \<Rightarrow> bool list \<Rightarrow> bool list \<Rightarrow> StorageToMuxBoolarError + bool list" where
  "init_values base k [] values = Inr values"
| "init_values base k (b # bs) values =
     (let addr = add_to_address base k in
      case address_to_usize addr of
        None \<Rightarrow> Inl (PreInitAddressTooWide (length addr))
      | Some idx \<Rightarrow> init_values base (Suc k) bs (if idx < length values then values[idx := b] else values))"

fun segment_values ::
  "StorageToMuxBoolarConfig \<Rightarrow> BIrPreInitSegment list \<Rightarrow> bool list \<Rightarrow> StorageToMuxBoolarError + bool list" where
  "segment_values cfg [] values = Inr values"
| "segment_values cfg (seg # segs) values =
     (if seg_storage seg \<noteq> cfg_storage cfg \<or> seg_lane seg \<noteq> cfg_lane cfg then segment_values cfg segs values
      else rbind (init_values (seg_addr seg) 0 (seg_data seg) values) (segment_values cfg segs))"

definition init_cells ::
  "StorageToMuxBoolarConfig \<Rightarrow> BIrPreInitSegment list \<Rightarrow> 'p \<Rightarrow> 'p BIrBlock
   \<Rightarrow> (StorageToMuxBoolarError, nat list \<times> 'p BIrBlock) outcome" where
  "init_cells cfg segs dflt b =
     obind (of_result (segment_values cfg segs (replicate (cfg_num_cells cfg) False))) (\<lambda>values.
       of_option (emap (\<lambda>v. mux_push (if v then BOne else BZero) dflt) values b))"

section \<open>The walk over the block\<close>

text \<open>The two guarded arms: an access to the selected storage, with the source of a write.\<close>

fun cell_access :: "StorageToMuxBoolarConfig \<Rightarrow> bstmt \<Rightarrow> (nat option \<times> nat list) option" where
  "cell_access cfg (StorageRead s l addr) =
     (if s = cfg_storage cfg \<and> l = cfg_lane cfg then Some (None, addr) else None)"
| "cell_access cfg (StorageWrite s l src addr) =
     (if s = cfg_storage cfg \<and> l = cfg_lane cfg then Some (Some src, addr) else None)"
| "cell_access cfg _ = None"

definition too_narrow :: "StorageToMuxBoolarConfig \<Rightarrow> nat \<Rightarrow> bool" where
  "too_narrow cfg bits \<longleftrightarrow> 2 ^ min bits 63 < cfg_num_cells cfg \<or> bits = 0 \<and> 1 < cfg_num_cells cfg"

fun promote_stmts ::
  "StorageToMuxBoolarConfig \<Rightarrow> 'p node list \<Rightarrow> nat list \<Rightarrow> nat list \<Rightarrow> 'p BIrBlock
   \<Rightarrow> (StorageToMuxBoolarError, nat list \<times> 'p BIrBlock) outcome" where
  "promote_stmts cfg [] remap cells b = Ok (remap, b)"
| "promote_stmts cfg (n # ns) remap cells b =
     (case cell_access cfg (kind n) of
        Some (src, addr) \<Rightarrow>
          if too_narrow cfg (length addr) then Err (AddressTooNarrow (length addr) (cfg_num_cells cfg))
          else obind (of_option (nths_opt remap addr)) (\<lambda>addr_new.
            case src of
              None \<Rightarrow>
                obind (of_option (mux_read cells addr_new (prov n) b)) (\<lambda>(result, b').
                  promote_stmts cfg ns (remap @ [result]) cells b')
            | Some v \<Rightarrow>
                obind (of_option (nth_opt remap v)) (\<lambda>src_new.
                obind (of_option (mux_write cells addr_new src_new (prov n) b)) (\<lambda>(cells', b').
                obind (of_option (mux_push BZero (prov n) b')) (\<lambda>(dummy, b'').
                  promote_stmts cfg ns (remap @ [dummy]) cells' b''))))
      | None \<Rightarrow>
          obind (of_option (if \<forall>v \<in> set (operands (kind n)). v < length remap
                            then Some (map_BIrStmt ((!) remap) id (kind n)) else None)) (\<lambda>remapped.
          obind (of_option (mux_push remapped (prov n) b)) (\<lambda>(i, b').
            promote_stmts cfg ns (remap @ [i]) cells b')))"

fun remap_mux_target :: "nat list \<Rightarrow> ir_var BIrTarget \<Rightarrow> ir_var BIrTarget option" where
  "remap_mux_target remap t =
     map_option (\<lambda>args. \<lparr>tgt_block = tgt_block t, tgt_args = args\<rparr>) (nths_opt remap (tgt_args t))"

fun remap_mux_terminator :: "nat list \<Rightarrow> ir_var BIrTerminator \<Rightarrow> ir_var BIrTerminator option" where
  "remap_mux_terminator remap (Jmp t) = map_option Jmp (remap_mux_target remap t)"
| "remap_mux_terminator remap (CondJmp val t e) =
     do { v \<leftarrow> nth_opt remap val; t' \<leftarrow> remap_mux_target remap t; e' \<leftarrow> remap_mux_target remap e;
          Some (CondJmp v t' e') }"

section \<open>The pass\<close>

definition writes_storage :: "storage_id \<Rightarrow> 'p BIrBlocks \<Rightarrow> bool" where
  "writes_storage s bs \<longleftrightarrow> (\<exists>b \<in> set (blocks bs). \<exists>n \<in> set (stmts b).
     case kind n of StorageWrite s' _ _ _ \<Rightarrow> s' = s | _ \<Rightarrow> False)"

definition storage_to_mux_boolar_with_access ::
  "'p \<Rightarrow> 'p BIrBlocks \<Rightarrow> StorageToMuxBoolarConfig \<Rightarrow> storage_table option
   \<Rightarrow> (StorageToMuxBoolarError, 'p BIrBlocks) outcome" where
  "storage_to_mux_boolar_with_access dflt bs cfg access =
     (if (case access of None \<Rightarrow> False | Some t \<Rightarrow> access_of t (cfg_storage cfg) = ReadOnly)
         \<and> writes_storage (cfg_storage cfg) bs
      then Err (ReadOnlyWrite (cfg_storage cfg))
      else if \<not> is_circuit bs then Err NotSingleBlockCircuit
      else if cfg_num_cells cfg = 0 then Err ZeroCells
      else let old_block = blocks bs ! 0;
               new_block = \<lparr>params = params old_block, stmts = [], terminator = terminator old_block\<rparr> in
        obind (init_cells cfg (pre_init bs) dflt new_block) (\<lambda>(cells, b0).
        obind (promote_stmts cfg (stmts old_block) [0..<params old_block] cells b0) (\<lambda>(remap, b1).
        obind (of_option (remap_mux_terminator remap (terminator old_block))) (\<lambda>tm.
          Ok \<lparr>blocks = [b1\<lparr>terminator := tm\<rparr>],
              pre_init = filter (\<lambda>seg. \<not> (seg_storage seg = cfg_storage cfg \<and> seg_lane seg = cfg_lane cfg)) (pre_init bs)\<rparr>))))"

definition storage_to_mux_boolar ::
  "'p \<Rightarrow> 'p BIrBlocks \<Rightarrow> StorageToMuxBoolarConfig \<Rightarrow> (StorageToMuxBoolarError, 'p BIrBlocks) outcome" where
  "storage_to_mux_boolar dflt bs cfg = storage_to_mux_boolar_with_access dflt bs cfg None"

end
