(* ===== verification/StorageMuxCorrect.thy ===== *)
theory StorageMuxCorrect
  imports StorageMux LowerCircuitProps
begin

text \<open>
  Storage promotion is correct: the variables of the cells hold what the cells read as, so a read's
  multiplexers select the value the storage would give, and the rest of the storage is untouched.
\<close>

section \<open>The block under construction\<close>

interpretation blk: appender mux_push stmts base "\<lambda>b vs. params b = base" for base
  by unfold_locales (simp add: mux_push_def block_push_stmt_def)

text \<open>Steps that only append.\<close>

definition extends :: "('p BIrBlock, 'a) emission \<Rightarrow> bool" where
  "extends m \<longleftrightarrow> (\<forall>b x b'. m b = Some (x, b') \<longrightarrow> prefix (stmts b) (stmts b'))"

lemma extends_bind: "extends m \<Longrightarrow> (\<And>x. extends (f x)) \<Longrightarrow> extends (ebind m f)"
  unfolding extends_def ebind_def by (auto split: option.splits) (meson prefix_order.trans)

lemma extends_ret: "extends (eret x)"
  by (simp add: extends_def eret_def)

lemma extends_none: "extends (\<lambda>_. None)"
  by (simp add: extends_def)

lemma extends_push: "extends (mux_push k p)"
  by (simp add: extends_def mux_push_def block_push_stmt_def)

lemmas extends_intros = extends_bind extends_ret extends_none extends_push

lemma extends_emap: "(\<And>x. extends (f x)) \<Longrightarrow> extends (emap f xs)"
  by (induction xs) (simp_all add: extends_intros)

lemma extends_mux: "extends (mux c a b p)"
  by (simp add: mux_def extends_intros)

lemma extends_eq_const: "extends (eq_const addr i p)"
proof -
  have "extends (eq_const_from i j addr acc p)" for j acc
    by (induction addr arbitrary: j acc) (auto intro!: extends_intros split: option.split)
  then show ?thesis by (auto simp: eq_const_def intro!: extends_intros split: option.split)
qed

lemma extends_mux_read: "extends (mux_read cells addr p)"
proof -
  have "extends (mux_read_from addr p i cells acc)" for i acc
    by (induction cells arbitrary: i acc) (auto intro!: extends_intros extends_eq_const extends_mux)
  then show ?thesis by (simp add: mux_read_def extends_intros)
qed

lemma extends_mux_write: "extends (mux_write cells addr src p)"
  by (auto simp: mux_write_def intro!: extends_emap extends_bind extends_eq_const extends_mux)

lemma eval_stmts_old_calls:
  "eval_stmts E ns rv (vs, ag, st) = Some (vs2, ag2, st2) \<Longrightarrow> v < rv \<Longrightarrow> ag2 v = ag v"
proof (induction ns arbitrary: rv vs ag st)
  case (Cons n ns)
  then obtain x bits st1 where "eval_stmts E ns (Suc rv) (vs @ [x], put_call rv bits ag, st1) = Some (vs2, ag2, st2)"
    by (auto simp: eval_stmts_out bind_eq_Some_conv simp del: eval_stmts.simps)
  then have "ag2 v = put_call rv bits ag v" using Cons.IH Cons.prems(2) by simp
  then show ?case using Cons.prems(2) by (cases bits) (auto simp: put_call_def)
qed simp

lemma runs_extended:
  assumes "runs S E ins st0 ns vs ag st" and "runs S E ins st0 ns' vs2 ag2 st2" and "prefix ns ns'"
  shows "\<forall>v < length vs. ag2 v = ag v"
proof -
  obtain ms where ms: "ns' = ns @ ms" using assms(3) by (auto simp: prefix_def)
  have "eval_stmts E ms (length ins + length ns) (vs, ag, st) = Some (vs2, ag2, st2)"
    using assms(1,2) by (simp add: runs_def ms eval_stmts_append)
  then show ?thesis using eval_stmts_old_calls [of E ms _ vs ag st vs2 ag2 st2] runs_length [OF assms(1)] by simp
qed

text \<open>A step that emits only gates keeps a table of copies.\<close>

lemma emitted_tracked:
  assumes em: "emits (blk.at base S E ins st0 st) vs m R" and ex: "extends m"
    and run: "length ins = base" "params b = base" "runs S E ins st0 (stmts b) vs ag st" and tr: "tracked \<rho> ws ag0 vs ag"
  shows "\<exists>x b' vs2 ag2. m b = Some (x, b') \<and> params b' = base \<and> runs S E ins st0 (stmts b') vs2 ag2 st
    \<and> prefix vs vs2 \<and> R vs2 x \<and> tracked \<rho> ws ag0 vs2 ag2"
proof -
  have "blk.at base S E ins st0 st b vs" using run by (auto simp: blk.at_def)
  from emits_run [OF em this] obtain x b' vs2 where m: "m b = Some (x, b')" "blk.at base S E ins st0 st b' vs2" "prefix vs vs2" "R vs2 x"
    by blast
  then obtain ag2 where ag2: "params b' = base" "runs S E ins st0 (stmts b') vs2 ag2 st" by (auto simp: blk.at_def)
  have "prefix (stmts b) (stmts b')" using ex m(1) by (auto simp: extends_def)
  then have "tracked \<rho> ws ag0 vs2 ag2"
    using tracked_extended [OF tr m(3) runs_extended [OF run(3) ag2(2)]] runs_calls [OF ag2(2)] by blast
  then show ?thesis using m ag2 by blast
qed

section \<open>The gates\<close>

lemma emits_mux_blk:
  "holding c vs s \<Longrightarrow> holding x vs a \<Longrightarrow> holding y vs d \<Longrightarrow>
   emits (blk.at base S E ins st0 st) vs (mux s a d p) (holding (if c then x else y))"
  unfolding mux_def by (rule blk.emits_mux)

lemma emits_eq_const_from:
  assumes "holding_all xs vs addr" and "j + length addr \<le> 64" and "case acc of None \<Rightarrow> A | Some a \<Rightarrow> holding A vs a"
  shows "emits (blk.at base S E ins st0 st) vs (eq_const_from i j addr acc p)
    (\<lambda>vs' r. case r of None \<Rightarrow> addr = [] \<and> acc = None \<and> A | Some a \<Rightarrow> holding (A \<and> xs = map (bit i) [j..<j + length addr]) vs' a)"
  using assms
proof (induction addr arbitrary: xs j acc A vs)
  case Nil
  then show ?case by (auto intro!: emits_ret intro: holding_prefix split: option.splits)
next
  case (Cons v addr)
  then obtain y ys where xs: "xs = y # ys" "holding y vs v" "holding_all ys vs addr" by auto
  have j: "\<not> 64 \<le> j" "Suc j + length addr \<le> 64" using Cons.prems(2) by simp_all
  have upt: "[j..<j + length (v # addr)] = j # [Suc j..<Suc j + length addr]" by (simp add: upt_conv_Cons del: upt_Suc)
  show ?case unfolding eq_const_from.simps if_not_P [OF j(1)]
  proof (rule emits_bind [where R = "holding (y = bit i j)"], goal_cases)
    case 1
    then show ?case using xs(2) blk.emits_not [OF xs(2)] by (auto intro!: emits_ret intro: holding_prefix)
  next
    case t: (2 t vs1)
    show ?case
    proof (rule emits_bind [where R = "holding (A \<and> y = bit i j)"], goal_cases)
      case 1
      show ?case
      proof (cases acc)
        case None
        then show ?thesis using Cons.prems(3) t by (auto intro!: emits_ret intro: holding_prefix)
      next
        case (Some a)
        then have "holding A vs1 a" using Cons.prems(3) t(1) by (auto intro: holding_prefix)
        from blk.emits_and [OF this t(2)] show ?thesis by (simp add: Some)
      qed
    next
      case a: (2 a vs2)
      have ys: "holding_all ys vs2 addr" using xs(3) t(1) a(1) by (blast intro: holding_all_prefix)
      have "case Some a of None \<Rightarrow> A \<and> y = bit i j | Some a \<Rightarrow> holding (A \<and> y = bit i j) vs2 a" using a(2) by simp
      from Cons.IH [OF ys j(2) this]
      show ?case unfolding upt xs(1) by (rule emits_mono) (auto simp del: upt_Suc split: option.splits)
    qed
  qed
qed

lemma emits_eq_const:
  assumes xs: "holding_all xs vs addr" and len: "length addr \<le> 64"
  shows "emits (blk.at base S E ins st0 st) vs (eq_const addr i p) (holding (xs = pc_bits (length addr) i))"
proof -
  have "emits (blk.at base S E ins st0 st) vs (eq_const_from i 0 addr None p)
      (\<lambda>vs' r. case r of None \<Rightarrow> addr = [] | Some a \<Rightarrow> holding (xs = pc_bits (length addr) i) vs' a)"
    by (rule emits_mono [OF emits_eq_const_from [OF xs, where j = 0 and acc = None and A = True]])
      (use len in \<open>auto simp: pc_bits_def split: option.splits\<close>)
  then show ?thesis unfolding eq_const_def
  proof (rule emits_bind)
    fix acc vs1
    assume acc: "case acc of None \<Rightarrow> addr = [] | Some a \<Rightarrow> holding (xs = pc_bits (length addr) i) vs1 a"
    show "emits (blk.at base S E ins st0 st) vs1 (case acc of None \<Rightarrow> mux_push BOne p | Some a \<Rightarrow> eret a)
        (holding (xs = pc_bits (length addr) i))"
    proof (cases acc)
      case None
      then have "xs = pc_bits (length addr) i" using acc xs by (simp add: pc_bits_def)
      then show ?thesis using None blk.emits_one by simp
    next
      case (Some a)
      then show ?thesis using acc by (auto intro!: emits_ret intro: holding_prefix)
    qed
  qed
qed

text \<open>What the folds over the cells compute.\<close>

fun selected :: "nat \<Rightarrow> bool list \<Rightarrow> nat \<Rightarrow> bool list \<Rightarrow> bool \<Rightarrow> bool" where
  "selected w xs i [] acc = acc"
| "selected w xs i (c # cs) acc = selected w xs (Suc i) cs (if xs = pc_bits w i then c else acc)"

lemma emits_mux_read_from:
  assumes "holding_all xs vs addr" and "length addr \<le> 64" and "holding_all cs vs cells" and "holding y vs acc"
  shows "emits (blk.at base S E ins st0 st) vs (mux_read_from addr p i cells acc) (holding (selected (length addr) xs i cs y))"
  using assms
proof (induction cells arbitrary: cs y acc vs i)
  case Nil
  then show ?case by (auto intro!: emits_ret intro: holding_prefix)
next
  case (Cons cell cells)
  then obtain c cs' where cs: "cs = c # cs'" "holding c vs cell" "holding_all cs' vs cells" by auto
  show ?case unfolding mux_read_from.simps cs(1) selected.simps
  proof (rule emits_bind [OF emits_eq_const [OF Cons.prems(1,2)]], rule emits_bind)
    fix e vs1 assume e: "prefix vs vs1" "holding (xs = pc_bits (length addr) i) vs1 e"
    show "emits (blk.at base S E ins st0 st) vs1 (mux e cell acc p) (holding (if xs = pc_bits (length addr) i then c else y))"
      by (rule emits_mux_blk [OF e(2)]) (use cs(2) Cons.prems(4) e(1) in \<open>auto intro: holding_prefix\<close>)
    fix m vs2 assume m: "prefix vs1 vs2" "holding (if xs = pc_bits (length addr) i then c else y) vs2 m"
    have "prefix vs vs2" using e(1) m(1) by (rule prefix_order.trans)
    then show "emits (blk.at base S E ins st0 st) vs2 (mux_read_from addr p (Suc i) cells m)
        (holding (selected (length addr) xs (Suc i) cs' (if xs = pc_bits (length addr) i then c else y)))"
      by (intro Cons.IH [OF _ Cons.prems(2) _ m(2)]) (use Cons.prems(1) cs(3) in \<open>auto intro: holding_all_prefix\<close>)
  qed
qed

lemma emits_mux_read:
  assumes "holding_all xs vs addr" and "length addr \<le> 64" and "holding_all cs vs cells"
  shows "emits (blk.at base S E ins st0 st) vs (mux_read cells addr p) (holding (selected (length addr) xs 0 cs False))"
  unfolding mux_read_def
  by (rule emits_bind [OF blk.emits_zero], rule emits_mux_read_from)
    (use assms in \<open>auto intro: holding_all_prefix\<close>)

lemma emits_mux_write:
  assumes "holding_all xs vs addr" and "length addr \<le> 64" and "holding_all cs vs cells" and "holding x vs src"
  shows "emits (blk.at base S E ins st0 st) vs (mux_write cells addr src p)
    (holding_all (map (\<lambda>i. if xs = pc_bits (length addr) i then x else cs ! i) [0..<length cs]))"
  unfolding mux_write_def holding_all_length [OF assms(3)]
proof (rule emits_map, rule emits_bind, rule emits_eq_const, rule holding_all_prefix [OF assms(1)], assumption, rule assms(2))
  fix i vs1 e vs2 assume i: "i \<in> set [0..<length cs]" and pre: "prefix vs vs1" "prefix vs1 vs2"
    and e: "holding (xs = pc_bits (length addr) i) vs2 e"
  have p2: "prefix vs vs2" using pre by (rule prefix_order.trans)
  show "emits (blk.at base S E ins st0 st) vs2 (mux e src (cells ! i) p) (holding (if xs = pc_bits (length addr) i then x else cs ! i))"
    by (rule emits_mux_blk [OF e holding_prefix [OF assms(4) p2] holding_nth_prefix [OF assms(3) _ p2]]) (use i in simp)
qed

section \<open>Addresses\<close>

lemma bit_addr_val: "i < length xs \<Longrightarrow> bit (addr_val xs) i = xs ! i"
proof (induction xs arbitrary: i)
  case (Cons x xs)
  show ?case
  proof (cases i)
    case 0
    then show ?thesis by (simp add: bit_0)
  next
    case (Suc j)
    have "bit (of_bool x + 2 * addr_val xs) (Suc j) = bit (addr_val xs) j"
      by (cases x) (simp_all add: bit_Suc)
    then show ?thesis using Cons Suc by simp
  qed
qed simp

lemma pc_bits_addr_val: "pc_bits (length xs) (addr_val xs) = xs"
  by (rule nth_equalityI) (simp_all add: pc_bits_def bit_addr_val)

lemma selected_other: "(\<And>k. i \<le> k \<Longrightarrow> k < i + length cs \<Longrightarrow> xs \<noteq> pc_bits w k) \<Longrightarrow> selected w xs i cs acc = acc"
proof (induction cs arbitrary: i acc)
  case (Cons c cs)
  have "xs \<noteq> pc_bits w i" by (rule Cons.prems) simp_all
  moreover have "xs \<noteq> pc_bits w k" if "Suc i \<le> k" "k < Suc i + length cs" for k
    by (rule Cons.prems) (use that in simp_all)
  ultimately show ?case using Cons.IH [of "Suc i"] by simp
qed simp

lemma selected_hit:
  "i + length cs \<le> 2 ^ w \<Longrightarrow> i \<le> k \<Longrightarrow> k < i + length cs \<Longrightarrow> selected w (pc_bits w k) i cs acc = cs ! (k - i)"
proof (induction cs arbitrary: i acc)
  case (Cons c cs)
  show ?case
  proof (cases "k = i")
    case True
    have "pc_bits w k \<noteq> pc_bits w j" if "Suc i \<le> j" "j < Suc i + length cs" for j
      using pc_bits_inject [of k w j] that Cons.prems(1) True by simp
    then have "selected w (pc_bits w k) (Suc i) cs c = c" by (rule selected_other)
    then show ?thesis using True by simp
  next
    case False
    then show ?thesis using Cons.IH [of "Suc i"] Cons.prems by (simp add: nth_Cons' Suc_diff_Suc)
  qed
qed simp

section \<open>The promoted storage\<close>

definition cfg_key :: "StorageToMuxBoolarConfig \<Rightarrow> storage_id \<times> lane_id" where
  "cfg_key cfg = (cfg_storage cfg, cfg_lane cfg)"

text \<open>The storage without the promoted cells.\<close>

definition outside :: "StorageToMuxBoolarConfig \<Rightarrow> bstorage \<Rightarrow> bstorage" where
  "outside cfg st c = (if fst c = cfg_key cfg then None else st c)"

fun acts_on_cells :: "StorageToMuxBoolarConfig \<Rightarrow> bstmt \<Rightarrow> bool" where
  "acts_on_cells cfg (ActionStoreBit _ _ _ _ s l _ _ _) \<longleftrightarrow> (s, l) = cfg_key cfg"
| "acts_on_cells cfg _ \<longleftrightarrow> False"

lemma outside_update: "fst c \<noteq> cfg_key cfg \<Longrightarrow> (outside cfg st)(c \<mapsto> x) = outside cfg (st(c \<mapsto> x))"
  by (rule ext) (auto simp: outside_def)

lemma outside_read: "fst c \<noteq> cfg_key cfg \<Longrightarrow> sread (outside cfg st) c = sread st c"
  by (simp add: outside_def sread_def)

lemma stmt_out_outside:
  assumes "cell_access cfg k = None" and "\<not> acts_on_cells cfg k" and "stmt_out E k vs ag st = Some (x, bits, st')"
  shows "stmt_out E k vs ag (outside cfg st) = Some (x, bits, outside cfg st')"
proof (cases k)
  case (ActionCall name g args fallback n)
  then show ?thesis using assms(3) by (cases "nth_opt vs g") (auto simp: bind_eq_Some_conv split: if_split_asm)
next
  case (ActionStoreBit name g args fallback s l addr b occ)
  then have "(s, l) \<noteq> cfg_key cfg" using assms(2) by simp
  then show ?thesis using assms(3)
    by (cases "ext_effects E"; cases "nth_opt vs g") (auto simp: ActionStoreBit bind_eq_Some_conv outside_update split del: if_split)
qed (insert assms, (clarsimp simp: bind_eq_Some_conv outside_update outside_read cfg_key_def split: if_split_asm)+)

text \<open>The variables of the cells, for addresses of \<open>w\<close> bits.\<close>

definition cells_hold :: "StorageToMuxBoolarConfig \<Rightarrow> nat \<Rightarrow> bstorage \<Rightarrow> bool list \<Rightarrow> nat list \<Rightarrow> bool" where
  "cells_hold cfg w st vs cells \<longleftrightarrow>
     holding_all (map (\<lambda>i. sread st (cfg_key cfg, pc_bits w i)) [0..<cfg_num_cells cfg]) vs cells"

lemma cells_hold_prefix: "cells_hold cfg w st vs cells \<Longrightarrow> prefix vs vs' \<Longrightarrow> cells_hold cfg w st vs' cells"
  unfolding cells_hold_def by (rule holding_all_prefix)

lemma cells_hold_other:
  "cell_access cfg k = None \<Longrightarrow> \<not> acts_on_cells cfg k \<Longrightarrow> stmt_out E k vs0 ag st = Some (x, bits, st')
   \<Longrightarrow> cells_hold cfg w st vs cells \<Longrightarrow> cells_hold cfg w st' vs cells"
  by (cases k) (auto simp: cells_hold_def bind_eq_Some_conv sread_def cfg_key_def split: if_splits)

text \<open>What the caller answers for: one address width, and every address read is that of a cell.\<close>

definition one_width :: "StorageToMuxBoolarConfig \<Rightarrow> nat \<Rightarrow> 'p node list \<Rightarrow> bool" where
  "one_width cfg w ns \<longleftrightarrow> (\<forall>n \<in> set ns. \<not> acts_on_cells cfg (kind n)
     \<and> (\<forall>src addr. cell_access cfg (kind n) = Some (src, addr) \<longrightarrow> length addr = w))"

fun reads_cells ::
  "StorageToMuxBoolarConfig \<Rightarrow> externals \<Rightarrow> 'p node list \<Rightarrow> bool list \<Rightarrow> oracle_agg \<Rightarrow> bstorage \<Rightarrow> bool" where
  "reads_cells cfg E [] vs ag st = True"
| "reads_cells cfg E (n # ns) vs ag st =
     ((case cell_access cfg (kind n) of
         Some (None, addr) \<Rightarrow> addr_val (map ((!) vs) addr) < cfg_num_cells cfg
       | _ \<Rightarrow> True)
      \<and> (case stmt_out E (kind n) vs ag st of
           None \<Rightarrow> True
         | Some (x, bits, st') \<Rightarrow> reads_cells cfg E ns (vs @ [x]) (put_call (length vs) bits ag) st'))"

lemma cell_access_read:
  "cell_access cfg k = Some (None, addr) \<Longrightarrow> stmt_out E k vs ag st = Some (x, bits, st') \<Longrightarrow>
   bits = None \<and> st' = st \<and> (\<exists>xs. nths_opt vs addr = Some xs \<and> x = sread st (cfg_key cfg, xs))"
  by (cases k) (auto simp: bind_eq_Some_conv cfg_key_def split: if_splits)

lemma cell_access_write:
  "cell_access cfg k = Some (Some v, addr) \<Longrightarrow> stmt_out E k vs ag st = Some (x, bits, st') \<Longrightarrow>
   bits = None \<and> \<not> x \<and> (\<exists>xs y. nths_opt vs addr = Some xs \<and> nth_opt vs v = Some y \<and> st' = st((cfg_key cfg, xs) \<mapsto> y))"
  by (cases k) (auto simp: bind_eq_Some_conv cfg_key_def split: if_splits)

lemma outside_promoted: "outside cfg (st((cfg_key cfg, xs) \<mapsto> y)) = outside cfg st"
  by (rule ext) (auto simp: outside_def)

lemma cells_written:
  "length xs = w \<Longrightarrow>
   map (\<lambda>i. sread (st((cfg_key cfg, xs) \<mapsto> y)) (cfg_key cfg, pc_bits w i)) [0..<n]
     = map (\<lambda>i. if xs = pc_bits w i then y else map (\<lambda>i. sread st (cfg_key cfg, pc_bits w i)) [0..<n] ! i) [0..<n]"
  by (rule nth_equalityI) (auto simp: sread_def)

section \<open>The walk\<close>

text \<open>One access, and one other statement.\<close>

lemma promote_read:
  assumes run: "length ins = base" "params b = base" "runs S E ins st0 (stmts b) vs' ag' st1"
    and tr: "tracked \<rho> vs ag vs' ag'" and cells: "cells_hold cfg w st vs' cells"
    and xs: "nths_opt vs addr = Some xs" "length addr = w" "addr_val xs < cfg_num_cells cfg"
    and w: "w \<le> 64" "cfg_num_cells cfg \<le> 2 ^ w"
  shows "\<exists>a r b' vs2 ag2. nths_opt \<rho> addr = Some a \<and> mux_read cells a p b = Some (r, b') \<and> params b' = base
    \<and> runs S E ins st0 (stmts b') vs2 ag2 st1 \<and> cells_hold cfg w st vs2 cells
    \<and> tracked (\<rho> @ [r]) (vs @ [sread st (cfg_key cfg, xs)]) ag vs2 ag2"
proof -
  obtain a where a: "nths_opt \<rho> addr = Some a" "holding_all xs vs' a"
    using holding_looked_up [OF tracked_holding [OF tr] xs(1)] by blast
  have lx: "length xs = w" and la: "length a = w"
    using xs(1,2) holding_all_length [OF a(2)] by (auto simp: nths_opt_eq_Some)
  let ?cs = "map (\<lambda>i. sread st (cfg_key cfg, pc_bits w i)) [0..<cfg_num_cells cfg]"
  have "emits (blk.at base S E ins st0 st1) vs' (mux_read cells a p) (holding (selected (length a) xs 0 ?cs False))"
    using cells by (intro emits_mux_read [OF a(2)]) (use la w in \<open>simp_all add: cells_hold_def\<close>)
  from emitted_tracked [OF this extends_mux_read run tr] obtain r b' vs2 ag2 where r: "mux_read cells a p b = Some (r, b')"
      "params b' = base" "runs S E ins st0 (stmts b') vs2 ag2 st1" "prefix vs' vs2"
      "holding (selected w xs 0 ?cs False) vs2 r" "tracked \<rho> vs ag vs2 ag2"
    unfolding la by blast
  have "selected w (pc_bits w (addr_val xs)) 0 ?cs False = ?cs ! (addr_val xs - 0)"
    by (rule selected_hit) (use xs(3) w in simp_all)
  then have "selected w xs 0 ?cs False = sread st (cfg_key cfg, xs)"
    using pc_bits_addr_val [of xs] xs(3) lx by simp
  then show ?thesis
    using a(1) r(1-3) cells_hold_prefix [OF cells r(4)] tracked_reuse [OF r(6)] r(5) by auto
qed

lemma promote_write:
  assumes run: "length ins = base" "params b = base" "runs S E ins st0 (stmts b) vs' ag' st1"
    and tr: "tracked \<rho> vs ag vs' ag'" and cells: "cells_hold cfg w st vs' cells"
    and xs: "nths_opt vs addr = Some xs" "length addr = w" and y: "nth_opt vs v = Some y" and w: "w \<le> 64"
  shows "\<exists>a sv cells' b' d b'' vs2 ag2. nths_opt \<rho> addr = Some a \<and> nth_opt \<rho> v = Some sv
    \<and> mux_write cells a sv p b = Some (cells', b') \<and> mux_push BZero p b' = Some (d, b'') \<and> params b'' = base
    \<and> runs S E ins st0 (stmts b'') vs2 ag2 st1 \<and> cells_hold cfg w (st((cfg_key cfg, xs) \<mapsto> y)) vs2 cells'
    \<and> tracked (\<rho> @ [d]) (vs @ [False]) ag vs2 ag2"
proof -
  obtain a where a: "nths_opt \<rho> addr = Some a" "holding_all xs vs' a"
    using holding_looked_up [OF tracked_holding [OF tr] xs(1)] by blast
  have lx: "length xs = w" and la: "length a = w"
    using xs holding_all_length [OF a(2)] by (auto simp: nths_opt_eq_Some)
  have sv: "nth_opt \<rho> v = Some (\<rho> ! v)" "holding y vs' (\<rho> ! v)"
    using y tr by (auto simp: tracked_def nth_opt_eq_Some holding_def)
  let ?cs = "map (\<lambda>i. sread st (cfg_key cfg, pc_bits w i)) [0..<cfg_num_cells cfg]"
  let ?new = "map (\<lambda>i. if xs = pc_bits w i then y else ?cs ! i) [0..<cfg_num_cells cfg]"
  have "emits (blk.at base S E ins st0 st1) vs' (mux_write cells a (\<rho> ! v) p)
      (holding_all (map (\<lambda>i. if xs = pc_bits (length a) i then y else ?cs ! i) [0..<length ?cs]))"
    by (intro emits_mux_write [OF a(2) _ _ sv(2)]) (use la w cells in \<open>simp_all add: cells_hold_def\<close>)
  from emitted_tracked [OF this extends_mux_write run tr] obtain cells' b' vs1 ag1 where c: "mux_write cells a (\<rho> ! v) p b = Some (cells', b')"
      "params b' = base" "runs S E ins st0 (stmts b') vs1 ag1 st1" "prefix vs' vs1" "holding_all ?new vs1 cells'" "tracked \<rho> vs ag vs1 ag1"
    unfolding la by auto
  from emitted_tracked [OF blk.emits_zero extends_push run(1) c(2,3,6)] obtain d b'' vs2 ag2 where d: "mux_push BZero p b' = Some (d, b'')"
      "params b'' = base" "runs S E ins st0 (stmts b'') vs2 ag2 st1" "prefix vs1 vs2" "holding False vs2 d" "tracked \<rho> vs ag vs2 ag2"
    by blast
  have "cells_hold cfg w (st((cfg_key cfg, xs) \<mapsto> y)) vs1 cells'"
    using c(5) unfolding cells_hold_def cells_written [OF lx] .
  then show ?thesis
    using a(1) sv(1) c(1) d(1-3) cells_hold_prefix [OF _ d(4)] tracked_reuse [OF d(6,5)] by blast
qed

lemma promote_run:
  assumes ins: "length ins = base" and w: "w \<le> 64" "cfg_num_cells cfg \<le> 2 ^ w" "\<not> too_narrow cfg w"
    and "params b = base" and "runs S E ins st0 (stmts b) vs' ag' (outside cfg st)" and "tracked \<rho> vs ag vs' ag'"
    and "runs UNIV E src sta pre vs ag st" and "list_ok (length src) (pre @ ns)" and "one_width cfg w ns"
    and "reads_cells cfg E ns vs ag st" and "cells_hold cfg w st vs' cells"
    and "\<forall>n \<in> set ns. cell_access cfg (kind n) = None \<longrightarrow> kind n \<in> S"
    and "eval_stmts E ns (length vs) (vs, ag, st) = Some (vs1, ag1, st1)"
  shows "\<exists>\<rho>' b' vs2 ag2. promote_stmts cfg ns \<rho> cells b = Ok (\<rho>', b') \<and> params b' = base
    \<and> runs S E ins st0 (stmts b') vs2 ag2 (outside cfg st1) \<and> holding_all vs1 vs2 \<rho>'"
  using assms(5-)
proof (induction ns arbitrary: b vs' ag' st \<rho> vs ag pre cells)
  case Nil
  then show ?case by (auto dest: tracked_holding)
next
  case (Cons n ns)
  obtain x bits st2 where out: "stmt_out E (kind n) vs ag st = Some (x, bits, st2)"
    and ops: "\<forall>v \<in> set (operands (kind n)). v < length vs" and hs: "\<forall>h \<in> set (handles (kind n)). ag h \<noteq> None"
    and run: "runs UNIV E src sta (pre @ [n]) (vs @ [x]) (put_call (length vs) bits ag) st2"
    and rest: "eval_stmts E ns (length (vs @ [x])) (vs @ [x], put_call (length vs) bits ag, st2) = Some (vs1, ag1, st1)"
    using source_step [OF Cons.prems(4,5,10)] by blast
  have ok: "list_ok (length src) ((pre @ [n]) @ ns)" using Cons.prems(5) by simp
  have ow: "one_width cfg w ns" "\<not> acts_on_cells cfg (kind n)"
    and wd: "\<And>src addr. cell_access cfg (kind n) = Some (src, addr) \<Longrightarrow> length addr = w"
    using Cons.prems(6) by (auto simp: one_width_def)
  have rc: "reads_cells cfg E ns (vs @ [x]) (put_call (length vs) bits ag) st2"
    and rd: "\<And>addr. cell_access cfg (kind n) = Some (None, addr) \<Longrightarrow> addr_val (map ((!) vs) addr) < cfg_num_cells cfg"
    using Cons.prems(7) out by simp_all
  have S: "\<forall>n \<in> set ns. cell_access cfg (kind n) = None \<longrightarrow> kind n \<in> S" using Cons.prems(9) by simp
  note IH = Cons.IH [OF _ _ _ run ok ow(1) rc _ S rest]
  show ?case
  proof (cases "cell_access cfg (kind n)")
    case None
    have k: "kind n \<in> S" using Cons.prems(9) None by simp
    have len: "length \<rho> = length vs" using Cons.prems(3) by (simp add: tracked_def)
    from blk.push_copy [OF ins Cons.prems(1,2,3) ops hs k stmt_out_outside [OF None ow(2) out], of "prov n"]
    obtain b' where b': "mux_push (map_BIrStmt ((!) \<rho>) id (kind n)) (prov n) b = Some (length vs', b')" "params b' = base"
        "runs S E ins st0 (stmts b') (vs' @ [x]) (put_call (length vs') bits ag') (outside cfg st2)"
        "tracked (\<rho> @ [length vs']) (vs @ [x]) (put_call (length vs) bits ag) (vs' @ [x]) (put_call (length vs') bits ag')"
      by blast
    have "cells_hold cfg w st2 (vs' @ [x]) cells"
      using cells_hold_prefix [OF cells_hold_other [OF None ow(2) out Cons.prems(8)]] by (simp add: prefix_def)
    from IH [OF b'(2-4) this] show ?thesis using b'(1) ops by (simp add: None len)
  next
    case (Some acc)
    then obtain src addr where acc: "cell_access cfg (kind n) = Some (src, addr)" by (cases acc) auto
    have addr: "length addr = w" by (rule wd [OF acc])
    have nn: "\<not> too_narrow cfg (length addr)" using w(3) addr by simp
    show ?thesis
    proof (cases src)
      case None
      note acc' = acc [unfolded None]
      obtain xs where xs: "bits = None" "st2 = st" "nths_opt vs addr = Some xs" "x = sread st (cfg_key cfg, xs)"
        using cell_access_read [OF acc' out] by blast
      have "addr_val xs < cfg_num_cells cfg" using rd [OF acc'] xs(3) by (simp add: nths_opt_eq_Some)
      from promote_read [OF ins Cons.prems(1,2,3,8) xs(3) addr this w(1,2), of "prov n"]
      obtain a r b' vs2 ag2 where r: "nths_opt \<rho> addr = Some a" "mux_read cells a (prov n) b = Some (r, b')" "params b' = base"
          "runs S E ins st0 (stmts b') vs2 ag2 (outside cfg st)" "cells_hold cfg w st vs2 cells"
          "tracked (\<rho> @ [r]) (vs @ [x]) ag vs2 ag2" unfolding xs(4) by blast
      have p: "put_call (length vs) bits ag = ag" by (simp add: xs(1) put_call_def)
      from IH [unfolded p xs(2), OF r(3,4,6,5)] show ?thesis using r(1,2) nn by (simp add: acc' nn)
    next
      case v: (Some v)
      note acc' = acc [unfolded v]
      obtain xs y where xs: "bits = None" "\<not> x" "nths_opt vs addr = Some xs" "nth_opt vs v = Some y" "st2 = st((cfg_key cfg, xs) \<mapsto> y)"
        using cell_access_write [OF acc' out] by blast
      from promote_write [OF ins Cons.prems(1,2,3,8) xs(3) addr xs(4) w(1), of "prov n"]
      obtain a sv cells' b' d b'' vs2 ag2 where r: "nths_opt \<rho> addr = Some a" "nth_opt \<rho> v = Some sv"
          "mux_write cells a sv (prov n) b = Some (cells', b')" "mux_push BZero (prov n) b' = Some (d, b'')" "params b'' = base"
          "runs S E ins st0 (stmts b'') vs2 ag2 (outside cfg st)" "cells_hold cfg w st2 vs2 cells'"
          "tracked (\<rho> @ [d]) (vs @ [False]) ag vs2 ag2" unfolding xs(5) by blast
      have p: "put_call (length vs) bits ag = ag" and x: "vs @ [False] = vs @ [x]" and o: "outside cfg st2 = outside cfg st"
        using xs(2) by (simp_all add: xs(1,5) put_call_def outside_promoted)
      from IH [unfolded p o, OF r(5,6) r(8) [unfolded x] r(7)] show ?thesis using r(1-4) by (simp add: acc' nn)
    qed
  qed
qed

end
