(* ===== verification/StorageMuxProps.thy ===== *)
theory StorageMuxProps
  imports StorageMuxCorrect
begin

text \<open>
  The theorems about storage promotion: the promoted circuit returns what the circuit returns and no
  longer touches the promoted storage, which inputs the pass rejects, and where it is wrong.
\<close>

section \<open>The initial cells\<close>

lemma address_to_usize_val: "length addr \<le> 64 \<Longrightarrow> address_to_usize addr = Some (addr_val addr)"
proof -
  have "foldl (\<lambda>value (i, set). value + (if set then 2 ^ i else 0)) 0 (enumerate 0 addr) = addr_val addr" for addr
    by (induction addr rule: rev_induct) (auto simp: enumerate_append_eq addr_val_append)
  then show "length addr \<le> 64 \<Longrightarrow> address_to_usize addr = Some (addr_val addr)" by (simp add: address_to_usize_def)
qed

definition cell_bits :: "storage_id \<times> lane_id \<Rightarrow> nat \<Rightarrow> nat \<Rightarrow> bstorage \<Rightarrow> bool list" where
  "cell_bits key w n st = map (\<lambda>i. sread st (key, pc_bits w i)) [0..<n]"

lemma cell_bits_update:
  assumes "n \<le> 2 ^ w" and "length a = w"
  shows "cell_bits key w n (st((key, a) \<mapsto> b))
    = (if addr_val a < n then (cell_bits key w n st)[addr_val a := b] else cell_bits key w n st)"
proof (rule nth_equalityI)
  fix i assume "i < length (cell_bits key w n (st((key, a) \<mapsto> b)))"
  then have i: "i < n" by (simp add: cell_bits_def)
  have a: "a = pc_bits w (addr_val a)" using pc_bits_addr_val [of a] assms(2) by simp
  have "pc_bits w i = a \<longleftrightarrow> i = addr_val a"
    using pc_bits_inject [of i w "addr_val a"] addr_val_bound [of a] assms i a by auto
  then show "cell_bits key w n (st((key, a) \<mapsto> b)) ! i
      = (if addr_val a < n then (cell_bits key w n st)[addr_val a := b] else cell_bits key w n st) ! i"
    using i by (auto simp: cell_bits_def sread_def nth_list_update)
qed (simp add: cell_bits_def)

lemma init_values_run:
  assumes "w \<le> 64" and "n \<le> 2 ^ w" and "\<forall>j < length bs. length (add_to_address base (k + j)) = w"
  shows "init_values base k bs (cell_bits (s, l) w n st) = Inr (cell_bits (s, l) w n (init_cells_from st s l base k bs))"
  using assms(3)
proof (induction bs arbitrary: k st)
  case (Cons b bs)
  let ?a = "add_to_address base k"
  have len: "length ?a = w" using Cons.prems [rule_format, of 0] by simp
  have rest: "\<forall>j < length bs. length (add_to_address base (Suc k + j)) = w"
  proof safe
    fix j assume "j < length bs"
    then show "length (add_to_address base (Suc k + j)) = w" using Cons.prems [rule_format, of "Suc j"] by simp
  qed
  have n: "length (cell_bits (s, l) w n st) = n" by (simp add: cell_bits_def)
  have idx: "address_to_usize ?a = Some (addr_val ?a)"
    by (rule address_to_usize_val) (use len assms(1) in simp)
  show ?case
    unfolding init_values.simps init_cells_from.simps Let_def idx option.case n
      cell_bits_update [OF assms(2) len, symmetric]
    by (rule Cons.IH [OF rest])
qed simp

text \<open>The addresses of the selected segments have the width of the accesses.\<close>

definition segment_width :: "StorageToMuxBoolarConfig \<Rightarrow> nat \<Rightarrow> BIrPreInitSegment list \<Rightarrow> bool" where
  "segment_width cfg w segs \<longleftrightarrow> (\<forall>seg \<in> set segs. (seg_storage seg, seg_lane seg) = cfg_key cfg \<longrightarrow>
     (\<forall>j < length (seg_data seg). length (add_to_address (seg_addr seg) j) = w))"

lemma init_cells_elsewhere: "(s, l) \<noteq> key \<Longrightarrow> init_cells_from st s l base k bs (key, a) = st (key, a)"
  by (rule init_cells_other) auto

lemma cell_bits_cong: "(\<And>a. st (key, a) = st' (key, a)) \<Longrightarrow> cell_bits key w n st = cell_bits key w n st'"
  by (simp add: cell_bits_def sread_def)

lemma apply_pre_init_Cons:
  "apply_pre_init st (seg # segs) = apply_pre_init (init_cells_from st (seg_storage seg) (seg_lane seg) (seg_addr seg) 0 (seg_data seg)) segs"
  by (simp add: apply_pre_init_def)

lemma segment_values_run:
  assumes "w \<le> 64" and "n \<le> 2 ^ w" and "segment_width cfg w segs"
  shows "segment_values cfg segs (cell_bits (cfg_key cfg) w n st) = Inr (cell_bits (cfg_key cfg) w n (apply_pre_init st segs))"
  using assms(3)
proof (induction segs arbitrary: st)
  case Nil
  then show ?case by (simp add: apply_pre_init_def)
next
  case (Cons seg segs)
  let ?st = "init_cells_from st (seg_storage seg) (seg_lane seg) (seg_addr seg) 0 (seg_data seg)"
  have rest: "segment_width cfg w segs" using Cons.prems by (simp add: segment_width_def)
  note IH = Cons.IH [OF rest, of ?st]
  show ?case unfolding apply_pre_init_Cons
  proof (cases "(seg_storage seg, seg_lane seg) = cfg_key cfg")
    case True
    then have "\<forall>j < length (seg_data seg). length (add_to_address (seg_addr seg) (0 + j)) = w"
      using Cons.prems by (simp add: segment_width_def)
    from init_values_run [OF assms(1,2) this, of "seg_storage seg" "seg_lane seg" st]
    have "init_values (seg_addr seg) 0 (seg_data seg) (cell_bits (cfg_key cfg) w n st) = Inr (cell_bits (cfg_key cfg) w n ?st)"
      unfolding True .
    then show "segment_values cfg (seg # segs) (cell_bits (cfg_key cfg) w n st) = Inr (cell_bits (cfg_key cfg) w n (apply_pre_init ?st segs))"
      using IH True by (simp add: cfg_key_def)
  next
    case False
    have "cell_bits (cfg_key cfg) w n ?st = cell_bits (cfg_key cfg) w n st"
      by (rule cell_bits_cong) (rule init_cells_elsewhere [OF False])
    moreover have "seg_storage seg \<noteq> cfg_storage cfg \<or> seg_lane seg \<noteq> cfg_lane cfg" using False by (auto simp: cfg_key_def)
    ultimately show "segment_values cfg (seg # segs) (cell_bits (cfg_key cfg) w n st) = Inr (cell_bits (cfg_key cfg) w n (apply_pre_init ?st segs))"
      using IH by simp
  qed
qed

lemma init_cells_outside:
  "outside cfg (init_cells_from st s l base k bs)
    = (if (s, l) = cfg_key cfg then outside cfg st else init_cells_from (outside cfg st) s l base k bs)"
proof (induction bs arbitrary: k st)
  case (Cons b bs)
  show ?case
  proof (cases "(s, l) = cfg_key cfg")
    case True
    then show ?thesis using Cons.IH by (simp add: outside_promoted)
  next
    case False
    then show ?thesis using Cons.IH by (simp add: outside_update)
  qed
qed simp

lemma pre_init_outside:
  "apply_pre_init (outside cfg st)
      (filter (\<lambda>seg. \<not> (seg_storage seg = cfg_storage cfg \<and> seg_lane seg = cfg_lane cfg)) segs)
    = outside cfg (apply_pre_init st segs)"
proof (induction segs arbitrary: st)
  case Nil
  then show ?case by (simp add: apply_pre_init_def)
next
  case (Cons seg segs)
  let ?st = "init_cells_from st (seg_storage seg) (seg_lane seg) (seg_addr seg) 0 (seg_data seg)"
  note io = init_cells_outside [of cfg st "seg_storage seg" "seg_lane seg" "seg_addr seg" 0 "seg_data seg"]
  show ?case
  proof (cases "(seg_storage seg, seg_lane seg) = cfg_key cfg")
    case True
    then have "outside cfg ?st = outside cfg st" using io by simp
    then show ?thesis using Cons.IH [of ?st] True by (simp add: apply_pre_init_Cons cfg_key_def)
  next
    case False
    then have o: "outside cfg ?st = init_cells_from (outside cfg st) (seg_storage seg) (seg_lane seg) (seg_addr seg) 0 (seg_data seg)"
      using io by simp
    have "\<not> (seg_storage seg = cfg_storage cfg \<and> seg_lane seg = cfg_lane cfg)" using False by (auto simp: cfg_key_def)
    then show ?thesis using Cons.IH [of ?st] by (simp add: apply_pre_init_Cons o)
  qed
qed

lemma outside_empty [simp]: "outside cfg Map.empty = Map.empty"
  by (rule ext) (simp add: outside_def)

lemma init_cells_run:
  fixes dflt :: 'p
  assumes w: "w \<le> 64" "cfg_num_cells cfg \<le> 2 ^ w" and segs: "segment_width cfg w segs"
    and base: "params b = length ins" "stmts b = []"
  shows "\<exists>cells b' vs ag. init_cells cfg segs dflt b = Ok (cells, b') \<and> params b' = length ins
    \<and> runs S E ins st (stmts (b' :: 'p BIrBlock)) vs ag st \<and> prefix ins vs
    \<and> cells_hold cfg w (apply_pre_init Map.empty segs) vs cells"
proof -
  let ?vals = "cell_bits (cfg_key cfg) w (cfg_num_cells cfg) (apply_pre_init Map.empty segs)"
  have zero: "replicate (cfg_num_cells cfg) False = cell_bits (cfg_key cfg) w (cfg_num_cells cfg) Map.empty"
    by (simp add: cell_bits_def sread_def map_replicate_const)
  have vals: "segment_values cfg segs (replicate (cfg_num_cells cfg) False) = Inr ?vals"
    unfolding zero by (rule segment_values_run [OF w segs])
  have "emits (blk.at (length ins) S E ins st st) ins (emap (\<lambda>v. mux_push (if v then BOne else BZero) dflt) ?vals)
      (holding_all (map (\<lambda>v. v) ?vals))"
  proof (rule emits_map)
    fix v vs
    show "emits (blk.at (length ins) S E ins st st) vs (mux_push (if v then BOne else BZero) dflt) (holding v)"
      using blk.emits_one blk.emits_zero by (cases v) simp_all
  qed
  moreover have "blk.at (length ins) S E ins st st b ins"
    using base runs_start [of S E ins st] by (auto simp: blk.at_def)
  ultimately obtain cells b' vs where "emap (\<lambda>v. mux_push (if v then BOne else BZero) dflt) ?vals b = Some (cells, b')"
      "blk.at (length ins) S E ins st st b' vs" "prefix ins vs" "holding_all ?vals vs cells"
    using emits_run by fastforce
  then show ?thesis by (auto simp: init_cells_def vals blk.at_def cells_hold_def cell_bits_def)
qed

section \<open>Promotion\<close>

text \<open>What the caller of the pass answers for: a well-formed circuit, cells and addresses of one width
  that can number them, and no atomic action on the promoted storage.\<close>

definition promotable :: "StorageToMuxBoolarConfig \<Rightarrow> nat \<Rightarrow> 'p BIrBlocks \<Rightarrow> bool" where
  "promotable cfg w bs \<longleftrightarrow> is_circuit bs \<and> block_ok (blocks bs ! 0) \<and> 0 < cfg_num_cells cfg \<and> w \<le> 64
     \<and> \<not> too_narrow cfg w \<and> one_width cfg w (stmts (blocks bs ! 0)) \<and> segment_width cfg w (pre_init bs)"

definition promoted :: "StorageToMuxBoolarConfig \<Rightarrow> 'p BIrBlocks \<Rightarrow> bool" where
  "promoted cfg q \<longleftrightarrow> (\<forall>b \<in> set (blocks q). \<forall>n \<in> set (stmts b). cell_access cfg (kind n) = None)
     \<and> (\<forall>seg \<in> set (pre_init q). (seg_storage seg, seg_lane seg) \<noteq> cfg_key cfg)"

lemma drawn_untouched: "drawn {k \<in> K. cell_access cfg k = None} k \<Longrightarrow> cell_access cfg k = None"
proof -
  assume k: "drawn {k \<in> K. cell_access cfg k = None} k"
  show ?thesis
  proof (cases "is_gate k")
    case True
    then show ?thesis by (cases k) auto
  next
    case False
    then obtain k' f where "cell_access cfg k' = None" "k = map_BIrStmt f id k'" using k by (auto simp: drawn_def)
    then show ?thesis by (cases k') (auto split: if_splits)
  qed
qed

lemma wide_enough: "\<not> too_narrow cfg w \<Longrightarrow> cfg_num_cells cfg \<le> 2 ^ w"
proof -
  assume "\<not> too_narrow cfg w"
  then have "cfg_num_cells cfg \<le> 2 ^ min w 63" by (simp add: too_narrow_def)
  also have "\<dots> \<le> 2 ^ w" by (rule power_increasing) simp_all
  finally show ?thesis .
qed

lemma eval_biir_single_conv:
  assumes "blocks q = [b]" and "is_return_jump (terminator b)" and "eval_biir E q ins = Some (Returned outs)"
  shows "\<exists>st'. eval_block E b ins (apply_pre_init Map.empty (pre_init q)) = Some (BReturn outs, st')"
proof -
  obtain t where t: "terminator b = Jmp t" "tgt_block t = Return"
    using assms(2) by (cases "terminator b") (auto split: IRBlockTargetId.splits)
  show ?thesis
    using assms(1,3) t
    by (auto simp: eval_biir_def eval_biir_with_limit_def MAX_ITERS_def eval_loop_round loop_round_def
        eval_block_def resolve_target_def bind_eq_Some_conv split: option.splits if_splits)
qed

lemma promoted_block:
  fixes dflt :: 'p
  assumes ok: "promotable cfg w bs" and b: "blocks bs = [b]" and tm: "terminator b = Jmp t"
    and st0: "st0 = apply_pre_init Map.empty (pre_init bs)"
    and rd: "reads_cells cfg E (stmts b) ins Map.empty st0"
    and ins: "length ins = params b" and ev: "eval_stmts E (stmts b) (params b) (ins, Map.empty, st0) = Some (vs1, ag1, st1)"
    and outs: "nths_opt vs1 (tgt_args t) = Some outs"
  shows "\<exists>cells b0 \<rho> b1 args vs2 ag2.
    init_cells cfg (pre_init bs) dflt \<lparr>params = params b, stmts = [], terminator = terminator b\<rparr> = Ok (cells, b0)
    \<and> promote_stmts cfg (stmts b) [0..<params b] cells b0 = Ok (\<rho>, b1) \<and> nths_opt \<rho> (tgt_args t) = Some args
    \<and> params b1 = params b \<and> nths_opt vs2 args = Some outs
    \<and> runs {k \<in> kinds (blocks bs). cell_access cfg k = None} E ins (outside cfg st0) (stmts b1) vs2 ag2 (outside cfg st1)"
proof -
  let ?S = "{k \<in> kinds (blocks bs). cell_access cfg k = None}"
  have lok: "list_ok (length ins) ([] @ stmts b)" and narrow: "\<not> too_narrow cfg w" and w: "w \<le> 64"
    and one: "one_width cfg w (stmts b)" and segs: "segment_width cfg w (pre_init bs)"
    using ok ins by (simp_all add: promotable_def b block_ok_def)
  have n: "cfg_num_cells cfg \<le> 2 ^ w" by (rule wide_enough [OF narrow])
  obtain cells b0 vs ag where init: "init_cells cfg (pre_init bs) dflt \<lparr>params = params b, stmts = [], terminator = terminator b\<rparr> = Ok (cells, b0)"
      "params b0 = length ins" "runs ?S E ins (outside cfg st0) (stmts b0) vs ag (outside cfg st0)" "prefix ins vs" "cells_hold cfg w st0 vs cells"
    using init_cells_run [OF w n segs, of "\<lparr>params = params b, stmts = [], terminator = terminator b\<rparr>" ins dflt ?S E "outside cfg st0"]
    by (auto simp: ins st0)
  have "holding_all ins ins [0..<params b]" by (simp add: holding_all_def ins [symmetric] nths_opt_eq_Some map_nth)
  then have "holding_all ins vs [0..<params b]" by (rule holding_all_prefix) (rule init(4))
  then have tr: "tracked [0..<params b] ins Map.empty vs ag" using tracked_start runs_calls [OF init(3)] by blast
  have S: "\<forall>n \<in> set (stmts b). cell_access cfg (kind n) = None \<longrightarrow> kind n \<in> ?S" by (auto simp: kinds_def b)
  have ev': "eval_stmts E (stmts b) (length ins) (ins, Map.empty, st0) = Some (vs1, ag1, st1)" using ev ins by simp
  obtain \<rho> b1 vs2 ag2 where walk: "promote_stmts cfg (stmts b) [0..<params b] cells b0 = Ok (\<rho>, b1)" "params b1 = length ins"
      "runs ?S E ins (outside cfg st0) (stmts b1) vs2 ag2 (outside cfg st1)" "holding_all vs1 vs2 \<rho>"
    using promote_run [OF refl w n narrow init(2,3) tr runs_start lok one rd init(5) S ev'] by blast
  obtain args where "nths_opt \<rho> (tgt_args t) = Some args" "nths_opt vs2 args = Some outs"
    using holding_looked_up [OF walk(4) outs] by (auto simp: holding_all_def)
  then show ?thesis using init(1) walk(1-3) ins by auto
qed

text \<open>C18. Storage promotion is correct: on a well-formed circuit in which no atomic action stores into the
  promoted storage, all accesses to it and all its initial segments have one address width of at most
  64 bits that can number the cells, and whose run returns and reads cells only, the pass accepts unless the storage is declared read-only and
  written, and the circuit it gives returns the same outputs and has no read or write of the promoted
  storage and no initialisation of it.\<close>

theorem storage_promotion_preserves:
  assumes "promotable cfg w bs"
    and "reads_cells cfg E (stmts (blocks bs ! 0)) ins Map.empty (apply_pre_init Map.empty (pre_init bs))"
    and "\<forall>t. access = Some t \<longrightarrow> access_of t (cfg_storage cfg) = ReadWrite \<or> \<not> writes_storage (cfg_storage cfg) bs"
    and "eval_biir E bs ins = Some (Returned outs)"
  shows "\<exists>q. storage_to_mux_boolar_with_access dflt bs cfg access = Ok q \<and> is_circuit q \<and> promoted cfg q
    \<and> eval_biir E q ins = Some (Returned outs)"
proof -
  let ?st = "apply_pre_init Map.empty (pre_init bs)"
  let ?segs = "filter (\<lambda>seg. \<not> (seg_storage seg = cfg_storage cfg \<and> seg_lane seg = cfg_lane cfg)) (pre_init bs)"
  have circ: "is_circuit bs" using assms(1) by (simp add: promotable_def)
  then obtain b where b: "blocks bs = [b]" by (cases "blocks bs") (auto simp: is_circuit_def is_movfuscated_def)
  obtain t where t: "terminator b = Jmp t" "tgt_block t = Return"
    using circ by (cases "terminator b") (auto simp: is_circuit_def b split: IRBlockTargetId.splits)
  obtain st' where "eval_block E b ins ?st = Some (BReturn outs, st')"
    using eval_biir_single_conv [OF b _ assms(4)] circ by (auto simp: is_circuit_def b)
  then obtain vs1 ag1 where ev: "length ins = params b" "eval_stmts E (stmts b) (params b) (ins, Map.empty, ?st) = Some (vs1, ag1, st')"
      "nths_opt vs1 (tgt_args t) = Some outs"
    by (auto simp: eval_block_def t resolve_target_def bind_eq_Some_conv split: if_splits)
  have rd: "reads_cells cfg E (stmts b) ins Map.empty ?st" using assms(2) by (simp add: b)
  obtain cells b0 \<rho> b1 args vs2 ag2 where pass:
      "init_cells cfg (pre_init bs) dflt \<lparr>params = params b, stmts = [], terminator = terminator b\<rparr> = Ok (cells, b0)"
      "promote_stmts cfg (stmts b) [0..<params b] cells b0 = Ok (\<rho>, b1)" "nths_opt \<rho> (tgt_args t) = Some args"
      "params b1 = params b" "nths_opt vs2 args = Some outs"
    and run: "runs {k \<in> kinds (blocks bs). cell_access cfg k = None} E ins (outside cfg ?st) (stmts b1) vs2 ag2 (outside cfg st')"
    using promoted_block [OF assms(1) b t(1) refl rd ev(1,2,3), of dflt] by blast
  define q where "q = \<lparr>blocks = [b1\<lparr>terminator := Jmp \<lparr>tgt_block = Return, tgt_args = args\<rparr>\<rparr>], pre_init = ?segs\<rparr>"
  have denied: "\<not> ((case access of None \<Rightarrow> False | Some t \<Rightarrow> access_of t (cfg_storage cfg) = ReadOnly)
      \<and> writes_storage (cfg_storage cfg) bs)"
    using assms(3) by (auto split: option.splits)
  have "cfg_num_cells cfg \<noteq> 0" using assms(1) by (simp add: promotable_def)
  then have "storage_to_mux_boolar_with_access dflt bs cfg access = Ok q"
    using circ pass t
    unfolding storage_to_mux_boolar_with_access_def if_not_P [OF denied]
    by (simp add: b Let_def q_def)
  moreover have "is_circuit q" by (simp add: q_def is_circuit_def is_movfuscated_def)
  moreover have "promoted cfg q"
    using run drawn_untouched by (fastforce simp: promoted_def q_def runs_def cfg_key_def)
  moreover have "eval_biir E q ins = Some (Returned outs)"
  proof (rule eval_biir_single)
    have "apply_pre_init Map.empty ?segs = outside cfg ?st" using pre_init_outside [of cfg Map.empty] by simp
    then show "eval_block E (b1\<lparr>terminator := Jmp \<lparr>tgt_block = Return, tgt_args = args\<rparr>\<rparr>) ins
        (apply_pre_init Map.empty (pre_init q)) = Some (BReturn outs, outside cfg st')"
      using run pass(4,5) ev(1) by (simp add: q_def eval_block_def runs_def resolve_target_def)
  qed (simp add: q_def)
  ultimately show ?thesis by blast
qed

text \<open>One cell in two is initialised; cell 0 is written, then the cell the third input names is read.\<close>

definition two_cells :: "StorageToMuxBoolarConfig" where
  "two_cells = \<lparr>cfg_storage = 7, cfg_lane = 0, cfg_num_cells = 2\<rparr>"

definition writes_then_reads :: "unit BIrBlocks" where
  "writes_then_reads = \<lparr>blocks =
     [\<lparr>params = 3, stmts = [Node_new (StorageWrite 7 0 0 [1]) () None, Node_new (StorageRead 7 0 [2]) () None],
       terminator = Jmp \<lparr>tgt_block = Return, tgt_args = [4]\<rparr>\<rparr>],
     pre_init = [\<lparr>seg_storage = 7, seg_lane = 0, seg_addr = [True], seg_data = [True]\<rparr>]\<rparr>"

theorem storage_promotion_preserves_witness:
  "\<exists>q. storage_to_mux_boolar_with_access () writes_then_reads two_cells None = Ok q \<and> promoted two_cells q
    \<and> eval_biir hash_externals q [False, False, True] = Some (Returned [True])"
proof -
  have b: "blocks writes_then_reads = [blocks writes_then_reads ! 0]" by (simp add: writes_then_reads_def)
  have "eval_block hash_externals (blocks writes_then_reads ! 0) [False, False, True]
      (apply_pre_init Map.empty (pre_init writes_then_reads))
    = Some (BReturn [True], (apply_pre_init Map.empty (pre_init writes_then_reads))(((7, 0), [False]) \<mapsto> False))"
    by (simp add: writes_then_reads_def eval_block_def Node_new_def resolve_target_def apply_pre_init_def sread_def
        nths_opt_def nth_opt_def add_to_address_def add_loop.simps)
  from eval_biir_single [OF b this] have run: "eval_biir hash_externals writes_then_reads [False, False, True] = Some (Returned [True])" .
  have "promotable two_cells 1 writes_then_reads"
    by (auto simp: promotable_def writes_then_reads_def two_cells_def is_circuit_def is_movfuscated_def block_ok_def list_ok_def
        Node_new_def less_Suc_eq too_narrow_def one_width_def segment_width_def cfg_key_def add_to_address_def add_loop.simps)
  moreover have "reads_cells two_cells hash_externals (stmts (blocks writes_then_reads ! 0)) [False, False, True] Map.empty
      (apply_pre_init Map.empty (pre_init writes_then_reads))"
    by (simp add: writes_then_reads_def two_cells_def Node_new_def put_call_def nths_opt_def nth_opt_def)
  ultimately show ?thesis
    using storage_promotion_preserves [of two_cells 1 writes_then_reads hash_externals "[False, False, True]" None "[True]" "()"] run
    by auto
qed

section \<open>Which circuits are promoted\<close>

definition proceeds :: "('s, 'a) emission \<Rightarrow> bool" where
  "proceeds m \<longleftrightarrow> (\<forall>s. m s \<noteq> None)"

lemma proceeds_bind: "proceeds m \<Longrightarrow> (\<And>x. proceeds (f x)) \<Longrightarrow> proceeds (ebind m f)"
  by (simp add: proceeds_def ebind_def split: option.split)

lemma proceeds_ret: "proceeds (eret x)"
  by (simp add: proceeds_def eret_def)

lemma proceeds_push: "proceeds (mux_push k p)"
  by (simp add: proceeds_def mux_push_def)

lemmas proceeds_intros = proceeds_bind proceeds_ret proceeds_push

lemma proceeds_emap: "(\<And>x. proceeds (f x)) \<Longrightarrow> proceeds (emap f xs)"
  by (induction xs) (simp_all add: proceeds_intros)

lemma proceeds_mux: "proceeds (mux c a b p)"
  by (simp add: mux_def proceeds_intros)

lemma proceeds_eq_const:
  assumes "length addr \<le> 64"
  shows "proceeds (eq_const addr i p)"
proof -
  have "proceeds (eq_const_from i j addr acc p)" if "j + length addr \<le> 64" for j acc
    using that by (induction addr arbitrary: j acc) (auto intro!: proceeds_intros split: option.split)
  then show ?thesis using assms by (auto simp: eq_const_def intro!: proceeds_intros split: option.split)
qed

lemma proceeds_mux_read: "length addr \<le> 64 \<Longrightarrow> proceeds (mux_read cells addr p)"
proof -
  assume "length addr \<le> 64"
  then have "proceeds (mux_read_from addr p i cells acc)" for i acc
    by (induction cells arbitrary: i acc) (auto intro!: proceeds_intros proceeds_eq_const proceeds_mux)
  then show ?thesis by (simp add: mux_read_def proceeds_intros)
qed

lemma proceeds_mux_write: "length addr \<le> 64 \<Longrightarrow> proceeds (mux_write cells addr src p)"
  by (auto simp: mux_write_def intro!: proceeds_emap proceeds_bind proceeds_eq_const proceeds_mux)

lemma proceeds_run: "proceeds m \<Longrightarrow> \<exists>x s'. m s = Some (x, s')"
  unfolding proceeds_def by (metis option.exhaust surj_pair)

definition numbers_cells :: "StorageToMuxBoolarConfig \<Rightarrow> 'p node list \<Rightarrow> bool" where
  "numbers_cells cfg ns \<longleftrightarrow> (\<forall>n \<in> set ns. \<forall>src addr. cell_access cfg (kind n) = Some (src, addr) \<longrightarrow> \<not> too_narrow cfg (length addr))"

definition no_wide_access :: "StorageToMuxBoolarConfig \<Rightarrow> 'p node list \<Rightarrow> bool" where
  "no_wide_access cfg ns \<longleftrightarrow> (\<forall>n \<in> set ns. \<forall>src addr. cell_access cfg (kind n) = Some (src, addr) \<longrightarrow> length addr \<le> 64)"

lemma cell_access_operands:
  "cell_access cfg k = Some (src, addr) \<Longrightarrow> set addr \<subseteq> set (operands k) \<and> (\<forall>v. src = Some v \<longrightarrow> v \<in> set (operands k))"
  by (cases k) (auto split: if_splits)

fun walked :: "StorageToMuxBoolarConfig \<Rightarrow> bool \<Rightarrow> nat \<Rightarrow> (StorageToMuxBoolarError, nat list \<times> 'b) outcome \<Rightarrow> bool" where
  "walked cfg ok len (Ok (remap, b)) \<longleftrightarrow> ok \<and> length remap = len"
| "walked cfg ok len (Err e) \<longleftrightarrow> \<not> ok \<and> (\<exists>bits. e = AddressTooNarrow bits (cfg_num_cells cfg))"
| "walked cfg ok len Panic \<longleftrightarrow> False"

lemma promote_stmts_outcome:
  assumes "\<forall>i < length ns. \<forall>v \<in> set (operands (kind (ns ! i))). v < length remap + i" and "no_wide_access cfg ns"
  shows "walked cfg (numbers_cells cfg ns) (length remap + length ns) (promote_stmts cfg ns remap cells b)"
  using assms
proof (induction ns arbitrary: remap cells b)
  case Nil
  then show ?case by (simp add: numbers_cells_def)
next
  case (Cons n ns)
  have ops: "\<forall>v \<in> set (operands (kind n)). v < length remap" using Cons.prems(1) [rule_format, of 0] by simp
  have rest: "\<forall>i < length ns. \<forall>v \<in> set (operands (kind (ns ! i))). v < length (remap @ [x]) + i" for x
  proof safe
    fix i v assume "i < length ns" "v \<in> set (operands (kind (ns ! i)))"
    then show "v < length (remap @ [x]) + i" using Cons.prems(1) [rule_format, of "Suc i" v] by simp
  qed
  have wide: "no_wide_access cfg ns" using Cons.prems(2) by (simp add: no_wide_access_def)
  have IH: "walked cfg (numbers_cells cfg ns) (length remap + length (n # ns)) (promote_stmts cfg ns (remap @ [x]) cells b)" for x cells b
    using Cons.IH [OF rest wide] by simp
  show ?case
  proof (cases "cell_access cfg (kind n)")
    case None
    then have nc: "numbers_cells cfg (n # ns) \<longleftrightarrow> numbers_cells cfg ns" by (simp add: numbers_cells_def)
    have "promote_stmts cfg (n # ns) remap cells b
        = promote_stmts cfg ns (remap @ [params b + length (stmts b)]) cells (block_push_stmt b (map_BIrStmt ((!) remap) id (kind n)) (prov n) None)"
      using None ops by (simp add: mux_push_def)
    then show ?thesis using IH unfolding nc by (simp only:)
  next
    case acc': (Some acc)
    then obtain src addr where acc: "cell_access cfg (kind n) = Some (src, addr)" by (cases acc) auto
    have addr: "length addr \<le> 64" using Cons.prems(2) acc by (simp add: no_wide_access_def)
    show ?thesis
    proof (cases "too_narrow cfg (length addr)")
      case True
      then have "\<not> numbers_cells cfg (n # ns)" using acc by (auto simp: numbers_cells_def)
      then show ?thesis using True acc by simp
    next
      case False
      have nc: "numbers_cells cfg (n # ns) \<longleftrightarrow> numbers_cells cfg ns" using acc False by (auto simp: numbers_cells_def)
      have "\<forall>v \<in> set addr. v < length remap" and src: "\<forall>v. src = Some v \<longrightarrow> v < length remap"
        using cell_access_operands [OF acc] ops by auto
      then have a: "nths_opt remap addr = Some (map ((!) remap) addr)" by (simp add: nths_opt_eq_Some)
      have la: "length (map ((!) remap) addr) \<le> 64" using addr by simp
      show ?thesis
      proof (cases src)
        case None
        obtain r b' where "mux_read cells (map ((!) remap) addr) (prov n) b = Some (r, b')"
          using proceeds_run [OF proceeds_mux_read [OF la, of cells "prov n"], of b] by auto
        then have "promote_stmts cfg (n # ns) remap cells b = promote_stmts cfg ns (remap @ [r]) cells b'"
          using acc None False a by simp
        then show ?thesis using IH unfolding nc by (simp only:)
      next
        case (Some v)
        obtain cells' b' where w: "mux_write cells (map ((!) remap) addr) (remap ! v) (prov n) b = Some (cells', b')"
          using proceeds_run [OF proceeds_mux_write [OF la, of cells "remap ! v" "prov n"], of b] by auto
        have "nth_opt remap v = Some (remap ! v)" using src Some by (simp add: nth_opt_eq_Some)
        then have "promote_stmts cfg (n # ns) remap cells b
            = promote_stmts cfg ns (remap @ [params b' + length (stmts b')]) cells' (block_push_stmt b' BZero (prov n) None)"
          using acc Some False a w by (simp add: mux_push_def)
        then show ?thesis using IH unfolding nc by (simp only:)
      qed
    qed
  qed
qed

text \<open>The initial cells exist unless an address of a selected segment exceeds 64 bits.\<close>

definition segments_fit :: "StorageToMuxBoolarConfig \<Rightarrow> BIrPreInitSegment list \<Rightarrow> bool" where
  "segments_fit cfg segs \<longleftrightarrow> (\<forall>seg \<in> set segs. (seg_storage seg, seg_lane seg) = cfg_key cfg \<longrightarrow>
     (\<forall>j < length (seg_data seg). length (add_to_address (seg_addr seg) j) \<le> 64))"

lemma init_values_outcome:
  "if \<forall>j < length bs. length (add_to_address base (k + j)) \<le> 64 then \<exists>vals'. init_values base k bs vals = Inr vals'
   else \<exists>bits > 64. init_values base k bs vals = Inl (PreInitAddressTooWide bits)"
proof (induction bs arbitrary: k vals)
  case (Cons b bs)
  have split: "(\<forall>j < length (b # bs). length (add_to_address base (k + j)) \<le> 64)
      \<longleftrightarrow> length (add_to_address base k) \<le> 64 \<and> (\<forall>j < length bs. length (add_to_address base (Suc k + j)) \<le> 64)"
    by (auto simp: less_Suc_eq_0_disj)
  show ?case using Cons.IH [of "Suc k"] unfolding split by (auto simp: address_to_usize_def Let_def)
qed simp

lemma segment_values_outcome:
  "if segments_fit cfg segs then \<exists>vals'. segment_values cfg segs vals = Inr vals'
   else \<exists>bits > 64. segment_values cfg segs vals = Inl (PreInitAddressTooWide bits)"
proof (induction segs arbitrary: vals)
  case Nil
  then show ?case by (simp add: segments_fit_def)
next
  case (Cons seg segs)
  show ?case
  proof (cases "(seg_storage seg, seg_lane seg) = cfg_key cfg")
    case True
    then have "segments_fit cfg (seg # segs) \<longleftrightarrow> (\<forall>j < length (seg_data seg). length (add_to_address (seg_addr seg) (0 + j)) \<le> 64) \<and> segments_fit cfg segs"
      by (simp add: segments_fit_def)
    then show ?thesis
      using init_values_outcome [of "seg_data seg" "seg_addr seg" 0 vals] Cons.IH True
      by (auto simp: cfg_key_def split: if_split_asm)
  next
    case False
    then have "segments_fit cfg (seg # segs) \<longleftrightarrow> segments_fit cfg segs" by (simp add: segments_fit_def)
    then show ?thesis using Cons.IH False by (auto simp: cfg_key_def)
  qed
qed

lemma init_cells_outcome:
  "if segments_fit cfg segs then \<exists>r. init_cells cfg segs dflt b = Ok r
   else \<exists>bits > 64. init_cells cfg segs dflt b = Err (PreInitAddressTooWide bits)"
proof -
  have "proceeds (emap (\<lambda>v. mux_push (if v then BOne else BZero) dflt) vals)" for vals
    by (intro proceeds_emap proceeds_push)
  from proceeds_run [OF this] show ?thesis
    using segment_values_outcome [of cfg segs "replicate (cfg_num_cells cfg) False"]
    by (fastforce simp: init_cells_def split: if_split_asm)
qed

text \<open>C19. On a well-formed circuit with cells and without accesses over 64 bits the pass does not panic. It
  accepts exactly when every selected segment has addresses of at most 64 bits and every access an
  address that can number the cells; the segments are checked first, and each error names its cause.\<close>

theorem storage_promotion_outcome:
  assumes "is_circuit bs" and "block_ok (blocks bs ! 0)" and "0 < cfg_num_cells cfg"
    and "no_wide_access cfg (stmts (blocks bs ! 0))"
  shows "if \<not> segments_fit cfg (pre_init bs)
    then \<exists>bits > 64. storage_to_mux_boolar dflt bs cfg = Err (PreInitAddressTooWide bits)
    else if \<not> numbers_cells cfg (stmts (blocks bs ! 0))
    then \<exists>bits. storage_to_mux_boolar dflt bs cfg = Err (AddressTooNarrow bits (cfg_num_cells cfg))
    else \<exists>q. storage_to_mux_boolar dflt bs cfg = Ok q"
proof -
  obtain b where b: "blocks bs = [b]"
    using assms(1) by (cases "blocks bs") (auto simp: is_circuit_def is_movfuscated_def)
  obtain t where t: "terminator b = Jmp t" using assms(1) by (cases "terminator b") (auto simp: is_circuit_def b)
  let ?init = "init_cells cfg (pre_init bs) dflt \<lparr>params = params b, stmts = [], terminator = terminator b\<rparr>"
  have pass: "storage_to_mux_boolar dflt bs cfg =
      obind ?init (\<lambda>(cells, b0). obind (promote_stmts cfg (stmts b) [0..<params b] cells b0) (\<lambda>(remap, b1).
        obind (of_option (remap_mux_terminator remap (terminator b))) (\<lambda>tm.
          Ok \<lparr>blocks = [b1\<lparr>terminator := tm\<rparr>],
              pre_init = filter (\<lambda>seg. \<not> (seg_storage seg = cfg_storage cfg \<and> seg_lane seg = cfg_lane cfg)) (pre_init bs)\<rparr>)))"
    using assms(1,3) by (simp add: storage_to_mux_boolar_def storage_to_mux_boolar_with_access_def b Let_def)
  have walk: "walked cfg (numbers_cells cfg (stmts b)) (params b + length (stmts b)) (promote_stmts cfg (stmts b) [0..<params b] cells b0)" for cells b0
    using promote_stmts_outcome [of "stmts b" "[0..<params b]" cfg cells b0] assms(2,4) by (simp add: block_ok_def list_ok_def b)
  have tm: "\<exists>tm. remap_mux_terminator remap (terminator b) = Some tm" if "length remap = params b + length (stmts b)" for remap
  proof -
    have "nths_opt remap (tgt_args t) = Some (map ((!) remap) (tgt_args t))"
      using assms(2) that by (simp add: block_ok_def b t nths_opt_eq_Some)
    then show ?thesis by (simp add: t)
  qed
  note init = init_cells_outcome [of cfg "pre_init bs" dflt "\<lparr>params = params b, stmts = [], terminator = terminator b\<rparr>"]
  show ?thesis
  proof (cases "segments_fit cfg (pre_init bs)")
    case False
    then obtain bits where "64 < bits" "?init = Err (PreInitAddressTooWide bits)" using init by auto
    then show ?thesis using False unfolding pass by auto
  next
    case True
    then obtain cells b0 where ok: "?init = Ok (cells, b0)" using init by auto
    show ?thesis
    proof (cases "promote_stmts cfg (stmts b) [0..<params b] cells b0")
      case (Ok r)
      obtain remap b1 where r: "r = (remap, b1)" by (cases r)
      then have "numbers_cells cfg (stmts b)" "length remap = params b + length (stmts b)" using walk [of cells b0] Ok by simp_all
      then show ?thesis using tm [of remap] True unfolding pass by (auto simp: ok Ok r b)
    next
      case (Err e)
      then show ?thesis using walk [of cells b0] True unfolding pass by (auto simp: ok b)
    next
      case Panic
      then show ?thesis using walk [of cells b0] by simp
    qed
  qed
qed

text \<open>Three cells need two address bits, and a 65-bit address is no cell number.\<close>

theorem storage_promotion_outcome_witness:
  "(\<exists>q. storage_to_mux_boolar () writes_then_reads two_cells = Ok q)
   \<and> (\<exists>bits. storage_to_mux_boolar () writes_then_reads (two_cells\<lparr>cfg_num_cells := 3\<rparr>) = Err (AddressTooNarrow bits 3))
   \<and> (\<exists>bits > 64. storage_to_mux_boolar ()
        (writes_then_reads\<lparr>pre_init := [\<lparr>seg_storage = 7, seg_lane = 0, seg_addr = replicate 65 False, seg_data = [True]\<rparr>]\<rparr>)
        two_cells = Err (PreInitAddressTooWide bits))"
proof -
  have shape: "is_circuit (writes_then_reads\<lparr>pre_init := segs\<rparr>)"
    "block_ok (blocks (writes_then_reads\<lparr>pre_init := segs\<rparr>) ! 0)" "no_wide_access cfg (stmts (blocks writes_then_reads ! 0))" for cfg segs
    by (auto simp: writes_then_reads_def is_circuit_def is_movfuscated_def block_ok_def list_ok_def Node_new_def less_Suc_eq no_wide_access_def)
  have same: "writes_then_reads\<lparr>pre_init := pre_init writes_then_reads\<rparr> = writes_then_reads" by simp
  have fit: "segments_fit (two_cells\<lparr>cfg_num_cells := n\<rparr>) (pre_init writes_then_reads)" for n
    by (simp add: segments_fit_def writes_then_reads_def add_to_address_def add_loop.simps)
  have n2: "two_cells\<lparr>cfg_num_cells := 2\<rparr> = two_cells" "0 < cfg_num_cells two_cells" by (simp_all add: two_cells_def)
  have two: "numbers_cells two_cells (stmts (blocks writes_then_reads ! 0))"
    and three: "\<not> numbers_cells (two_cells\<lparr>cfg_num_cells := 3\<rparr>) (stmts (blocks writes_then_reads ! 0))"
    by (simp_all add: numbers_cells_def too_narrow_def writes_then_reads_def two_cells_def Node_new_def)
  have wide: "\<not> segments_fit two_cells [\<lparr>seg_storage = 7, seg_lane = 0, seg_addr = replicate 65 False, seg_data = [True]\<rparr>]"
    by (simp add: segments_fit_def two_cells_def cfg_key_def add_to_address_def add_loop.simps)
  from storage_promotion_outcome [OF shape(1,2) n2(2), of "pre_init writes_then_reads" "()", unfolded same, OF shape(3)]
  have "\<exists>q. storage_to_mux_boolar () writes_then_reads two_cells = Ok q"
    using fit [of 2] two by (simp add: n2(1))
  moreover from storage_promotion_outcome [OF shape(1,2), of "two_cells\<lparr>cfg_num_cells := 3\<rparr>" "pre_init writes_then_reads" "()", unfolded same, OF _ shape(3)]
  have "\<exists>bits. storage_to_mux_boolar () writes_then_reads (two_cells\<lparr>cfg_num_cells := 3\<rparr>) = Err (AddressTooNarrow bits 3)"
    using fit [of 3] three by simp
  moreover have "no_wide_access two_cells (stmts (blocks (writes_then_reads\<lparr>pre_init := segs\<rparr>) ! 0))" for segs
    using shape(3) [of two_cells] by simp
  from storage_promotion_outcome [OF shape(1,2) n2(2) this, of _ "()"] wide
  have "\<exists>bits > 64. storage_to_mux_boolar ()
        (writes_then_reads\<lparr>pre_init := [\<lparr>seg_storage = 7, seg_lane = 0, seg_addr = replicate 65 False, seg_data = [True]\<rparr>]\<rparr>)
        two_cells = Err (PreInitAddressTooWide bits)" by fastforce
  ultimately show ?thesis by blast
qed

section \<open>Where promotion goes wrong\<close>

text \<open>An atomic action that stores into the promoted storage, then a read of the cell.\<close>

definition acts_then_reads :: "unit BIrBlocks" where
  "acts_then_reads = \<lparr>blocks =
     [\<lparr>params = 1, stmts = [Node_new BZero () None, Node_new (ActionStoreBit ''act'' 1 [] 0 7 0 [1] 0 0) () None,
        Node_new (StorageRead 7 0 [1]) () None],
       terminator = Jmp \<lparr>tgt_block = Return, tgt_args = [3]\<rparr>\<rparr>],
     pre_init = []\<rparr>"

definition acts_then_reads_promoted :: "unit BIrBlocks" where
  "acts_then_reads_promoted =
     (case storage_to_mux_boolar () acts_then_reads two_cells of Ok q \<Rightarrow> q | _ \<Rightarrow> acts_then_reads)"

lemma acts_then_reads_run:
  "storage_to_mux_boolar () acts_then_reads two_cells = Ok acts_then_reads_promoted"
  "map_option fst (eval_block (hash_externals\<lparr>ext_effects := True\<rparr>) (blocks acts_then_reads ! 0) [True] Map.empty) = Some (BReturn [True])"
  "map_option fst (eval_block (hash_externals\<lparr>ext_effects := True\<rparr>) (blocks acts_then_reads_promoted ! 0) [True] Map.empty)
     = Some (BReturn [False])"
  "length (blocks acts_then_reads_promoted) = 1" "pre_init acts_then_reads_promoted = []"
  by code_simp+

text \<open>The pass leaves an atomic action that stores into the promoted storage as it is, and later reads
  of the cell select among variables that never saw it: an accepted circuit changes its result.\<close>

theorem storage_promotion_misses_actions:
  "\<exists>q. storage_to_mux_boolar () acts_then_reads two_cells = Ok q
    \<and> eval_biir (hash_externals\<lparr>ext_effects := True\<rparr>) acts_then_reads [True] = Some (Returned [True])
    \<and> eval_biir (hash_externals\<lparr>ext_effects := True\<rparr>) q [True] = Some (Returned [False])"
proof -
  let ?E = "hash_externals\<lparr>ext_effects := True\<rparr>"
  obtain st where "eval_block ?E (blocks acts_then_reads ! 0) [True] Map.empty = Some (BReturn [True], st)"
    using acts_then_reads_run(2) by auto
  then have "eval_biir ?E acts_then_reads [True] = Some (Returned [True])"
    by (intro eval_biir_single) (auto simp: acts_then_reads_def apply_pre_init_def)
  moreover obtain b where b: "blocks acts_then_reads_promoted = [b]"
    using acts_then_reads_run(4) by (cases "blocks acts_then_reads_promoted") auto
  moreover obtain st where "eval_block ?E b [True] Map.empty = Some (BReturn [False], st)"
    using acts_then_reads_run(3) by (auto simp: b)
  then have "eval_biir ?E acts_then_reads_promoted [True] = Some (Returned [False])"
    by (intro eval_biir_single [OF b]) (simp add: acts_then_reads_run(5) apply_pre_init_def)
  ultimately show ?thesis using acts_then_reads_run(1) by blast
qed

text \<open>An access of more than 64 bits passes the width check and makes \<open>eq_const\<close> shift past \<open>usize\<close>.\<close>

definition reads_wide :: "nat \<Rightarrow> unit BIrBlocks" where
  "reads_wide w = \<lparr>blocks =
     [\<lparr>params = w, stmts = [Node_new (StorageRead 7 0 [0..<w]) () None],
       terminator = Jmp \<lparr>tgt_block = Return, tgt_args = [w]\<rparr>\<rparr>],
     pre_init = []\<rparr>"

lemma ebind_panics: "(\<And>x s'. f x s' = None) \<Longrightarrow> ebind m f s = None"
  by (simp add: ebind_def split: option.split)

lemma eq_const_panics: "64 < length addr \<Longrightarrow> eq_const addr i p b = None"
proof -
  have "eq_const_from i j addr acc p b = None" if "64 < j + length addr" "j \<le> 64" for j acc b
    using that by (induction addr arbitrary: j acc b) (auto intro!: ebind_panics)
  then show "64 < length addr \<Longrightarrow> eq_const addr i p b = None" by (simp add: eq_const_def ebind_def)
qed

lemma mux_read_panics: "cells \<noteq> [] \<Longrightarrow> 64 < length addr \<Longrightarrow> mux_read cells addr p b = None"
  by (cases cells) (simp_all add: mux_read_def mux_push_def ebind_def eq_const_panics)

theorem wide_access_panics:
  assumes "64 < w"
  shows "is_circuit (reads_wide w) \<and> storage_to_mux_boolar () (reads_wide w) two_cells = Panic"
proof -
  have "nths_opt [0..<w] [0..<w] = Some [0..<w]" using map_nth [of "[0..<w]"] by (simp add: nths_opt_eq_Some)
  moreover have "init_cells two_cells [] () b = Ok ([params b + length (stmts b), Suc (params b + length (stmts b))],
      b\<lparr>stmts := stmts b @ [Node_new BZero () None, Node_new BZero () None]\<rparr>)" for b :: "unit BIrBlock"
    by (simp add: init_cells_def two_cells_def numeral_2_eq_2 ebind_def eret_def mux_push_def block_push_stmt_def)
  moreover have "\<not> too_narrow two_cells w" using assms by (simp add: too_narrow_def two_cells_def min_def)
  moreover have "cell_access two_cells (StorageRead 7 0 [0..<w]) = Some (None, [0..<w])" "cfg_num_cells two_cells \<noteq> 0"
    by (simp_all add: two_cells_def)
  ultimately show ?thesis
    using assms by (simp add: reads_wide_def is_circuit_def is_movfuscated_def storage_to_mux_boolar_def
        storage_to_mux_boolar_with_access_def Node_new_def mux_read_panics del: cell_access.simps)
qed

end
