(* ===== verification/PolyCoeffs.thy ===== *)
theory PolyCoeffs
  imports Prelude OrderedTable "HOL-Library.List_Lexorder" "HOL-Library.Word"
begin

text \<open>
  The sparse coefficient collection of polynomial statements (\<open>PolyKey\<close>, \<open>PolyCoeffs\<close> of
  \<open>volar-ir-common/src/lib.rs\<close>): monomials with their coefficients in one vector, searched by the
  lexicographic order of the variable lists, sorted by the derived order of \<open>PolyKey\<close>.
\<close>

section \<open>Keys\<close>

datatype 'v PolyKey = One 'v | Many "'v list"

definition from_vec :: "'v list \<Rightarrow> 'v PolyKey" where
  "from_vec vars = (case vars of [v] \<Rightarrow> One v | _ \<Rightarrow> Many vars)"

fun as_slice :: "'v PolyKey \<Rightarrow> 'v list" where
  "as_slice (One v) = [v]"
| "as_slice (Many vars) = vars"

text \<open>A length-preserving rewrite of the variables in place.\<close>

fun rewrite_key :: "('v list \<Rightarrow> 'v list) \<Rightarrow> 'v PolyKey \<Rightarrow> 'v PolyKey" where
  "rewrite_key f (One v) = One (hd (f [v]))"
| "rewrite_key f (Many vars) = Many (f vars)"

definition cmp_slice :: "'v::linorder PolyKey \<Rightarrow> 'v list \<Rightarrow> cmp" where
  "cmp_slice k key = compare (as_slice k) key"

text \<open>The order Rust derives: by variant first, then by content.\<close>

instantiation PolyKey :: (linorder) linorder
begin

fun less_eq_PolyKey :: "'a PolyKey \<Rightarrow> 'a PolyKey \<Rightarrow> bool" where
  "One a \<le> One b \<longleftrightarrow> a \<le> b"
| "One a \<le> Many y \<longleftrightarrow> True"
| "Many x \<le> One b \<longleftrightarrow> False"
| "Many x \<le> Many y \<longleftrightarrow> x \<le> y"

definition less_PolyKey :: "'a PolyKey \<Rightarrow> 'a PolyKey \<Rightarrow> bool" where
  "less_PolyKey x y \<longleftrightarrow> x \<le> y \<and> \<not> y \<le> x"

instance
proof
  fix x y z :: "'a PolyKey"
  show "x < y \<longleftrightarrow> x \<le> y \<and> \<not> y \<le> x" by (rule less_PolyKey_def)
  show "x \<le> x" by (cases x) auto
  show "x \<le> y \<Longrightarrow> y \<le> z \<Longrightarrow> x \<le> z" by (cases x; cases y; cases z) auto
  show "x \<le> y \<Longrightarrow> y \<le> x \<Longrightarrow> x = y" by (cases x; cases y) auto
  show "x \<le> y \<or> y \<le> x" by (cases x; cases y) auto
qed

end

section \<open>Collections\<close>

type_synonym 'v coeffs = "('v PolyKey \<times> 8 word) list"

definition coeffs_new :: "'v coeffs" where
  "coeffs_new = []"

definition coeffs_single :: "'v list \<Rightarrow> 8 word \<Rightarrow> 'v coeffs" where
  "coeffs_single key coeff = [(from_vec key, coeff)]"

definition key_index :: "'v::linorder list \<Rightarrow> 'v coeffs \<Rightarrow> nat + nat" where
  "key_index key = binary_search_by (\<lambda>e. cmp_slice (fst e) key)"

definition coeffs_get :: "'v::linorder coeffs \<Rightarrow> 'v list \<Rightarrow> 8 word option" where
  "coeffs_get c key = (case key_index key c of Inr i \<Rightarrow> Some (snd (c ! i)) | Inl _ \<Rightarrow> None)"

definition coeffs_insert :: "'v::linorder coeffs \<Rightarrow> 'v list \<Rightarrow> 8 word \<Rightarrow> 8 word option \<times> 'v coeffs" where
  "coeffs_insert c key coeff =
     (case key_index key c of
        Inr i \<Rightarrow> (Some (snd (c ! i)), c[i := (fst (c ! i), coeff)])
      | Inl i \<Rightarrow> (None, vec_insert i (from_vec key, coeff) c))"

definition coeffs_remove :: "'v::linorder coeffs \<Rightarrow> 'v list \<Rightarrow> 8 word option \<times> 'v coeffs" where
  "coeffs_remove c key =
     (case key_index key c of
        Inr i \<Rightarrow> (Some (snd (c ! i)), vec_remove i c)
      | Inl _ \<Rightarrow> (None, c))"

text \<open>A map-style entry: the index of the coefficient, or the place for the key.\<close>

datatype 'v PolyCoeffsEntry = Occupied nat | Vacant nat "'v list"

definition coeffs_entry :: "'v::linorder coeffs \<Rightarrow> 'v list \<Rightarrow> 'v PolyCoeffsEntry" where
  "coeffs_entry c key = (case key_index key c of Inr i \<Rightarrow> Occupied i | Inl i \<Rightarrow> Vacant i key)"

text \<open>The coefficient behind the reference it returns, and the collection after it.\<close>

fun or_insert :: "'v coeffs \<Rightarrow> 'v PolyCoeffsEntry \<Rightarrow> 8 word \<Rightarrow> 8 word \<times> 'v coeffs" where
  "or_insert c (Occupied i) d = (snd (c ! i), c)"
| "or_insert c (Vacant i key) d = (d, vec_insert i (from_vec key, d) c)"

text \<open>
  The compaction loop over a sorted vector: an entry whose key equals the last written one gives it
  its coefficient. The swap that moves an entry down only disturbs positions already read, which
  the final truncation drops.
\<close>

fun compact :: "'v coeffs \<Rightarrow> 'v coeffs \<Rightarrow> 'v coeffs" where
  "compact written [] = written"
| "compact written (e # es) =
     (if written \<noteq> [] \<and> fst (last written) = fst e
      then compact (butlast written @ [(fst (last written), snd e)]) es
      else compact (written @ [e]) es)"

definition coeffs_from_iter :: "('v::linorder list \<times> 8 word) list \<Rightarrow> 'v coeffs" where
  "coeffs_from_iter es = compact [] (sort_key fst (map (\<lambda>(key, c). (from_vec key, c)) es))"

fun out_of_order :: "'v::linorder coeffs \<Rightarrow> bool" where
  "out_of_order (a # b # r) \<longleftrightarrow> as_slice (fst a) \<ge> as_slice (fst b) \<or> out_of_order (b # r)"
| "out_of_order _ \<longleftrightarrow> False"

definition remap_monomials_in_place :: "('v::linorder list \<Rightarrow> 'v list) \<Rightarrow> 'v coeffs \<Rightarrow> 'v coeffs" where
  "remap_monomials_in_place f c =
     (let c1 = map (\<lambda>(k, x). (rewrite_key f k, x)) c
      in if out_of_order c1 then compact [] (sort_key fst c1) else c1)"

definition remap_preserving_key_order :: "('v list \<Rightarrow> 'v list) \<Rightarrow> 'v coeffs \<Rightarrow> 'v coeffs" where
  "remap_preserving_key_order f c = map (\<lambda>(k, x). (rewrite_key f k, x)) c"

definition coeffs_into_iter :: "'v coeffs \<Rightarrow> ('v list \<times> 8 word) list" where
  "coeffs_into_iter c = map (\<lambda>(k, x). (as_slice k, x)) c"

section \<open>The interface on coefficient collections\<close>

lemma as_slice_from_vec [simp]: "as_slice (from_vec vars) = vars"
  by (auto simp: from_vec_def split: list.splits)

definition entry_key :: "('v PolyKey \<times> 8 word) \<Rightarrow> 'v list" where
  "entry_key e = as_slice (fst e)"

definition mk_entry :: "'v list \<Rightarrow> 8 word \<Rightarrow> 'v PolyKey \<times> 8 word" where
  "mk_entry key c = (from_vec key, c)"

interpretation coeffs: ordered_table entry_key "key_index :: 'v::linorder list \<Rightarrow> 'v coeffs \<Rightarrow> nat + nat" snd mk_entry
proof unfold_locales
  fix xs :: "'v coeffs" and k :: "'v list" and i
  have f: "cmp_slice (fst e) k = compare (entry_key e) k" for e :: "'v PolyKey \<times> 8 word"
    by (simp add: cmp_slice_def entry_key_def)
  note bs = binary_search_ascending [of entry_key xs "\<lambda>e. cmp_slice (fst e) k" k i, OF _ f]
  show "ascending entry_key xs \<Longrightarrow> key_index k xs = Inr i \<Longrightarrow> i < length xs \<and> entry_key (xs ! i) = k"
    unfolding key_index_def by (rule bs(1))
  show "ascending entry_key xs \<Longrightarrow> key_index k xs = Inl i \<Longrightarrow>
      i \<le> length xs \<and> (\<forall>j < i. entry_key (xs ! j) < k) \<and> (\<forall>j < length xs. i \<le> j \<longrightarrow> k < entry_key (xs ! j))"
    unfolding key_index_def by (rule bs(2))
qed (simp_all add: entry_key_def mk_entry_def)

definition canonical :: "'v coeffs \<Rightarrow> bool" where
  "canonical c \<longleftrightarrow> list_all (\<lambda>e. from_vec (as_slice (fst e)) = fst e) c"

definition coeffs_ok :: "'v::linorder coeffs \<Rightarrow> bool" where
  "coeffs_ok c \<longleftrightarrow> ascending entry_key c \<and> canonical c"

lemma canonical_from_vec [simp]: "from_vec (as_slice (from_vec key)) = from_vec key"
  by simp

lemma canonical_vec:
  "canonical c \<Longrightarrow> canonical (vec_insert i (mk_entry key x) c)" "canonical c \<Longrightarrow> canonical (vec_remove i c)"
  "canonical c \<Longrightarrow> canonical (c[i := mk_entry key x])"
  by (auto simp: canonical_def vec_insert_def vec_remove_def mk_entry_def list_all_iff
      dest: in_set_takeD in_set_dropD dest!: set_update_subset_insert [THEN subsetD])

lemma insert_found:
  assumes "coeffs_ok c" and "key_index key c = Inr i"
  shows "(fst (c ! i), x) = mk_entry key x"
proof -
  have "i < length c" "entry_key (c ! i) = key" using coeffs.find_Inr [of c key i] assms by (auto simp: coeffs_ok_def)
  moreover have "from_vec (as_slice (fst (c ! i))) = fst (c ! i)"
    using assms(1) \<open>i < length c\<close> by (auto simp: coeffs_ok_def canonical_def list_all_length)
  ultimately show ?thesis by (simp add: mk_entry_def entry_key_def)
qed

lemma get_contents: "coeffs_ok c \<Longrightarrow> coeffs_get c key = coeffs.contents c key"
  unfolding coeffs_get_def by (rule coeffs.lookup) (simp add: coeffs_ok_def)

lemma insert_contents:
  assumes "coeffs_ok c"
  shows "coeffs_insert c key x =
    (coeffs.contents c key, case key_index key c of Inr i \<Rightarrow> c[i := mk_entry key x] | Inl i \<Rightarrow> vec_insert i (mk_entry key x) c)"
proof -
  have "ascending entry_key c" using assms by (simp add: coeffs_ok_def)
  from coeffs.lookup [OF this, of key] show ?thesis
    by (cases "key_index key c") (simp_all add: coeffs_insert_def mk_entry_def insert_found [OF assms])
qed

lemma insert_ok:
  assumes "coeffs_ok c"
  shows "coeffs_ok (snd (coeffs_insert c key x)) \<and> coeffs.contents (snd (coeffs_insert c key x)) = (coeffs.contents c)(key \<mapsto> x)"
proof -
  have c: "ascending entry_key c" "canonical c" using assms by (simp_all add: coeffs_ok_def)
  then show ?thesis
    using coeffs.put [OF c(1), of key x] canonical_vec [OF c(2)]
    by (auto simp: insert_contents [OF assms] coeffs_ok_def split: sum.splits)
qed

lemma remove_ok:
  assumes "coeffs_ok c"
  shows "fst (coeffs_remove c key) = coeffs.contents c key \<and> coeffs_ok (snd (coeffs_remove c key))
    \<and> coeffs.contents (snd (coeffs_remove c key)) = (coeffs.contents c)(key := None)"
proof -
  have c: "ascending entry_key c" "canonical c" using assms by (simp_all add: coeffs_ok_def)
  then show ?thesis
    using coeffs.removal [OF c(1), of key] coeffs.lookup [OF c(1), of key] canonical_vec [OF c(2)]
    by (cases "key_index key c") (auto simp: coeffs_remove_def coeffs_ok_def)
qed

section \<open>Compaction\<close>

lemma map_of_filter: "map_of xs k = map_of (filter (\<lambda>e. fst e = k) xs) k"
  by (induction xs) auto

lemma map_of_rev_sort: "map_of (rev (sort_key fst xs)) = map_of (rev xs)"
proof
  fix k
  have "map_of (rev (sort_key fst xs)) k = map_of (rev (filter (\<lambda>e. fst e = k) (sort_key fst xs))) k"
    by (subst map_of_filter) (simp add: rev_filter)
  also have "\<dots> = map_of (rev (filter (\<lambda>e. fst e = k) xs)) k" by (simp add: sort_key_stable)
  also have "\<dots> = map_of (rev xs) k" by (subst (2) map_of_filter) (simp add: rev_filter)
  finally show "map_of (rev (sort_key fst xs)) k = map_of (rev xs) k" .
qed

lemma map_of_last_upd:
  "k \<notin> fst ` set w \<Longrightarrow> map_of (w @ [(k, c)]) = (map_of w)(k \<mapsto> c)"
proof (induction w)
  case (Cons a w)
  then show ?case by (cases a) (auto simp: fun_eq_iff)
qed simp

lemma compact_from:
  assumes "sorted_wrt (<) (map fst w @ [k])" and "sorted (k # map fst es)"
  shows "sorted_wrt (<) (map fst (compact (w @ [(k, c)]) es))
    \<and> map_of (compact (w @ [(k, c)]) es) = map_of (w @ [(k, c)]) ++ map_of (rev es)
    \<and> fst ` set (compact (w @ [(k, c)]) es) \<subseteq> insert k (fst ` set w \<union> fst ` set es)"
  using assms
proof (induction es arbitrary: w k c)
  case (Cons e es)
  have notin: "k \<notin> fst ` set w" using Cons.prems(1) by (auto simp: sorted_wrt_append)
  have rev: "map_of (rev (e # es)) = [fst e \<mapsto> snd e] ++ map_of (rev es)" by (cases e) simp
  show ?case
  proof (cases "k = fst e")
    case True
    have run: "compact (w @ [(k, c)]) (e # es) = compact (w @ [(k, snd e)]) es" using True by simp
    have "sorted (k # map fst es)" using Cons.prems(2) by simp
    note IH = Cons.IH [OF Cons.prems(1) this, of "snd e"]
    have "map_of (w @ [(k, snd e)]) = map_of (w @ [(k, c)]) ++ [fst e \<mapsto> snd e]"
      unfolding map_of_last_upd [OF notin] using True by (simp del: map_of_append)
    then have "map_of (compact (w @ [(k, snd e)]) es) = map_of (w @ [(k, c)]) ++ map_of (rev (e # es))"
      using IH by (simp only: rev map_add_assoc)
    moreover have "fst ` set (compact (w @ [(k, snd e)]) es) \<subseteq> insert k (fst ` set w \<union> fst ` set (e # es))"
      using conjunct2 [OF conjunct2 [OF IH]] by auto
    ultimately show ?thesis using IH unfolding run by blast
  next
    case False
    have run: "compact (w @ [(k, c)]) (e # es) = compact ((w @ [(k, c)]) @ [(fst e, snd e)]) es" using False by simp
    have "k < fst e" using Cons.prems(2) False by auto
    then have "sorted_wrt (<) (map fst (w @ [(k, c)]) @ [fst e])"
      using Cons.prems(1) by (auto simp: sorted_wrt_append intro: less_trans)
    moreover have "sorted (fst e # map fst es)" using Cons.prems(2) by simp
    ultimately have IH: "sorted_wrt (<) (map fst (compact ((w @ [(k, c)]) @ [(fst e, snd e)]) es))"
      "map_of (compact ((w @ [(k, c)]) @ [(fst e, snd e)]) es) = map_of ((w @ [(k, c)]) @ [(fst e, snd e)]) ++ map_of (rev es)"
      "fst ` set (compact ((w @ [(k, c)]) @ [(fst e, snd e)]) es) \<subseteq> insert (fst e) (fst ` set (w @ [(k, c)]) \<union> fst ` set es)"
      using Cons.IH [of "w @ [(k, c)]" "fst e" "snd e"] by auto
    have "fst e \<notin> fst ` set (w @ [(k, c)])" using Cons.prems(1) \<open>k < fst e\<close> by (auto simp: sorted_wrt_append)
    from map_of_last_upd [OF this] have "map_of ((w @ [(k, c)]) @ [(fst e, snd e)]) = map_of (w @ [(k, c)]) ++ [fst e \<mapsto> snd e]" by simp
    then have "map_of (compact ((w @ [(k, c)]) @ [(fst e, snd e)]) es) = map_of (w @ [(k, c)]) ++ map_of (rev (e # es))"
      using IH(2) by (simp only: rev map_add_assoc)
    moreover have "fst ` set (compact ((w @ [(k, c)]) @ [(fst e, snd e)]) es) \<subseteq> insert k (fst ` set w \<union> fst ` set (e # es))"
      using IH(3) by auto
    ultimately show ?thesis using IH(1) unfolding run by blast
  qed
qed simp

lemma compact_sorted:
  assumes "sorted (map fst es)"
  shows "sorted_wrt (<) (map fst (compact [] es)) \<and> map_of (compact [] es) = map_of (rev es)
    \<and> fst ` set (compact [] es) \<subseteq> fst ` set es"
proof (cases es)
  case (Cons e r)
  then show ?thesis using compact_from [of "[]" "fst e" r "snd e"] assms by auto
qed simp

lemma sort_compact:
  "sorted_wrt (<) (map fst (compact [] (sort_key fst es))) \<and> map_of (compact [] (sort_key fst es)) = map_of (rev es)
    \<and> fst ` set (compact [] (sort_key fst es)) \<subseteq> fst ` set es"
  using compact_sorted [of "sort_key fst es"] by (simp add: map_of_rev_sort)

section \<open>Keys of one shape\<close>

text \<open>On keys that are all single variables, or all not, the derived order is the lexicographic one.\<close>

definition one_shape :: "'v list set \<Rightarrow> bool" where
  "one_shape ks \<longleftrightarrow> (\<forall>k \<in> ks. length k = 1) \<or> (\<forall>k \<in> ks. length k \<noteq> 1)"

lemma from_vec_less:
  assumes "one_shape {x, y}"
  shows "from_vec x < from_vec y \<longleftrightarrow> x < (y :: 'v::linorder list)"
proof (cases "length x = 1")
  case True
  then obtain a b where "x = [a]" "y = [b]" using assms by (auto simp: one_shape_def length_Suc_conv)
  then show ?thesis by (auto simp: from_vec_def less_PolyKey_def)
next
  case False
  then have "from_vec x = Many x" "from_vec y = Many y"
    using assms by (auto simp: one_shape_def from_vec_def split: list.splits)
  then show ?thesis by (auto simp: less_PolyKey_def)
qed

lemma contents_map_of:
  assumes "canonical c"
  shows "coeffs.contents c key = map_of c (from_vec key)"
proof -
  have "entry_key e = key \<longleftrightarrow> fst e = from_vec key" if "e \<in> set c" for e
    using assms that by (auto simp: canonical_def list_all_iff entry_key_def)
  then show ?thesis unfolding coeffs.contents_def
  proof (induction c)
    case (Cons e c)
    have "map_of (map (\<lambda>e. (entry_key e, snd e)) c) key = map_of c (from_vec key)"
      by (rule Cons.IH) (use Cons.prems in simp)
    moreover have "entry_key e = key \<longleftrightarrow> fst e = from_vec key" using Cons.prems by simp
    ultimately show ?case by (cases e) auto
  qed simp
qed

lemma compact_ok:
  assumes keys: "\<forall>e \<in> set es. \<exists>k \<in> ks. fst e = from_vec k" and shape: "one_shape ks"
  shows "coeffs_ok (compact [] (sort_key fst es))
    \<and> coeffs.contents (compact [] (sort_key fst es)) key = map_of (rev es) (from_vec key)"
proof -
  let ?c = "compact [] (sort_key fst es)"
  note sc = sort_compact [of es]
  have k: "\<exists>k \<in> ks. fst e = from_vec k" if "e \<in> set ?c" for e
  proof -
    have "fst e \<in> fst ` set es" using sc that by auto
    then show ?thesis using keys by force
  qed
  then have can: "canonical ?c" by (fastforce simp: canonical_def list_all_iff)
  have "entry_key (?c ! i) < entry_key (?c ! j)" if ij: "i < j" "j < length ?c" for i j
  proof -
    have "fst (?c ! i) < fst (?c ! j)" using sorted_wrt_nth_less [of "(<)" "map fst ?c" i j] sc ij by simp
    moreover obtain x y where "x \<in> ks" "y \<in> ks" "fst (?c ! i) = from_vec x" "fst (?c ! j) = from_vec y"
      using k [of "?c ! i"] k [of "?c ! j"] ij by force
    moreover have "one_shape {x, y}" using shape calculation(2,3) by (auto simp: one_shape_def)
    ultimately show ?thesis using from_vec_less [of x y] by (simp add: entry_key_def)
  qed
  then have "ascending entry_key ?c" by (simp add: ascending_def sorted_wrt_iff_nth_less)
  then show ?thesis using can contents_map_of [OF can, of key] sc by (simp add: coeffs_ok_def)
qed

section \<open>Properties\<close>

lemma entry_or_insert:
  "or_insert c (coeffs_entry c k) x =
     (case coeffs_get c k of Some y \<Rightarrow> (y, c) | None \<Rightarrow> (x, snd (coeffs_insert c k x)))"
  by (simp add: coeffs_entry_def coeffs_get_def coeffs_insert_def split: sum.splits)

text \<open>C40. A coefficient collection in lexicographic key order is a finite map: \<open>get\<close> looks up,
  \<open>insert\<close> and \<open>remove\<close> return the prior coefficient and update, both keep the order, and
  \<open>entry\<close> with \<open>or_insert\<close> finds the coefficient or inserts the default.\<close>

theorem coefficients_are_a_map:
  assumes "coeffs_ok c"
  shows "coeffs_ok (snd (coeffs_insert c k x)) \<and> coeffs_ok (snd (coeffs_remove c k))
    \<and> fst (coeffs_insert c k x) = coeffs_get c k \<and> fst (coeffs_remove c k) = coeffs_get c k
    \<and> coeffs_get (snd (coeffs_insert c k x)) k' = (if k' = k then Some x else coeffs_get c k')
    \<and> coeffs_get (snd (coeffs_remove c k)) k' = (if k' = k then None else coeffs_get c k')
    \<and> or_insert c (coeffs_entry c k) x =
        (case coeffs_get c k of Some y \<Rightarrow> (y, c) | None \<Rightarrow> (x, snd (coeffs_insert c k x)))"
  using insert_ok [OF assms, of k x] remove_ok [OF assms, of k] insert_contents [OF assms, of k x]
    entry_or_insert [of c k x]
  by (simp add: get_contents [OF assms] get_contents)

theorem coefficients_are_a_map_witness:
  "coeffs_get (snd (coeffs_insert (snd (coeffs_insert coeffs_new [5 :: nat] 1)) [1, 2] 2)) [5] = Some 1"
proof -
  have 0: "coeffs_ok (coeffs_new :: nat coeffs)" by (simp add: coeffs_ok_def coeffs_new_def ascending_def canonical_def)
  note 1 = coefficients_are_a_map [OF 0, of "[5]" 1 "[5]"]
  note 2 = coefficients_are_a_map [OF conjunct1 [OF 1], of "[1, 2]" 2 "[5]"]
  show ?thesis using 1 2 by simp
qed

text \<open>Collecting pairs, and renaming the variables of a collection, keep the last coefficient of each
  key - when the keys are all single variables or all not, so that the order they are sorted in is
  the order they are searched in.\<close>

theorem collecting_keeps_last:
  assumes "one_shape (fst ` set es)"
  shows "coeffs_ok (coeffs_from_iter es) \<and> coeffs_get (coeffs_from_iter es) k = map_of (rev es) k"
proof -
  let ?es = "map (\<lambda>(key, c). (from_vec key, c)) es"
  have inj: "from_vec a = from_vec b \<longleftrightarrow> a = b" for a b :: "'a list" by (metis as_slice_from_vec)
  have keys: "\<forall>e \<in> set ?es. \<exists>k \<in> fst ` set es. fst e = from_vec k" by force
  note ok = compact_ok [OF keys assms, of k]
  have "map_of (rev ?es) (from_vec k) = map_of (rev es) k"
    by (induction es rule: rev_induct) (auto simp: inj)
  then show ?thesis using ok get_contents by (metis coeffs_from_iter_def)
qed

theorem collecting_keeps_last_witness:
  "coeffs_get (coeffs_from_iter [([3 :: nat], 3), ([1], 1), ([3], 7)]) [3] = Some 7"
proof -
  have "one_shape (fst ` set [([3 :: nat], 3 :: 8 word), ([1], 1), ([3], 7)])" by (simp add: one_shape_def)
  from collecting_keeps_last [OF this, of "[3]"] show ?thesis by simp
qed

text \<open>Collecting keys of both shapes loses coefficients: the collection is sorted with single
  variables first but searched lexicographically, so a key it holds is not found, and inserting it
  again stores it twice.\<close>

theorem collecting_mixed_keys_loses:
  "let c = coeffs_from_iter [([1 :: nat, 2], 1), ([5], 2)]
   in coeffs_into_iter c = [([5], 2), ([1, 2], 1)] \<and> coeffs_get c [5] = None
      \<and> coeffs_into_iter (snd (coeffs_insert c [5] 3)) = [([5], 2), ([1, 2], 1), ([5], 3)]"
  by (simp add: Let_def coeffs_from_iter_def from_vec_def less_PolyKey_def coeffs_into_iter_def coeffs_get_def
      key_index_def binary_search_by_def bs_base.simps cmp_slice_def compare_def coeffs_insert_def vec_insert_def)

end
