(* ===== verification/Schedule.thy ===== *)
theory Schedule
  imports StorageTable "HOL-Library.Word" "HOL-Library.Product_Lexorder"
begin

text \<open>
  The execution-schedule manifest (\<open>volar-ir-common/src/schedule.rs\<close>): storage claims and their
  conflicts, the canonical form of an iteration, the greedy planner that cuts a program into epochs,
  the validator, and the canonical byte encoding a digest is taken of.

  \<open>u64\<close> and \<open>u32\<close> values are words; \<open>usize\<close> lengths are natural numbers on a 64-bit target, where
  \<open>usize::try_from(u32)\<close> cannot fail. The types whose derived \<open>Ord\<close> is used are instances of
  \<open>linorder\<close>, in the lexicographic order of their fields.
\<close>

section \<open>Claims\<close>

definition checked_add :: "'a::len word \<Rightarrow> 'a word \<Rightarrow> 'a word option" where
  "checked_add a b = (if unat a + unat b < 2 ^ LENGTH('a) then Some (a + b) else None)"

type_synonym WorkerLane = "32 word"
type_synonym EpochId = "64 word"
type_synonym IterationId = "64 word"
type_synonym CommunicationGroup = "64 word"

datatype StorageKey = StorageKey (key_storage: "32 word") (key_type: "32 word")

datatype AddressScope = Whole | PublicRange (range_start: "64 word") (range_len: "64 word")

datatype StorageClaimMode = ClaimRead | ClaimWrite | ClaimUnknown

datatype StorageClaim = StorageClaim (cl_key: StorageKey) (cl_scope: AddressScope) (cl_mode: StorageClaimMode)

record OrdinalRange =
  or_start :: "64 word"
  or_len :: "64 word"

datatype ManifestError =
    UnsupportedVersion "16 word"
  | ZeroEpochSize
  | ZeroWorkerLanes
  | TooManyEpochs nat nat
  | EpochTooLarge EpochId nat nat
  | TooManyIterations nat nat
  | TooManyDependencies IterationId nat nat
  | TooManyClaims IterationId nat nat
  | NonCanonicalEpoch "64 word" "64 word"
  | NonCanonicalIteration "64 word" "64 word"
  | NonCanonicalDependencies IterationId
  | NonCanonicalClaims IterationId
  | ForwardDependency IterationId IterationId
  | WorkerLaneOutOfRange IterationId WorkerLane
  | EmptyAddressRange
  | AddressRangeOverflow "64 word" "64 word"
  | OrdinalRangeOverflow "64 word" "64 word"
  | OverlappingOrdinalRanges OrdinalRange OrdinalRange
  | ReadOnlyViolation StorageKey
  | OrdinalOverflow
  | LengthOverflow

fun scope_overlaps :: "AddressScope \<Rightarrow> AddressScope \<Rightarrow> bool" where
  "scope_overlaps Whole _ = True"
| "scope_overlaps _ Whole = True"
| "scope_overlaps (PublicRange left_start left_len) (PublicRange right_start right_len) =
     (case checked_add left_start left_len of
        None \<Rightarrow> True
      | Some left_end \<Rightarrow>
          (case checked_add right_start right_len of
             None \<Rightarrow> True
           | Some right_end \<Rightarrow> left_start < right_end \<and> right_start < left_end))"

fun scope_validate :: "AddressScope \<Rightarrow> ManifestError + unit" where
  "scope_validate Whole = Inr ()"
| "scope_validate (PublicRange start len) =
     (if len = 0 then Inl EmptyAddressRange
      else case checked_add start len of
             Some _ \<Rightarrow> Inr ()
           | None \<Rightarrow> Inl (AddressRangeOverflow start len))"

fun effective :: "StorageClaimMode \<Rightarrow> StorageClaimMode" where
  "effective ClaimUnknown = ClaimWrite"
| "effective mode = mode"

fun join_mode :: "StorageClaimMode \<Rightarrow> StorageClaimMode \<Rightarrow> StorageClaimMode" where
  "join_mode ClaimRead ClaimRead = ClaimRead"
| "join_mode ClaimUnknown _ = ClaimUnknown"
| "join_mode _ ClaimUnknown = ClaimUnknown"
| "join_mode _ _ = ClaimWrite"

definition claim_whole :: "StorageKey \<Rightarrow> StorageClaimMode \<Rightarrow> StorageClaim" where
  "claim_whole key mode = StorageClaim key Whole mode"

definition conflicts_with :: "StorageClaim \<Rightarrow> StorageClaim \<Rightarrow> bool" where
  "conflicts_with c d \<longleftrightarrow>
     key_storage (cl_key c) = key_storage (cl_key d) \<and> key_type (cl_key c) = key_type (cl_key d)
     \<and> scope_overlaps (cl_scope c) (cl_scope d)
     \<and> \<not> (effective (cl_mode c) = ClaimRead \<and> effective (cl_mode d) = ClaimRead)"

definition claim_validate :: "StorageClaim \<Rightarrow> ManifestError + unit" where
  "claim_validate c = scope_validate (cl_scope c)"

definition classify_storage_claim :: "StorageKey \<Rightarrow> bool \<Rightarrow> storage_table \<Rightarrow> ManifestError + StorageClaim" where
  "classify_storage_claim key writes t =
     (if writes then
        (if access_of t (unat (key_storage key)) = ReadOnly then Inl (ReadOnlyViolation key)
         else Inr (claim_whole key ClaimWrite))
      else
        (let mode = (case access_of t (unat (key_storage key)) of
                       ReadOnly \<Rightarrow> ClaimRead
                     | ReadWrite \<Rightarrow> ClaimUnknown)
         in Inr (claim_whole key mode)))"

section \<open>Derived orders\<close>

instantiation StorageKey :: linorder
begin

definition less_eq_StorageKey :: "StorageKey \<Rightarrow> StorageKey \<Rightarrow> bool" where
  "a \<le> b \<longleftrightarrow> (key_storage a, key_type a) \<le> (key_storage b, key_type b)"

definition less_StorageKey :: "StorageKey \<Rightarrow> StorageKey \<Rightarrow> bool" where
  "a < b \<longleftrightarrow> (key_storage a, key_type a) < (key_storage b, key_type b)"

instance
  by standard (auto simp: less_eq_StorageKey_def less_StorageKey_def StorageKey.expand)

end

fun scope_rank :: "AddressScope \<Rightarrow> nat \<times> 64 word \<times> 64 word" where
  "scope_rank Whole = (0, 0, 0)"
| "scope_rank (PublicRange start len) = (1, start, len)"

lemma scope_rank_inject: "scope_rank a = scope_rank b \<longleftrightarrow> a = b"
  by (cases a; cases b) auto

instantiation AddressScope :: linorder
begin

definition less_eq_AddressScope :: "AddressScope \<Rightarrow> AddressScope \<Rightarrow> bool" where
  "a \<le> b \<longleftrightarrow> scope_rank a \<le> scope_rank b"

definition less_AddressScope :: "AddressScope \<Rightarrow> AddressScope \<Rightarrow> bool" where
  "a < b \<longleftrightarrow> scope_rank a < scope_rank b"

instance
proof
  fix a b :: AddressScope
  assume "a \<le> b" "b \<le> a"
  then have "scope_rank a = scope_rank b" by (simp add: less_eq_AddressScope_def)
  then show "a = b" by (simp add: scope_rank_inject)
qed (auto simp: less_eq_AddressScope_def less_AddressScope_def)

end

fun mode_rank :: "StorageClaimMode \<Rightarrow> 8 word" where
  "mode_rank ClaimRead = 0"
| "mode_rank ClaimWrite = 1"
| "mode_rank ClaimUnknown = 2"

lemma mode_rank_inject: "mode_rank a = mode_rank b \<longleftrightarrow> a = b"
  by (cases a; cases b) auto

instantiation StorageClaimMode :: linorder
begin

definition less_eq_StorageClaimMode :: "StorageClaimMode \<Rightarrow> StorageClaimMode \<Rightarrow> bool" where
  "a \<le> b \<longleftrightarrow> mode_rank a \<le> mode_rank b"

definition less_StorageClaimMode :: "StorageClaimMode \<Rightarrow> StorageClaimMode \<Rightarrow> bool" where
  "a < b \<longleftrightarrow> mode_rank a < mode_rank b"

instance
proof
  fix a b :: StorageClaimMode
  assume "a \<le> b" "b \<le> a"
  then have "mode_rank a = mode_rank b" by (simp add: less_eq_StorageClaimMode_def)
  then show "a = b" by (simp add: mode_rank_inject)
qed (auto simp: less_eq_StorageClaimMode_def less_StorageClaimMode_def)

end

instantiation StorageClaim :: linorder
begin

definition less_eq_StorageClaim :: "StorageClaim \<Rightarrow> StorageClaim \<Rightarrow> bool" where
  "a \<le> b \<longleftrightarrow> (cl_key a, cl_scope a, cl_mode a) \<le> (cl_key b, cl_scope b, cl_mode b)"

definition less_StorageClaim :: "StorageClaim \<Rightarrow> StorageClaim \<Rightarrow> bool" where
  "a < b \<longleftrightarrow> (cl_key a, cl_scope a, cl_mode a) < (cl_key b, cl_scope b, cl_mode b)"

instance
  by standard (auto simp: less_eq_StorageClaim_def less_StorageClaim_def StorageClaim.expand)

end

section \<open>Reserved ordinal ranges\<close>

definition range_end :: "OrdinalRange \<Rightarrow> ManifestError + 64 word" where
  "range_end r =
     (case checked_add (or_start r) (or_len r) of
        Some e \<Rightarrow> Inr e
      | None \<Rightarrow> Inl (OrdinalRangeOverflow (or_start r) (or_len r)))"

text \<open>The conjunction is short-circuiting: the own end is computed only when the first test holds.\<close>

definition range_overlaps :: "OrdinalRange \<Rightarrow> OrdinalRange \<Rightarrow> ManifestError + bool" where
  "range_overlaps r other =
     rbind (range_end other) (\<lambda>e.
       if or_start r < e then rbind (range_end r) (\<lambda>e'. Inr (or_start other < e')) else Inr False)"

fun first_overlap :: "OrdinalRange \<Rightarrow> OrdinalRange list \<Rightarrow> ManifestError + unit" where
  "first_overlap r [] = Inr ()"
| "first_overlap r (previous # ranges) =
     rbind (range_overlaps r previous) (\<lambda>meets.
       if meets then Inl (OverlappingOrdinalRanges previous r) else first_overlap r ranges)"

definition add_range :: "OrdinalRange list \<Rightarrow> OrdinalRange \<Rightarrow> ManifestError + OrdinalRange list" where
  "add_range ranges r =
     rbind (range_end r) (\<lambda>_.
     rbind (first_overlap r ranges) (\<lambda>_.
       Inr (if or_len r \<noteq> 0 then ranges @ [r] else ranges)))"

section \<open>Manifests\<close>

record IterationManifest =
  it_ordinal :: IterationId
  logical_step :: "64 word"
  worker_lane :: WorkerLane
  dependencies :: "IterationId list"
  claims :: "StorageClaim list"
  correlation_range :: OrdinalRange
  communication_range :: OrdinalRange

record EpochManifest =
  ep_ordinal :: EpochId
  iterations :: "IterationManifest list"
  communication_group :: CommunicationGroup

record ScheduleManifest =
  format_version :: "16 word"
  program_digest :: "8 word list"
  storage_policy_digest :: "8 word list"
  protocol_profile :: "32 word"
  epoch_size :: "32 word"
  worker_lane_count :: "32 word"
  epochs :: "EpochManifest list"

record ScheduleLimits =
  max_epochs :: nat
  max_iterations :: nat
  max_dependencies :: nat
  max_claims :: nat

definition SCHEDULE_MANIFEST_VERSION :: "16 word" where
  "SCHEDULE_MANIFEST_VERSION = 1"

definition default_limits :: ScheduleLimits where
  "default_limits = \<lparr>max_epochs = 2 ^ 20, max_iterations = 2 ^ 24, max_dependencies = 2 ^ 16, max_claims = 2 ^ 16\<rparr>"

definition empty_range :: OrdinalRange where
  "empty_range = \<lparr>or_start = 0, or_len = 0\<rparr>"

definition IterationManifest_new :: "IterationId \<Rightarrow> 64 word \<Rightarrow> WorkerLane \<Rightarrow> IterationManifest" where
  "IterationManifest_new n step lane =
     \<lparr>it_ordinal = n, logical_step = step, worker_lane = lane, dependencies = [], claims = [],
      correlation_range = empty_range, communication_range = empty_range\<rparr>"

definition EpochManifest_new :: "EpochId \<Rightarrow> CommunicationGroup \<Rightarrow> EpochManifest" where
  "EpochManifest_new n grp = \<lparr>ep_ordinal = n, iterations = [], communication_group = grp\<rparr>"

definition ScheduleManifest_new ::
    "8 word list \<Rightarrow> 8 word list \<Rightarrow> 32 word \<Rightarrow> 32 word \<Rightarrow> 32 word \<Rightarrow> ScheduleManifest" where
  "ScheduleManifest_new program policy profile sz lanes =
     \<lparr>format_version = SCHEDULE_MANIFEST_VERSION, program_digest = program, storage_policy_digest = policy,
      protocol_profile = profile, epoch_size = sz, worker_lane_count = lanes, epochs = []\<rparr>"

text \<open>Coalescing of claims on one key and scope; the accumulator is the vector \<open>canonical\<close>.\<close>

fun coalesce :: "StorageClaim list \<Rightarrow> StorageClaim list \<Rightarrow> StorageClaim list" where
  "coalesce canonical [] = canonical"
| "coalesce canonical (claim # cs) =
     (if canonical \<noteq> [] \<and> cl_key (last canonical) = cl_key claim \<and> cl_scope (last canonical) = cl_scope claim
      then coalesce (butlast canonical @
             [StorageClaim (cl_key claim) (cl_scope claim) (join_mode (cl_mode (last canonical)) (cl_mode claim))]) cs
      else coalesce (canonical @ [claim]) cs)"

definition canonicalize_iteration :: "IterationManifest \<Rightarrow> IterationManifest" where
  "canonicalize_iteration it =
     it\<lparr>dependencies := remdups_adj (sort (dependencies it)), claims := coalesce [] (sort (claims it))\<rparr>"

definition canonicalize_manifest :: "ScheduleManifest \<Rightarrow> ScheduleManifest" where
  "canonicalize_manifest m =
     m\<lparr>epochs := map (\<lambda>e. e\<lparr>iterations := map canonicalize_iteration (iterations e)\<rparr>) (epochs m)\<rparr>"

fun is_sorted_unique :: "'a::linorder list \<Rightarrow> bool" where
  "is_sorted_unique (x # y # zs) \<longleftrightarrow> x < y \<and> is_sorted_unique (y # zs)"
| "is_sorted_unique _ \<longleftrightarrow> True"

section \<open>Validation\<close>

text \<open>The running state of \<open>validate\<close>: the two expected ordinals, the iteration count and the
  ranges reserved so far in each ordinal domain.\<close>

record ValidateState =
  expected_epoch :: "64 word"
  expected_iteration :: "64 word"
  total_iterations :: nat
  correlation_ranges :: "OrdinalRange list"
  communication_ranges :: "OrdinalRange list"

fun rfold :: "('x \<Rightarrow> 's \<Rightarrow> 'e + 's) \<Rightarrow> 'x list \<Rightarrow> 's \<Rightarrow> 'e + 's" where
  "rfold f [] s = Inr s"
| "rfold f (x # xs) s = rbind (f x s) (rfold f xs)"

definition ok_or :: "'a option \<Rightarrow> 'e \<Rightarrow> 'e + 'a" where
  "ok_or x e = (case x of Some v \<Rightarrow> Inr v | None \<Rightarrow> Inl e)"

definition check :: "bool \<Rightarrow> 'e \<Rightarrow> 'e + unit" where
  "check bad e = (if bad then Inl e else Inr ())"

fun check_dependencies :: "IterationId \<Rightarrow> IterationId list \<Rightarrow> ManifestError + unit" where
  "check_dependencies n [] = Inr ()"
| "check_dependencies n (d # ds) = (if d \<ge> n then Inl (ForwardDependency n d) else check_dependencies n ds)"

fun check_claims :: "StorageClaim list \<Rightarrow> ManifestError + unit" where
  "check_claims [] = Inr ()"
| "check_claims (c # cs) = rbind (claim_validate c) (\<lambda>_. check_claims cs)"

definition validate_iteration ::
    "ScheduleManifest \<Rightarrow> ScheduleLimits \<Rightarrow> IterationManifest \<Rightarrow> ValidateState \<Rightarrow> ManifestError + ValidateState" where
  "validate_iteration m limits it v =
     rbind (check (it_ordinal it \<noteq> expected_iteration v)
              (NonCanonicalIteration (expected_iteration v) (it_ordinal it))) (\<lambda>_.
     rbind (ok_or (checked_add (expected_iteration v) 1) OrdinalOverflow) (\<lambda>next_iteration.
     let total = total_iterations v + 1 in
     rbind (check (total > max_iterations limits) (TooManyIterations total (max_iterations limits))) (\<lambda>_.
     rbind (check (worker_lane it \<ge> worker_lane_count m) (WorkerLaneOutOfRange (it_ordinal it) (worker_lane it))) (\<lambda>_.
     rbind (check (length (dependencies it) > max_dependencies limits)
              (TooManyDependencies (it_ordinal it) (length (dependencies it)) (max_dependencies limits))) (\<lambda>_.
     rbind (check (length (claims it) > max_claims limits)
              (TooManyClaims (it_ordinal it) (length (claims it)) (max_claims limits))) (\<lambda>_.
     rbind (check (\<not> is_sorted_unique (dependencies it)) (NonCanonicalDependencies (it_ordinal it))) (\<lambda>_.
     rbind (check (\<not> is_sorted_unique (claims it)) (NonCanonicalClaims (it_ordinal it))) (\<lambda>_.
     rbind (check_dependencies (it_ordinal it) (dependencies it)) (\<lambda>_.
     rbind (check_claims (claims it)) (\<lambda>_.
     rbind (add_range (correlation_ranges v) (correlation_range it)) (\<lambda>correlation.
     rbind (add_range (communication_ranges v) (communication_range it)) (\<lambda>communication.
       Inr (v\<lparr>expected_iteration := next_iteration, total_iterations := total,
              correlation_ranges := correlation, communication_ranges := communication\<rparr>)))))))))))))"

definition validate_epoch ::
    "ScheduleManifest \<Rightarrow> ScheduleLimits \<Rightarrow> EpochManifest \<Rightarrow> ValidateState \<Rightarrow> ManifestError + ValidateState" where
  "validate_epoch m limits e v =
     rbind (check (ep_ordinal e \<noteq> expected_epoch v) (NonCanonicalEpoch (expected_epoch v) (ep_ordinal e))) (\<lambda>_.
     rbind (ok_or (checked_add (expected_epoch v) 1) OrdinalOverflow) (\<lambda>next_epoch.
     rbind (check (length (iterations e) > unat (epoch_size m))
              (EpochTooLarge (ep_ordinal e) (length (iterations e)) (unat (epoch_size m)))) (\<lambda>_.
       rfold (validate_iteration m limits) (iterations e) (v\<lparr>expected_epoch := next_epoch\<rparr>))))"

definition validate_manifest :: "ScheduleManifest \<Rightarrow> ScheduleLimits \<Rightarrow> ManifestError + unit" where
  "validate_manifest m limits =
     rbind (check (format_version m \<noteq> SCHEDULE_MANIFEST_VERSION) (UnsupportedVersion (format_version m))) (\<lambda>_.
     rbind (check (epoch_size m = 0) ZeroEpochSize) (\<lambda>_.
     rbind (check (worker_lane_count m = 0) ZeroWorkerLanes) (\<lambda>_.
     rbind (check (length (epochs m) > max_epochs limits) (TooManyEpochs (length (epochs m)) (max_epochs limits))) (\<lambda>_.
     rbind (rfold (validate_epoch m limits) (epochs m)
              \<lparr>expected_epoch = 0, expected_iteration = 0, total_iterations = 0,
               correlation_ranges = [], communication_ranges = []\<rparr>) (\<lambda>_.
       Inr ())))))"

section \<open>Planning\<close>

text \<open>The running state of \<open>plan_from_iterations\<close>: the closed epochs, the epoch under construction
  and the next lane.\<close>

record PlanState =
  done_epochs :: "EpochManifest list"
  current :: EpochManifest
  next_lane :: WorkerLane

definition dependency_in_current :: "EpochManifest \<Rightarrow> IterationManifest \<Rightarrow> bool" where
  "dependency_in_current cur it =
     list_ex (\<lambda>candidate. \<not> isl (binary_search_by (\<lambda>d. compare d (it_ordinal candidate)) (dependencies it)))
       (iterations cur)"

definition conflicts_in_current :: "EpochManifest \<Rightarrow> IterationManifest \<Rightarrow> bool" where
  "conflicts_in_current cur it =
     list_ex (\<lambda>candidate. list_ex (\<lambda>left. list_ex (\<lambda>right. conflicts_with left right) (claims it)) (claims candidate))
       (iterations cur)"

definition plan_iteration ::
    "32 word \<Rightarrow> 32 word \<Rightarrow> nat \<Rightarrow> IterationManifest \<Rightarrow> PlanState \<Rightarrow> ManifestError + PlanState" where
  "plan_iteration sz lanes expected it0 p =
     rbind (check (expected \<ge> 2 ^ 64) OrdinalOverflow) (\<lambda>_.
     rbind (check (it_ordinal it0 \<noteq> of_nat expected)
              (NonCanonicalIteration (of_nat expected) (it_ordinal it0))) (\<lambda>_.
     let it = canonicalize_iteration it0 in
     rbind (check_dependencies (it_ordinal it) (dependencies it)) (\<lambda>_.
     rbind (check_claims (claims it)) (\<lambda>_.
     rbind (if iterations (current p) \<noteq> []
               \<and> (length (iterations (current p)) \<ge> unat sz
                  \<or> dependency_in_current (current p) it \<or> conflicts_in_current (current p) it)
            then (let closed = done_epochs p @ [current p]
                  in if length closed \<ge> 2 ^ 64 then Inl OrdinalOverflow
                     else Inr (closed, EpochManifest_new (of_nat (length closed)) (of_nat (length closed))))
            else Inr (done_epochs p, current p)) (\<lambda>(closed, cur).
       Inr \<lparr>done_epochs = closed,
            current = cur\<lparr>iterations := iterations cur @ [it\<lparr>worker_lane := next_lane p\<rparr>]\<rparr>,
            next_lane = (if next_lane p + 1 = lanes then 0 else next_lane p + 1)\<rparr>)))))"

definition plan_from_iterations ::
    "8 word list \<Rightarrow> 8 word list \<Rightarrow> 32 word \<Rightarrow> 32 word \<Rightarrow> 32 word \<Rightarrow> IterationManifest list
     \<Rightarrow> ManifestError + ScheduleManifest" where
  "plan_from_iterations program policy profile sz lanes its =
     rbind (check (sz = 0) ZeroEpochSize) (\<lambda>_.
     rbind (check (lanes = 0) ZeroWorkerLanes) (\<lambda>_.
     rbind (rfold (\<lambda>(expected, it). plan_iteration sz lanes expected it) (enumerate 0 its)
              \<lparr>done_epochs = [], current = EpochManifest_new 0 0, next_lane = 0\<rparr>) (\<lambda>p.
     let m = (ScheduleManifest_new program policy profile sz lanes)
               \<lparr>epochs := done_epochs p @ (if iterations (current p) \<noteq> [] then [current p] else [])\<rparr>
     in rbind (validate_manifest m default_limits) (\<lambda>_. Inr m))))"

section \<open>The canonical encoding\<close>

fun le_bytes :: "nat \<Rightarrow> 'a::len word \<Rightarrow> 8 word list" where
  "le_bytes 0 w = []"
| "le_bytes (Suc n) w = ucast w # le_bytes n (drop_bit 8 w)"

definition push_u16 :: "8 word list \<Rightarrow> 16 word \<Rightarrow> 8 word list" where
  "push_u16 out v = out @ le_bytes 2 v"

definition push_u32 :: "8 word list \<Rightarrow> 32 word \<Rightarrow> 8 word list" where
  "push_u32 out v = out @ le_bytes 4 v"

definition push_u64 :: "8 word list \<Rightarrow> 64 word \<Rightarrow> 8 word list" where
  "push_u64 out v = out @ le_bytes 8 v"

definition push_len :: "8 word list \<Rightarrow> nat \<Rightarrow> ManifestError + 8 word list" where
  "push_len out n = (if n \<ge> 2 ^ 64 then Inl LengthOverflow else Inr (push_u64 out (of_nat n)))"

definition push_range :: "8 word list \<Rightarrow> OrdinalRange \<Rightarrow> 8 word list" where
  "push_range out r = push_u64 (push_u64 out (or_start r)) (or_len r)"

fun push_scope :: "8 word list \<Rightarrow> AddressScope \<Rightarrow> 8 word list" where
  "push_scope out Whole = out @ [0]"
| "push_scope out (PublicRange start len) = push_u64 (push_u64 (out @ [1]) start) len"

definition push_claim :: "StorageClaim \<Rightarrow> 8 word list \<Rightarrow> 8 word list" where
  "push_claim c out =
     push_scope
       (push_u32 (push_u32 out (key_storage (cl_key c))) (key_type (cl_key c)) @
        [case cl_mode c of ClaimRead \<Rightarrow> 0 | ClaimWrite \<Rightarrow> 1 | ClaimUnknown \<Rightarrow> 2])
       (cl_scope c)"

definition push_iteration :: "IterationManifest \<Rightarrow> 8 word list \<Rightarrow> ManifestError + 8 word list" where
  "push_iteration it out =
     rbind (push_len (push_u32 (push_u64 (push_u64 out (it_ordinal it)) (logical_step it)) (worker_lane it))
              (length (dependencies it))) (\<lambda>out.
     rbind (push_len (fold (\<lambda>d out. push_u64 out d) (dependencies it) out) (length (claims it))) (\<lambda>out.
       Inr (push_range (push_range (fold push_claim (claims it) out) (correlation_range it)) (communication_range it))))"

definition push_epoch :: "EpochManifest \<Rightarrow> 8 word list \<Rightarrow> ManifestError + 8 word list" where
  "push_epoch e out =
     rbind (push_len (push_u64 (push_u64 out (ep_ordinal e)) (communication_group e)) (length (iterations e)))
       (rfold push_iteration (iterations e))"

text \<open>The domain separator \<open>b"volar.schedule\0"\<close>.\<close>

definition schedule_domain :: "8 word list" where
  "schedule_domain = [118, 111, 108, 97, 114, 46, 115, 99, 104, 101, 100, 117, 108, 101, 0]"

definition canonical_bytes :: "ScheduleManifest \<Rightarrow> ScheduleLimits \<Rightarrow> ManifestError + 8 word list" where
  "canonical_bytes m limits =
     rbind (validate_manifest m limits) (\<lambda>_.
     rbind (push_len (push_u32 (push_u32 (push_u32
              (push_u16 schedule_domain (format_version m) @ program_digest m @ storage_policy_digest m)
              (protocol_profile m)) (epoch_size m)) (worker_lane_count m)) (length (epochs m)))
       (rfold push_epoch (epochs m)))"

definition digest_with :: "ScheduleManifest \<Rightarrow> ScheduleLimits \<Rightarrow> (8 word list \<Rightarrow> 8 word list) \<Rightarrow> ManifestError + 8 word list" where
  "digest_with m limits hasher = rbind (canonical_bytes m limits) (\<lambda>b. Inr (hasher b))"

end
