(* ===== verification/ScheduleCanonical.thy ===== *)
theory ScheduleCanonical
  imports Schedule "HOL-Library.Multiset"
begin

text \<open>
  The canonical form of an iteration: dependencies strictly ascending, one claim per key and scope
  in strictly ascending order, each with the join of the modes claimed for it. The form is determined
  by the sets of dependencies and claims, and keeps every conflict.
\<close>

section \<open>Strictly ascending lists\<close>

lemma is_sorted_unique_iff: "is_sorted_unique xs \<longleftrightarrow> sorted_wrt (<) (xs :: 'a::linorder list)"
  by (induction xs rule: is_sorted_unique.induct) (auto intro: less_trans)

lemma ascending_unique:
  fixes xs ys :: "'a::linorder list"
  assumes "sorted_wrt (<) xs" and "sorted_wrt (<) ys" and "set xs = set ys"
  shows "xs = ys"
  using assms by (simp add: strict_sorted_iff sorted_distinct_set_unique)

lemma strict_remdups_adj: "sorted xs \<Longrightarrow> sorted_wrt (<) (remdups_adj (xs :: 'a::linorder list))"
  by (induction xs rule: remdups_adj.induct) auto

lemma remdups_adj_sort: "sorted_wrt (<) (remdups_adj (sort (xs :: 'a::linorder list)))"
  by (rule strict_remdups_adj) simp

section \<open>Coalescing claims\<close>

definition claim_place :: "StorageClaim \<Rightarrow> StorageKey \<times> AddressScope" where
  "claim_place c = (cl_key c, cl_scope c)"

definition modes_at :: "StorageClaim list \<Rightarrow> StorageKey \<times> AddressScope \<Rightarrow> StorageClaimMode set" where
  "modes_at cs p = cl_mode ` {c \<in> set cs. claim_place c = p}"

definition join_all :: "StorageClaimMode set \<Rightarrow> StorageClaimMode" where
  "join_all M = (if ClaimUnknown \<in> M then ClaimUnknown else if ClaimWrite \<in> M then ClaimWrite else ClaimRead)"

text \<open>The claims a list of claims stands for: at every place claimed, the join of its modes.\<close>

definition joined :: "StorageClaim list \<Rightarrow> StorageClaim set" where
  "joined cs = (\<lambda>p. StorageClaim (fst p) (snd p) (join_all (modes_at cs p))) ` claim_place ` set cs"

lemma joined_iff:
  "x \<in> joined cs \<longleftrightarrow>
     (\<exists>c \<in> set cs. x = StorageClaim (cl_key c) (cl_scope c) (join_all (modes_at cs (claim_place c))))"
  by (simp add: joined_def image_image image_iff claim_place_def)

lemma claim_less: "c < d \<Longrightarrow> claim_place c \<le> claim_place d"
  by (auto simp: less_StorageClaim_def claim_place_def)

lemma claim_place_less: "claim_place c < claim_place d \<Longrightarrow> c < d"
  by (auto simp: less_StorageClaim_def claim_place_def)

lemma sorted_claim_places: "sorted cs \<Longrightarrow> sorted (map claim_place cs)"
  by (induction cs) (auto simp: less_eq_StorageClaim_def claim_place_def less_le)

lemma join_all_insert_join: "join_all (insert (join_mode a b) M) = join_all (insert a (insert b M))"
  by (cases a; cases b) (auto simp: join_all_def)

lemma join_all_singleton [simp]: "join_all {a} = a"
  by (cases a) (auto simp: join_all_def)

lemma modes_at_append: "modes_at (xs @ ys) p = modes_at xs p \<union> modes_at ys p"
  by (auto simp: modes_at_def)

lemma modes_at_Cons: "modes_at (c # cs) p = (if claim_place c = p then insert (cl_mode c) (modes_at cs p) else modes_at cs p)"
  by (auto simp: modes_at_def)

lemma joined_cong:
  assumes "claim_place ` set xs = claim_place ` set ys" and "\<And>p. join_all (modes_at xs p) = join_all (modes_at ys p)"
  shows "joined xs = joined ys"
  by (simp add: joined_def assms)

lemma joined_merge:
  assumes "claim_place a = claim_place c"
  shows "joined (xs @ StorageClaim (cl_key c) (cl_scope c) (join_mode (cl_mode a) (cl_mode c)) # ys) = joined (xs @ a # c # ys)"
proof (rule joined_cong)
  let ?m = "StorageClaim (cl_key c) (cl_scope c) (join_mode (cl_mode a) (cl_mode c))"
  have place: "claim_place ?m = claim_place c" by (simp add: claim_place_def)
  show "claim_place ` set (xs @ ?m # ys) = claim_place ` set (xs @ a # c # ys)" using assms place by auto
  show "join_all (modes_at (xs @ ?m # ys) p) = join_all (modes_at (xs @ a # c # ys) p)" for p
    using assms join_all_insert_join [of "cl_mode a" "cl_mode c" "modes_at xs p \<union> modes_at ys p"]
    by (simp add: modes_at_append modes_at_Cons place)
qed

lemma joined_ascending:
  assumes "sorted_wrt (<) (map claim_place cs)"
  shows "joined cs = set cs"
proof -
  have "distinct (map claim_place cs)" using assms by (simp add: strict_sorted_iff)
  then have inj: "inj_on claim_place (set cs)" by (simp add: distinct_map)
  have "StorageClaim (fst (claim_place c)) (snd (claim_place c)) (join_all (modes_at cs (claim_place c))) = c"
    if "c \<in> set cs" for c
  proof -
    have "{d \<in> set cs. claim_place d = claim_place c} = {c}" using inj that by (auto dest: inj_onD)
    then have "modes_at cs (claim_place c) = {cl_mode c}" by (simp add: modes_at_def)
    then show ?thesis by (simp add: claim_place_def)
  qed
  then show ?thesis by (simp add: joined_def image_image)
qed

lemma coalesce_spec:
  assumes "sorted (map claim_place (canonical @ cs))" and "sorted_wrt (<) (map claim_place canonical)"
  shows "sorted_wrt (<) (map claim_place (coalesce canonical cs)) \<and> joined (coalesce canonical cs) = joined (canonical @ cs)"
  using assms
proof (induction canonical cs rule: coalesce.induct)
  case (2 canonical c cs)
  show ?case
  proof (cases "canonical \<noteq> [] \<and> cl_key (last canonical) = cl_key c \<and> cl_scope (last canonical) = cl_scope c")
    case True
    let ?l = "last canonical" and ?m = "StorageClaim (cl_key c) (cl_scope c) (join_mode (cl_mode (last canonical)) (cl_mode c))"
    have place: "claim_place ?m = claim_place c" "claim_place ?l = claim_place c" using True by (auto simp: claim_place_def)
    have split: "canonical = butlast canonical @ [?l]" using True by simp
    have places: "map claim_place canonical = map claim_place (butlast canonical @ [?m])"
      by (subst split) (simp add: place)
    from "2.IH"(1) [OF True] have "sorted_wrt (<) (map claim_place (coalesce (butlast canonical @ [?m]) cs))
        \<and> joined (coalesce (butlast canonical @ [?m]) cs) = joined ((butlast canonical @ [?m]) @ cs)"
      using "2.prems" places by (auto simp: sorted_append)
    moreover have "joined ((butlast canonical @ [?m]) @ cs) = joined ((butlast canonical @ [?l]) @ c # cs)"
      using joined_merge [OF place(2)] by simp
    moreover have "coalesce canonical (c # cs) = coalesce (butlast canonical @ [?m]) cs"
      using True by simp
    moreover have "(butlast canonical @ [?l]) @ c # cs = canonical @ c # cs" using True by simp
    ultimately show ?thesis by (simp only:)
  next
    case False
    have strict: "sorted_wrt (<) (map claim_place (canonical @ [c]))"
    proof (cases "canonical = []")
      case F: False
      then have split: "canonical = butlast canonical @ [last canonical]" by simp
      have "claim_place (last canonical) \<noteq> claim_place c" using False F by (auto simp: claim_place_def)
      moreover have "claim_place (last canonical) \<le> claim_place c" using "2.prems"(1) F by (simp add: sorted_append)
      ultimately have last: "claim_place (last canonical) < claim_place c" by simp
      have "sorted_wrt (<) (map claim_place (butlast canonical @ [last canonical]))" using "2.prems"(2) split by simp
      then have "\<forall>x \<in> set (butlast canonical @ [last canonical]). claim_place x < claim_place c"
        using last by (auto simp: sorted_wrt_append intro: less_trans)
      then have "\<forall>x \<in> set canonical. claim_place x < claim_place c" using split by simp
      then show ?thesis using "2.prems"(2) by (simp add: sorted_wrt_append)
    qed simp
    have "coalesce canonical (c # cs) = coalesce (canonical @ [c]) cs" using False by (simp only: coalesce.simps if_False)
    with "2.IH"(2) [OF False] strict show ?thesis using "2.prems"(1) by simp
  qed
qed auto

lemma coalesce_sort:
  "sorted_wrt (<) (map claim_place (coalesce [] (sort cs)))" "set (coalesce [] (sort cs)) = joined cs"
proof -
  have s: "sorted (map claim_place ([] @ sort cs))" using sorted_claim_places [OF sorted_sort, of cs] by simp
  have n: "sorted_wrt (<) (map claim_place [])" by simp
  note spec = coalesce_spec [OF s n]
  from spec show "sorted_wrt (<) (map claim_place (coalesce [] (sort cs)))" by blast
  moreover have "joined (sort cs) = joined cs" by (simp add: joined_def modes_at_def)
  ultimately show "set (coalesce [] (sort cs)) = joined cs" using spec joined_ascending by auto
qed

lemma places_ascending: "sorted_wrt (<) (map claim_place cs) \<Longrightarrow> sorted_wrt (<) cs"
  by (rule sorted_wrt_mono_rel [of _ "\<lambda>a b. claim_place a < claim_place b"]) (auto simp: claim_place_less sorted_wrt_map)

lemma joined_joined: "set ds = joined cs \<Longrightarrow> joined ds = joined cs"
proof -
  assume ds: "set ds = joined cs"
  have place: "claim_place (StorageClaim (fst p) (snd p) m) = p" for p m by (simp add: claim_place_def)
  have "claim_place ` set ds = claim_place ` set cs" by (simp add: ds joined_def image_image place)
  moreover have "join_all (modes_at ds p) = join_all (modes_at cs p)" for p
  proof (cases "p \<in> claim_place ` set cs")
    case True
    then have "{c \<in> set ds. claim_place c = p} = {StorageClaim (fst p) (snd p) (join_all (modes_at cs p))}"
      by (auto simp: ds joined_def place)
    then show ?thesis by (simp add: modes_at_def)
  next
    case False
    then have "modes_at ds p = {}" "modes_at cs p = {}" by (auto simp: modes_at_def ds joined_def place)
    then show ?thesis by simp
  qed
  ultimately show "joined ds = joined cs" by (rule joined_cong)
qed

lemma joined_places:
  "joined cs = {StorageClaim k s (join_all M) | k s M. M = {m. StorageClaim k s m \<in> set cs} \<and> M \<noteq> {}}"
    (is "_ = ?R")
proof (intro set_eqI iffI)
  have modes: "modes_at cs (k, s) = {m. StorageClaim k s m \<in> set cs}" for k s
    by (force simp: modes_at_def claim_place_def image_iff)
  fix x
  {
    assume "x \<in> joined cs"
    then obtain c where c: "c \<in> set cs" "x = StorageClaim (cl_key c) (cl_scope c) (join_all (modes_at cs (claim_place c)))"
      unfolding joined_iff by blast
    then have "cl_mode c \<in> {m. StorageClaim (cl_key c) (cl_scope c) m \<in> set cs}" by simp
    then show "x \<in> ?R" using c(2) unfolding claim_place_def modes by blast
  next
    assume "x \<in> ?R"
    then obtain k s m where m: "StorageClaim k s m \<in> set cs"
      and x: "x = StorageClaim k s (join_all {m. StorageClaim k s m \<in> set cs})" by blast
    show "x \<in> joined cs" unfolding joined_iff
      by (rule bexI [OF _ m]) (simp add: x claim_place_def modes)
  }
qed

section \<open>What conflicts see\<close>

lemma conflicts_place:
  "conflicts_with c d \<longleftrightarrow> cl_key c = cl_key d \<and> scope_overlaps (cl_scope c) (cl_scope d)
     \<and> (cl_mode c \<noteq> ClaimRead \<or> cl_mode d \<noteq> ClaimRead)"
  by (cases "cl_mode c"; cases "cl_mode d") (auto simp: conflicts_with_def StorageKey.expand)

lemma scope_overlaps_sym: "scope_overlaps a b = scope_overlaps b a"
  by (cases a; cases b) (auto split: option.splits)

lemma conflicts_sym: "conflicts_with c d = conflicts_with d c"
  by (auto simp: conflicts_place scope_overlaps_sym)

lemma join_all_read: "join_all M = ClaimRead \<longleftrightarrow> M \<subseteq> {ClaimRead}"
  by (auto simp: join_all_def) (metis StorageClaimMode.exhaust)

lemma joined_conflicts: "(\<exists>c \<in> joined cs. conflicts_with c d) \<longleftrightarrow> (\<exists>c \<in> set cs. conflicts_with c d)"
proof
  assume "\<exists>c \<in> joined cs. conflicts_with c d"
  then obtain c0 where c0: "c0 \<in> set cs"
    and cf: "conflicts_with (StorageClaim (cl_key c0) (cl_scope c0) (join_all (modes_at cs (claim_place c0)))) d"
    by (auto simp: joined_iff)
  show "\<exists>c \<in> set cs. conflicts_with c d"
  proof (cases "cl_mode d = ClaimRead")
    case True
    then have "join_all (modes_at cs (claim_place c0)) \<noteq> ClaimRead" using cf by (simp add: conflicts_place)
    then obtain c where "c \<in> set cs" "claim_place c = claim_place c0" "cl_mode c \<noteq> ClaimRead"
      by (auto simp: join_all_read modes_at_def)
    then show ?thesis using cf by (intro bexI [of _ c]) (auto simp: conflicts_place claim_place_def)
  next
    case False
    then show ?thesis using cf c0 by (intro bexI [of _ c0]) (auto simp: conflicts_place)
  qed
next
  assume "\<exists>c \<in> set cs. conflicts_with c d"
  then obtain c where c: "c \<in> set cs" "conflicts_with c d" by blast
  let ?c = "StorageClaim (cl_key c) (cl_scope c) (join_all (modes_at cs (claim_place c)))"
  have "cl_mode c \<in> modes_at cs (claim_place c)" using c(1) by (auto simp: modes_at_def)
  then have "cl_mode c \<noteq> ClaimRead \<Longrightarrow> join_all (modes_at cs (claim_place c)) \<noteq> ClaimRead" by (auto simp: join_all_read)
  then have "conflicts_with ?c d" using c(2) by (auto simp: conflicts_place)
  moreover have "?c \<in> joined cs" using c(1) by (auto simp: joined_iff)
  ultimately show "\<exists>c \<in> joined cs. conflicts_with c d" by blast
qed

section \<open>Canonical iterations\<close>

definition canonical_iteration :: "IterationManifest \<Rightarrow> bool" where
  "canonical_iteration it \<longleftrightarrow> sorted_wrt (<) (dependencies it) \<and> sorted_wrt (<) (map claim_place (claims it))"

lemma canonicalize_simps [simp]:
  "it_ordinal (canonicalize_iteration it) = it_ordinal it" "logical_step (canonicalize_iteration it) = logical_step it"
  "worker_lane (canonicalize_iteration it) = worker_lane it"
  "correlation_range (canonicalize_iteration it) = correlation_range it"
  "communication_range (canonicalize_iteration it) = communication_range it"
  "set (dependencies (canonicalize_iteration it)) = set (dependencies it)"
  "set (claims (canonicalize_iteration it)) = joined (claims it)"
  by (simp_all add: canonicalize_iteration_def coalesce_sort)

lemma canonicalize_canonical: "canonical_iteration (canonicalize_iteration it)"
  by (simp add: canonical_iteration_def canonicalize_iteration_def remdups_adj_sort coalesce_sort)

lemma canonical_unique:
  assumes "canonical_iteration a" and "canonical_iteration b" and "set (dependencies a) = set (dependencies b)"
    and "set (claims a) = set (claims b)"
  shows "dependencies a = dependencies b \<and> claims a = claims b"
  using assms by (simp add: canonical_iteration_def ascending_unique places_ascending)

lemma canonicalize_again: "canonicalize_iteration (canonicalize_iteration it) = canonicalize_iteration it"
proof -
  let ?c = "canonicalize_iteration it"
  have "set (claims (canonicalize_iteration ?c)) = set (claims ?c)"
    by (simp add: joined_joined [OF canonicalize_simps(7)])
  then have "dependencies (canonicalize_iteration ?c) = dependencies ?c \<and> claims (canonicalize_iteration ?c) = claims ?c"
    by (intro canonical_unique canonicalize_canonical canonicalize_simps(6))
  then show ?thesis by simp
qed

lemma canonicalize_order_irrelevant:
  assumes "set (dependencies jt) = set (dependencies it)" and "set (claims jt) = set (claims it)"
  shows "dependencies (canonicalize_iteration jt) = dependencies (canonicalize_iteration it)
    \<and> claims (canonicalize_iteration jt) = claims (canonicalize_iteration it)"
proof (rule canonical_unique [OF canonicalize_canonical canonicalize_canonical])
  show "set (dependencies (canonicalize_iteration jt)) = set (dependencies (canonicalize_iteration it))"
    by (simp only: canonicalize_simps assms(1))
  have "joined (claims jt) = joined (claims it)" unfolding joined_def modes_at_def assms(2) ..
  then show "set (claims (canonicalize_iteration jt)) = set (claims (canonicalize_iteration it))"
    by (simp only: canonicalize_simps)
qed

text \<open>C29. The canonical form of an iteration is a normal form: dependencies come out strictly ascending
  with the same members, claims strictly ascending with one claim per key and scope carrying the join of
  the modes claimed there (so that the form depends on the sets alone); a second canonicalisation changes
  nothing; and exactly the same foreign claims conflict before and after.\<close>

theorem canonical_form:
  "let c = canonicalize_iteration it in
     sorted_wrt (<) (dependencies c) \<and> set (dependencies c) = set (dependencies it)
     \<and> sorted_wrt (\<lambda>x y. (cl_key x, cl_scope x) < (cl_key y, cl_scope y)) (claims c)
     \<and> set (claims c) = {StorageClaim k s (join_all M) | k s M. M = {m. StorageClaim k s m \<in> set (claims it)} \<and> M \<noteq> {}}
     \<and> canonicalize_iteration c = c
     \<and> ((\<exists>x \<in> set (claims c). conflicts_with x d) \<longleftrightarrow> (\<exists>x \<in> set (claims it). conflicts_with x d))"
proof -
  let ?c = "canonicalize_iteration it"
  have asc: "sorted_wrt (\<lambda>x y. (cl_key x, cl_scope x) < (cl_key y, cl_scope y)) (claims ?c)"
    using canonicalize_canonical [of it] unfolding canonical_iteration_def sorted_wrt_map claim_place_def by (rule conjunct2)
  have deps: "sorted_wrt (<) (dependencies ?c)"
    using canonicalize_canonical [of it] unfolding canonical_iteration_def by (rule conjunct1)
  have conf: "(\<exists>x \<in> set (claims ?c). conflicts_with x d) \<longleftrightarrow> (\<exists>x \<in> set (claims it). conflicts_with x d)"
    by (simp add: joined_conflicts)
  show ?thesis unfolding Let_def
    by (intro conjI asc deps conf canonicalize_again) (simp_all only: canonicalize_simps joined_places)
qed

end
