(* ===== verification/ScheduleValid.thy ===== *)
theory ScheduleValid
  imports ScheduleCanonical
begin

text \<open>
  What the validator accepts: \<open>validate_manifest\<close> threads expected ordinals and reserved ranges
  through the epochs; \<open>valid_manifest\<close> says the same of the manifest as a whole.
\<close>

section \<open>Checks\<close>

lemma check_eq [simp]: "check bad e = Inr () \<longleftrightarrow> \<not> bad"
  by (simp add: check_def)

lemma ok_or_eq [simp]: "ok_or x e = Inr y \<longleftrightarrow> x = Some y"
  by (cases x) (auto simp: ok_or_def)

lemma rbind_check: "rbind (check bad e) f = Inr y \<longleftrightarrow> \<not> bad \<and> f () = Inr y"
  by (simp add: check_def)

lemma rbind_unit: "rbind m f = Inr y \<longleftrightarrow> m = Inr () \<and> f () = Inr y"
  by (cases m) auto

lemma rbind_ok_or: "rbind (ok_or x e) f = Inr y \<longleftrightarrow> (\<exists>v. x = Some v \<and> f v = Inr y)"
  by (cases x) (auto simp: ok_or_def)

lemma check_dependencies_eq: "check_dependencies n ds = Inr () \<longleftrightarrow> (\<forall>d \<in> set ds. d < n)"
  by (induction ds) auto

lemma check_claims_eq: "check_claims cs = Inr () \<longleftrightarrow> (\<forall>c \<in> set cs. claim_validate c = Inr ())"
  by (induction cs) auto

lemma rfold_append: "rfold f (xs @ ys) s = rbind (rfold f xs s) (rfold f ys)"
proof (induction xs arbitrary: s)
  case (Cons x xs)
  then show ?case by (cases "f x s") simp_all
qed simp

section \<open>Ranges\<close>

definition range_fits :: "OrdinalRange \<Rightarrow> bool" where
  "range_fits r \<longleftrightarrow> unat (or_start r) + unat (or_len r) < 2 ^ 64"

text \<open>An earlier range \<open>p\<close> stands in the way of a later one.\<close>

definition meets :: "OrdinalRange \<Rightarrow> OrdinalRange \<Rightarrow> bool" where
  "meets p r \<longleftrightarrow> or_len p \<noteq> 0 \<and> unat (or_start r) < unat (or_start p) + unat (or_len p)
     \<and> unat (or_start p) < unat (or_start r) + unat (or_len r)"

definition ranges_ok :: "OrdinalRange list \<Rightarrow> bool" where
  "ranges_ok rs \<longleftrightarrow> (\<forall>r \<in> set rs. range_fits r) \<and> sorted_wrt (\<lambda>p r. \<not> meets p r) rs"

definition reserved :: "OrdinalRange list \<Rightarrow> OrdinalRange list" where
  "reserved = filter (\<lambda>r. or_len r \<noteq> 0)"

lemma checked_add_eq:
  "checked_add a b = Some e \<longleftrightarrow> unat a + unat b < 2 ^ LENGTH('a) \<and> e = a + (b :: 'a::len word)"
  by (auto simp: checked_add_def)

lemma unat_sum: "unat a + unat b < 2 ^ LENGTH('a) \<Longrightarrow> unat (a + b :: 'a::len word) = unat a + unat b"
  by (simp add: unat_word_ariths)

lemma range_end_eq: "range_end r = Inr e \<longleftrightarrow> range_fits r \<and> e = or_start r + or_len r"
  by (auto simp: range_end_def checked_add_eq range_fits_def split: option.splits) (simp_all add: checked_add_def split: if_splits)

lemma range_overlaps_eq:
  assumes "range_fits p" and "range_fits r" and "or_len p \<noteq> 0"
  shows "range_overlaps r p = Inr (meets p r)"
proof -
  have "range_end p = Inr (or_start p + or_len p)" "range_end r = Inr (or_start r + or_len r)"
    using assms by (simp_all add: range_end_eq)
  moreover have "unat (or_start p + or_len p) = unat (or_start p) + unat (or_len p)"
    "unat (or_start r + or_len r) = unat (or_start r) + unat (or_len r)"
    using assms unat_sum [of "or_start p" "or_len p"] unat_sum [of "or_start r" "or_len r"] by (simp_all add: range_fits_def)
  ultimately show ?thesis using assms(3) by (simp add: range_overlaps_def meets_def word_less_nat_alt)
qed

lemma first_overlap_eq:
  assumes "range_fits r" and "\<forall>p \<in> set ranges. range_fits p \<and> or_len p \<noteq> 0"
  shows "first_overlap r ranges = Inr () \<longleftrightarrow> (\<forall>p \<in> set ranges. \<not> meets p r)"
  using assms(2)
proof (induction ranges)
  case (Cons p ranges)
  then show ?case by (simp add: range_overlaps_eq [OF _ assms(1)])
qed simp

lemma reserved_simps:
  "reserved [] = []" "reserved (rs @ [r]) = (if or_len r \<noteq> 0 then reserved rs @ [r] else reserved rs)"
  by (simp_all add: reserved_def)

lemma add_range_eq:
  assumes "ranges_ok rs"
  shows "add_range (reserved rs) r = Inr rs' \<longleftrightarrow> ranges_ok (rs @ [r]) \<and> rs' = reserved (rs @ [r])"
proof (cases "range_fits r")
  case True
  have "\<forall>p \<in> set (reserved rs). range_fits p \<and> or_len p \<noteq> 0" using assms by (auto simp: reserved_def ranges_ok_def)
  note fo = first_overlap_eq [OF True this]
  have "(\<forall>p \<in> set (reserved rs). \<not> meets p r) \<longleftrightarrow> (\<forall>p \<in> set rs. \<not> meets p r)" by (auto simp: reserved_def meets_def)
  then have "ranges_ok (rs @ [r]) \<longleftrightarrow> first_overlap r (reserved rs) = Inr ()"
    using assms True fo by (auto simp: ranges_ok_def sorted_wrt_append)
  then show ?thesis using True by (auto simp: add_range_def range_end_eq reserved_simps)
next
  case False
  then have "\<And>e. range_end r \<noteq> Inr e" by (simp add: range_end_eq)
  then show ?thesis using False by (auto simp: add_range_def ranges_ok_def)
qed

lemma ranges_ok_append: "ranges_ok (rs @ ss) \<Longrightarrow> ranges_ok rs"
  by (simp add: ranges_ok_def sorted_wrt_append)

section \<open>What is accepted\<close>

definition iteration_ok :: "ScheduleManifest \<Rightarrow> ScheduleLimits \<Rightarrow> IterationManifest \<Rightarrow> bool" where
  "iteration_ok m limits it \<longleftrightarrow>
     worker_lane it < worker_lane_count m
     \<and> length (dependencies it) \<le> max_dependencies limits \<and> length (claims it) \<le> max_claims limits
     \<and> sorted_wrt (<) (dependencies it) \<and> sorted_wrt (<) (claims it)
     \<and> (\<forall>d \<in> set (dependencies it). d < it_ordinal it) \<and> (\<forall>c \<in> set (claims it). claim_validate c = Inr ())"

definition iterations_ok :: "ScheduleManifest \<Rightarrow> ScheduleLimits \<Rightarrow> IterationManifest list \<Rightarrow> bool" where
  "iterations_ok m limits its \<longleftrightarrow>
     map it_ordinal its = map of_nat [0..<length its] \<and> length its < 2 ^ 64 \<and> length its \<le> max_iterations limits
     \<and> (\<forall>it \<in> set its. iteration_ok m limits it)
     \<and> ranges_ok (map correlation_range its) \<and> ranges_ok (map communication_range its)"

definition epochs_ok :: "ScheduleManifest \<Rightarrow> EpochManifest list \<Rightarrow> bool" where
  "epochs_ok m es \<longleftrightarrow>
     map ep_ordinal es = map of_nat [0..<length es] \<and> length es < 2 ^ 64
     \<and> (\<forall>e \<in> set es. length (iterations e) \<le> unat (epoch_size m))"

definition all_iterations :: "EpochManifest list \<Rightarrow> IterationManifest list" where
  "all_iterations es = concat (map iterations es)"

definition valid_manifest :: "ScheduleManifest \<Rightarrow> ScheduleLimits \<Rightarrow> bool" where
  "valid_manifest m limits \<longleftrightarrow>
     format_version m = SCHEDULE_MANIFEST_VERSION \<and> epoch_size m \<noteq> 0 \<and> worker_lane_count m \<noteq> 0
     \<and> length (epochs m) \<le> max_epochs limits
     \<and> epochs_ok m (epochs m) \<and> iterations_ok m limits (all_iterations (epochs m))"

definition reached :: "nat \<Rightarrow> IterationManifest list \<Rightarrow> ValidateState" where
  "reached k its = \<lparr>expected_epoch = of_nat k, expected_iteration = of_nat (length its), total_iterations = length its,
     correlation_ranges = reserved (map correlation_range its),
     communication_ranges = reserved (map communication_range its)\<rparr>"

lemma unat_of_nat_64: "n < 2 ^ 64 \<Longrightarrow> unat (of_nat n :: 64 word) = n"
  using take_bit_nat_eq_self [of n 64] by (simp add: unsigned_of_nat)

lemma checked_succ:
  assumes "n < 2 ^ 64"
  shows "checked_add (of_nat n :: 64 word) 1 = Some e \<longleftrightarrow> Suc n < 2 ^ 64 \<and> e = of_nat (Suc n)"
proof -
  have "unat (of_nat n :: 64 word) + unat (1 :: 64 word) = Suc n" by (simp add: unat_of_nat_64 [OF assms])
  moreover have "(of_nat n :: 64 word) + 1 = of_nat (Suc n)" by simp
  moreover have "LENGTH(64) = 64" by simp
  ultimately show ?thesis unfolding checked_add_eq by (simp only:)
qed

lemma validate_iteration_step:
  assumes "iterations_ok m limits its"
  shows "validate_iteration m limits it (reached k its) = Inr v \<longleftrightarrow> iterations_ok m limits (its @ [it]) \<and> v = reached k (its @ [it])"
proof -
  have n: "length its < 2 ^ 64" and r: "ranges_ok (map correlation_range its)" "ranges_ok (map communication_range its)"
    using assms by (simp_all add: iterations_ok_def)
  have ok: "iterations_ok m limits (its @ [it]) \<longleftrightarrow> it_ordinal it = of_nat (length its) \<and> Suc (length its) < 2 ^ 64
      \<and> Suc (length its) \<le> max_iterations limits \<and> iteration_ok m limits it
      \<and> ranges_ok (map correlation_range its @ [correlation_range it])
      \<and> ranges_ok (map communication_range its @ [communication_range it])"
    using assms unfolding iterations_ok_def by (auto simp del: of_nat_Suc)
  show ?thesis
    by (auto simp only: validate_iteration_def reached_def Let_def ok iteration_ok_def rbind_check rbind_ok_or rbind_unit
      ValidateState.simps checked_succ [OF n] check_dependencies_eq check_claims_eq is_sorted_unique_iff rbind_eq_Inr [of "add_range a r" for a r]
      add_range_eq [OF r(1)] add_range_eq [OF r(2)] length_append list.size map_append list.map not_less not_le
      check_eq add_0_right add_Suc_right Suc_eq_plus1 [symmetric] not_not sum.inject)
qed

lemma numbered_prefix:
  assumes "map f (xs @ ys) = map of_nat [0..<length (xs @ ys)]"
  shows "map f xs = map of_nat [0..<length xs]"
proof -
  have "take (length xs) (map f (xs @ ys)) = take (length xs) (map of_nat [0..<length (xs @ ys)])" by (simp only: assms)
  then show ?thesis by (simp add: take_map)
qed

lemma iterations_ok_append: "iterations_ok m limits (its @ xs) \<Longrightarrow> iterations_ok m limits its"
  unfolding iterations_ok_def using numbered_prefix [of it_ordinal its xs] by (auto dest: ranges_ok_append)

lemma validate_iterations:
  assumes "iterations_ok m limits its"
  shows "rfold (validate_iteration m limits) xs (reached k its) = Inr v
    \<longleftrightarrow> iterations_ok m limits (its @ xs) \<and> v = reached k (its @ xs)"
  using assms
proof (induction xs arbitrary: its)
  case (Cons x xs)
  have "iterations_ok m limits (its @ [x])" if "iterations_ok m limits (its @ x # xs)"
    using iterations_ok_append [of m limits "its @ [x]" xs] that by simp
  then show ?case using Cons.IH [of "its @ [x]"] by (auto simp: validate_iteration_step [OF Cons.prems])
qed auto

lemma validate_epochs:
  assumes "epochs_ok m front" and "iterations_ok m limits (all_iterations front)"
  shows "rfold (validate_epoch m limits) es (reached (length front) (all_iterations front)) = Inr v
    \<longleftrightarrow> epochs_ok m (front @ es) \<and> iterations_ok m limits (all_iterations (front @ es))
        \<and> v = reached (length (front @ es)) (all_iterations (front @ es))"
  using assms
proof (induction es arbitrary: front)
  case (Cons e es)
  have n: "length front < 2 ^ 64" using Cons.prems by (simp add: epochs_ok_def)
  have bump: "(reached (length front) its)\<lparr>expected_epoch := of_nat (Suc (length front))\<rparr> = reached (Suc (length front)) its" for its
    by (simp add: reached_def)
  have ex: "expected_epoch (reached (length front) its) = of_nat (length front)" for its by (simp add: reached_def)
  have all: "all_iterations (front @ [e]) = all_iterations front @ iterations e" by (simp add: all_iterations_def)
  have eok: "epochs_ok m (front @ [e]) \<longleftrightarrow> ep_ordinal e = of_nat (length front) \<and> Suc (length front) < 2 ^ 64
      \<and> length (iterations e) \<le> unat (epoch_size m)"
    using Cons.prems(1) by (auto simp: epochs_ok_def)
  have step: "validate_epoch m limits e (reached (length front) (all_iterations front)) = Inr w \<longleftrightarrow>
      epochs_ok m (front @ [e]) \<and> iterations_ok m limits (all_iterations (front @ [e]))
      \<and> w = reached (length (front @ [e])) (all_iterations (front @ [e]))" for w
    unfolding all eok
    by (auto simp: validate_epoch_def ex checked_succ [OF n] bump validate_iterations [OF Cons.prems(2)] simp del: of_nat_Suc)
  have "epochs_ok m (front @ [e]) \<and> iterations_ok m limits (all_iterations (front @ [e]))"
    if "epochs_ok m (front @ e # es)" "iterations_ok m limits (all_iterations (front @ e # es))"
    using that iterations_ok_append [of m limits "all_iterations (front @ [e])" "all_iterations es"]
      numbered_prefix [of ep_ordinal "front @ [e]" es]
    by (auto simp: epochs_ok_def all_iterations_def)
  then show ?case using Cons.IH [of "front @ [e]"] by (auto simp: step)
qed auto

text \<open>C27. The validator decides a property of the manifest as a whole: it accepts exactly the manifests of
  the supported version with positive epoch size and lane count, epochs and iterations numbered
  consecutively from zero and within every limit, lanes in range, dependencies and claims strictly
  ascending, dependencies on earlier iterations only, claims on non-empty ranges that do not wrap, and in
  each ordinal domain reservations that fit in 64 bits and are pairwise disjoint.\<close>

theorem validation_exact: "validate_manifest m limits = Inr () \<longleftrightarrow> valid_manifest m limits"
proof -
  have start: "\<lparr>expected_epoch = 0, expected_iteration = 0, total_iterations = 0, correlation_ranges = [], communication_ranges = []\<rparr>
      = reached (length []) (all_iterations [])" by (simp add: reached_def all_iterations_def reserved_simps)
  have ok: "epochs_ok m []" "iterations_ok m limits (all_iterations [])"
    by (simp_all add: epochs_ok_def iterations_ok_def all_iterations_def ranges_ok_def)
  note fold = validate_epochs [OF ok, folded start, of "epochs m"]
  show ?thesis
    by (auto simp: validate_manifest_def fold valid_manifest_def rbind_check)
qed

text \<open>Overlap is not symmetric in empty reservations: an empty range strictly inside an earlier
  reservation is reported as overlapping it, but is accepted when it comes first.\<close>

theorem empty_range_order_matters:
  "add_range [\<lparr>or_start = 0, or_len = 10\<rparr>] \<lparr>or_start = 5, or_len = 0\<rparr>
     = Inl (OverlappingOrdinalRanges \<lparr>or_start = 0, or_len = 10\<rparr> \<lparr>or_start = 5, or_len = 0\<rparr>)
   \<and> rbind (add_range [] \<lparr>or_start = 5, or_len = 0\<rparr>) (\<lambda>rs. add_range rs \<lparr>or_start = 0, or_len = 10\<rparr>)
     = Inr [\<lparr>or_start = 0, or_len = 10\<rparr>]"
  by (simp add: add_range_def range_end_def range_overlaps_def checked_add_def)

end
