(* ===== verification/ScheduleBytes.thy ===== *)
theory ScheduleBytes
  imports ScheduleValid
begin

text \<open>
  The canonical byte encoding of a manifest determines the manifest. Every part is written by a code in
  which the encoded value and what follows it can be told apart; such codes compose.
\<close>

section \<open>Codes\<close>

text \<open>A code for the values satisfying \<open>ok\<close>: an encoding followed by anything determines the value
  and what follows.\<close>

locale wire_code =
  fixes ok :: "'a \<Rightarrow> bool" and enc :: "'a \<Rightarrow> 8 word list"
  assumes split: "ok x \<Longrightarrow> ok y \<Longrightarrow> enc x @ r = enc y @ s \<Longrightarrow> x = y \<and> r = s"
begin

lemma split_iff: "ok x \<Longrightarrow> ok y \<Longrightarrow> enc x @ r = enc y @ s \<longleftrightarrow> x = y \<and> r = s"
  using split [of x y r s] by auto

lemma many:
  "\<forall>x \<in> set xs. ok x \<Longrightarrow> \<forall>y \<in> set ys. ok y \<Longrightarrow> length xs = length ys
    \<Longrightarrow> concat (map enc xs) @ r = concat (map enc ys) @ s \<Longrightarrow> xs = ys \<and> r = s"
proof (induction xs arbitrary: ys)
  case (Cons x xs)
  then obtain y ys' where ys: "ys = y # ys'" by (cases ys) auto
  have "enc x @ (concat (map enc xs) @ r) = enc y @ (concat (map enc ys') @ s)" using Cons.prems(4) ys by simp
  from split [OF _ _ this] Cons.prems(1,2) ys have "x = y" "concat (map enc xs) @ r = concat (map enc ys') @ s" by auto
  moreover have "xs = ys' \<and> r = s" using Cons.IH [of ys'] Cons.prems(1-3) ys calculation(2) by simp
  ultimately show ?case using ys by simp
qed simp

end

lemma fixed_width_code:
  assumes "\<And>x. ok x \<Longrightarrow> length (enc x) = n" and "\<And>x y. ok x \<Longrightarrow> ok y \<Longrightarrow> enc x = enc y \<Longrightarrow> x = y"
  shows "wire_code ok enc"
proof
  fix x y r s assume "ok x" "ok y" "enc x @ r = enc y @ s"
  moreover from this have "enc x = enc y \<and> r = s" using assms(1) by (intro append_eq_append_conv [THEN iffD1]) simp_all
  ultimately show "x = y \<and> r = s" using assms(2) by blast
qed

section \<open>Words\<close>

lemma length_le_bytes [simp]: "length (le_bytes n w) = n"
  by (induction n arbitrary: w) simp_all

lemma le_bytes_bits:
  "le_bytes n v = le_bytes n w \<Longrightarrow> i < 8 * n \<Longrightarrow> bit (v :: 'a::len word) i = bit w i"
proof (induction n arbitrary: v w i)
  case (Suc n)
  show ?case
  proof (cases "i < 8")
    case True
    have "ucast v = (ucast w :: 8 word)" using Suc.prems(1) by simp
    then have "bit (ucast v :: 8 word) i = bit (ucast w :: 8 word) i" by simp
    then show ?thesis using True by (simp add: bit_simps)
  next
    case False
    have "le_bytes n (drop_bit 8 v) = le_bytes n (drop_bit 8 w)" "i - 8 < 8 * n" using Suc.prems False by auto
    from Suc.IH [OF this] False show ?thesis by (simp add: bit_simps)
  qed
qed simp

lemma le_bytes_inject:
  assumes "LENGTH('a) \<le> 8 * n" and "le_bytes n v = le_bytes n (w :: 'a::len word)"
  shows "v = w"
proof (rule bit_word_eqI)
  fix i assume "i < LENGTH('a)"
  then show "bit v i = bit w i" using le_bytes_bits [OF assms(2)] assms(1) by simp
qed

abbreviation all_ok :: "'a \<Rightarrow> bool" where
  "all_ok \<equiv> \<lambda>_. True"

interpretation u16: wire_code "all_ok :: 16 word \<Rightarrow> bool" "le_bytes 2"
  by (rule fixed_width_code) (auto intro: le_bytes_inject)

interpretation u32: wire_code "all_ok :: 32 word \<Rightarrow> bool" "le_bytes 4"
  by (rule fixed_width_code) (auto intro: le_bytes_inject)

interpretation u64: wire_code "all_ok :: 64 word \<Rightarrow> bool" "le_bytes 8"
  by (rule fixed_width_code) (auto intro: le_bytes_inject)

definition len_bytes :: "nat \<Rightarrow> 8 word list" where
  "len_bytes n = le_bytes 8 (of_nat n :: 64 word)"

interpretation usize: wire_code "\<lambda>n. n < 2 ^ 64" len_bytes
proof (rule fixed_width_code)
  fix x y :: nat assume "x < 2 ^ 64" "y < 2 ^ 64" "len_bytes x = len_bytes y"
  moreover from this have "(of_nat x :: 64 word) = of_nat y" by (auto simp: len_bytes_def intro: le_bytes_inject)
  ultimately show "x = y" using unat_of_nat_64 by metis
qed (simp add: len_bytes_def)

section \<open>Parts of a manifest\<close>

definition range_bytes :: "OrdinalRange \<Rightarrow> 8 word list" where
  "range_bytes r = le_bytes 8 (or_start r) @ le_bytes 8 (or_len r)"

fun scope_bytes :: "AddressScope \<Rightarrow> 8 word list" where
  "scope_bytes Whole = [0]"
| "scope_bytes (PublicRange start len) = 1 # le_bytes 8 start @ le_bytes 8 len"

definition claim_bytes :: "StorageClaim \<Rightarrow> 8 word list" where
  "claim_bytes c = le_bytes 4 (key_storage (cl_key c)) @ le_bytes 4 (key_type (cl_key c)) @ mode_rank (cl_mode c) # scope_bytes (cl_scope c)"

definition iteration_bytes :: "IterationManifest \<Rightarrow> 8 word list" where
  "iteration_bytes it =
     le_bytes 8 (it_ordinal it) @ le_bytes 8 (logical_step it) @ le_bytes 4 (worker_lane it)
     @ len_bytes (length (dependencies it)) @ concat (map (le_bytes 8) (dependencies it))
     @ len_bytes (length (claims it)) @ concat (map claim_bytes (claims it))
     @ range_bytes (correlation_range it) @ range_bytes (communication_range it)"

definition epoch_bytes :: "EpochManifest \<Rightarrow> 8 word list" where
  "epoch_bytes e =
     le_bytes 8 (ep_ordinal e) @ le_bytes 8 (communication_group e)
     @ len_bytes (length (iterations e)) @ concat (map iteration_bytes (iterations e))"

definition manifest_bytes :: "ScheduleManifest \<Rightarrow> 8 word list" where
  "manifest_bytes m =
     schedule_domain @ le_bytes 2 (format_version m) @ program_digest m @ storage_policy_digest m
     @ le_bytes 4 (protocol_profile m) @ le_bytes 4 (epoch_size m) @ le_bytes 4 (worker_lane_count m)
     @ len_bytes (length (epochs m)) @ concat (map epoch_bytes (epochs m))"

context wire_code
begin

text \<open>A vector is written as its length and then its members.\<close>

lemma counted:
  assumes "length xs < 2 ^ 64" and "length ys < 2 ^ 64" and "\<forall>x \<in> set xs. ok x" and "\<forall>y \<in> set ys. ok y"
  shows "len_bytes (length xs) @ concat (map enc xs) @ r = len_bytes (length ys) @ concat (map enc ys) @ s
    \<longleftrightarrow> xs = ys \<and> r = s"
proof
  assume "len_bytes (length xs) @ concat (map enc xs) @ r = len_bytes (length ys) @ concat (map enc ys) @ s"
  then have "length xs = length ys \<and> concat (map enc xs) @ r = concat (map enc ys) @ s"
    by (simp only: usize.split_iff [OF assms(1,2)])
  then show "xs = ys \<and> r = s" using many [OF assms(3,4)] by blast
qed simp

end

lemmas word_codes = u16.split_iff [OF TrueI TrueI] u32.split_iff [OF TrueI TrueI] u64.split_iff [OF TrueI TrueI]

interpretation range: wire_code all_ok range_bytes
  by unfold_locales (auto simp: range_bytes_def word_codes)

interpretation scope: wire_code all_ok scope_bytes
proof
  fix x y :: AddressScope and r s assume "scope_bytes x @ r = scope_bytes y @ s"
  then show "x = y \<and> r = s" by (cases x; cases y) (auto simp: word_codes)
qed

interpretation claim: wire_code all_ok claim_bytes
  by unfold_locales
    (auto simp: claim_bytes_def word_codes scope.split_iff [OF TrueI TrueI] mode_rank_inject StorageClaim.expand StorageKey.expand)

text \<open>Iterations, epochs and manifests of encodable size.\<close>

definition iteration_sized :: "IterationManifest \<Rightarrow> bool" where
  "iteration_sized it \<longleftrightarrow> length (dependencies it) < 2 ^ 64 \<and> length (claims it) < 2 ^ 64"

definition epoch_sized :: "EpochManifest \<Rightarrow> bool" where
  "epoch_sized e \<longleftrightarrow> length (iterations e) < 2 ^ 64 \<and> (\<forall>it \<in> set (iterations e). iteration_sized it)"

definition manifest_sized :: "ScheduleManifest \<Rightarrow> bool" where
  "manifest_sized m \<longleftrightarrow> length (program_digest m) = 32 \<and> length (storage_policy_digest m) = 32
     \<and> length (epochs m) < 2 ^ 64 \<and> (\<forall>e \<in> set (epochs m). epoch_sized e)"

interpretation iteration: wire_code iteration_sized iteration_bytes
proof
  fix x y :: IterationManifest and r s
  assume ok: "iteration_sized x" "iteration_sized y" and eq: "iteration_bytes x @ r = iteration_bytes y @ s"
  have deps: "length (dependencies x) < 2 ^ 64" "length (dependencies y) < 2 ^ 64"
    and cls: "length (claims x) < 2 ^ 64" "length (claims y) < 2 ^ 64" using ok by (simp_all add: iteration_sized_def)
  have d: "len_bytes (length (dependencies x)) @ concat (map (le_bytes 8) (dependencies x)) @ a
      = len_bytes (length (dependencies y)) @ concat (map (le_bytes 8) (dependencies y)) @ b
      \<longleftrightarrow> dependencies x = dependencies y \<and> a = b" for a b
    by (rule u64.counted [OF deps]) simp_all
  have c: "len_bytes (length (claims x)) @ concat (map claim_bytes (claims x)) @ a
      = len_bytes (length (claims y)) @ concat (map claim_bytes (claims y)) @ b \<longleftrightarrow> claims x = claims y \<and> a = b" for a b
    by (rule claim.counted [OF cls]) simp_all
  from eq show "x = y \<and> r = s"
    unfolding iteration_bytes_def append_assoc word_codes d c range.split_iff [OF TrueI TrueI] by simp
qed

interpretation epoch: wire_code epoch_sized epoch_bytes
proof
  fix x y :: EpochManifest and r s
  assume ok: "epoch_sized x" "epoch_sized y" and eq: "epoch_bytes x @ r = epoch_bytes y @ s"
  have "len_bytes (length (iterations x)) @ concat (map iteration_bytes (iterations x)) @ a
      = len_bytes (length (iterations y)) @ concat (map iteration_bytes (iterations y)) @ b
      \<longleftrightarrow> iterations x = iterations y \<and> a = b" for a b
    by (rule iteration.counted) (use ok in \<open>simp_all add: epoch_sized_def\<close>)
  with eq show "x = y \<and> r = s"
    unfolding epoch_bytes_def append_assoc word_codes by simp
qed

lemma manifest_bytes_inject:
  assumes "manifest_sized x" and "manifest_sized y" and "manifest_bytes x = manifest_bytes y"
  shows "x = y"
proof -
  have es: "len_bytes (length (epochs x)) @ concat (map epoch_bytes (epochs x)) @ [] = len_bytes (length (epochs y)) @ concat (map epoch_bytes (epochs y)) @ []
      \<longleftrightarrow> epochs x = epochs y \<and> ([] :: 8 word list) = []"
    by (rule epoch.counted) (use assms(1,2) in \<open>simp_all add: manifest_sized_def\<close>)
  have len: "length (program_digest x) = length (program_digest y)" "length (storage_policy_digest x) = length (storage_policy_digest y)"
    using assms(1,2) by (simp_all add: manifest_sized_def)
  show ?thesis using assms(3) len es unfolding manifest_bytes_def append_assoc append_same_eq same_append_eq word_codes
    by (simp add: append_eq_append_conv word_codes)
qed

section \<open>The writer\<close>

text \<open>The pushing functions append these bytes, and fail only where a length does not fit.\<close>

lemma push_u64_bytes: "push_u64 out v = out @ le_bytes 8 v"
  by (simp add: push_u64_def)

lemma push_claim_bytes: "push_claim c out = out @ claim_bytes c"
  by (cases "cl_scope c"; cases "cl_mode c") (simp_all add: push_claim_def push_u32_def push_u64_def claim_bytes_def)

lemma push_range_bytes: "push_range out r = out @ range_bytes r"
  by (simp add: push_range_def push_u64_def range_bytes_def)

lemma fold_push: "(\<And>x out. f x out = out @ enc x) \<Longrightarrow> fold f xs out = out @ concat (map enc xs)"
  by (induction xs arbitrary: out) simp_all

lemma push_len_bytes: "push_len out n = (if n < 2 ^ 64 then Inr (out @ len_bytes n) else Inl LengthOverflow)"
  by (simp add: push_len_def len_bytes_def push_u64_def)

lemma push_iteration_bytes:
  "push_iteration it out = (if iteration_sized it then Inr (out @ iteration_bytes it) else Inl LengthOverflow)"
proof -
  have "fold (\<lambda>d out. push_u64 out d) ds out = out @ concat (map (le_bytes 8) ds)" for ds out
    by (rule fold_push) (rule push_u64_bytes)
  moreover have "fold push_claim cs out = out @ concat (map claim_bytes cs)" for cs out
    by (rule fold_push) (rule push_claim_bytes)
  ultimately show ?thesis
    unfolding push_iteration_def push_len_bytes iteration_sized_def
    by (simp add: push_range_bytes iteration_bytes_def push_u32_def push_u64_bytes)
qed

lemma rfold_push:
  assumes "\<And>x out. f x out = (if ok x then Inr (out @ enc x) else Inl LengthOverflow)"
  shows "rfold f xs out = (if \<forall>x \<in> set xs. ok x then Inr (out @ concat (map enc xs)) else Inl LengthOverflow)"
  by (induction xs arbitrary: out) (simp_all add: assms)

lemma push_epoch_bytes: "push_epoch e out = (if epoch_sized e then Inr (out @ epoch_bytes e) else Inl LengthOverflow)"
  unfolding push_epoch_def push_len_bytes epoch_sized_def
  by (simp add: rfold_push [of push_iteration, OF push_iteration_bytes] epoch_bytes_def push_u64_bytes)

lemma canonical_bytes_eq:
  assumes "length (program_digest m) = 32" and "length (storage_policy_digest m) = 32"
  shows "canonical_bytes m limits =
    rbind (validate_manifest m limits) (\<lambda>_. if manifest_sized m then Inr (manifest_bytes m) else Inl LengthOverflow)"
  unfolding canonical_bytes_def push_len_bytes manifest_sized_def using assms
  by (simp add: rfold_push [of push_epoch, OF push_epoch_bytes] manifest_bytes_def push_u16_def push_u32_def cong: sum.case_cong)

text \<open>A manifest with one iteration.\<close>

definition sample_manifest :: ScheduleManifest where
  "sample_manifest =
     (ScheduleManifest_new (replicate 32 1) (replicate 32 2) 7 4 2)
       \<lparr>epochs := [(EpochManifest_new 0 3)\<lparr>iterations := [IterationManifest_new 0 100 0]\<rparr>]\<rparr>"

lemma sample_manifest_digests: "length (program_digest sample_manifest) = 32" "length (storage_policy_digest sample_manifest) = 32"
  by (simp_all add: sample_manifest_def ScheduleManifest_new_def)

lemma sample_manifest_valid: "validate_manifest sample_manifest default_limits = Inr ()"
  by (simp add: sample_manifest_def ScheduleManifest_new_def EpochManifest_new_def IterationManifest_new_def validation_exact
      valid_manifest_def epochs_ok_def iterations_ok_def iteration_ok_def all_iterations_def default_limits_def
      ranges_ok_def range_fits_def empty_range_def)

lemma sample_manifest_sized: "manifest_sized sample_manifest"
  by (simp add: sample_manifest_def ScheduleManifest_new_def EpochManifest_new_def IterationManifest_new_def manifest_sized_def
      epoch_sized_def iteration_sized_def)

text \<open>C28. The canonical bytes determine the manifest: two manifests with 32-byte digests whose encodings
  succeed and agree are the same manifest, whatever the limits they were validated under.\<close>

theorem canonical_bytes_injective:
  assumes "length (program_digest m) = 32" "length (storage_policy_digest m) = 32"
    and "length (program_digest m') = 32" "length (storage_policy_digest m') = 32"
    and "canonical_bytes m limits = Inr b" and "canonical_bytes m' limits' = Inr b"
  shows "m = m'"
proof (rule manifest_bytes_inject)
  show "manifest_sized m" "manifest_sized m'" "manifest_bytes m = manifest_bytes m'"
    using assms(5,6) canonical_bytes_eq [OF assms(1,2)] canonical_bytes_eq [OF assms(3,4)]
    by (simp_all add: rbind_unit split: if_splits)
qed

theorem canonical_bytes_injective_witness:
  "canonical_bytes sample_manifest default_limits = Inr (manifest_bytes sample_manifest)
   \<and> canonicalize_manifest sample_manifest = sample_manifest"
proof -
  let ?m = sample_manifest and ?c = "canonicalize_manifest sample_manifest"
  have c: "epochs ?c = epochs ?m" "program_digest ?c = program_digest ?m" "storage_policy_digest ?c = storage_policy_digest ?m"
    by (simp_all add: canonicalize_manifest_def sample_manifest_def ScheduleManifest_new_def EpochManifest_new_def
        IterationManifest_new_def canonicalize_iteration_def)
  have b: "canonical_bytes ?m default_limits = Inr (manifest_bytes ?m)"
    by (simp add: canonical_bytes_eq [OF sample_manifest_digests] sample_manifest_valid sample_manifest_sized)
  have "?c = ?m\<lparr>epochs := epochs ?c\<rparr>" by (simp add: canonicalize_manifest_def)
  then have b': "canonical_bytes ?c default_limits = Inr (manifest_bytes ?m)" using b by (simp add: c)
  have d: "length (program_digest ?c) = 32" "length (storage_policy_digest ?c) = 32" using c sample_manifest_digests by simp_all
  show ?thesis using canonical_bytes_injective [OF d sample_manifest_digests b' b] b by simp
qed

text \<open>Encoding a manifest that validates under the default limits never fails: the errors of
  \<open>canonical_bytes\<close> are those of validation.\<close>

theorem canonical_bytes_total:
  assumes "length (program_digest m) = 32" and "length (storage_policy_digest m) = 32"
  shows "canonical_bytes m default_limits =
    rbind (validate_manifest m default_limits) (\<lambda>_. Inr (manifest_bytes m))"
proof (cases "validate_manifest m default_limits")
  case (Inr u)
  then have v: "valid_manifest m default_limits" using validation_exact by simp
  have "length (iterations e) < 2 ^ 64" if "e \<in> set (epochs m)" for e
  proof -
    have "length (iterations e) \<le> unat (epoch_size m)" using v that by (simp add: valid_manifest_def epochs_ok_def)
    also have "\<dots> < 2 ^ 32" using unsigned_less [of "epoch_size m", where ?'a = nat] by simp
    finally show ?thesis by simp
  qed
  moreover have "iteration_sized it" if "e \<in> set (epochs m)" "it \<in> set (iterations e)" for e it
  proof -
    have "it \<in> set (all_iterations (epochs m))" using that by (auto simp: all_iterations_def)
    then have "iteration_ok m default_limits it" using v by (simp add: valid_manifest_def iterations_ok_def)
    then show ?thesis by (simp add: iteration_ok_def iteration_sized_def default_limits_def)
  qed
  moreover have "length (epochs m) < 2 ^ 64" using v by (simp add: valid_manifest_def default_limits_def)
  ultimately have "manifest_sized m" using assms by (simp add: manifest_sized_def epoch_sized_def)
  then show ?thesis using canonical_bytes_eq [OF assms] by simp
qed (simp add: canonical_bytes_def)

theorem canonical_bytes_total_witness:
  "canonical_bytes sample_manifest default_limits = Inr (manifest_bytes sample_manifest)"
  using canonical_bytes_total [OF sample_manifest_digests] by (simp add: sample_manifest_valid)

end
