(* ===== verification/Scheduler.thy ===== *)
theory Scheduler
  imports Schedule
begin

text \<open>
  Execution over a schedule manifest (\<open>volar-ir-common/src/scheduler.rs\<close>): the storage bank, the
  transactions opened against iterations, and the runtime that opens, commits and aborts them.

  The bank is a finite map from cells to values of any type \<open>'v\<close>. A method that takes \<open>&mut self\<close> and
  may fail after changing the runtime is an action: it returns its result together with the runtime.
  A method that changes nothing when it fails returns the changed state with its result.
\<close>

section \<open>Storage and transactions\<close>

datatype AccessKind = AccessRead | AccessWrite

record StorageAccessEvent =
  ev_key :: StorageKey
  ev_address :: "64 word"
  ev_kind :: AccessKind
  ev_sequence :: "32 word"

record TraceFragment =
  fr_epoch :: EpochId
  fr_iteration :: IterationId
  fr_events :: "StorageAccessEvent list"

type_synonym StorageCellKey = "StorageKey \<times> 64 word"

type_synonym 'v bank = "StorageCellKey \<rightharpoonup> 'v"

definition bank_new :: "'v bank" where
  "bank_new = Map.empty"

definition bank_insert :: "'v bank \<Rightarrow> StorageKey \<Rightarrow> 64 word \<Rightarrow> 'v \<Rightarrow> 'v bank" where
  "bank_insert b key address v = b((key, address) \<mapsto> v)"

definition bank_get :: "'v bank \<Rightarrow> StorageKey \<Rightarrow> 64 word \<Rightarrow> 'v option" where
  "bank_get b key address = b (key, address)"

record 'v BufferedWrite =
  bw_key :: StorageKey
  bw_address :: "64 word"
  bw_sequence :: "32 word"
  bw_value :: 'v

record 'v ScheduleTransaction =
  tx_iteration :: IterationId
  tx_claims :: "StorageClaim list"
  tx_writes :: "'v BufferedWrite list"
  tx_events :: "StorageAccessEvent list"
  tx_closed :: bool

datatype SchedulerError =
    Manifest ManifestError
  | UnknownIteration IterationId
  | DuplicateCompletion IterationId
  | EpochNotCurrent IterationId EpochId
  | DependencyNotCommitted IterationId IterationId
  | ConflictingClaims IterationId IterationId
  | UndeclaredAccess IterationId StorageKey "64 word" AccessKind
  | AccessModeViolation IterationId StorageKey
  | TransactionClosed IterationId
  | TraceOverflow IterationId
  | IncompleteEpoch EpochId IterationId
  | NoRemainingEpochs
  | InvalidCompletionOrder IterationId
  | OperationFailed
  | RuntimeAborted

section \<open>The runtime\<close>

record 'v ScheduleRuntime =
  manifest :: ScheduleManifest
  bank :: "'v bank"
  current_epoch :: nat
  active :: "IterationId list"
  completed :: "IterationId list"
  trace :: "TraceFragment list"
  aborted :: bool

type_synonym ('v, 'a) action = "'v ScheduleRuntime \<Rightarrow> (SchedulerError + 'a) \<times> 'v ScheduleRuntime"

definition abind :: "('v, 'a) action \<Rightarrow> ('a \<Rightarrow> ('v, 'b) action) \<Rightarrow> ('v, 'b) action" where
  "abind m f r = (case m r of (Inl e, r') \<Rightarrow> (Inl e, r') | (Inr x, r') \<Rightarrow> f x r')"

definition reads :: "('v ScheduleRuntime \<Rightarrow> SchedulerError + 'a) \<Rightarrow> ('v, 'a) action" where
  "reads f r = (f r, r)"

definition abort_with :: "SchedulerError \<Rightarrow> ('v, 'a) action" where
  "abort_with e r = (Inl e, r\<lparr>aborted := True\<rparr>)"

definition or_abort :: "('v ScheduleRuntime \<Rightarrow> SchedulerError + 'a) \<Rightarrow> ('v, 'a) action" where
  "or_abort f r = (case f r of Inl e \<Rightarrow> abort_with e r | Inr x \<Rightarrow> (Inr x, r))"

definition runtime_new :: "ScheduleManifest \<Rightarrow> 'v bank \<Rightarrow> SchedulerError + 'v ScheduleRuntime" where
  "runtime_new m b =
     (case validate_manifest m default_limits of
        Inl e \<Rightarrow> Inl (Manifest e)
      | Inr _ \<Rightarrow> Inr \<lparr>manifest = m, bank = b, current_epoch = 0, active = [], completed = [], trace = [], aborted = False\<rparr>)"

definition is_complete :: "'v ScheduleRuntime \<Rightarrow> bool" where
  "is_complete r \<longleftrightarrow> current_epoch r = length (epochs (manifest r)) \<and> \<not> aborted r"

definition ensure_live :: "'v ScheduleRuntime \<Rightarrow> SchedulerError + unit" where
  "ensure_live r = (if aborted r then Inl RuntimeAborted else Inr ())"

definition current_manifest :: "'v ScheduleRuntime \<Rightarrow> SchedulerError + EpochManifest" where
  "current_manifest r =
     (case nth_opt (epochs (manifest r)) (current_epoch r) of Some e \<Rightarrow> Inr e | None \<Rightarrow> Inl NoRemainingEpochs)"

definition current_epoch_id :: "'v ScheduleRuntime \<Rightarrow> SchedulerError + EpochId" where
  "current_epoch_id r = rbind (current_manifest r) (\<lambda>e. Inr (ep_ordinal e))"

fun find_in_epochs :: "IterationId \<Rightarrow> EpochManifest list \<Rightarrow> (EpochManifest \<times> IterationManifest) option" where
  "find_in_epochs n [] = None"
| "find_in_epochs n (e # es) =
     (case List.find (\<lambda>candidate. it_ordinal candidate = n) (iterations e) of
        Some it \<Rightarrow> Some (e, it)
      | None \<Rightarrow> find_in_epochs n es)"

definition find_iteration :: "IterationId \<Rightarrow> 'v ScheduleRuntime \<Rightarrow> SchedulerError + (EpochManifest \<times> IterationManifest)" where
  "find_iteration n r =
     (case find_in_epochs n (epochs (manifest r)) of Some x \<Rightarrow> Inr x | None \<Rightarrow> Inl (UnknownIteration n))"

fun check_committed :: "IterationId \<Rightarrow> IterationId list \<Rightarrow> ('v, unit) action" where
  "check_committed n [] r = (Inr (), r)"
| "check_committed n (d # ds) r =
     (if d \<notin> set (completed r) then abort_with (DependencyNotCommitted n d) r else check_committed n ds r)"

fun check_active :: "IterationId \<Rightarrow> IterationManifest \<Rightarrow> IterationId list \<Rightarrow> ('v, unit) action" where
  "check_active n d [] r = (Inr (), r)"
| "check_active n d (a # as) r =
     abind (reads (find_iteration a)) (\<lambda>(_, active_descriptor).
       if list_ex (\<lambda>left. list_ex (\<lambda>right. conflicts_with left right) (claims d)) (claims active_descriptor)
       then abort_with (ConflictingClaims a n)
       else check_active n d as) r"

definition begin_transaction :: "IterationId \<Rightarrow> ('v, 'v ScheduleTransaction) action" where
  "begin_transaction n =
     abind (reads ensure_live) (\<lambda>_.
     abind (or_abort (find_iteration n)) (\<lambda>(epoch, descriptor).
     abind (reads current_epoch_id) (\<lambda>current_id.
     if ep_ordinal epoch \<noteq> current_id then abort_with (EpochNotCurrent n (ep_ordinal epoch))
     else (\<lambda>r.
       if n \<in> set (completed r) then abort_with (DuplicateCompletion n) r
       else if n \<in> set (active r) then abort_with (DuplicateCompletion n) r
       else abind (check_committed n (dependencies descriptor)) (\<lambda>_.
            abind (check_active n descriptor (active r)) (\<lambda>_. \<lambda>r.
              (Inr \<lparr>tx_iteration = n, tx_claims = claims descriptor, tx_writes = [], tx_events = [], tx_closed = False\<rparr>,
               r\<lparr>active := active r @ [n]\<rparr>))) r))))"

fun scope_contains :: "AddressScope \<Rightarrow> 64 word \<Rightarrow> bool" where
  "scope_contains Whole address = True"
| "scope_contains (PublicRange start len) address =
     (case checked_add start len of None \<Rightarrow> False | Some e \<Rightarrow> address \<ge> start \<and> address < e)"

definition ensure_transaction_active :: "'v ScheduleTransaction \<Rightarrow> 'v ScheduleRuntime \<Rightarrow> SchedulerError + unit" where
  "ensure_transaction_active tx r =
     (if tx_closed tx \<or> tx_iteration tx \<notin> set (active r) then Inl (TransactionClosed (tx_iteration tx)) else Inr ())"

definition validate_transaction_access ::
    "'v ScheduleTransaction \<Rightarrow> StorageKey \<Rightarrow> 64 word \<Rightarrow> AccessKind \<Rightarrow> 'v ScheduleRuntime \<Rightarrow> SchedulerError + unit" where
  "validate_transaction_access tx key address k r =
     rbind (ensure_live r) (\<lambda>_.
     rbind (ensure_transaction_active tx r) (\<lambda>_.
     let matching_claims = filter (\<lambda>claim. cl_key claim = key \<and> scope_contains (cl_scope claim) address) (tx_claims tx);
         has_claim = (matching_claims \<noteq> []);
         permits_write = list_ex (\<lambda>claim. effective (cl_mode claim) \<noteq> ClaimRead) matching_claims
     in if \<not> has_claim then Inl (UndeclaredAccess (tx_iteration tx) key address k)
        else if k = AccessWrite \<and> \<not> permits_write then Inl (AccessModeViolation (tx_iteration tx) key)
        else Inr ()))"

definition record_event ::
    "'v ScheduleTransaction \<Rightarrow> StorageKey \<Rightarrow> 64 word \<Rightarrow> AccessKind \<Rightarrow> 'v ScheduleRuntime
     \<Rightarrow> SchedulerError + (32 word \<times> 'v ScheduleTransaction)" where
  "record_event tx key address k r =
     rbind (ensure_transaction_active tx r) (\<lambda>_.
     if length (tx_events tx) \<ge> 2 ^ 32 then Inl (TraceOverflow (tx_iteration tx))
     else let sequence = of_nat (length (tx_events tx))
          in Inr (sequence, tx\<lparr>tx_events := tx_events tx @
                  [\<lparr>ev_key = key, ev_address = address, ev_kind = k, ev_sequence = sequence\<rparr>]\<rparr>))"

definition read_cell ::
    "'v ScheduleTransaction \<Rightarrow> StorageKey \<Rightarrow> 64 word \<Rightarrow> 'v ScheduleRuntime
     \<Rightarrow> SchedulerError + ('v option \<times> 'v ScheduleTransaction)" where
  "read_cell tx key address r =
     rbind (validate_transaction_access tx key address AccessRead r) (\<lambda>_.
     rbind (record_event tx key address AccessRead r) (\<lambda>(_, tx1).
       Inr (case List.find (\<lambda>w. bw_key w = key \<and> bw_address w = address) (rev (tx_writes tx1)) of
              Some w \<Rightarrow> Some (bw_value w)
            | None \<Rightarrow> bank_get (bank r) key address, tx1)))"

definition write_cell ::
    "'v ScheduleTransaction \<Rightarrow> StorageKey \<Rightarrow> 64 word \<Rightarrow> 'v \<Rightarrow> 'v ScheduleRuntime
     \<Rightarrow> SchedulerError + 'v ScheduleTransaction" where
  "write_cell tx key address v r =
     rbind (validate_transaction_access tx key address AccessWrite r) (\<lambda>_.
     rbind (record_event tx key address AccessWrite r) (\<lambda>(sequence, tx1).
       Inr (tx1\<lparr>tx_writes := tx_writes tx1 @
              [\<lparr>bw_key = key, bw_address = address, bw_sequence = sequence, bw_value = v\<rparr>]\<rparr>)))"

definition remove_active :: "IterationId \<Rightarrow> 'v ScheduleRuntime \<Rightarrow> 'v ScheduleRuntime" where
  "remove_active n r = r\<lparr>active := remove1 n (active r)\<rparr>"

definition apply_writes :: "'v BufferedWrite list \<Rightarrow> 'v bank \<Rightarrow> 'v bank" where
  "apply_writes ws b = foldl (\<lambda>b w. bank_insert b (bw_key w) (bw_address w) (bw_value w)) b ws"

definition commit ::
    "'v ScheduleTransaction \<Rightarrow> 'v ScheduleRuntime \<Rightarrow> SchedulerError + (TraceFragment \<times> 'v ScheduleRuntime)" where
  "commit tx r =
     rbind (ensure_live r) (\<lambda>_.
     rbind (ensure_transaction_active tx r) (\<lambda>_.
     rbind (current_epoch_id r) (\<lambda>epoch.
     let writes = sort_key (\<lambda>w. (bw_key w, bw_address w, bw_sequence w)) (tx_writes tx);
         fragment = \<lparr>fr_epoch = epoch, fr_iteration = tx_iteration tx, fr_events = tx_events tx\<rparr>;
         r1 = remove_active (tx_iteration tx) (r\<lparr>bank := apply_writes writes (bank r)\<rparr>)
     in Inr (fragment,
          r1\<lparr>completed := completed r1 @ [tx_iteration tx],
             trace := sort_key (\<lambda>f. (fr_epoch f, fr_iteration f)) (trace r1 @ [fragment])\<rparr>))))"

definition abort_transaction :: "'v ScheduleTransaction \<Rightarrow> 'v ScheduleRuntime \<Rightarrow> 'v ScheduleRuntime" where
  "abort_transaction tx r =
     (if tx_iteration tx \<in> set (active r) then remove_active (tx_iteration tx) r else r)\<lparr>aborted := True\<rparr>"

fun first_incomplete :: "IterationId list \<Rightarrow> IterationManifest list \<Rightarrow> IterationId option" where
  "first_incomplete finished [] = None"
| "first_incomplete finished (it # its) =
     (if it_ordinal it \<notin> set finished then Some (it_ordinal it) else first_incomplete finished its)"

definition finish_epoch :: "('v, TraceFragment list) action" where
  "finish_epoch =
     abind (reads ensure_live) (\<lambda>_.
     abind (reads current_manifest) (\<lambda>epoch r.
       if active r \<noteq> [] then abort_with (IncompleteEpoch (ep_ordinal epoch) (active r ! 0)) r
       else case first_incomplete (completed r) (iterations epoch) of
              Some n \<Rightarrow> abort_with (IncompleteEpoch (ep_ordinal epoch) n) r
            | None \<Rightarrow>
                (Inr (sort_key fr_iteration (filter (\<lambda>f. fr_epoch f = ep_ordinal epoch) (trace r))),
                 r\<lparr>current_epoch := current_epoch r + 1\<rparr>)))"

text \<open>The operation callback is \<open>FnMut\<close>: it carries a state of its own.\<close>

type_synonym ('v, 's) operation =
  "'s \<Rightarrow> 'v ScheduleRuntime \<Rightarrow> IterationManifest \<Rightarrow> 'v ScheduleTransaction \<Rightarrow> (SchedulerError + unit) \<times> 'v ScheduleTransaction \<times> 's"

fun execute_all ::
    "('v, 's) operation \<Rightarrow> IterationId list \<Rightarrow> 's \<Rightarrow> 'v ScheduleRuntime
     \<Rightarrow> (SchedulerError + unit) \<times> 'v ScheduleRuntime \<times> 's" where
  "execute_all op [] s r = (Inr (), r, s)"
| "execute_all op (n # ns) s r =
     (case or_abort (find_iteration n) r of
        (Inl e, r1) \<Rightarrow> (Inl e, r1, s)
      | (Inr (_, descriptor), _) \<Rightarrow>
          (case begin_transaction n r of
             (Inl e, r1) \<Rightarrow> (Inl e, r1, s)
           | (Inr tx, r1) \<Rightarrow>
               (case op s r1 descriptor tx of
                  (Inl e, tx1, s1) \<Rightarrow> (Inl e, abort_transaction tx1 r1, s1)
                | (Inr _, tx1, s1) \<Rightarrow>
                    (case commit tx1 r1 of
                       Inl e \<Rightarrow> (Inl e, r1, s1)
                     | Inr (_, r2) \<Rightarrow> execute_all op ns s1 r2))))"

definition execute_epoch ::
    "('v, 's) operation \<Rightarrow> IterationId list \<Rightarrow> 's \<Rightarrow> 'v ScheduleRuntime
     \<Rightarrow> (SchedulerError + TraceFragment list) \<times> 'v ScheduleRuntime \<times> 's" where
  "execute_epoch op physical_order s r =
     (case rbind (ensure_live r) (\<lambda>_. current_manifest r) of
        Inl e \<Rightarrow> (Inl e, r, s)
      | Inr epoch \<Rightarrow>
          if length physical_order \<noteq> length (iterations epoch)
          then (Inl (IncompleteEpoch (ep_ordinal epoch)
                      (case iterations epoch of it # _ \<Rightarrow> it_ordinal it | [] \<Rightarrow> 0)), r\<lparr>aborted := True\<rparr>, s)
          else (case execute_all op physical_order s r of
                  (Inl e, r1, s1) \<Rightarrow> (Inl e, r1, s1)
                | (Inr _, r1, s1) \<Rightarrow> (case finish_epoch r1 of (res, r2) \<Rightarrow> (res, r2, s1))))"

end
