(* ===== verification/SchedulerSerial.thy ===== *)
theory SchedulerSerial
  imports Scheduler ScheduleCanonical
begin

text \<open>
  Serialisability of the scheduler. Clients open, use and commit transactions in any interleaving;
  because a transaction holds all its claims from \<open>begin\<close> to \<open>commit\<close>, the committed transactions have
  the effect, and every read in them the result, of running one after the other in commit order.
\<close>

section \<open>Claims and cells\<close>

definition covers :: "StorageClaim list \<Rightarrow> StorageCellKey \<Rightarrow> bool" where
  "covers cs cell \<longleftrightarrow> (\<exists>c \<in> set cs. cl_key c = fst cell \<and> scope_contains (cl_scope c) (snd cell))"

definition covers_write :: "StorageClaim list \<Rightarrow> StorageCellKey \<Rightarrow> bool" where
  "covers_write cs cell \<longleftrightarrow>
     (\<exists>c \<in> set cs. cl_key c = fst cell \<and> scope_contains (cl_scope c) (snd cell) \<and> cl_mode c \<noteq> ClaimRead)"

definition disjoint_claims :: "StorageClaim list \<Rightarrow> StorageClaim list \<Rightarrow> bool" where
  "disjoint_claims cs ds \<longleftrightarrow> (\<forall>c \<in> set cs. \<forall>d \<in> set ds. \<not> conflicts_with c d)"

lemma covers_write_covers: "covers_write cs cell \<Longrightarrow> covers cs cell"
  by (auto simp: covers_write_def covers_def)

lemma unat_sum_64: "checked_add a b = Some e \<Longrightarrow> unat e = unat a + unat (b :: 64 word)"
  by (auto simp: checked_add_def unat_word_ariths split: if_splits)

lemma shared_cell_overlaps:
  assumes "scope_contains s a" and "scope_contains t a"
  shows "scope_overlaps s t"
  using assms by (cases s; cases t) (auto split: option.splits)

lemma covered_write_excludes:
  assumes "disjoint_claims cs ds" and "covers_write cs cell"
  shows "\<not> covers ds cell" and "disjoint_claims ds cs"
proof -
  show "\<not> covers ds cell"
    using assms shared_cell_overlaps unfolding disjoint_claims_def covers_write_def covers_def conflicts_place by metis
  show "disjoint_claims ds cs" using assms(1) unfolding disjoint_claims_def by (metis conflicts_sym)
qed

text \<open>Conflict detection is exact: two valid claims conflict if and only if they name the same typed
  namespace, one of them is not a read claim, and some cell address lies in both their scopes.\<close>

theorem conflict_exact:
  assumes "claim_validate c = Inr ()" and "claim_validate d = Inr ()"
  shows "conflicts_with c d \<longleftrightarrow>
    cl_key c = cl_key d \<and> \<not> (cl_mode c = ClaimRead \<and> cl_mode d = ClaimRead)
    \<and> (\<exists>a. scope_contains (cl_scope c) a \<and> scope_contains (cl_scope d) a)"
proof -
  have "scope_overlaps s t \<longleftrightarrow> (\<exists>a. scope_contains s a \<and> scope_contains t a)"
    if s: "scope_validate s = Inr ()" and t: "scope_validate t = Inr ()" for s t
  proof
    assume o: "scope_overlaps s t"
    have start: "scope_contains (PublicRange x l) x" if "scope_validate (PublicRange x l) = Inr ()" for x l
      using that unat_sum_64 [of x l] by (auto simp: word_le_nat_alt word_less_nat_alt unat_gt_0 split: if_splits option.splits)
    show "\<exists>a. scope_contains s a \<and> scope_contains t a"
    proof (cases s; cases t)
      fix x l y m assume st: "s = PublicRange x l" "t = PublicRange y m"
      let ?a = "if x \<le> y then y else x"
      have "scope_contains s ?a \<and> scope_contains t ?a"
        using o start [of x l] start [of y m] s t by (auto simp: st split: option.splits if_splits)
      then show ?thesis by blast
    qed (use s t start in auto)
  qed (use shared_cell_overlaps in blast)
  then show ?thesis using assms unfolding claim_validate_def conflicts_place by blast
qed

theorem conflict_exact_witness:
  "conflicts_with (StorageClaim (StorageKey 1 2) (PublicRange 0 4) ClaimWrite) (StorageClaim (StorageKey 1 2) (PublicRange 3 2) ClaimRead)"
proof -
  let ?c = "StorageClaim (StorageKey 1 2) (PublicRange 0 4) ClaimWrite" and ?d = "StorageClaim (StorageKey 1 2) (PublicRange 3 2) ClaimRead"
  have v: "claim_validate ?c = Inr ()" "claim_validate ?d = Inr ()" by (simp_all add: claim_validate_def checked_add_def)
  have "scope_contains (cl_scope ?c) 3 \<and> scope_contains (cl_scope ?d) 3" by (simp add: checked_add_def)
  then show ?thesis using conflict_exact [OF v] by auto
qed

section \<open>Operations and their serial meaning\<close>

datatype 'v memop = OpRead StorageCellKey "'v option" | OpWrite StorageCellKey 'v

fun reads_ok :: "'v bank \<Rightarrow> 'v memop list \<Rightarrow> bool" where
  "reads_ok b [] \<longleftrightarrow> True"
| "reads_ok b (OpRead cell v # ops) \<longleftrightarrow> b cell = v \<and> reads_ok b ops"
| "reads_ok b (OpWrite cell v # ops) \<longleftrightarrow> reads_ok (b(cell \<mapsto> v)) ops"

fun written :: "'v memop list \<Rightarrow> (StorageCellKey \<times> 'v) list" where
  "written [] = []"
| "written (OpRead cell v # ops) = written ops"
| "written (OpWrite cell v # ops) = (cell, v) # written ops"

definition apply_ops :: "'v bank \<Rightarrow> 'v memop list \<Rightarrow> 'v bank" where
  "apply_ops b ops = b ++ map_of (rev (written ops))"

fun op_cell :: "'v memop \<Rightarrow> StorageCellKey" where
  "op_cell (OpRead cell v) = cell"
| "op_cell (OpWrite cell v) = cell"

lemma written_append [simp]: "written (xs @ ys) = written xs @ written ys"
  by (induction xs rule: written.induct) simp_all

lemma apply_ops_Nil [simp]: "apply_ops b [] = b"
  by (simp add: apply_ops_def)

lemma apply_ops_append: "apply_ops b (xs @ ys) = apply_ops (apply_ops b xs) ys"
  by (simp add: apply_ops_def)

lemma apply_ops_Cons: "apply_ops b (x # xs) = apply_ops (apply_ops b [x]) xs"
  using apply_ops_append [of b "[x]" xs] by simp

lemma reads_ok_append: "reads_ok b (xs @ ys) \<longleftrightarrow> reads_ok b xs \<and> reads_ok (apply_ops b xs) ys"
proof (induction xs arbitrary: b)
  case (Cons x xs)
  then show ?case
  proof (cases x)
    case (OpWrite cell v)
    have "apply_ops b (OpWrite cell v # xs) = apply_ops (b(cell \<mapsto> v)) xs" by (subst apply_ops_Cons) (simp add: apply_ops_def)
    then show ?thesis using Cons.IH OpWrite by (simp add: fun_upd_def)
  qed (simp add: apply_ops_def)
qed simp

lemma written_cells: "set (map fst (written ops)) \<subseteq> op_cell ` set ops"
  by (induction ops rule: written.induct) auto

text \<open>Operations only see the cells they touch.\<close>

lemma reads_ok_agree:
  assumes "\<forall>x \<in> set ops. b (op_cell x) = b' (op_cell x)"
  shows "reads_ok b ops = reads_ok b' ops"
  using assms
proof (induction ops arbitrary: b b')
  case (Cons x ops)
  then show ?case by (cases x) auto
qed simp

lemma apply_ops_other: "cell \<notin> fst ` set (written ops) \<Longrightarrow> apply_ops b ops cell = b cell"
proof -
  assume "cell \<notin> fst ` set (written ops)"
  then have "map_of (rev (written ops)) cell = None" by (simp add: map_of_eq_None_iff)
  then show "apply_ops b ops cell = b cell" by (simp add: apply_ops_def map_add_def)
qed

section \<open>Buffered writes\<close>

definition buffered :: "'v BufferedWrite list \<Rightarrow> (StorageCellKey \<times> 'v) list" where
  "buffered = map (\<lambda>w. ((bw_key w, bw_address w), bw_value w))"

lemma apply_writes_eq: "apply_writes ws b = b ++ map_of (rev (buffered ws))"
proof (induction ws rule: rev_induct)
  case (snoc w ws)
  then show ?case by (auto simp: apply_writes_def bank_insert_def buffered_def fun_eq_iff map_add_def)
qed (simp add: apply_writes_def buffered_def)

lemma find_last_write:
  "(case List.find (\<lambda>w. bw_key w = key \<and> bw_address w = address) (rev ws) of
      Some w \<Rightarrow> Some (bw_value w) | None \<Rightarrow> bank_get b key address)
   = (b ++ map_of (rev (buffered ws))) (key, address)"
proof (induction ws rule: rev_induct)
  case (snoc w ws)
  then show ?case by (auto simp: buffered_def map_add_def bank_get_def)
qed (simp add: buffered_def bank_get_def)

lemma map_of_filter_key: "map_of xs c = map_of (filter (\<lambda>p. fst p = c) xs) c"
  by (induction xs) auto

lemma commit_order_irrelevant:
  assumes "sorted_wrt (<) (map bw_sequence ws)"
  shows "apply_writes (sort_key (\<lambda>w. (bw_key w, bw_address w, bw_sequence w)) ws) b = apply_writes ws b"
proof -
  let ?k = "\<lambda>w. (bw_key w, bw_address w, bw_sequence w)"
  have "map_of (rev (buffered (sort_key ?k ws))) c = map_of (rev (buffered ws)) c" for c
  proof -
    let ?P = "\<lambda>w. (bw_key w, bw_address w) = c"
    have keep: "filter (\<lambda>p. fst p = c) (rev (buffered xs)) = rev (buffered (filter ?P xs))" for xs :: "'a BufferedWrite list"
      by (simp add: buffered_def rev_filter [symmetric] filter_map o_def)
    have "sorted_wrt (\<lambda>v w. bw_sequence v < bw_sequence w) (filter ?P ws)"
      using assms by (simp add: sorted_wrt_map sorted_wrt_filter)
    then have "sorted (map ?k (filter ?P ws))"
      unfolding sorted_map by (rule sorted_wrt_mono_rel [rotated]) auto
    then have "sort_key ?k (filter ?P ws) = filter ?P ws" by (rule sort_key_id_if_sorted)
    then have "filter ?P (sort_key ?k ws) = filter ?P ws" by (simp add: filter_sort)
    then show ?thesis using map_of_filter_key [of "rev (buffered (sort_key ?k ws))" c] map_of_filter_key [of "rev (buffered ws)" c]
      unfolding keep by simp
  qed
  then show ?thesis by (simp add: apply_writes_eq map_add_def)
qed

section \<open>What the runtime's methods do\<close>

lemma abind_Inr: "abind m f r = (Inr x, r') \<longleftrightarrow> (\<exists>y r1. m r = (Inr y, r1) \<and> f y r1 = (Inr x, r'))"
  by (auto simp: abind_def split: prod.splits sum.splits)

lemma reads_Inr: "reads f r = (Inr x, r') \<longleftrightarrow> f r = Inr x \<and> r' = r"
  by (auto simp: reads_def)

lemma or_abort_Inr: "or_abort f r = (Inr x, r') \<longleftrightarrow> f r = Inr x \<and> r' = r"
  by (auto simp: or_abort_def abort_with_def split: sum.splits)

lemma ensure_live_Inr: "ensure_live r = Inr u \<longleftrightarrow> \<not> aborted r"
  by (simp add: ensure_live_def)

lemma check_committed_Inr: "check_committed n ds r = (Inr u, r') \<longleftrightarrow> (\<forall>d \<in> set ds. d \<in> set (completed r)) \<and> r' = r"
  by (induction n ds r rule: check_committed.induct) (auto simp: abort_with_def)

definition free_of :: "IterationManifest \<Rightarrow> 'v ScheduleRuntime \<Rightarrow> IterationId \<Rightarrow> bool" where
  "free_of d r a \<longleftrightarrow> (\<exists>ea da. find_iteration a r = Inr (ea, da) \<and> disjoint_claims (claims da) (claims d))"

lemma list_ex_conflicts:
  "list_ex (\<lambda>left. list_ex (conflicts_with left) ds) cs \<longleftrightarrow> \<not> disjoint_claims cs ds"
  by (auto simp: list_ex_iff disjoint_claims_def)

lemma check_active_Cons:
  "check_active n d (a # as) r =
     (case find_iteration a r of
        Inl e \<Rightarrow> (Inl e, r)
      | Inr (_, da) \<Rightarrow>
          if disjoint_claims (claims da) (claims d) then check_active n d as r else abort_with (ConflictingClaims a n) r)"
  by (simp add: abind_def reads_def list_ex_conflicts split: sum.split prod.split)

lemma check_active_Inr: "check_active n d as r = (Inr u, r') \<longleftrightarrow> (\<forall>a \<in> set as. free_of d r a) \<and> r' = r"
proof (induction as)
  case (Cons a as)
  have "check_active n d (a # as) r = (Inr u, r') \<longleftrightarrow> free_of d r a \<and> check_active n d as r = (Inr u, r')"
    unfolding check_active_Cons free_of_def by (simp add: abort_with_def split: sum.split prod.split)
  then show ?case unfolding Cons.IH by auto
qed auto

definition fresh_transaction :: "IterationManifest \<Rightarrow> 'v ScheduleTransaction" where
  "fresh_transaction d =
     \<lparr>tx_iteration = it_ordinal d, tx_claims = claims d, tx_writes = [], tx_events = [], tx_closed = False\<rparr>"

lemma find_in_epochs_ordinal: "find_in_epochs n es = Some (e, d) \<Longrightarrow> it_ordinal d = n \<and> e \<in> set es \<and> d \<in> set (iterations e)"
  by (induction n es rule: find_in_epochs.induct) (auto split: option.splits simp: find_Some_iff)

lemma find_iteration_ordinal: "find_iteration n r = Inr (e, d) \<Longrightarrow> it_ordinal d = n"
  by (auto simp: find_iteration_def dest: find_in_epochs_ordinal split: option.splits)

lemma begin_Inr:
  "begin_transaction n r = (Inr tx, r') \<longleftrightarrow> (\<exists>e d.
     \<not> aborted r \<and> find_iteration n r = Inr (e, d) \<and> current_epoch_id r = Inr (ep_ordinal e)
     \<and> n \<notin> set (completed r) \<and> n \<notin> set (active r) \<and> set (dependencies d) \<subseteq> set (completed r)
     \<and> (\<forall>a \<in> set (active r). free_of d r a)
     \<and> tx = fresh_transaction d \<and> r' = r\<lparr>active := active r @ [n]\<rparr>)"
  by (auto simp: begin_transaction_def abind_Inr reads_Inr or_abort_Inr ensure_live_Inr check_committed_Inr check_active_Inr
      abort_with_def fresh_transaction_def split: if_splits dest: find_iteration_ordinal)

lemma access_Inr:
  "validate_transaction_access tx key address k r = Inr u \<longleftrightarrow>
     \<not> aborted r \<and> \<not> tx_closed tx \<and> tx_iteration tx \<in> set (active r)
     \<and> covers (tx_claims tx) (key, address) \<and> (k = AccessWrite \<longrightarrow> covers_write (tx_claims tx) (key, address))"
proof -
  have e: "effective m \<noteq> ClaimRead \<longleftrightarrow> m \<noteq> ClaimRead" for m by (cases m) simp_all
  show ?thesis
    by (auto simp: validate_transaction_access_def ensure_live_def ensure_transaction_active_def Let_def covers_def
        covers_write_def filter_empty_conv list_ex_iff e)
qed

lemma record_Inr:
  "record_event tx key address k r = Inr (n, tx') \<longleftrightarrow>
     \<not> tx_closed tx \<and> tx_iteration tx \<in> set (active r) \<and> length (tx_events tx) < 2 ^ 32 \<and> n = of_nat (length (tx_events tx))
     \<and> tx' = tx\<lparr>tx_events := tx_events tx @ [\<lparr>ev_key = key, ev_address = address, ev_kind = k, ev_sequence = n\<rparr>]\<rparr>"
  by (auto simp: record_event_def ensure_transaction_active_def Let_def)

lemma read_Inr:
  "read_cell tx key address r = Inr (v, tx') \<longleftrightarrow>
     \<not> aborted r \<and> \<not> tx_closed tx \<and> tx_iteration tx \<in> set (active r) \<and> covers (tx_claims tx) (key, address)
     \<and> length (tx_events tx) < 2 ^ 32
     \<and> tx' = tx\<lparr>tx_events := tx_events tx @ [\<lparr>ev_key = key, ev_address = address, ev_kind = AccessRead,
              ev_sequence = of_nat (length (tx_events tx))\<rparr>]\<rparr>
     \<and> v = (bank r ++ map_of (rev (buffered (tx_writes tx)))) (key, address)"
  by (auto simp: read_cell_def access_Inr record_Inr find_last_write)

lemma write_Inr:
  "write_cell tx key address v r = Inr tx' \<longleftrightarrow>
     \<not> aborted r \<and> \<not> tx_closed tx \<and> tx_iteration tx \<in> set (active r) \<and> covers_write (tx_claims tx) (key, address)
     \<and> length (tx_events tx) < 2 ^ 32
     \<and> tx' = tx\<lparr>tx_events := tx_events tx @ [\<lparr>ev_key = key, ev_address = address, ev_kind = AccessWrite,
              ev_sequence = of_nat (length (tx_events tx))\<rparr>],
              tx_writes := tx_writes tx @ [\<lparr>bw_key = key, bw_address = address,
                bw_sequence = of_nat (length (tx_events tx)), bw_value = v\<rparr>]\<rparr>"
  by (auto simp: write_cell_def access_Inr record_Inr covers_def covers_write_def)

lemma commit_Inr:
  "commit tx r = Inr (f, r') \<longleftrightarrow> (\<exists>epoch.
     \<not> aborted r \<and> \<not> tx_closed tx \<and> tx_iteration tx \<in> set (active r) \<and> current_epoch_id r = Inr epoch
     \<and> f = \<lparr>fr_epoch = epoch, fr_iteration = tx_iteration tx, fr_events = tx_events tx\<rparr>
     \<and> r' = r\<lparr>bank := apply_writes (sort_key (\<lambda>w. (bw_key w, bw_address w, bw_sequence w)) (tx_writes tx)) (bank r),
            active := remove1 (tx_iteration tx) (active r), completed := completed r @ [tx_iteration tx],
            trace := sort_key (\<lambda>f. (fr_epoch f, fr_iteration f)) (trace r @ [f])\<rparr>)"
  by (auto simp: commit_def ensure_live_def ensure_transaction_active_def remove_active_def Let_def)

lemma finish_Inr:
  "finish_epoch r = (Inr fs, r') \<Longrightarrow> \<not> aborted r \<and> active r = [] \<and> r' = r\<lparr>current_epoch := current_epoch r + 1\<rparr>"
  by (auto simp: finish_epoch_def abind_Inr reads_Inr ensure_live_Inr abort_with_def split: if_splits option.splits)

section \<open>Interleavings\<close>

record 'v system =
  rt :: "'v ScheduleRuntime"
  opened :: "IterationId \<rightharpoonup> 'v ScheduleTransaction"

datatype 'v label = LBegin IterationId | LOp IterationId "'v memop" | LCommit IterationId | LFinish | LFail

text \<open>One method call of some client. A call that fails without changing anything is no step.\<close>

inductive sys_step :: "'v system \<Rightarrow> 'v label \<Rightarrow> 'v system \<Rightarrow> bool" where
  begins: "begin_transaction n (rt s) = (Inr tx, r') \<Longrightarrow>
     sys_step s (LBegin n) \<lparr>rt = r', opened = (opened s)(n \<mapsto> tx)\<rparr>"
| read: "opened s n = Some tx \<Longrightarrow> read_cell tx key address (rt s) = Inr (v, tx') \<Longrightarrow>
     sys_step s (LOp n (OpRead (key, address) v)) \<lparr>rt = rt s, opened = (opened s)(n \<mapsto> tx')\<rparr>"
| writes: "opened s n = Some tx \<Longrightarrow> write_cell tx key address v (rt s) = Inr tx' \<Longrightarrow>
     sys_step s (LOp n (OpWrite (key, address) v)) \<lparr>rt = rt s, opened = (opened s)(n \<mapsto> tx')\<rparr>"
| commits: "opened s n = Some tx \<Longrightarrow> commit tx (rt s) = Inr (f, r') \<Longrightarrow>
     sys_step s (LCommit n) \<lparr>rt = r', opened = (opened s)(n := None)\<rparr>"
| finishes: "finish_epoch (rt s) = (Inr fs, r') \<Longrightarrow> sys_step s LFinish \<lparr>rt = r', opened = opened s\<rparr>"
| begin_fails: "begin_transaction n (rt s) = (Inl e, r') \<Longrightarrow> sys_step s LFail \<lparr>rt = r', opened = opened s\<rparr>"
| finish_fails: "finish_epoch (rt s) = (Inl e, r') \<Longrightarrow> sys_step s LFail \<lparr>rt = r', opened = opened s\<rparr>"
| aborts: "opened s n = Some tx \<Longrightarrow>
     sys_step s LFail \<lparr>rt = abort_transaction tx (rt s), opened = (opened s)(n := None)\<rparr>"

inductive run :: "'v system \<Rightarrow> 'v label list \<Rightarrow> 'v system \<Rightarrow> bool" for s0 where
  start: "run s0 [] s0"
| step: "run s0 ls s \<Longrightarrow> sys_step s l s' \<Longrightarrow> run s0 (ls @ [l]) s'"

fun ops_of :: "IterationId \<Rightarrow> 'v label list \<Rightarrow> 'v memop list" where
  "ops_of n [] = []"
| "ops_of n (LOp m x # ls) = (if m = n then x # ops_of n ls else ops_of n ls)"
| "ops_of n (_ # ls) = ops_of n ls"

fun commits_of :: "'v label list \<Rightarrow> IterationId list" where
  "commits_of [] = []"
| "commits_of (LCommit n # ls) = n # commits_of ls"
| "commits_of (_ # ls) = commits_of ls"

definition serial_ops :: "'v label list \<Rightarrow> 'v memop list" where
  "serial_ops ls = concat (map (\<lambda>n. ops_of n ls) (commits_of ls))"

lemma ops_of_append [simp]: "ops_of n (xs @ ys) = ops_of n xs @ ops_of n ys"
  by (induction n xs rule: ops_of.induct) auto

lemma commits_of_append [simp]: "commits_of (xs @ ys) = commits_of xs @ commits_of ys"
  by (induction xs rule: commits_of.induct) auto

end
