(* ===== verification/SchedulerRun.thy ===== *)
theory SchedulerRun
  imports SchedulerSerial
begin

text \<open>
  The invariant of interleaved transactions: every open transaction has seen a bank that no other open
  transaction can change under it, so that it can be replayed at its commit.
\<close>

section \<open>The invariant\<close>

definition tx_inv :: "'v ScheduleRuntime \<Rightarrow> IterationId \<Rightarrow> 'v ScheduleTransaction \<Rightarrow> 'v memop list \<Rightarrow> bool" where
  "tx_inv r n tx ops \<longleftrightarrow>
     tx_iteration tx = n \<and> \<not> tx_closed tx \<and> n \<notin> set (completed r)
     \<and> (\<exists>e d. find_iteration n r = Inr (e, d) \<and> tx_claims tx = claims d)
     \<and> buffered (tx_writes tx) = written ops \<and> sorted_wrt (<) (map bw_sequence (tx_writes tx))
     \<and> (\<forall>w \<in> set (tx_writes tx). unat (bw_sequence w) < length (tx_events tx))
     \<and> (\<forall>x \<in> set ops. covers (tx_claims tx) (op_cell x)) \<and> (\<forall>p \<in> set (written ops). covers_write (tx_claims tx) (fst p))
     \<and> reads_ok (bank r) ops"

definition live_inv :: "'v label list \<Rightarrow> 'v system \<Rightarrow> bool" where
  "live_inv ls s \<longleftrightarrow>
     distinct (active (rt s)) \<and> (\<forall>n. n \<in> set (active (rt s)) \<longleftrightarrow> opened s n \<noteq> None)
     \<and> (\<forall>n tx. opened s n = Some tx \<longrightarrow> tx_inv (rt s) n tx (ops_of n ls))
     \<and> (\<forall>n m tx ty. opened s n = Some tx \<longrightarrow> opened s m = Some ty \<longrightarrow> n \<noteq> m \<longrightarrow> disjoint_claims (tx_claims tx) (tx_claims ty))
     \<and> (\<forall>n. ops_of n ls \<noteq> [] \<longrightarrow> n \<in> set (completed (rt s)) \<or> opened s n \<noteq> None)"

definition sys_inv :: "'v bank \<Rightarrow> 'v label list \<Rightarrow> 'v system \<Rightarrow> bool" where
  "sys_inv b0 ls s \<longleftrightarrow>
     commits_of ls = completed (rt s) \<and> distinct (completed (rt s))
     \<and> reads_ok b0 (serial_ops ls) \<and> bank (rt s) = apply_ops b0 (serial_ops ls)
     \<and> (aborted (rt s) \<or> live_inv ls s)"

lemma find_iteration_updates [simp]:
  "find_iteration n (r\<lparr>bank := b\<rparr>) = find_iteration n r" "find_iteration n (r\<lparr>active := a\<rparr>) = find_iteration n r"
  "find_iteration n (r\<lparr>completed := c\<rparr>) = find_iteration n r" "find_iteration n (r\<lparr>trace := t\<rparr>) = find_iteration n r"
  "find_iteration n (r\<lparr>current_epoch := k\<rparr>) = find_iteration n r" "find_iteration n (r\<lparr>aborted := x\<rparr>) = find_iteration n r"
  by (simp_all add: find_iteration_def)

lemma serial_ops_LOp: "n \<notin> set (commits_of ls) \<Longrightarrow> serial_ops (ls @ [LOp n x]) = serial_ops ls"
  by (auto simp: serial_ops_def intro!: arg_cong [of _ _ concat] map_cong)

lemma serial_ops_LCommit: "serial_ops (ls @ [LCommit n]) = serial_ops ls @ ops_of n ls"
  by (simp add: serial_ops_def)

lemma serial_ops_quiet [simp]:
  "serial_ops (ls @ [LBegin n]) = serial_ops ls" "serial_ops (ls @ [LFinish]) = serial_ops ls" "serial_ops (ls @ [LFail]) = serial_ops ls"
  by (simp_all add: serial_ops_def)

lemma begin_Inl: "begin_transaction n r = (Inl e, r') \<Longrightarrow> r' = r \<or> r' = r\<lparr>aborted := True\<rparr>"
proof -
  have committed: "snd (check_committed n ds r) = r \<or> snd (check_committed n ds r) = r\<lparr>aborted := True\<rparr>" for ds
    by (induction n ds r rule: check_committed.induct) (auto simp: abort_with_def)
  have act: "snd (check_active n d as r) = r \<or> snd (check_active n d as r) = r\<lparr>aborted := True\<rparr>" for d as
  proof (induction as)
    case (Cons a as)
    then show ?case unfolding check_active_Cons by (auto simp: abort_with_def split: sum.split)
  qed simp
  have keep: "x = r \<or> x = r\<lparr>aborted := True\<rparr>" if "check_committed n ds r = (y, x)" for ds x y using committed [of ds] that by simp
  have keep': "x = r \<or> x = r\<lparr>aborted := True\<rparr>" if "check_active n d as r = (y, x)" for d as x y using act [of d as] that by simp
  show "begin_transaction n r = (Inl e, r') \<Longrightarrow> r' = r \<or> r' = r\<lparr>aborted := True\<rparr>"
    unfolding begin_transaction_def abind_def reads_def or_abort_def
    by (auto simp: abort_with_def check_committed_Inr split: if_splits sum.splits prod.splits dest!: keep keep')
qed

lemma finish_Inl: "finish_epoch r = (Inl e, r') \<Longrightarrow> r' = r \<or> r' = r\<lparr>aborted := True\<rparr>"
  by (auto simp: finish_epoch_def abind_def reads_def abort_with_def split: if_splits sum.splits prod.splits option.splits)

section \<open>Steps\<close>

lemma live_invI:
  assumes "distinct (active r)" and "\<And>m. (m \<in> set (active r)) = (\<exists>y. q m = Some y)"
    and "\<And>m ty. q m = Some ty \<Longrightarrow> tx_inv r m ty (ops_of m ls)"
    and "\<And>m k ty tz. q m = Some ty \<Longrightarrow> q k = Some tz \<Longrightarrow> m \<noteq> k \<Longrightarrow> disjoint_claims (tx_claims ty) (tx_claims tz)"
    and "\<And>m. ops_of m ls \<noteq> [] \<Longrightarrow> m \<in> set (completed r) \<or> (\<exists>y. q m = Some y)"
  shows "live_inv ls \<lparr>rt = r, opened = q\<rparr>"
  using assms unfolding live_inv_def by auto

lemma begin_inv:
  assumes inv: "sys_inv b0 ls s" and b: "begin_transaction n (rt s) = (Inr tx, r')"
  shows "sys_inv b0 (ls @ [LBegin n]) \<lparr>rt = r', opened = (opened s)(n \<mapsto> tx)\<rparr>"
proof -
  obtain e d where live: "\<not> aborted (rt s)" and d: "find_iteration n (rt s) = Inr (e, d)" and new: "n \<notin> set (completed (rt s))" "n \<notin> set (active (rt s))"
    and free: "\<forall>a \<in> set (active (rt s)). free_of d (rt s) a" and tx: "tx = fresh_transaction d" and r': "r' = (rt s)\<lparr>active := active (rt s) @ [n]\<rparr>"
    using b unfolding begin_Inr by blast
  have li: "live_inv ls s" using inv live by (simp add: sys_inv_def)
  have none: "opened s n = None" using li new(2) unfolding live_inv_def by blast
  then have ops: "ops_of n ls = []" using li new(1) unfolding live_inv_def by blast
  have "it_ordinal d = n" by (rule find_iteration_ordinal [OF d])
  then have fresh: "tx_inv r' n tx (ops_of n (ls @ [LBegin n]))"
    using d new by (simp add: tx_inv_def tx r' ops fresh_transaction_def buffered_def)
  have disj: "disjoint_claims (tx_claims ty) (tx_claims tx)" if "opened s m = Some ty" for m ty
  proof -
    have "tx_inv (rt s) m ty (ops_of m ls)" "m \<in> set (active (rt s))" using li that unfolding live_inv_def by auto
    then have "free_of d (rt s) m" "\<exists>e d. find_iteration m (rt s) = Inr (e, d) \<and> tx_claims ty = claims d"
      using free unfolding tx_inv_def by auto
    then show ?thesis by (auto simp: free_of_def tx fresh_transaction_def)
  qed
  have "live_inv (ls @ [LBegin n]) \<lparr>rt = r', opened = (opened s)(n \<mapsto> tx)\<rparr>"
  proof (rule live_invI)
    show "distinct (active r')" using li new(2) by (simp add: r' live_inv_def)
  next
    fix m show "(m \<in> set (active r')) = (\<exists>y. ((opened s)(n \<mapsto> tx)) m = Some y)"
      using li by (auto simp: r' live_inv_def)
  next
    fix m ty assume "((opened s)(n \<mapsto> tx)) m = Some ty"
    then show "tx_inv r' m ty (ops_of m (ls @ [LBegin n]))"
      using fresh li by (auto simp: live_inv_def tx_inv_def r' split: if_splits)
  next
    fix m k ty tz assume "((opened s)(n \<mapsto> tx)) m = Some ty" "((opened s)(n \<mapsto> tx)) k = Some tz" "m \<noteq> k"
    then show "disjoint_claims (tx_claims ty) (tx_claims tz)"
      using disj li unfolding live_inv_def disjoint_claims_def by (auto split: if_splits) (metis conflicts_sym)+
  next
    fix m assume "ops_of m (ls @ [LBegin n]) \<noteq> []"
    then show "m \<in> set (completed r') \<or> (\<exists>y. ((opened s)(n \<mapsto> tx)) m = Some y)"
      using li by (auto simp: live_inv_def r')
  qed
  then show ?thesis using inv live by (simp add: sys_inv_def r')
qed

lemma op_inv:
  assumes inv: "sys_inv b0 ls s" and live: "\<not> aborted (rt s)" and n: "opened s n = Some tx"
    and cl: "tx_claims tx' = tx_claims tx" and tx': "tx_inv (rt s) n tx' (ops_of n ls @ [x])"
  shows "sys_inv b0 (ls @ [LOp n x]) \<lparr>rt = rt s, opened = (opened s)(n \<mapsto> tx')\<rparr>"
proof -
  have li: "live_inv ls s" using inv live by (simp add: sys_inv_def)
  have "n \<notin> set (commits_of ls)" using inv tx' by (simp add: sys_inv_def tx_inv_def)
  note serial = serial_ops_LOp [OF this]
  have "live_inv (ls @ [LOp n x]) \<lparr>rt = rt s, opened = (opened s)(n \<mapsto> tx')\<rparr>"
  proof (rule live_invI)
    show "distinct (active (rt s))" using li by (simp add: live_inv_def)
  next
    fix m show "(m \<in> set (active (rt s))) = (\<exists>y. ((opened s)(n \<mapsto> tx')) m = Some y)"
      using li n by (auto simp: live_inv_def)
  next
    fix m ty assume "((opened s)(n \<mapsto> tx')) m = Some ty"
    then have "tx_inv (rt s) m ty (ops_of m ls @ (if n = m then [x] else []))"
      using tx' li by (auto simp: live_inv_def split: if_splits)
    then show "tx_inv (rt s) m ty (ops_of m (ls @ [LOp n x]))" by auto
  next
    fix m k ty tz assume "((opened s)(n \<mapsto> tx')) m = Some ty" "((opened s)(n \<mapsto> tx')) k = Some tz" "m \<noteq> k"
    then show "disjoint_claims (tx_claims ty) (tx_claims tz)"
      using li n cl unfolding live_inv_def by (auto split: if_splits)
  next
    fix m assume "ops_of m (ls @ [LOp n x]) \<noteq> []"
    then show "m \<in> set (completed (rt s)) \<or> (\<exists>y. ((opened s)(n \<mapsto> tx')) m = Some y)"
      using li by (auto simp: live_inv_def split: if_splits)
  qed
  then show ?thesis using inv live by (simp add: sys_inv_def serial)
qed

lemma read_inv:
  assumes inv: "sys_inv b0 ls s" and n: "opened s n = Some tx" and r: "read_cell tx key address (rt s) = Inr (v, tx')"
  shows "sys_inv b0 (ls @ [LOp n (OpRead (key, address) v)]) \<lparr>rt = rt s, opened = (opened s)(n \<mapsto> tx')\<rparr>"
proof (rule op_inv [OF inv _ n])
  show live: "\<not> aborted (rt s)" and "tx_claims tx' = tx_claims tx" using r by (auto simp: read_Inr)
  have t: "tx_inv (rt s) n tx (ops_of n ls)" using inv live n by (simp add: sys_inv_def live_inv_def)
  then have "v = apply_ops (bank (rt s)) (ops_of n ls) (key, address)" using r by (simp add: read_Inr tx_inv_def apply_ops_def)
  then show "tx_inv (rt s) n tx' (ops_of n ls @ [OpRead (key, address) v])"
    using t r by (auto simp: tx_inv_def read_Inr reads_ok_append less_Suc_eq)
qed

lemma write_inv:
  assumes inv: "sys_inv b0 ls s" and n: "opened s n = Some tx" and w: "write_cell tx key address v (rt s) = Inr tx'"
  shows "sys_inv b0 (ls @ [LOp n (OpWrite (key, address) v)]) \<lparr>rt = rt s, opened = (opened s)(n \<mapsto> tx')\<rparr>"
proof (rule op_inv [OF inv _ n])
  show live: "\<not> aborted (rt s)" and "tx_claims tx' = tx_claims tx" using w by (auto simp: write_Inr)
  have t: "tx_inv (rt s) n tx (ops_of n ls)" using inv live n by (simp add: sys_inv_def live_inv_def)
  have seq: "unat (of_nat (length (tx_events tx)) :: 32 word) = length (tx_events tx)"
    using w take_bit_nat_eq_self [of "length (tx_events tx)" 32] by (simp add: write_Inr unsigned_of_nat)
  then show "tx_inv (rt s) n tx' (ops_of n ls @ [OpWrite (key, address) v])"
    using t w covers_write_covers
    by (auto simp: tx_inv_def write_Inr reads_ok_append buffered_def sorted_wrt_append word_less_nat_alt less_Suc_eq)
qed

lemma commit_inv:
  assumes inv: "sys_inv b0 ls s" and n: "opened s n = Some tx" and c: "commit tx (rt s) = Inr (f, r')"
  shows "sys_inv b0 (ls @ [LCommit n]) \<lparr>rt = r', opened = (opened s)(n := None)\<rparr>"
proof -
  have live: "\<not> aborted (rt s)" using c by (simp add: commit_Inr)
  have li: "live_inv ls s" using inv live by (simp add: sys_inv_def)
  then have t: "tx_inv (rt s) n tx (ops_of n ls)" using n by (simp add: live_inv_def)
  have "sorted_wrt (<) (map bw_sequence (tx_writes tx))" "buffered (tx_writes tx) = written (ops_of n ls)"
    using t by (simp_all add: tx_inv_def)
  then have w: "apply_writes (sort_key (\<lambda>w. (bw_key w, bw_address w, bw_sequence w)) (tx_writes tx)) b = apply_ops b (ops_of n ls)" for b
    by (simp only: commit_order_irrelevant) (simp add: apply_writes_eq apply_ops_def)
  have r': "active r' = remove1 n (active (rt s))" "completed r' = completed (rt s) @ [n]" "manifest r' = manifest (rt s)"
      "aborted r' = aborted (rt s)" "find_iteration m r' = find_iteration m (rt s)"
      "bank r' = apply_ops (bank (rt s)) (ops_of n ls)" for m
    using c t by (auto simp: commit_Inr tx_inv_def w)
  have others: "reads_ok (bank r') (ops_of m ls)" if m: "opened s m = Some ty" "m \<noteq> n" for m ty
  proof -
    have ty: "tx_inv (rt s) m ty (ops_of m ls)" and dj: "disjoint_claims (tx_claims tx) (tx_claims ty)"
      using li m n unfolding live_inv_def by auto
    have "bank r' (op_cell x) = bank (rt s) (op_cell x)" if x: "x \<in> set (ops_of m ls)" for x
    proof -
      have "covers (tx_claims ty) (op_cell x)" using ty x by (simp add: tx_inv_def)
      then have "op_cell x \<notin> fst ` set (written (ops_of n ls))"
        using t covered_write_excludes(1) [OF dj] by (auto simp: tx_inv_def)
      then show ?thesis by (simp add: r'(6) apply_ops_other)
    qed
    then show ?thesis using reads_ok_agree [of "ops_of m ls" "bank r'" "bank (rt s)"] ty by (simp add: tx_inv_def)
  qed
  have "live_inv (ls @ [LCommit n]) \<lparr>rt = r', opened = (opened s)(n := None)\<rparr>"
  proof (rule live_invI)
    show "distinct (active r')" using li by (simp add: r' live_inv_def)
  next
    fix m show "(m \<in> set (active r')) = (\<exists>y. ((opened s)(n := None)) m = Some y)"
      using li by (auto simp: r' live_inv_def)
  next
    fix m ty assume "((opened s)(n := None)) m = Some ty"
    then have m: "opened s m = Some ty" "m \<noteq> n" by (auto split: if_splits)
    then have "tx_inv (rt s) m ty (ops_of m ls)" using li by (simp add: live_inv_def)
    then show "tx_inv r' m ty (ops_of m (ls @ [LCommit n]))" using others [OF m] m(2) by (simp add: tx_inv_def r')
  next
    fix m k ty tz assume "((opened s)(n := None)) m = Some ty" "((opened s)(n := None)) k = Some tz" "m \<noteq> k"
    then show "disjoint_claims (tx_claims ty) (tx_claims tz)" using li unfolding live_inv_def by (auto split: if_splits)
  next
    fix m assume "ops_of m (ls @ [LCommit n]) \<noteq> []"
    then show "m \<in> set (completed r') \<or> (\<exists>y. ((opened s)(n := None)) m = Some y)"
      using li by (auto simp: live_inv_def r')
  qed
  moreover have "reads_ok (bank (rt s)) (ops_of n ls)" "n \<notin> set (completed (rt s))" using t by (simp_all add: tx_inv_def)
  ultimately show ?thesis
    using inv live by (simp add: sys_inv_def serial_ops_LCommit reads_ok_append apply_ops_append r')
qed

lemma finish_inv:
  assumes inv: "sys_inv b0 ls s" and f: "finish_epoch (rt s) = (Inr fs, r')"
  shows "sys_inv b0 (ls @ [LFinish]) \<lparr>rt = r', opened = opened s\<rparr>"
  using inv finish_Inr [OF f] by (auto simp: sys_inv_def live_inv_def tx_inv_def)

lemma unchanged_or_aborted_inv:
  assumes inv: "sys_inv b0 ls s" and r': "r' = rt s \<or> r' = (rt s)\<lparr>aborted := True\<rparr>"
  shows "sys_inv b0 (ls @ [LFail]) \<lparr>rt = r', opened = opened s\<rparr>"
  using inv r' by (auto simp: sys_inv_def live_inv_def)

lemma abort_inv:
  assumes inv: "sys_inv b0 ls s"
  shows "sys_inv b0 (ls @ [LFail]) \<lparr>rt = abort_transaction tx (rt s), opened = (opened s)(n := None)\<rparr>"
  using inv by (simp add: sys_inv_def abort_transaction_def remove_active_def)

lemma step_inv: "sys_step s l s' \<Longrightarrow> sys_inv b0 ls s \<Longrightarrow> sys_inv b0 (ls @ [l]) s'"
  by (erule sys_step.cases)
    (simp_all add: begin_inv read_inv write_inv commit_inv finish_inv unchanged_or_aborted_inv [OF _ begin_Inl]
      unchanged_or_aborted_inv [OF _ finish_Inl] abort_inv)

section \<open>Serialisability\<close>

definition initial_system :: "'v ScheduleRuntime \<Rightarrow> 'v system" where
  "initial_system r = \<lparr>rt = r, opened = Map.empty\<rparr>"

lemma run_inv:
  assumes "run (initial_system r0) ls s" and "runtime_new m b0 = Inr r0"
  shows "sys_inv b0 ls s"
  using assms(1)
proof (induction rule: run.induct)
  case start
  show ?case using assms(2)
    by (auto simp: runtime_new_def sys_inv_def live_inv_def initial_system_def serial_ops_def split: sum.splits)
next
  case (step ls s l s')
  show ?case by (rule step_inv [OF step(2,3)])
qed

text \<open>C21. Every interleaving of transactions is serialisable in commit order: whatever calls clients make
  in whatever order, successful or failing, the bank of the runtime is the one obtained by running the
  committed transactions one after the other in the order of their commits, and in that serial run every
  read returns the value it returned in the interleaved one. No transaction commits twice.\<close>

theorem interleavings_serialise:
  assumes "runtime_new m b0 = Inr r0" and "run (initial_system r0) ls s"
  shows "reads_ok b0 (serial_ops ls) \<and> bank (rt s) = apply_ops b0 (serial_ops ls)
    \<and> commits_of ls = completed (rt s) \<and> distinct (commits_of ls)"
  using run_inv [OF assms(2,1)] by (simp add: sys_inv_def)

end
