(* ===== verification/SchedulePlan.thy ===== *)
theory SchedulePlan
  imports ScheduleValid
begin

text \<open>
  The planner: \<open>plan_from_iterations\<close> keeps program order and cuts it greedily into epochs within
  which iterations neither conflict nor depend on each other.
\<close>

section \<open>Iterations and epochs\<close>

definition claims_conflict :: "IterationManifest \<Rightarrow> IterationManifest \<Rightarrow> bool" where
  "claims_conflict a b \<longleftrightarrow> (\<exists>x \<in> set (claims a). \<exists>y \<in> set (claims b). conflicts_with x y)"

definition clashes :: "IterationManifest \<Rightarrow> IterationManifest \<Rightarrow> bool" where
  "clashes a b \<longleftrightarrow> it_ordinal a \<in> set (dependencies b) \<or> claims_conflict a b"

definition independent :: "IterationManifest list \<Rightarrow> bool" where
  "independent = sorted_wrt (\<lambda>a b. \<not> clashes a b)"

definition placed :: "32 word \<Rightarrow> IterationManifest list \<Rightarrow> IterationManifest list" where
  "placed lanes its =
     map2 (\<lambda>i it. (canonicalize_iteration it)\<lparr>worker_lane := of_nat (i mod unat lanes)\<rparr>) [0..<length its] its"

text \<open>Why an epoch was closed before an iteration.\<close>

definition full_for :: "32 word \<Rightarrow> EpochManifest \<Rightarrow> IterationManifest \<Rightarrow> bool" where
  "full_for sz e it \<longleftrightarrow> unat sz \<le> length (iterations e) \<or> (\<exists>a \<in> set (iterations e). clashes a it)"

definition plannable :: "nat \<Rightarrow> IterationManifest \<Rightarrow> bool" where
  "plannable n it \<longleftrightarrow> it_ordinal it = of_nat n \<and> (\<forall>d \<in> set (dependencies it). d < it_ordinal it)
     \<and> (\<forall>c \<in> set (claims it). claim_validate c = Inr ())"

lemma binary_search_mem:
  fixes xs :: "'a::linorder list"
  assumes "sorted_wrt (<) xs"
  shows "\<not> isl (binary_search_by (\<lambda>d. compare d k) xs) \<longleftrightarrow> k \<in> set xs"
proof -
  have asc: "ascending (\<lambda>x. x) xs" using assms by (simp add: ascending_def)
  note bs = binary_search_ascending [OF asc, of "\<lambda>d. compare d k" k, OF refl]
  show ?thesis
  proof (cases "binary_search_by (\<lambda>d. compare d k) xs")
    case (Inl i)
    have "xs ! j \<noteq> k" if "j < length xs" for j
      using bs(2) [OF Inl] that by (cases "j < i") auto
    then show ?thesis using Inl by (auto simp: in_set_conv_nth)
  next
    case (Inr i)
    then show ?thesis using bs(1) [OF Inr] by auto
  qed
qed

lemma in_current_iff:
  "dependency_in_current cur (canonicalize_iteration it) \<or> conflicts_in_current cur (canonicalize_iteration it)
    \<longleftrightarrow> (\<exists>a \<in> set (iterations cur). clashes a (canonicalize_iteration it))"
proof -
  have "sorted_wrt (<) (dependencies (canonicalize_iteration it))"
    using canonicalize_canonical [of it] by (simp add: canonical_iteration_def)
  then show ?thesis
    by (auto simp: dependency_in_current_def conflicts_in_current_def list_ex_iff binary_search_mem clashes_def claims_conflict_def)
qed

lemma canonical_claims_valid:
  "check_claims (claims (canonicalize_iteration it)) = Inr () \<longleftrightarrow> (\<forall>c \<in> set (claims it). claim_validate c = Inr ())"
proof -
  have "(\<forall>c \<in> joined (claims it). claim_validate c = Inr ()) \<longleftrightarrow> (\<forall>c \<in> set (claims it). claim_validate c = Inr ())"
    unfolding Ball_def joined_iff by (auto simp: claim_validate_def)
  then show ?thesis by (simp add: check_claims_eq)
qed

lemma all_iterations_append [simp]: "all_iterations (es @ fs) = all_iterations es @ all_iterations fs"
  by (simp add: all_iterations_def)

lemma all_iterations_single [simp]: "all_iterations [e] = iterations e"
  by (simp add: all_iterations_def)

lemma epochs_le_iterations: "\<forall>e \<in> set es. iterations e \<noteq> [] \<Longrightarrow> length es \<le> length (all_iterations es)"
proof (induction es)
  case (Cons e es)
  then show ?case by (cases "iterations e") (auto simp: all_iterations_def)
qed simp

lemma clashes_lane [simp]:
  "clashes a (b\<lparr>worker_lane := l\<rparr>) = clashes a b" "clashes (a\<lparr>worker_lane := l\<rparr>) b = clashes a b"
  by (simp_all add: clashes_def claims_conflict_def)

lemma placed_length [simp]: "length (placed lanes its) = length its"
  by (simp add: placed_def)

lemma placed_snoc:
  "placed lanes (its @ [it]) =
     placed lanes its @ [(canonicalize_iteration it)\<lparr>worker_lane := of_nat (length its mod unat lanes)\<rparr>]"
  by (simp add: placed_def)

section \<open>The planner's invariant\<close>

definition planned :: "PlanState \<Rightarrow> EpochManifest list" where
  "planned p = done_epochs p @ [current p]"

definition epochs_planned :: "32 word \<Rightarrow> EpochManifest list \<Rightarrow> bool" where
  "epochs_planned sz es \<longleftrightarrow>
     map ep_ordinal es = map of_nat [0..<length es] \<and> map communication_group es = map of_nat [0..<length es]
     \<and> (\<forall>e \<in> set es. length (iterations e) \<le> unat sz \<and> independent (iterations e))
     \<and> (\<forall>i. Suc i < length es \<longrightarrow> full_for sz (es ! i) (hd (iterations (es ! Suc i))))"

definition plan_inv :: "32 word \<Rightarrow> 32 word \<Rightarrow> IterationManifest list \<Rightarrow> PlanState \<Rightarrow> bool" where
  "plan_inv sz lanes its p \<longleftrightarrow>
     all_iterations (planned p) = placed lanes its \<and> epochs_planned sz (planned p)
     \<and> (\<forall>e \<in> set (done_epochs p). iterations e \<noteq> []) \<and> (iterations (current p) = [] \<longrightarrow> its = [] \<and> done_epochs p = [])
     \<and> next_lane p = of_nat (length its mod unat lanes)"

lemma next_lane_step:
  assumes "lanes \<noteq> (0 :: 32 word)"
  shows "(if of_nat (n mod unat lanes) + 1 = lanes then 0 else of_nat (n mod unat lanes) + 1) = (of_nat (Suc n mod unat lanes) :: 32 word)"
proof -
  let ?k = "n mod unat lanes"
  have pos: "0 < unat lanes" using assms by (simp add: unat_gt_0)
  then have k: "?k < unat lanes" by simp
  have lt: "unat lanes < 2 ^ 32" using unsigned_less [of lanes, where ?'a = nat] by simp
  have "of_nat (Suc ?k) = lanes \<longleftrightarrow> Suc ?k = unat lanes"
  proof
    assume "of_nat (Suc ?k) = lanes"
    then have "unat (of_nat (Suc ?k) :: 32 word) = unat lanes" by simp
    moreover have "unat (of_nat (Suc ?k) :: 32 word) = Suc ?k"
      using take_bit_nat_eq_self [of "Suc ?k" 32] k lt by (simp add: unsigned_of_nat del: of_nat_Suc)
    ultimately show "Suc ?k = unat lanes" by simp
  next
    assume "Suc ?k = unat lanes"
    then have "of_nat (Suc ?k) = (of_nat (unat lanes) :: 32 word)" by (rule arg_cong)
    then show "of_nat (Suc ?k) = lanes" by simp
  qed
  moreover have "Suc n mod unat lanes = (if Suc ?k = unat lanes then 0 else Suc ?k)" by (simp add: mod_Suc)
  ultimately show ?thesis by (auto simp: add.commute)
qed

lemma independent_snoc: "independent (xs @ [x]) \<longleftrightarrow> independent xs \<and> (\<forall>a \<in> set xs. \<not> clashes a x)"
  by (auto simp: independent_def sorted_wrt_append)

text \<open>Adding to the epoch under construction, and opening the next one.\<close>

lemma extend_current:
  assumes "epochs_planned sz (es @ [cur])" and "length (iterations cur) < unat sz" and "\<forall>a \<in> set (iterations cur). \<not> clashes a it"
    and "iterations cur = [] \<longrightarrow> es = []"
  shows "epochs_planned sz (es @ [cur\<lparr>iterations := iterations cur @ [it]\<rparr>])"
proof -
  let ?cur = "cur\<lparr>iterations := iterations cur @ [it]\<rparr>"
  have "full_for sz ((es @ [?cur]) ! i) (hd (iterations ((es @ [?cur]) ! Suc i)))" if i: "Suc i < length (es @ [?cur])" for i
  proof -
    have old: "full_for sz ((es @ [cur]) ! i) (hd (iterations ((es @ [cur]) ! Suc i)))"
      using assms(1) i by (simp add: epochs_planned_def)
    have ne: "iterations cur \<noteq> []" using assms(4) i by (cases es) auto
    show ?thesis using old i ne by (cases "Suc i = length es") (simp_all add: nth_append)
  qed
  then show ?thesis using assms(1-3) unfolding epochs_planned_def by (auto simp: independent_snoc)
qed

lemma open_next:
  assumes "epochs_planned sz es" and "es \<noteq> []" and "full_for sz (last es) it" and "sz \<noteq> 0"
  shows "epochs_planned sz (es @ [(EpochManifest_new (of_nat (length es)) (of_nat (length es)))\<lparr>iterations := [it]\<rparr>])"
proof -
  let ?e = "(EpochManifest_new (of_nat (length es)) (of_nat (length es)))\<lparr>iterations := [it]\<rparr>"
  have "full_for sz ((es @ [?e]) ! i) (hd (iterations ((es @ [?e]) ! Suc i)))" if i: "Suc i < length (es @ [?e])" for i
  proof (cases "Suc i = length es")
    case True
    then have "es ! i = last es" using assms(2) by (metis diff_Suc_1 last_conv_nth)
    then show ?thesis using assms(3) True by (simp add: nth_append)
  next
    case False
    then show ?thesis using assms(1) i by (simp add: nth_append epochs_planned_def)
  qed
  moreover have "0 < unat sz" using assms(4) by (simp add: unat_gt_0)
  ultimately show ?thesis using assms(1) unfolding epochs_planned_def by (auto simp: EpochManifest_new_def independent_def)
qed

section \<open>One iteration\<close>

definition next_epoch_for :: "32 word \<Rightarrow> IterationManifest \<Rightarrow> PlanState \<Rightarrow> EpochManifest list \<times> EpochManifest" where
  "next_epoch_for sz it p =
     (if iterations (current p) \<noteq> [] \<and> full_for sz (current p) (canonicalize_iteration it)
      then (planned p, EpochManifest_new (of_nat (length (planned p))) (of_nat (length (planned p))))
      else (done_epochs p, current p))"

definition add_iteration :: "32 word \<Rightarrow> 32 word \<Rightarrow> IterationManifest \<Rightarrow> PlanState \<Rightarrow> PlanState" where
  "add_iteration sz lanes it p =
     (let (closed, cur) = next_epoch_for sz it p
      in \<lparr>done_epochs = closed,
          current = cur\<lparr>iterations := iterations cur @ [(canonicalize_iteration it)\<lparr>worker_lane := next_lane p\<rparr>]\<rparr>,
          next_lane = (if next_lane p + 1 = lanes then 0 else next_lane p + 1)\<rparr>)"

lemma planned_nonempty:
  assumes "plan_inv sz lanes its p" and "iterations (current p) \<noteq> []"
  shows "length (planned p) \<le> length its"
proof -
  have "\<forall>e \<in> set (planned p). iterations e \<noteq> []" using assms by (auto simp: plan_inv_def planned_def)
  from epochs_le_iterations [OF this] show ?thesis using assms(1) by (simp add: plan_inv_def)
qed

lemma plan_iteration_eq:
  assumes "plan_inv sz lanes its p" and "length its < 2 ^ 64"
  shows "plan_iteration sz lanes (length its) it p = Inr p'
    \<longleftrightarrow> plannable (length its) it \<and> p' = add_iteration sz lanes it p"
proof -
  let ?c = "canonicalize_iteration it"
  have cut: "(length (iterations (current p)) \<ge> unat sz \<or> dependency_in_current (current p) ?c \<or> conflicts_in_current (current p) ?c)
      \<longleftrightarrow> full_for sz (current p) ?c"
    by (simp only: full_for_def in_current_iff)
  have room: "iterations (current p) \<noteq> [] \<Longrightarrow> \<not> 2 ^ 64 \<le> length (planned p)"
    using planned_nonempty [OF assms(1)] assms(2) by linarith
  have "(if iterations (current p) \<noteq> [] \<and> full_for sz (current p) ?c
         then (let closed = done_epochs p @ [current p]
               in if length closed \<ge> 2 ^ 64 then Inl OrdinalOverflow
                  else Inr (closed, EpochManifest_new (of_nat (length closed)) (of_nat (length closed))))
         else Inr (done_epochs p, current p)) = (Inr (next_epoch_for sz it p) :: ManifestError + _)"
    using room unfolding next_epoch_for_def Let_def planned_def [symmetric] by (simp only: if_False simp_thms split: if_split) blast
  then show ?thesis
    using assms(2) unfolding plan_iteration_def Let_def rbind_check rbind_unit cut plannable_def add_iteration_def
    by (auto simp: check_dependencies_eq canonical_claims_valid not_le split: prod.splits)
qed

lemma add_iteration_inv:
  assumes "sz \<noteq> 0" and "lanes \<noteq> 0" and inv: "plan_inv sz lanes its p"
  shows "plan_inv sz lanes (its @ [it]) (add_iteration sz lanes it p)"
proof -
  let ?c = "canonicalize_iteration it" and ?it = "(canonicalize_iteration it)\<lparr>worker_lane := next_lane p\<rparr>"
  have lane: "next_lane p = of_nat (length its mod unat lanes)" using inv by (simp add: plan_inv_def)
  have "next_lane (add_iteration sz lanes it p) = (if next_lane p + 1 = lanes then 0 else next_lane p + 1)"
    by (cases "next_epoch_for sz it p") (simp add: add_iteration_def)
  then have nl: "next_lane (add_iteration sz lanes it p) = of_nat (length (its @ [it]) mod unat lanes)"
    unfolding lane next_lane_step [OF assms(2)] by simp
  have pl: "placed lanes (its @ [it]) = placed lanes its @ [?it]" by (simp add: placed_snoc lane)
  have old: "all_iterations (planned p) = placed lanes its" "epochs_planned sz (planned p)" using inv by (simp_all add: plan_inv_def)
  have lane_full: "full_for sz e ?it = full_for sz e ?c" for e by (simp add: full_for_def)
  show ?thesis
  proof (cases "iterations (current p) \<noteq> [] \<and> full_for sz (current p) ?c")
    case True
    let ?new = "(EpochManifest_new (of_nat (length (planned p))) (of_nat (length (planned p))))\<lparr>iterations := [?it]\<rparr>"
    have add: "planned (add_iteration sz lanes it p) = planned p @ [?new]" "done_epochs (add_iteration sz lanes it p) = planned p"
        "current (add_iteration sz lanes it p) = ?new"
      using True by (simp_all add: add_iteration_def next_epoch_for_def planned_def EpochManifest_new_def)
    have "full_for sz (last (planned p)) ?it" using True lane_full by (simp add: planned_def)
    from open_next [OF old(2) _ this assms(1)] have "epochs_planned sz (planned p @ [?new])" by (simp add: planned_def)
    moreover have "\<forall>e \<in> set (planned p). iterations e \<noteq> []" using inv True by (auto simp: plan_inv_def planned_def)
    ultimately show ?thesis using old(1) nl unfolding plan_inv_def add by (simp add: pl)
  next
    case False
    let ?cur = "(current p)\<lparr>iterations := iterations (current p) @ [?it]\<rparr>"
    have add: "planned (add_iteration sz lanes it p) = done_epochs p @ [?cur]"
        "done_epochs (add_iteration sz lanes it p) = done_epochs p" "current (add_iteration sz lanes it p) = ?cur"
      using False by (auto simp: add_iteration_def next_epoch_for_def planned_def)
    have nf: "length (iterations (current p)) < unat sz" "\<forall>a \<in> set (iterations (current p)). \<not> clashes a ?it"
      using False assms(1) by (auto simp: full_for_def unat_gt_0)
    have "epochs_planned sz (done_epochs p @ [?cur])"
      by (rule extend_current) (use old(2) nf inv in \<open>auto simp: planned_def plan_inv_def\<close>)
    moreover have "\<forall>e \<in> set (done_epochs p). iterations e \<noteq> []" using inv by (simp add: plan_inv_def)
    ultimately show ?thesis using old(1) nl unfolding plan_inv_def add by (simp add: pl planned_def)
  qed
qed

section \<open>A whole program\<close>

lemma plan_loop:
  assumes "sz \<noteq> 0" and "lanes \<noteq> 0" and "plan_inv sz lanes front p" and "length (front @ its) < 2 ^ 64"
  shows "(\<exists>p'. rfold (\<lambda>(expected, it). plan_iteration sz lanes expected it) (enumerate (length front) its) p = Inr p'
          \<and> plan_inv sz lanes (front @ its) p')
      \<and> (\<forall>i < length its. plannable (length front + i) (its ! i))
    \<or> (\<exists>e. rfold (\<lambda>(expected, it). plan_iteration sz lanes expected it) (enumerate (length front) its) p = Inl e)
      \<and> \<not> (\<forall>i < length its. plannable (length front + i) (its ! i))"
  using assms(3,4)
proof (induction its arbitrary: front p)
  case (Cons it its)
  have n: "length front < 2 ^ 64" using Cons.prems(2) by simp
  have all: "(\<forall>i < length (it # its). plannable (length front + i) ((it # its) ! i))
      \<longleftrightarrow> plannable (length front) it \<and> (\<forall>i < length its. plannable (length (front @ [it]) + i) (its ! i))"
    by (auto simp: less_Suc_eq_0_disj)
  show ?case
  proof (cases "plan_iteration sz lanes (length front) it p")
    case (Inl e)
    then have "\<not> plannable (length front) it" using plan_iteration_eq [OF Cons.prems(1) n, of it "add_iteration sz lanes it p"] by auto
    then show ?thesis unfolding all using Inl by simp
  next
    case (Inr q)
    then have ok: "plannable (length front) it" "q = add_iteration sz lanes it p"
      using plan_iteration_eq [OF Cons.prems(1) n] by auto
    have "length ((front @ [it]) @ its) < 2 ^ 64" using Cons.prems(2) by simp
    note IH = Cons.IH [OF add_iteration_inv [OF assms(1,2) Cons.prems(1)] this]
    show ?thesis unfolding all using IH Inr ok by simp
  qed
qed simp

lemma placed_nth:
  "i < length its \<Longrightarrow>
     placed lanes its ! i = (canonicalize_iteration (its ! i))\<lparr>worker_lane := of_nat (i mod unat lanes)\<rparr>"
  by (simp add: placed_def)

lemma lane_in_range: "lanes \<noteq> 0 \<Longrightarrow> of_nat (i mod unat lanes) < (lanes :: 32 word)"
proof -
  assume "lanes \<noteq> 0"
  then have i: "i mod unat lanes < unat lanes" by (simp add: unat_gt_0)
  then have "i mod unat lanes < 2 ^ 32" using unsigned_less [of lanes, where ?'a = nat] by simp
  then have "unat (of_nat (i mod unat lanes) :: 32 word) = i mod unat lanes"
    using take_bit_nat_eq_self [of "i mod unat lanes" 32] by (simp add: unsigned_of_nat)
  then show ?thesis using i by (simp add: word_less_nat_alt)
qed

definition within_limits :: "IterationManifest \<Rightarrow> bool" where
  "within_limits it \<longleftrightarrow> card (set (dependencies it)) \<le> 2 ^ 16 \<and> card ((\<lambda>c. (cl_key c, cl_scope c)) ` set (claims it)) \<le> 2 ^ 16"

lemma canonical_lengths:
  "length (dependencies (canonicalize_iteration it)) = card (set (dependencies it))"
  "length (claims (canonicalize_iteration it)) = card ((\<lambda>c. (cl_key c, cl_scope c)) ` set (claims it))"
proof -
  have d: "distinct (dependencies (canonicalize_iteration it))" "distinct (map claim_place (claims (canonicalize_iteration it)))"
    using canonicalize_canonical [of it] by (simp_all add: canonical_iteration_def strict_sorted_iff)
  from distinct_card [OF d(1)] show "length (dependencies (canonicalize_iteration it)) = card (set (dependencies it))" by simp
  have "claim_place ` joined (claims it) = (\<lambda>c. (cl_key c, cl_scope c)) ` set (claims it)"
    by (simp add: joined_def image_image claim_place_def)
  with distinct_card [OF d(2)]
  show "length (claims (canonicalize_iteration it)) = card ((\<lambda>c. (cl_key c, cl_scope c)) ` set (claims it))" by simp
qed

lemma placed_iteration_ok:
  assumes "worker_lane_count m \<noteq> 0" and "i < length its" and "plannable i (its ! i)"
  shows "iteration_ok m default_limits (placed (worker_lane_count m) its ! i) \<longleftrightarrow> within_limits (its ! i)"
proof -
  have s: "sorted_wrt (<) (dependencies (canonicalize_iteration (its ! i)))" "sorted_wrt (<) (claims (canonicalize_iteration (its ! i)))"
    using canonicalize_canonical [of "its ! i"] places_ascending by (auto simp: canonical_iteration_def)
  have c: "\<forall>c \<in> set (claims (canonicalize_iteration (its ! i))). claim_validate c = Inr ()"
    using assms(3) canonical_claims_valid [of "its ! i"] by (simp add: plannable_def check_claims_eq)
  let ?c = "canonicalize_iteration (its ! i)"
  have d: "\<forall>d \<in> set (dependencies ?c). d < it_ordinal ?c"
    using assms(3) unfolding plannable_def canonicalize_simps by blast
  have "iteration_ok m default_limits (placed (worker_lane_count m) its ! i) \<longleftrightarrow>
      length (dependencies ?c) \<le> 2 ^ 16 \<and> length (claims ?c) \<le> 2 ^ 16"
    using s c d lane_in_range [OF assms(1), of i]
    unfolding iteration_ok_def placed_nth [OF assms(2)] by (simp add: default_limits_def del: canonicalize_simps)
  then show ?thesis by (simp only: canonical_lengths within_limits_def)
qed

lemma placed_projections:
  "map correlation_range (placed lanes its) = map correlation_range its"
  "map communication_range (placed lanes its) = map communication_range its"
  "map it_ordinal (placed lanes its) = map it_ordinal its"
  by (simp_all add: list_eq_iff_nth_eq placed_nth)

text \<open>The manifest built from a finished plan.\<close>

definition plan_epochs :: "PlanState \<Rightarrow> EpochManifest list" where
  "plan_epochs p = done_epochs p @ (if iterations (current p) \<noteq> [] then [current p] else [])"

definition plan_start :: PlanState where
  "plan_start = \<lparr>done_epochs = [], current = EpochManifest_new 0 0, next_lane = 0\<rparr>"

lemma plan_start_inv: "plan_inv sz lanes [] plan_start"
  by (simp add: plan_inv_def plan_start_def planned_def placed_def epochs_planned_def EpochManifest_new_def independent_def)

lemma plan_epochs_facts:
  assumes "plan_inv sz lanes its p"
  shows "all_iterations (plan_epochs p) = placed lanes its" "epochs_planned sz (plan_epochs p)"
    "\<forall>e \<in> set (plan_epochs p). iterations e \<noteq> []" "length (plan_epochs p) \<le> length its"
proof -
  have c: "iterations (current p) = [] \<Longrightarrow> its = [] \<and> done_epochs p = []" using assms by (simp add: plan_inv_def)
  have p: "plan_epochs p = (if iterations (current p) = [] then [] else planned p)"
    using c by (auto simp: plan_epochs_def planned_def)
  show all: "all_iterations (plan_epochs p) = placed lanes its"
    using assms c unfolding p by (auto simp: plan_inv_def placed_def all_iterations_def)
  show "epochs_planned sz (plan_epochs p)"
    using assms unfolding p by (auto simp: plan_inv_def) (simp add: epochs_planned_def)
  show ne: "\<forall>e \<in> set (plan_epochs p). iterations e \<noteq> []"
    using assms unfolding p by (auto simp: plan_inv_def planned_def)
  from epochs_le_iterations [OF ne] show "length (plan_epochs p) \<le> length its" by (simp add: all)
qed

lemma planned_manifest_valid:
  assumes inv: "plan_inv (epoch_size m) (worker_lane_count m) its p" and ok: "\<forall>i < length its. plannable i (its ! i)"
    and m: "format_version m = SCHEDULE_MANIFEST_VERSION" "epoch_size m \<noteq> 0" "worker_lane_count m \<noteq> 0" "epochs m = plan_epochs p"
    and n: "length its \<le> 2 ^ 20"
  shows "validate_manifest m default_limits = Inr () \<longleftrightarrow>
    (\<forall>it \<in> set its. within_limits it) \<and> ranges_ok (map correlation_range its) \<and> ranges_ok (map communication_range its)"
proof -
  note facts = plan_epochs_facts [OF inv]
  have len: "length (plan_epochs p) \<le> 2 ^ 20" using facts(4) n by linarith
  have "length (plan_epochs p) < 2 ^ 64" by (rule le_less_trans [OF len]) simp
  then have "epochs_ok m (epochs m)" using facts(2) unfolding epochs_ok_def epochs_planned_def m(4) by blast
  moreover have "map it_ordinal its = map of_nat [0..<length its]"
    by (rule nth_equalityI) (use ok in \<open>simp_all add: plannable_def\<close>)
  moreover have "(\<forall>it \<in> set (placed (worker_lane_count m) its). iteration_ok m default_limits it) \<longleftrightarrow> (\<forall>it \<in> set its. within_limits it)"
    using placed_iteration_ok [OF m(3), of _ its] ok by (simp add: all_set_conv_all_nth)
  moreover have "length its < 2 ^ 64" "length its \<le> max_iterations default_limits" "length (epochs m) \<le> max_epochs default_limits"
    using n len by (simp_all add: default_limits_def m(4))
  ultimately show ?thesis
    unfolding validation_exact valid_manifest_def iterations_ok_def m(4) facts(1) placed_projections placed_length
    using m(1-3) by simp
qed

lemma dependencies_earlier:
  assumes num: "map it_ordinal (all_iterations es) = map of_nat [0..<length (all_iterations es)]"
    and len: "length (all_iterations es) < 2 ^ 64" and ind: "\<forall>e \<in> set es. independent (iterations e)"
    and before: "\<forall>b \<in> set (all_iterations es). \<forall>d \<in> set (dependencies b). d < it_ordinal b"
    and i: "i < length es" and b: "b \<in> set (iterations (es ! i))" and d: "d \<in> set (dependencies b)"
  shows "\<exists>j < i. \<exists>a \<in> set (iterations (es ! j)). it_ordinal a = d"
proof -
  obtain xs ys where xs: "iterations (es ! i) = xs @ b # ys" using b by (meson split_list)
  let ?pre = "all_iterations (take i es)"
  have "all_iterations es = all_iterations (take i es @ es ! i # drop (Suc i) es)" using id_take_nth_drop [OF i] by simp
  then have all: "all_iterations es = (?pre @ xs) @ b # ys @ all_iterations (drop (Suc i) es)"
    by (simp add: all_iterations_def xs)
  let ?k = "length (?pre @ xs)"
  have ord: "it_ordinal (all_iterations es ! k) = of_nat k" if "k < length (all_iterations es)" for k
    using arg_cong [OF num, of "\<lambda>l. l ! k"] that by simp
  have k: "?k < length (all_iterations es)" by (simp add: all)
  have "it_ordinal b = of_nat ?k" using ord [OF k] by (simp add: all nth_append)
  moreover have "b \<in> set (all_iterations es)" by (simp add: all)
  ultimately have "d < of_nat ?k" using before d by auto
  moreover have "unat (of_nat ?k :: 64 word) = ?k" by (rule unat_of_nat_64) (use k len in linarith)
  ultimately have dk: "unat d < ?k" by (simp add: word_less_nat_alt)
  let ?a = "(?pre @ xs) ! unat d"
  have "all_iterations es ! unat d = ?a" using dk unfolding all by (simp only: nth_append if_True)
  then have a: "it_ordinal ?a = d" using ord [of "unat d"] dk k by simp
  have "?a \<notin> set xs"
  proof
    assume "?a \<in> set xs"
    moreover have "independent (xs @ b # ys)" using bspec [OF ind nth_mem [OF i]] unfolding xs .
    then have "\<forall>x \<in> set xs. \<not> clashes x b" unfolding independent_def sorted_wrt_append by simp
    ultimately have "\<not> clashes ?a b" by blast
    then show False using a d unfolding clashes_def by simp
  qed
  then have "?a \<in> set ?pre" using nth_mem [OF dk] by simp
  then obtain e where e: "e \<in> set (take i es)" "?a \<in> set (iterations e)" unfolding all_iterations_def by auto
  from e(1) obtain j where "j < i" "e = es ! j" unfolding in_set_conv_nth by auto
  with e(2) a show ?thesis by blast
qed

lemma plan_from_iterations_eq:
  assumes "sz \<noteq> 0" and "lanes \<noteq> 0" and "length its < 2 ^ 64"
  shows "\<exists>p. (plan_inv sz lanes its p \<and> (\<forall>i < length its. plannable i (its ! i))
        \<and> (let m = (ScheduleManifest_new program policy profile sz lanes)\<lparr>epochs := plan_epochs p\<rparr>
           in plan_from_iterations program policy profile sz lanes its = rbind (validate_manifest m default_limits) (\<lambda>_. Inr m)))
     \<or> \<not> (\<forall>i < length its. plannable i (its ! i)) \<and> (\<exists>e. plan_from_iterations program policy profile sz lanes its = Inl e)"
proof -
  have "length ([] @ its) < 2 ^ 64" using assms(3) by simp
  from plan_loop [OF assms(1,2) plan_start_inv this] show ?thesis
    using assms(1,2) by (auto simp: plan_from_iterations_def plan_start_def plan_epochs_def check_def Let_def)
qed

lemma plan_from_iterations_Inr:
  assumes "sz \<noteq> 0" and "lanes \<noteq> 0" and "length its < 2 ^ 64"
    and "plan_from_iterations program policy profile sz lanes its = Inr m"
  shows "\<exists>p. plan_inv sz lanes its p \<and> epochs m = plan_epochs p \<and> validate_manifest m default_limits = Inr ()"
  using plan_from_iterations_eq [OF assms(1-3), of program policy profile]
proof (elim exE disjE conjE)
  fix p assume p: "plan_inv sz lanes its p"
  let ?m = "(ScheduleManifest_new program policy profile sz lanes)\<lparr>epochs := plan_epochs p\<rparr>"
  assume "let m = ?m in plan_from_iterations program policy profile sz lanes its = rbind (validate_manifest m default_limits) (\<lambda>_. Inr m)"
  then have "rbind (validate_manifest ?m default_limits) (\<lambda>_. Inr ?m) = Inr m" using assms(4) by (simp only: Let_def)
  then have "m = ?m" "validate_manifest ?m default_limits = Inr ()" unfolding rbind_unit sum.inject by blast+
  moreover have "epochs ?m = plan_epochs p" by simp
  ultimately show "\<exists>p. plan_inv sz lanes its p \<and> epochs m = plan_epochs p \<and> validate_manifest m default_limits = Inr ()"
    using p by blast
qed (use assms(4) in simp)

lemma planning_accepts:
  assumes "sz \<noteq> 0" and "lanes \<noteq> 0" and "length its \<le> 2 ^ 20"
  shows "(\<exists>m. plan_from_iterations program policy profile sz lanes its = Inr m) \<longleftrightarrow>
    (\<forall>i < length its. plannable i (its ! i)) \<and> (\<forall>it \<in> set its. within_limits it)
    \<and> ranges_ok (map correlation_range its) \<and> ranges_ok (map communication_range its)"
proof -
  have "length its < 2 ^ 64" by (rule le_less_trans [OF assms(3)]) simp
  from plan_from_iterations_eq [OF assms(1,2) this, of program policy profile]
  consider (ok) p where "plan_inv sz lanes its p" "\<forall>i < length its. plannable i (its ! i)"
      "let m = (ScheduleManifest_new program policy profile sz lanes)\<lparr>epochs := plan_epochs p\<rparr>
       in plan_from_iterations program policy profile sz lanes its = rbind (validate_manifest m default_limits) (\<lambda>_. Inr m)"
    | (bad) e where "\<not> (\<forall>i < length its. plannable i (its ! i))" "plan_from_iterations program policy profile sz lanes its = Inl e"
    by blast
  then show ?thesis
  proof cases
    case ok
    let ?m = "(ScheduleManifest_new program policy profile sz lanes)\<lparr>epochs := plan_epochs p\<rparr>"
    have m: "epoch_size ?m = sz" "worker_lane_count ?m = lanes" "format_version ?m = SCHEDULE_MANIFEST_VERSION" "epochs ?m = plan_epochs p"
      by (simp_all add: ScheduleManifest_new_def)
    have "validate_manifest ?m default_limits = Inr () \<longleftrightarrow> (\<forall>it \<in> set its. within_limits it)
        \<and> ranges_ok (map correlation_range its) \<and> ranges_ok (map communication_range its)"
      by (rule planned_manifest_valid [of ?m its p, OF _ ok(2) m(3)]) (use ok(1) m assms in simp_all)
    then show ?thesis using ok(2,3) by (simp add: Let_def rbind_unit)
  qed simp
qed

text \<open>A program of two readers, a writer and a dependent iteration.\<close>

definition sample_iterations :: "IterationManifest list" where
  "sample_iterations =
     [(IterationManifest_new 0 0 99)\<lparr>claims := [claim_whole (StorageKey 1 0) ClaimRead]\<rparr>,
      (IterationManifest_new 1 1 99)\<lparr>claims := [claim_whole (StorageKey 1 0) ClaimRead]\<rparr>,
      (IterationManifest_new 2 2 99)\<lparr>claims := [claim_whole (StorageKey 1 0) ClaimWrite]\<rparr>,
      (IterationManifest_new 3 3 99)\<lparr>dependencies := [2]\<rparr>]"

lemma sample_plannable:
  "(\<forall>i < length sample_iterations. plannable i (sample_iterations ! i)) \<and> (\<forall>it \<in> set sample_iterations. within_limits it)
   \<and> ranges_ok (map correlation_range sample_iterations) \<and> ranges_ok (map communication_range sample_iterations)"
proof (intro conjI allI impI)
  fix i assume "i < length sample_iterations"
  then have "i = 0 \<or> i = 1 \<or> i = 2 \<or> i = 3" unfolding sample_iterations_def by (simp, linarith)
  then show "plannable i (sample_iterations ! i)"
    by (elim disjE) (simp_all add: sample_iterations_def IterationManifest_new_def plannable_def claim_validate_def claim_whole_def)
qed (simp_all add: sample_iterations_def IterationManifest_new_def within_limits_def ranges_ok_def range_fits_def meets_def empty_range_def)

lemma planned_facts:
  assumes "plan_from_iterations program policy profile sz lanes its = Inr m" and "length its < 2 ^ 64"
  shows "validate_manifest m default_limits = Inr () \<and> all_iterations (epochs m) = placed lanes its
    \<and> (\<forall>e \<in> set (epochs m). iterations e \<noteq> [] \<and> length (iterations e) \<le> unat sz \<and> independent (iterations e))
    \<and> (\<forall>i < length (epochs m). \<forall>b \<in> set (iterations (epochs m ! i)). \<forall>d \<in> set (dependencies b).
          \<exists>j < i. \<exists>a \<in> set (iterations (epochs m ! j)). it_ordinal a = d)
    \<and> (\<forall>i. Suc i < length (epochs m) \<longrightarrow> full_for sz (epochs m ! i) (hd (iterations (epochs m ! Suc i))))"
proof -
  have nz: "sz \<noteq> 0" "lanes \<noteq> 0" using assms(1) by (auto simp: plan_from_iterations_def check_def split: if_splits)
  from plan_from_iterations_Inr [OF nz assms(2,1)]
  obtain p where p: "plan_inv sz lanes its p" and m: "epochs m = plan_epochs p" and v: "validate_manifest m default_limits = Inr ()"
    by blast
  note facts = plan_epochs_facts [OF p, folded m]
  have "iterations_ok m default_limits (all_iterations (epochs m))" using v by (simp add: validation_exact valid_manifest_def)
  then have it: "map it_ordinal (all_iterations (epochs m)) = map of_nat [0..<length (all_iterations (epochs m))]"
      "length (all_iterations (epochs m)) < 2 ^ 64" "\<forall>b \<in> set (all_iterations (epochs m)). \<forall>d \<in> set (dependencies b). d < it_ordinal b"
    unfolding iterations_ok_def iteration_ok_def by blast+
  have e: "\<forall>e \<in> set (epochs m). length (iterations e) \<le> unat sz \<and> independent (iterations e)"
      "\<forall>i. Suc i < length (epochs m) \<longrightarrow> full_for sz (epochs m ! i) (hd (iterations (epochs m ! Suc i)))"
    using facts(2) unfolding epochs_planned_def by blast+
  from dependencies_earlier [OF it(1,2) _ it(3)] e v facts(1,3) show ?thesis by blast
qed

text \<open>C25. A planned schedule is sound and greedy. The manifest the planner returns validates; its epochs
  hold the given iterations in program order, canonicalised and dealt to the lanes in turn; no epoch is
  empty or larger than the epoch size; inside an epoch no later iteration conflicts with or depends on an
  earlier one, and every dependency lies in an earlier epoch; and an epoch ends only where the next
  iteration could not have joined it.\<close>

theorem planned_schedule:
  assumes "plan_from_iterations program policy profile sz lanes its = Inr m" and "length its < 2 ^ 64"
  shows "validate_manifest m default_limits = Inr () \<and> all_iterations (epochs m) = placed lanes its
    \<and> (\<forall>e \<in> set (epochs m). iterations e \<noteq> [] \<and> length (iterations e) \<le> unat sz \<and> independent (iterations e))
    \<and> (\<forall>i < length (epochs m). \<forall>b \<in> set (iterations (epochs m ! i)). \<forall>d \<in> set (dependencies b).
          \<exists>j < i. \<exists>a \<in> set (iterations (epochs m ! j)). it_ordinal a = d)
    \<and> (\<forall>i. Suc i < length (epochs m) \<longrightarrow> full_for sz (epochs m ! i) (hd (iterations (epochs m ! Suc i))))"
  by (rule planned_facts [OF assms])

theorem planned_schedule_witness:
  "\<exists>m. plan_from_iterations [] [] 3 4 2 sample_iterations = Inr m \<and> length (all_iterations (epochs m)) = 4
     \<and> (\<forall>e \<in> set (epochs m). independent (iterations e))"
proof -
  have len: "length sample_iterations = 4" by (simp add: sample_iterations_def)
  obtain m where m: "plan_from_iterations [] [] 3 4 2 sample_iterations = Inr m"
    using planning_accepts [of 4 2 sample_iterations "[]" "[]" 3] sample_plannable len by auto
  have "length sample_iterations < 2 ^ 64" by (simp add: len)
  from planned_schedule [OF m this] m len show ?thesis by auto
qed

text \<open>C26. Planning succeeds exactly on plannable programs: with positive epoch size and lane count and at
  most 2^20 iterations, the planner returns a manifest if and only if the iterations are numbered in
  order, depend on earlier ones only, have valid claims, stay within the dependency and claim limits
  after canonicalisation, and reserve pairwise disjoint ranges.\<close>

theorem planning_succeeds:
  assumes "sz \<noteq> 0" and "lanes \<noteq> 0" and "length its \<le> 2 ^ 20"
  shows "(\<exists>m. plan_from_iterations program policy profile sz lanes its = Inr m) \<longleftrightarrow>
    (\<forall>i < length its. plannable i (its ! i)) \<and> (\<forall>it \<in> set its. within_limits it)
    \<and> ranges_ok (map correlation_range its) \<and> ranges_ok (map communication_range its)"
  using assms by (rule planning_accepts)

theorem planning_succeeds_witness: "\<exists>m. plan_from_iterations [] [] 7 1 3 sample_iterations = Inr m"
proof -
  have "length sample_iterations \<le> 2 ^ 20" by (simp add: sample_iterations_def)
  from planning_succeeds [of 1 3, OF _ _ this, of "[]" "[]" 7] sample_plannable show ?thesis by simp
qed

end
