(* ===== verification/SchedulerEpoch.thy ===== *)
theory SchedulerEpoch
  imports SchedulerSerial SchedulePlan
begin

text \<open>
  Executing epochs. A client is a program over the two storage operations. On an epoch whose iterations
  do not conflict, \<open>execute_epoch\<close> in any physical order has the effect of the serial program; on a
  planned schedule this extends to the whole program.
\<close>

section \<open>Clients\<close>

text \<open>An operation callback that uses the runtime through \<open>read\<close> and \<open>write\<close> only and stops at the
  first error.\<close>

datatype 'v client =
    Finished
  | Fails SchedulerError
  | Reading StorageKey "64 word" "'v option \<Rightarrow> 'v client"
  | Writing StorageKey "64 word" 'v "'v client"

primrec run_client ::
    "'v client \<Rightarrow> 'v ScheduleRuntime \<Rightarrow> 'v ScheduleTransaction \<Rightarrow> (SchedulerError + unit) \<times> 'v ScheduleTransaction" where
  "run_client Finished r tx = (Inr (), tx)"
| "run_client (Fails e) r tx = (Inl e, tx)"
| "run_client (Reading key address f) r tx =
     (case read_cell tx key address r of Inl e \<Rightarrow> (Inl e, tx) | Inr (v, tx') \<Rightarrow> run_client (f v) r tx')"
| "run_client (Writing key address v c) r tx =
     (case write_cell tx key address v r of Inl e \<Rightarrow> (Inl e, tx) | Inr tx' \<Rightarrow> run_client c r tx')"

definition client_op :: "(IterationManifest \<Rightarrow> 'v client) \<Rightarrow> ('v, 's) operation" where
  "client_op P s r d tx = (case run_client (P d) r tx of (res, tx') \<Rightarrow> (res, tx', s))"

text \<open>The client alone: the transaction it builds on a bank, and the bank after its commit.\<close>

definition alone :: "'v bank \<Rightarrow> IterationManifest \<Rightarrow> 'v ScheduleRuntime" where
  "alone b d = \<lparr>manifest = ScheduleManifest_new [] [] 0 0 0, bank = b, current_epoch = 0, active = [it_ordinal d],
     completed = [], trace = [], aborted = False\<rparr>"

definition outcome :: "(IterationManifest \<Rightarrow> 'v client) \<Rightarrow> IterationManifest \<Rightarrow> 'v bank \<Rightarrow> (SchedulerError + unit) \<times> 'v ScheduleTransaction" where
  "outcome P d b = run_client (P d) (alone b d) (fresh_transaction d)"

definition effect :: "'v ScheduleTransaction \<Rightarrow> 'v bank \<Rightarrow> 'v bank" where
  "effect tx = apply_writes (sort_key (\<lambda>w. (bw_key w, bw_address w, bw_sequence w)) (tx_writes tx))"

fun serial :: "(IterationManifest \<Rightarrow> 'v client) \<Rightarrow> IterationManifest list \<Rightarrow> 'v bank \<Rightarrow> 'v bank option" where
  "serial P [] b = Some b"
| "serial P (d # ds) b =
     (case outcome P d b of (Inl e, tx) \<Rightarrow> None | (Inr u, tx) \<Rightarrow> serial P ds (effect tx b))"

section \<open>Locality\<close>

definition same_view :: "'v ScheduleTransaction \<Rightarrow> 'v ScheduleRuntime \<Rightarrow> 'v ScheduleRuntime \<Rightarrow> bool" where
  "same_view tx r r' \<longleftrightarrow> \<not> aborted r \<and> \<not> aborted r' \<and> tx_iteration tx \<in> set (active r) \<and> tx_iteration tx \<in> set (active r')
     \<and> (\<forall>cell. covers (tx_claims tx) cell \<longrightarrow> bank r cell = bank r' cell)"

lemma same_view_access: "same_view tx r r' \<Longrightarrow> validate_transaction_access tx key address k r = validate_transaction_access tx key address k r'"
  by (simp add: validate_transaction_access_def same_view_def ensure_live_def ensure_transaction_active_def)

lemma same_view_record: "same_view tx r r' \<Longrightarrow> record_event tx key address k r = record_event tx key address k r'"
  by (simp add: record_event_def same_view_def ensure_transaction_active_def)

lemma same_view_read:
  assumes "same_view tx r r'"
  shows "read_cell tx key address r = read_cell tx key address r'"
proof (cases "validate_transaction_access tx key address AccessRead r")
  case (Inl e)
  then show ?thesis using same_view_access [OF assms, of key address AccessRead] by (simp add: read_cell_def)
next
  case (Inr u)
  then have "covers (tx_claims tx) (key, address)" by (simp add: access_Inr)
  then have "bank_get (bank r) key address = bank_get (bank r') key address" using assms by (simp add: same_view_def bank_get_def)
  then show ?thesis unfolding read_cell_def same_view_access [OF assms] same_view_record [OF assms] by (rule ssubst) (rule refl)
qed

lemma same_view_write: "same_view tx r r' \<Longrightarrow> write_cell tx key address v r = write_cell tx key address v r'"
  unfolding write_cell_def by (simp only: same_view_access same_view_record)

lemma run_client_local: "same_view tx r r' \<Longrightarrow> run_client c r tx = run_client c r' tx"
proof (induction c arbitrary: tx)
  case (Reading key address f)
  show ?case
  proof (cases "read_cell tx key address r")
    case (Inr x)
    obtain v tx' where x: "x = (v, tx')" by fastforce
    have "same_view tx' r r'" using Inr Reading.prems by (simp add: x read_Inr same_view_def)
    then show ?thesis using Reading.IH [of "f v" tx'] Inr same_view_read [OF Reading.prems, of key address] by (simp add: x)
  qed (use same_view_read [OF Reading.prems, of key address] in simp)
next
  case (Writing key address v c)
  show ?case
  proof (cases "write_cell tx key address v r")
    case (Inr tx')
    have "same_view tx' r r'" using Inr Writing.prems by (simp add: write_Inr same_view_def)
    then show ?thesis using Writing.IH [of tx'] Inr same_view_write [OF Writing.prems, of key address v] by simp
  qed (use same_view_write [OF Writing.prems, of key address v] in simp)
qed simp_all

definition tx_good :: "'v ScheduleTransaction \<Rightarrow> bool" where
  "tx_good tx \<longleftrightarrow> \<not> tx_closed tx \<and> (\<forall>p \<in> set (buffered (tx_writes tx)). covers_write (tx_claims tx) (fst p))
     \<and> sorted_wrt (<) (map bw_sequence (tx_writes tx)) \<and> (\<forall>w \<in> set (tx_writes tx). unat (bw_sequence w) < length (tx_events tx))"

lemma run_client_good:
  "run_client c r tx = (res, tx') \<Longrightarrow> tx_good tx \<Longrightarrow>
     tx_good tx' \<and> tx_iteration tx' = tx_iteration tx \<and> tx_claims tx' = tx_claims tx"
proof (induction c arbitrary: tx)
  case (Reading key address f)
  show ?case
  proof (cases "read_cell tx key address r")
    case (Inr x)
    obtain v t where x: "x = (v, t)" by fastforce
    have t: "tx_good t \<and> tx_iteration t = tx_iteration tx \<and> tx_claims t = tx_claims tx"
      using Inr Reading.prems(2) by (auto simp: x read_Inr tx_good_def less_Suc_eq)
    show ?thesis using Reading.IH [of "f v" t] t Reading.prems(1) Inr by (simp add: x)
  qed (use Reading.prems in simp)
next
  case (Writing key address v c)
  show ?case
  proof (cases "write_cell tx key address v r")
    case (Inr t)
    have "unat (of_nat (length (tx_events tx)) :: 32 word) = length (tx_events tx)"
      using Inr take_bit_nat_eq_self [of "length (tx_events tx)" 32] by (simp add: write_Inr unsigned_of_nat)
    then have t: "tx_good t \<and> tx_iteration t = tx_iteration tx \<and> tx_claims t = tx_claims tx"
      using Inr Writing.prems(2)
      by (auto simp: write_Inr tx_good_def buffered_def sorted_wrt_append word_less_nat_alt less_Suc_eq)
    show ?thesis using Writing.IH [of t] t Writing.prems(1) Inr by simp
  qed (use Writing.prems in simp)
qed auto

lemma fresh_good: "tx_good (fresh_transaction d)"
  by (simp add: tx_good_def fresh_transaction_def buffered_def)

lemma effect_eq: "tx_good tx \<Longrightarrow> effect tx b = b ++ map_of (rev (buffered (tx_writes tx)))"
  by (simp add: effect_def tx_good_def commit_order_irrelevant) (simp add: apply_writes_eq)

lemma effect_other: "tx_good tx \<Longrightarrow> \<not> covers_write (tx_claims tx) cell \<Longrightarrow> effect tx b cell = b cell"
proof -
  assume g: "tx_good tx" and "\<not> covers_write (tx_claims tx) cell"
  then have "cell \<notin> fst ` set (buffered (tx_writes tx))" by (auto simp: tx_good_def)
  then have "map_of (rev (buffered (tx_writes tx))) cell = None" by (simp add: map_of_eq_None_iff)
  then show "effect tx b cell = b cell" by (simp add: effect_eq [OF g] map_add_def)
qed

lemma outcome_good: "outcome P d b = (res, tx) \<Longrightarrow> tx_good tx \<and> tx_iteration tx = it_ordinal d \<and> tx_claims tx = claims d"
  using run_client_good [OF _ fresh_good] by (fastforce simp: outcome_def fresh_transaction_def)

lemma outcome_local:
  assumes "\<forall>cell. covers (claims d) cell \<longrightarrow> b cell = b' cell"
  shows "outcome P d b = outcome P d b'"
  unfolding outcome_def
  by (rule run_client_local) (use assms in \<open>simp add: same_view_def alone_def fresh_transaction_def\<close>)

text \<open>A committed client leaves the outcome of a client with disjoint claims alone.\<close>

lemma outcome_after:
  assumes "disjoint_claims (claims d) (claims d')" and "outcome P d b = (res, tx)"
  shows "outcome P d' (effect tx b) = outcome P d' b"
proof (rule outcome_local)
  have g: "tx_good tx" "tx_claims tx = claims d" using outcome_good [OF assms(2)] by simp_all
  show "\<forall>cell. covers (claims d') cell \<longrightarrow> effect tx b cell = b cell"
  proof (intro allI impI)
    fix cell assume "covers (claims d') cell"
    then have "\<not> covers_write (tx_claims tx) cell" using covered_write_excludes(1) [OF assms(1)] g(2) by metis
    then show "effect tx b cell = b cell" by (rule effect_other [OF g(1)])
  qed
qed

section \<open>One epoch\<close>

definition ready :: "'v ScheduleRuntime \<Rightarrow> EpochManifest \<Rightarrow> IterationManifest list \<Rightarrow> bool" where
  "ready r e ds \<longleftrightarrow> \<not> aborted r \<and> active r = [] \<and> current_manifest r = Inr e \<and> distinct (map it_ordinal ds)
     \<and> (\<forall>d \<in> set ds. find_iteration (it_ordinal d) r = Inr (e, d) \<and> it_ordinal d \<notin> set (completed r)
          \<and> set (dependencies d) \<subseteq> set (completed r))
     \<and> (\<forall>a \<in> set ds. \<forall>b \<in> set ds. a \<noteq> b \<longrightarrow> disjoint_claims (claims a) (claims b))
     \<and> sorted (map (\<lambda>f. (fr_epoch f, fr_iteration f)) (trace r))"

definition fragment_of :: "EpochManifest \<Rightarrow> (IterationManifest \<Rightarrow> 'v client) \<Rightarrow> 'v bank \<Rightarrow> IterationManifest \<Rightarrow> TraceFragment" where
  "fragment_of e P b d = \<lparr>fr_epoch = ep_ordinal e, fr_iteration = it_ordinal d, fr_events = tx_events (snd (outcome P d b))\<rparr>"

definition epoch_order :: "TraceFragment \<Rightarrow> EpochId \<times> IterationId" where
  "epoch_order = (\<lambda>f. (fr_epoch f, fr_iteration f))"

text \<open>The runtime after committing \<open>ds\<close>, whose clients ran on the bank \<open>b\<close>.\<close>

definition advanced ::
    "EpochManifest \<Rightarrow> (IterationManifest \<Rightarrow> 'v client) \<Rightarrow> 'v bank \<Rightarrow> IterationManifest list \<Rightarrow> 'v ScheduleRuntime \<Rightarrow> 'v ScheduleRuntime" where
  "advanced e P b ds r =
     r\<lparr>bank := fold (\<lambda>d. effect (snd (outcome P d b))) ds (bank r), completed := completed r @ map it_ordinal ds,
       trace := sort_key epoch_order (trace r @ map (fragment_of e P b) ds)\<rparr>"

lemma sort_key_again: "sort_key f (sort_key f xs @ ys) = sort_key f (xs @ ys)"
proof (rule properties_for_sort_key)
  fix k assume "k \<in> set (sort_key f (xs @ ys))"
  show "filter (\<lambda>x. f k = f x) (sort_key f (xs @ ys)) = filter (\<lambda>x. f k = f x) (sort_key f xs @ ys)"
    using sort_key_stable [of f "f k"] by (simp add: eq_commute [of "f k"])
qed simp_all

lemma ready_begin:
  assumes "ready r e (d # ds)"
  shows "begin_transaction (it_ordinal d) r = (Inr (fresh_transaction d), r\<lparr>active := [it_ordinal d]\<rparr>)"
  using assms by (auto simp: begin_Inr ready_def current_epoch_id_def)

lemma step_outcome:
  assumes "ready r e (d # ds)"
  shows "client_op P s (r\<lparr>active := [it_ordinal d]\<rparr>) d (fresh_transaction d) =
    (case outcome P d (bank r) of (res, tx) \<Rightarrow> (res, tx, s))"
proof -
  have "run_client (P d) (r\<lparr>active := [it_ordinal d]\<rparr>) (fresh_transaction d) = outcome P d (bank r)"
    unfolding outcome_def
    by (rule run_client_local) (use assms in \<open>simp add: same_view_def alone_def fresh_transaction_def ready_def\<close>)
  then show ?thesis by (simp add: client_op_def)
qed

lemma step_commit:
  assumes "ready r e (d # ds)" and o: "outcome P d (bank r) = (Inr u, tx)"
  shows "commit tx (r\<lparr>active := [it_ordinal d]\<rparr>) = Inr (fragment_of e P (bank r) d, advanced e P (bank r) [d] r)"
proof -
  have g: "tx_good tx" "tx_iteration tx = it_ordinal d" using outcome_good [OF o] by simp_all
  have r: "active r = []" "\<not> aborted r" "current_epoch_id r = Inr (ep_ordinal e)"
    using assms(1) by (simp_all add: ready_def current_epoch_id_def)
  have id: "current_epoch_id (r\<lparr>active := a\<rparr>) = current_epoch_id r" for a by (simp add: current_epoch_id_def current_manifest_def)
  have k: "epoch_order = (\<lambda>f. (fr_epoch f, fr_iteration f))" by (simp add: epoch_order_def fun_eq_iff)
  have "r\<lparr>active := [], bank := b, completed := c, trace := t\<rparr> = r\<lparr>bank := b, completed := c, trace := t\<rparr>" for b c t
    using r(1) by simp
  then show ?thesis
    using g r by (auto simp: commit_Inr id tx_good_def advanced_def fragment_of_def o effect_def k)
qed

lemma ready_advanced:
  assumes "ready r e (d # ds)"
  shows "ready (advanced e P b [d] r) e ds"
proof -
  let ?r = "advanced e P b [d] r"
  have same: "aborted ?r = aborted r" "active ?r = active r" "current_manifest ?r = current_manifest r"
      "find_iteration n ?r = find_iteration n r" "completed ?r = completed r @ [it_ordinal d]" for n
    by (simp_all add: advanced_def current_manifest_def find_iteration_def)
  have "sorted (map epoch_order (trace ?r))" by (simp add: advanced_def)
  then have tr: "sorted (map (\<lambda>f. (fr_epoch f, fr_iteration f)) (trace ?r))" unfolding epoch_order_def .
  have "it_ordinal d \<notin> it_ordinal ` set ds" using assms unfolding ready_def by simp
  then have "\<forall>d' \<in> set ds. it_ordinal d' \<noteq> it_ordinal d" by (metis imageI)
  moreover have "\<forall>d' \<in> set ds. find_iteration (it_ordinal d') r = Inr (e, d') \<and> it_ordinal d' \<notin> set (completed r)
        \<and> set (dependencies d') \<subseteq> set (completed r)"
    using assms unfolding ready_def by simp
  ultimately have "\<forall>d' \<in> set ds. find_iteration (it_ordinal d') r = Inr (e, d') \<and> it_ordinal d' \<notin> set (completed r @ [it_ordinal d])
        \<and> set (dependencies d') \<subseteq> set (completed r @ [it_ordinal d])"
    by (simp add: subset_iff)
  moreover have "\<not> aborted r" "active r = []" "current_manifest r = Inr e" "distinct (map it_ordinal ds)"
      "\<forall>a \<in> set ds. \<forall>b \<in> set ds. a \<noteq> b \<longrightarrow> disjoint_claims (claims a) (claims b)"
    using assms unfolding ready_def by simp_all
  ultimately show ?thesis unfolding ready_def same using tr by blast
qed

lemma advanced_more:
  assumes "ready r e (d # ds)" and o: "outcome P d (bank r) = (Inr u, tx)"
  shows "advanced e P (bank (advanced e P (bank r) [d] r)) ds (advanced e P (bank r) [d] r) = advanced e P (bank r) (d # ds) r"
    and "\<forall>d' \<in> set ds. outcome P d' (bank (advanced e P (bank r) [d] r)) = outcome P d' (bank r)"
proof -
  have b: "bank (advanced e P (bank r) [d] r) = effect tx (bank r)" by (simp add: advanced_def o)
  show same: "\<forall>d' \<in> set ds. outcome P d' (bank (advanced e P (bank r) [d] r)) = outcome P d' (bank r)"
    unfolding b
  proof
    fix d' assume d': "d' \<in> set ds"
    have "it_ordinal d \<notin> it_ordinal ` set ds" using assms(1) unfolding ready_def by simp
    then have "d \<noteq> d'" using d' by blast
    then have "disjoint_claims (claims d) (claims d')" using assms(1) d' unfolding ready_def by simp
    then show "outcome P d' (effect tx (bank r)) = outcome P d' (bank r)" by (rule outcome_after [OF _ o])
  qed
  let ?b = "bank (advanced e P (bank r) [d] r)"
  have f: "fold (\<lambda>d. effect (snd (outcome P d ?b))) ds c = fold (\<lambda>d. effect (snd (outcome P d (bank r)))) ds c" for c
    by (rule fold_cong) (simp_all add: same)
  have m: "map (fragment_of e P ?b) ds = map (fragment_of e P (bank r)) ds"
    using same by (simp add: fragment_of_def)
  show "advanced e P ?b ds (advanced e P (bank r) [d] r) = advanced e P (bank r) (d # ds) r"
    unfolding advanced_def [of e P ?b ds] f m
    by (simp add: advanced_def sort_key_again)
qed

lemma execute_step:
  assumes "ready r e (d # ds)"
  shows "execute_all (client_op P) (it_ordinal d # ns) s r =
    (case outcome P d (bank r) of
       (Inl x, tx) \<Rightarrow> (Inl x, abort_transaction tx (r\<lparr>active := [it_ordinal d]\<rparr>), s)
     | (Inr u, tx) \<Rightarrow> execute_all (client_op P) ns s (advanced e P (bank r) [d] r))"
proof -
  have "or_abort (find_iteration (it_ordinal d)) r = (Inr (e, d), r)" using assms by (simp add: or_abort_Inr ready_def)
  then show ?thesis
    by (auto simp: ready_begin [OF assms] step_outcome [OF assms] step_commit [OF assms] split: prod.split sum.split)
qed

lemma execute_all_ready:
  assumes "ready r e ds"
  shows "if \<forall>d \<in> set ds. fst (outcome P d (bank r)) = Inr ()
    then execute_all (client_op P) (map it_ordinal ds) s r = (Inr (), advanced e P (bank r) ds r, s)
    else \<exists>x r'. execute_all (client_op P) (map it_ordinal ds) s r = (Inl x, r', s) \<and> aborted r'"
  using assms
proof (induction ds arbitrary: r)
  case Nil
  then have "sort_key epoch_order (trace r) = trace r"
    by (intro sort_key_id_if_sorted) (simp add: ready_def epoch_order_def)
  then show ?case by (simp add: advanced_def)
next
  case (Cons d ds)
  obtain res tx where o: "outcome P d (bank r) = (res, tx)" by fastforce
  show ?case
  proof (cases res)
    case (Inl x)
    then show ?thesis using execute_step [OF Cons.prems, of P "map it_ordinal ds" s] by (simp add: o abort_transaction_def)
  next
    case (Inr u)
    then have o': "outcome P d (bank r) = (Inr u, tx)" using o by simp
    note more = advanced_more [OF Cons.prems o']
    have "execute_all (client_op P) (map it_ordinal (d # ds)) s r
        = execute_all (client_op P) (map it_ordinal ds) s (advanced e P (bank r) [d] r)"
      using execute_step [OF Cons.prems, of P "map it_ordinal ds" s] o' by simp
    then show ?thesis using Cons.IH [OF ready_advanced [OF Cons.prems], where P1 = P] more o' by (simp cong: ball_cong)
  qed
qed

section \<open>Any order\<close>

lemma serial_ready:
  assumes "distinct ds" and "\<forall>a \<in> set ds. \<forall>b \<in> set ds. a \<noteq> b \<longrightarrow> disjoint_claims (claims a) (claims b)"
  shows "serial P ds b =
    (if \<forall>d \<in> set ds. fst (outcome P d b) = Inr () then Some (fold (\<lambda>d. effect (snd (outcome P d b))) ds b) else None)"
  using assms
proof (induction ds arbitrary: b)
  case (Cons d ds)
  obtain res tx where o: "outcome P d b = (res, tx)" by fastforce
  show ?case
  proof (cases res)
    case (Inr u)
    have same: "\<forall>d' \<in> set ds. outcome P d' (effect tx b) = outcome P d' b"
      using Cons.prems o by (auto intro!: outcome_after)
    have f: "fold (\<lambda>d. effect (snd (outcome P d (effect tx b)))) ds c = fold (\<lambda>d. effect (snd (outcome P d b))) ds c" for c
      by (rule fold_cong) (simp_all add: same)
    have "serial P ds (effect tx b) =
        (if \<forall>d \<in> set ds. fst (outcome P d b) = Inr () then Some (fold (\<lambda>d. effect (snd (outcome P d b))) ds (effect tx b)) else None)"
      using Cons.IH [of "effect tx b"] Cons.prems same by (simp add: f)
    then show ?thesis using o Inr by simp
  qed (simp add: o)
qed simp

lemma effects_commute:
  assumes "tx_good t" and "tx_good u" and "disjoint_claims (tx_claims t) (tx_claims u)"
  shows "effect t \<circ> effect u = effect u \<circ> effect t"
proof -
  let ?m = "\<lambda>t. map_of (rev (buffered (tx_writes t)))"
  have "dom (?m t) \<inter> dom (?m u) = {}"
  proof (rule ccontr)
    assume "dom (?m t) \<inter> dom (?m u) \<noteq> {}"
    then obtain cell where "cell \<in> fst ` set (buffered (tx_writes t))" "cell \<in> fst ` set (buffered (tx_writes u))"
      by (auto simp: dom_map_of_conv_image_fst)
    then have "covers_write (tx_claims t) cell" "covers_write (tx_claims u) cell" using assms(1,2) by (auto simp: tx_good_def)
    then show False using covered_write_excludes(1) [OF assms(3)] covers_write_covers by blast
  qed
  then have c: "?m t ++ ?m u = ?m u ++ ?m t" by (rule map_add_comm)
  show ?thesis
    by (rule ext) (simp only: o_apply effect_eq [OF assms(1)] effect_eq [OF assms(2)] map_add_assoc [symmetric] c)
qed

lemma fold_any_order:
  assumes "mset ds = mset es" and "\<forall>a \<in> set ds. \<forall>b \<in> set ds. a \<noteq> b \<longrightarrow> disjoint_claims (claims a) (claims b)"
  shows "fold (\<lambda>d. effect (snd (outcome P d b))) ds = fold (\<lambda>d. effect (snd (outcome P d b))) es"
proof (rule fold_multiset_equiv [OF _ assms(1)])
  fix x y assume xy: "x \<in> set ds" "y \<in> set ds"
  have g: "tx_good (snd (outcome P z b)) \<and> tx_claims (snd (outcome P z b)) = claims z" for z
    using outcome_good [of P z b] by (cases "outcome P z b") auto
  show "effect (snd (outcome P x b)) \<circ> effect (snd (outcome P y b)) = effect (snd (outcome P y b)) \<circ> effect (snd (outcome P x b))"
    using effects_commute [of "snd (outcome P x b)" "snd (outcome P y b)"] g xy assms(2) by (cases "x = y") auto
qed

lemma filter_any_order:
  assumes "mset xs = mset ys" and "distinct (map f xs)"
  shows "filter (\<lambda>x. k = f x) xs = filter (\<lambda>x. k = f x) ys"
proof -
  have m: "mset (filter (\<lambda>x. k = f x) xs) = mset (filter (\<lambda>x. k = f x) ys)" by (simp add: assms(1))
  have "distinct (map f (filter (\<lambda>x. k = f x) xs))" using assms(2) by (rule distinct_map_filter)
  moreover have "set (map f (filter (\<lambda>x. k = f x) xs)) \<subseteq> {k}" by auto
  ultimately have "length (map f (filter (\<lambda>x. k = f x) xs)) \<le> 1"
    using distinct_card [of "map f (filter (\<lambda>x. k = f x) xs)"] card_mono [of "{k}" "set (map f (filter (\<lambda>x. k = f x) xs))"] by simp
  then have "filter (\<lambda>x. k = f x) xs = [] \<or> (\<exists>z. filter (\<lambda>x. k = f x) xs = [z])"
    by (cases "filter (\<lambda>x. k = f x) xs") auto
  then show ?thesis using m by (metis mset.simps(1) mset_single_iff_right mset_zero_iff_right mset.simps(2) add_mset_add_single empty_neutral(1))
qed

lemma sort_key_any_order:
  assumes "mset ys = mset zs" and "distinct (map f ys)"
  shows "sort_key f (xs @ ys) = sort_key f (xs @ zs)"
proof (rule properties_for_sort_key)
  show "mset (sort_key f (xs @ zs)) = mset (xs @ ys)" using assms(1) by simp
  fix k assume "k \<in> set (sort_key f (xs @ zs))"
  show "filter (\<lambda>x. f k = f x) (sort_key f (xs @ zs)) = filter (\<lambda>x. f k = f x) (xs @ ys)"
    using sort_key_stable [of f "f k" "xs @ zs"] filter_any_order [OF assms, of "f k"] by (simp add: eq_commute [of "f k"])
qed simp

lemma ready_any_order:
  assumes "ready r e ds" and "mset ds = mset es"
  shows "ready r e es"
proof -
  have "set ds = set es" using assms(2) by (rule mset_eq_setD)
  moreover have "distinct (map it_ordinal es)"
  proof -
    have "mset (map it_ordinal ds) = mset (map it_ordinal es)" using assms(2) by simp
    moreover have "distinct (map it_ordinal ds)" using assms(1) by (simp add: ready_def)
    ultimately show ?thesis by (metis mset_eq_imp_distinct_iff)
  qed
  ultimately show ?thesis using assms(1) unfolding ready_def by simp
qed

lemma order_of_iterations:
  assumes "mset order = mset (map it_ordinal ds)" and "distinct (map it_ordinal ds)"
  obtains es where "order = map it_ordinal es" and "mset ds = mset es"
proof
  let ?inv = "the_inv_into (set ds) it_ordinal"
  have inj: "inj_on it_ordinal (set ds)" using assms(2) by (simp add: distinct_map)
  have "set order = it_ordinal ` set ds" using mset_eq_setD [OF assms(1)] by simp
  then show "order = map it_ordinal (map ?inv order)"
    by (auto simp: map_idI f_the_inv_into_f [OF inj] intro!: map_idI [symmetric])
  have "mset (map ?inv order) = image_mset ?inv (image_mset it_ordinal (mset ds))" by (simp add: assms(1))
  also have "\<dots> = image_mset (\<lambda>x. x) (mset ds)"
    unfolding image_mset.compositionality by (rule image_mset_cong) (simp add: the_inv_into_f_f [OF inj])
  finally show "mset ds = mset (map ?inv order)" by simp
qed

lemma advanced_any_order:
  assumes "ready r e ds" and "mset ds = mset es"
  shows "advanced e P b es r = (advanced e P b ds r)\<lparr>completed := completed r @ map it_ordinal es\<rparr>"
proof -
  have d: "\<forall>x \<in> set ds. \<forall>y \<in> set ds. x \<noteq> y \<longrightarrow> disjoint_claims (claims x) (claims y)" "distinct (map it_ordinal ds)"
    using assms(1) unfolding ready_def by simp_all
  have "distinct (map epoch_order (map (fragment_of e P b) ds))"
    using d(2) by (simp add: distinct_map inj_on_def epoch_order_def fragment_of_def)
  then have "sort_key epoch_order (trace r @ map (fragment_of e P b) ds) = sort_key epoch_order (trace r @ map (fragment_of e P b) es)"
    by (intro sort_key_any_order) (simp_all add: assms(2))
  then show ?thesis
    by (cases r) (simp add: advanced_def fold_any_order [OF assms(2) d(1), of P b])
qed

text \<open>The state after an epoch, up to the order in which completions are recorded.\<close>

definition epoch_end ::
    "EpochManifest \<Rightarrow> (IterationManifest \<Rightarrow> 'v client) \<Rightarrow> IterationId list \<Rightarrow> 'v ScheduleRuntime \<Rightarrow> 'v ScheduleRuntime" where
  "epoch_end e P order r =
     (advanced e P (bank r) (iterations e) r)\<lparr>completed := completed r @ order, current_epoch := current_epoch r + 1\<rparr>"

lemma first_incomplete_None: "first_incomplete c its = None \<longleftrightarrow> it_ordinal ` set its \<subseteq> set c"
  by (induction its) auto

lemma execute_epoch_ready:
  assumes rd: "ready r e (iterations e)" and m: "mset order = mset (map it_ordinal (iterations e))"
  shows "if \<forall>d \<in> set (iterations e). fst (outcome P d (bank r)) = Inr ()
    then execute_epoch (client_op P) order s r =
      (Inr (sort_key fr_iteration (filter (\<lambda>f. fr_epoch f = ep_ordinal e) (trace (epoch_end e P order r)))), epoch_end e P order r, s)
    else \<exists>x r'. execute_epoch (client_op P) order s r = (Inl x, r', s) \<and> aborted r'"
proof -
  have d: "distinct (map it_ordinal (iterations e))" using rd by (simp add: ready_def)
  obtain es where es: "order = map it_ordinal es" and me: "mset (iterations e) = mset es" by (rule order_of_iterations [OF m d])
  have live: "rbind (ensure_live r) (\<lambda>_. current_manifest r) = Inr e" using rd by (simp add: ready_def ensure_live_def)
  have len: "length order = length (iterations e)" using m by (metis length_map mset_eq_length)
  have set: "set es = set (iterations e)" using mset_eq_setD [OF me] by simp
  note all = execute_all_ready [OF ready_any_order [OF rd me], of P s, unfolded set, folded es]
  show ?thesis
  proof (cases "\<forall>d \<in> set (iterations e). fst (outcome P d (bank r)) = Inr ()")
    case True
    let ?r = "advanced e P (bank r) es r"
    have ex: "execute_all (client_op P) order s r = (Inr (), ?r, s)" using all True by simp
    have r: "\<not> aborted ?r" "active ?r = []" "current_manifest ?r = Inr e" "completed ?r = completed r @ order"
      using rd by (simp_all add: ready_def advanced_def current_manifest_def es)
    have "first_incomplete (completed ?r) (iterations e) = None" by (auto simp: first_incomplete_None r es set)
    then have "finish_epoch ?r = (Inr (sort_key fr_iteration (filter (\<lambda>f. fr_epoch f = ep_ordinal e) (trace ?r))), ?r\<lparr>current_epoch := current_epoch ?r + 1\<rparr>)"
      using r(1-3) by (simp add: finish_epoch_def abind_def reads_def ensure_live_def)
    moreover have "?r\<lparr>current_epoch := current_epoch ?r + 1\<rparr> = epoch_end e P order r" "trace ?r = trace (epoch_end e P order r)"
      unfolding advanced_any_order [OF rd me, of P "bank r"] epoch_end_def es by (cases r, simp add: advanced_def) simp
    ultimately show ?thesis using True live len ex by (simp add: execute_epoch_def)
  next
    case False
    then obtain x r' where "execute_all (client_op P) order s r = (Inl x, r', s)" "aborted r'"
      using all unfolding if_not_P [OF False] by blast
    then show ?thesis using False live len by (simp add: execute_epoch_def)
  qed
qed

text \<open>C22. Within a ready epoch the physical completion order is irrelevant. Ready: the runtime is not poisoned and
  has no open transaction, its trace is in order, the epoch is the current one, its iterations are
  distinct, not yet completed,
  pairwise free of conflicting claims, and depend on completed iterations only. Then for any two
  permutations of the epoch's iterations, run by clients that read and write, either both executions fail
  and poison the runtime, or both succeed with the same trace fragments, the same storage bank - that of
  the serial program - and runtimes that differ only in the order in which completions are recorded.\<close>

theorem completion_order_irrelevant:
  assumes "ready r e (iterations e)" and "mset order = mset (map it_ordinal (iterations e))"
    and "mset order' = mset (map it_ordinal (iterations e))"
    and "execute_epoch (client_op P) order s r = (res, r1, s1)" and "execute_epoch (client_op P) order' s r = (res', r2, s2)"
  shows "if serial P (iterations e) (bank r) = None
    then isl res \<and> isl res' \<and> aborted r1 \<and> aborted r2
    else \<not> isl res \<and> res' = res \<and> serial P (iterations e) (bank r) = Some (bank r1)
      \<and> r2 = r1\<lparr>completed := completed r @ order'\<rparr> \<and> completed r1 = completed r @ order"
proof -
  have d: "distinct (iterations e)" "\<forall>a \<in> set (iterations e). \<forall>b \<in> set (iterations e). a \<noteq> b \<longrightarrow> disjoint_claims (claims a) (claims b)"
    using assms(1) by (auto simp: ready_def distinct_map)
  note ser = serial_ready [OF d, of P "bank r"]
  note x = execute_epoch_ready [OF assms(1,2), of P s, unfolded assms(4)]
  note y = execute_epoch_ready [OF assms(1,3), of P s, unfolded assms(5)]
  show ?thesis
  proof (cases "\<forall>d \<in> set (iterations e). fst (outcome P d (bank r)) = Inr ()")
    case True
    have "trace (epoch_end e P order' r) = trace (epoch_end e P order r)"
      "epoch_end e P order' r = (epoch_end e P order r)\<lparr>completed := completed r @ order'\<rparr>"
      by (simp_all add: epoch_end_def)
    then show ?thesis using x y unfolding if_P [OF True] ser by (simp add: epoch_end_def advanced_def)
  next
    case False
    then show ?thesis using x y unfolding if_not_P [OF False] ser by auto
  qed
qed

section \<open>The whole schedule\<close>

text \<open>Epoch after epoch, each in a physical order of its own, as a host drives the runtime.\<close>

fun run_epochs ::
    "('v, 's) operation \<Rightarrow> IterationId list list \<Rightarrow> 's \<Rightarrow> 'v ScheduleRuntime \<Rightarrow> (SchedulerError + unit) \<times> 'v ScheduleRuntime \<times> 's" where
  "run_epochs op [] s r = (Inr (), r, s)"
| "run_epochs op (order # orders) s r =
     (case execute_epoch op order s r of
        (Inl e, r', s') \<Rightarrow> (Inl e, r', s')
      | (Inr _, r', s') \<Rightarrow> run_epochs op orders s' r')"

definition conflict_free :: "ScheduleManifest \<Rightarrow> bool" where
  "conflict_free m \<longleftrightarrow> (\<forall>e \<in> set (epochs m). independent (iterations e))
     \<and> (\<forall>i < length (epochs m). \<forall>b \<in> set (iterations (epochs m ! i)). \<forall>d \<in> set (dependencies b).
          \<exists>j < i. \<exists>a \<in> set (iterations (epochs m ! j)). it_ordinal a = d)"

definition at_epoch :: "ScheduleManifest \<Rightarrow> nat \<Rightarrow> 'v ScheduleRuntime \<Rightarrow> bool" where
  "at_epoch m i r \<longleftrightarrow> manifest r = m \<and> current_epoch r = i \<and> \<not> aborted r \<and> active r = []
     \<and> set (completed r) = it_ordinal ` set (all_iterations (take i (epochs m)))
     \<and> sorted (map (\<lambda>f. (fr_epoch f, fr_iteration f)) (trace r))"

lemma serial_append: "serial P (xs @ ys) b = Option.bind (serial P xs b) (serial P ys)"
  by (induction xs arbitrary: b) (auto split: prod.split sum.split)

lemma find_unique:
  "distinct (map it_ordinal (all_iterations es)) \<Longrightarrow> e \<in> set es \<Longrightarrow> d \<in> set (iterations e)
    \<Longrightarrow> find_in_epochs (it_ordinal d) es = Some (e, d)"
proof (induction es)
  case (Cons f es)
  have all: "all_iterations (f # es) = iterations f @ all_iterations es" by (simp add: all_iterations_def)
  show ?case
  proof (cases "List.find (\<lambda>c. it_ordinal c = it_ordinal d) (iterations f)")
    case None
    then have "d \<notin> set (iterations f)" by (auto simp: find_None_iff)
    then have "e \<in> set es" using Cons.prems by auto
    then show ?thesis using None Cons by (simp add: all)
  next
    case (Some c)
    then have c: "c \<in> set (iterations f)" "it_ordinal c = it_ordinal d" by (auto simp: find_Some_iff)
    have "e = f"
    proof (rule ccontr)
      assume "e \<noteq> f"
      then have "d \<in> set (all_iterations es)" using Cons.prems by (auto simp: all_iterations_def)
      then show False using Cons.prems(1) c by (auto simp: all)
    qed
    moreover have "c = d"
      using Cons.prems(1,3) c calculation by (auto simp: all distinct_map dest: inj_onD)
    ultimately show ?thesis using Some by simp
  qed
qed (simp add: all_iterations_def)

lemma independent_disjoint:
  assumes "independent its" and "a \<in> set its" and "b \<in> set its" and "a \<noteq> b"
  shows "disjoint_claims (claims a) (claims b)"
proof -
  have "\<not> clashes a b \<or> \<not> clashes b a"
    using assms
  proof (induction its)
    case (Cons x its)
    then show ?case by (auto simp: independent_def)
  qed simp
  then have "disjoint_claims (claims a) (claims b) \<or> disjoint_claims (claims b) (claims a)"
    by (auto simp: clashes_def claims_conflict_def disjoint_claims_def)
  then show ?thesis unfolding disjoint_claims_def by (metis conflicts_sym)
qed

lemma at_epoch_ready:
  assumes v: "valid_manifest m limits" and cf: "conflict_free m" and i: "i < length (epochs m)" and r: "at_epoch m i r"
  shows "ready r (epochs m ! i) (iterations (epochs m ! i))"
proof -
  let ?e = "epochs m ! i"
  have e: "?e \<in> set (epochs m)" using i by simp
  have num: "map it_ordinal (all_iterations (epochs m)) = map of_nat [0..<length (all_iterations (epochs m))]"
    "length (all_iterations (epochs m)) < 2 ^ 64" using v by (simp_all add: valid_manifest_def iterations_ok_def)
  have inj: "inj_on (of_nat :: nat \<Rightarrow> 64 word) {0..<length (all_iterations (epochs m))}"
  proof (rule inj_onI)
    fix x y assume "x \<in> {0..<length (all_iterations (epochs m))}" "y \<in> {0..<length (all_iterations (epochs m))}"
      and eq: "(of_nat x :: 64 word) = of_nat y"
    then have "x < 2 ^ 64" "y < 2 ^ 64" using num(2) by auto
    then show "x = y" using unat_of_nat_64 eq by metis
  qed
  have dist: "distinct (map it_ordinal (all_iterations (epochs m)))" unfolding num(1) by (simp add: distinct_map inj)
  have all: "all_iterations (epochs m) = all_iterations (take i (epochs m)) @ iterations ?e @ all_iterations (drop (Suc i) (epochs m))"
  proof -
    have "all_iterations (epochs m) = all_iterations (take i (epochs m) @ ?e # drop (Suc i) (epochs m))" using id_take_nth_drop [OF i] by simp
    then show ?thesis by (simp add: all_iterations_def)
  qed
  have d: "distinct (map it_ordinal (iterations ?e))" "it_ordinal ` set (all_iterations (take i (epochs m))) \<inter> it_ordinal ` set (iterations ?e) = {}"
    using dist unfolding all by auto
  have cm: "current_manifest r = Inr ?e" using r i by (simp add: at_epoch_def current_manifest_def)
  have fnd: "find_iteration (it_ordinal x) r = Inr (?e, x)" if "x \<in> set (iterations ?e)" for x
    using find_unique [OF dist e that] r by (simp add: find_iteration_def at_epoch_def)
  have new: "it_ordinal x \<notin> set (completed r)" if "x \<in> set (iterations ?e)" for x
    using d(2) that r by (auto simp: at_epoch_def)
  have deps: "set (dependencies x) \<subseteq> set (completed r)" if x: "x \<in> set (iterations ?e)" for x
  proof
    fix n assume "n \<in> set (dependencies x)"
    then obtain j a where j: "j < i" "a \<in> set (iterations (epochs m ! j))" "it_ordinal a = n"
      using cf i x unfolding conflict_free_def by blast
    then have "epochs m ! j \<in> set (take i (epochs m))" using i by (auto simp: in_set_conv_nth)
    then have "a \<in> set (all_iterations (take i (epochs m)))" using j(2) unfolding all_iterations_def by auto
    then show "n \<in> set (completed r)" using r j(3) by (auto simp: at_epoch_def)
  qed
  have ind: "independent (iterations ?e)" using cf e by (simp add: conflict_free_def)
  have base: "\<not> aborted r" "active r = []" "sorted (map (\<lambda>f. (fr_epoch f, fr_iteration f)) (trace r))"
    using r unfolding at_epoch_def by blast+
  show ?thesis
    unfolding ready_def by (intro conjI ballI impI base cm d(1) fnd new deps independent_disjoint [OF ind])
qed

lemma epoch_end_at:
  assumes "at_epoch m i r" and "i < length (epochs m)" and "mset order = mset (map it_ordinal (iterations (epochs m ! i)))"
  shows "at_epoch m (Suc i) (epoch_end (epochs m ! i) P order r)"
proof -
  have "sorted (map epoch_order (trace (epoch_end (epochs m ! i) P order r)))" by (simp add: epoch_end_def advanced_def)
  moreover have "set order = it_ordinal ` set (iterations (epochs m ! i))" using mset_eq_setD [OF assms(3)] by simp
  moreover have "all_iterations (take (Suc i) (epochs m)) = all_iterations (take i (epochs m)) @ iterations (epochs m ! i)"
    using assms(2) by (simp add: take_Suc_conv_app_nth)
  ultimately show ?thesis
    using assms(1) unfolding at_epoch_def epoch_order_def by (simp add: epoch_end_def advanced_def image_Un)
qed

lemma run_epochs_serial:
  assumes v: "valid_manifest m limits" and cf: "conflict_free m"
  shows "i + length orders = length (epochs m) \<Longrightarrow>
    \<forall>k < length orders. mset (orders ! k) = mset (map it_ordinal (iterations (epochs m ! (i + k)))) \<Longrightarrow> at_epoch m i r \<Longrightarrow>
    (case serial P (all_iterations (drop i (epochs m))) (bank r) of
       Some b \<Rightarrow> \<exists>r'. run_epochs (client_op P) orders s r = (Inr (), r', s) \<and> bank r' = b \<and> is_complete r'
     | None \<Rightarrow> \<exists>x r'. run_epochs (client_op P) orders s r = (Inl x, r', s) \<and> aborted r')"
proof (induction orders arbitrary: i r)
  case Nil
  then show ?case by (simp add: all_iterations_def is_complete_def at_epoch_def)
next
  case (Cons order orders)
  let ?e = "epochs m ! i"
  have i: "i < length (epochs m)" using Cons.prems(1) by simp
  have m: "mset order = mset (map it_ordinal (iterations ?e))" using Cons.prems(2) by force
  note rd = at_epoch_ready [OF v cf i Cons.prems(3)]
  note ex = execute_epoch_ready [OF rd m, of P s]
  have "distinct (iterations ?e)" "\<forall>a \<in> set (iterations ?e). \<forall>b \<in> set (iterations ?e). a \<noteq> b \<longrightarrow> disjoint_claims (claims a) (claims b)"
    using rd by (auto simp: ready_def distinct_map)
  note ser = serial_ready [OF this, of P "bank r"]
  have drop: "all_iterations (drop i (epochs m)) = iterations ?e @ all_iterations (drop (Suc i) (epochs m))"
    using i by (simp add: all_iterations_def Cons_nth_drop_Suc [symmetric])
  show ?case
  proof (cases "\<forall>d \<in> set (iterations ?e). fst (outcome P d (bank r)) = Inr ()")
    case True
    let ?r = "epoch_end ?e P order r"
    have "serial P (iterations ?e) (bank r) = Some (bank ?r)" unfolding ser if_P [OF True] by (simp add: epoch_end_def advanced_def)
    then have s: "serial P (all_iterations (drop i (epochs m))) (bank r) = serial P (all_iterations (drop (Suc i) (epochs m))) (bank ?r)"
      by (simp add: drop serial_append)
    have run: "run_epochs (client_op P) (order # orders) s r = run_epochs (client_op P) orders s ?r"
      using ex unfolding if_P [OF True] by simp
    have perm: "\<forall>k < length orders. mset (orders ! k) = mset (map it_ordinal (iterations (epochs m ! (Suc i + k))))"
      using Cons.prems(2) by force
    have "Suc i + length orders = length (epochs m)" using Cons.prems(1) by simp
    from Cons.IH [OF this perm epoch_end_at [OF Cons.prems(3) i m, of P]] show ?thesis unfolding run s .
  next
    case False
    then have "serial P (iterations ?e) (bank r) = None" unfolding ser by (rule if_not_P)
    then have "serial P (all_iterations (drop i (epochs m))) (bank r) = None" by (simp add: drop serial_append)
    moreover obtain x r' where "execute_epoch (client_op P) order s r = (Inl x, r', s)" "aborted r'"
      using ex unfolding if_not_P [OF False] by blast
    ultimately show ?thesis by simp
  qed
qed

text \<open>C20. A planned schedule executes as the program it was planned from: whatever physical order the
  iterations of each epoch complete in, running all epochs of a planned manifest ends with the storage
  bank that the iterations' clients produce one after the other in program order, with every epoch
  finished; and it fails, poisoning the runtime, exactly when that serial run fails.\<close>

theorem planned_execution_is_serial:
  assumes plan: "plan_from_iterations program policy profile sz lanes its = Inr m" and "length its < 2 ^ 64"
    and new: "runtime_new m b0 = Inr r0" and len: "length orders = length (epochs m)"
    and perm: "\<forall>k < length orders. mset (orders ! k) = mset (map it_ordinal (iterations (epochs m ! k)))"
  shows "case serial P (placed lanes its) b0 of
      Some b \<Rightarrow> \<exists>r. run_epochs (client_op P) orders s r0 = (Inr (), r, s) \<and> bank r = b \<and> is_complete r
    | None \<Rightarrow> \<exists>x r. run_epochs (client_op P) orders s r0 = (Inl x, r, s) \<and> aborted r"
proof -
  note facts = planned_facts [OF plan assms(2)]
  have v: "valid_manifest m default_limits" using facts by (simp add: validation_exact)
  have cf: "conflict_free m" using facts unfolding conflict_free_def by blast
  have r0: "r0 = \<lparr>manifest = m, bank = b0, current_epoch = 0, active = [], completed = [], trace = [], aborted = False\<rparr>"
    using new by (simp add: runtime_new_def split: sum.splits)
  then have "at_epoch m 0 r0" "bank r0 = b0" by (simp_all add: at_epoch_def all_iterations_def)
  then show ?thesis
    using run_epochs_serial [OF v cf, of 0 orders r0 P s] len perm facts by simp
qed

end
