(* ===== verification/SchedulerProps.thy ===== *)
theory SchedulerProps
  imports SchedulerRun SchedulerEpoch
begin

text \<open>Concrete schedules: the hypotheses of the scheduler's theorems hold of real manifests, and what
  validation does not check.\<close>

section \<open>Two writers in one epoch\<close>

definition writer :: "IterationId \<Rightarrow> 32 word \<Rightarrow> IterationManifest" where
  "writer n k = (IterationManifest_new n 0 0)\<lparr>claims := [claim_whole (StorageKey k 0) ClaimWrite]\<rparr>"

definition two_writers :: "32 word \<Rightarrow> 32 word \<Rightarrow> ScheduleManifest" where
  "two_writers j k =
     (ScheduleManifest_new [] [] 0 2 2)\<lparr>epochs := [(EpochManifest_new 0 0)\<lparr>iterations := [writer 0 j, writer 1 k]\<rparr>]\<rparr>"

definition writers_runtime :: "32 word \<Rightarrow> 32 word \<Rightarrow> nat ScheduleRuntime" where
  "writers_runtime j k =
     \<lparr>manifest = two_writers j k, bank = Map.empty, current_epoch = 0, active = [], completed = [], trace = [], aborted = False\<rparr>"

text \<open>Each writer writes its own ordinal to the first cell of the namespace it claims.\<close>

definition write_ordinal :: "IterationManifest \<Rightarrow> nat client" where
  "write_ordinal d = Writing (cl_key (hd (claims d))) 0 (unat (it_ordinal d)) Finished"

lemma writer_simps [simp]:
  "it_ordinal (writer n k) = n" "dependencies (writer n k) = []" "worker_lane (writer n k) = 0"
  "claims (writer n k) = [claim_whole (StorageKey k 0) ClaimWrite]"
  "correlation_range (writer n k) = empty_range" "communication_range (writer n k) = empty_range"
  by (simp_all add: writer_def IterationManifest_new_def)

lemma two_writers_valid: "validate_manifest (two_writers j k) default_limits = Inr ()"
  by (simp add: two_writers_def ScheduleManifest_new_def EpochManifest_new_def validation_exact valid_manifest_def epochs_ok_def
      iterations_ok_def iteration_ok_def all_iterations_def default_limits_def ranges_ok_def range_fits_def empty_range_def meets_def
      claim_validate_def claim_whole_def)

lemma two_writers_runtime: "runtime_new (two_writers j k) Map.empty = Inr (writers_runtime j k)"
  by (simp add: runtime_new_def two_writers_valid writers_runtime_def)

lemma two_writers_epoch: "epochs (two_writers j k) = [(EpochManifest_new 0 0)\<lparr>iterations := [writer 0 j, writer 1 k]\<rparr>]"
  by (simp add: two_writers_def)

lemma write_ordinal_outcome:
  "outcome write_ordinal (writer n k) b =
     (Inr (), (fresh_transaction (writer n k))
        \<lparr>tx_events := [\<lparr>ev_key = StorageKey k 0, ev_address = 0, ev_kind = AccessWrite, ev_sequence = 0\<rparr>],
         tx_writes := [\<lparr>bw_key = StorageKey k 0, bw_address = 0, bw_sequence = 0, bw_value = unat n\<rparr>]\<rparr>)"
proof -
  have "write_cell (fresh_transaction (writer n k)) (StorageKey k 0) 0 (unat n) (alone b (writer n k)) =
      Inr ((fresh_transaction (writer n k))
        \<lparr>tx_events := [\<lparr>ev_key = StorageKey k 0, ev_address = 0, ev_kind = AccessWrite, ev_sequence = 0\<rparr>],
         tx_writes := [\<lparr>bw_key = StorageKey k 0, bw_address = 0, bw_sequence = 0, bw_value = unat n\<rparr>]\<rparr>)"
    by (simp add: write_Inr alone_def fresh_transaction_def covers_write_def claim_whole_def)
  then show ?thesis by (simp add: outcome_def write_ordinal_def claim_whole_def)
qed

lemma writers_find:
  "find_iteration 0 (writers_runtime j k) = Inr ((EpochManifest_new 0 0)\<lparr>iterations := [writer 0 j, writer 1 k]\<rparr>, writer 0 j)"
  "find_iteration 1 (writers_runtime j k) = Inr ((EpochManifest_new 0 0)\<lparr>iterations := [writer 0 j, writer 1 k]\<rparr>, writer 1 k)"
  by (simp_all add: find_iteration_def writers_runtime_def two_writers_epoch)

lemma writers_runtime_simps [simp]:
  "\<not> aborted (writers_runtime j k)" "completed (writers_runtime j k) = []" "active (writers_runtime j k) = []"
  "current_epoch_id ((writers_runtime j k)\<lparr>active := as\<rparr>) = Inr 0"
  by (simp_all add: writers_runtime_def current_epoch_id_def current_manifest_def two_writers_epoch EpochManifest_new_def)

lemma writers_disjoint: "j \<noteq> k \<Longrightarrow> disjoint_claims (claims (writer n j)) (claims (writer m k))"
  by (simp add: disjoint_claims_def conflicts_with_def claim_whole_def)

lemma writers_ready:
  assumes "j \<noteq> k"
  shows "ready (writers_runtime j k) ((EpochManifest_new 0 0)\<lparr>iterations := [writer 0 j, writer 1 k]\<rparr>) [writer 0 j, writer 1 k]"
  using writers_disjoint [OF assms] writers_disjoint [OF assms [symmetric]]
  by (auto simp: ready_def writers_find) (simp_all add: writers_runtime_def current_manifest_def two_writers_epoch)

lemma effect_write_ordinal: "effect (snd (outcome write_ordinal (writer n k) b')) b = b((StorageKey k 0, 0) \<mapsto> unat n)"
  by (simp add: effect_def write_ordinal_outcome apply_writes_def bank_insert_def)

lemma writers_single:
  assumes "d = writer 0 j \<or> d = writer 1 k"
    and "manifest r = two_writers j k" "active r = []" "\<not> aborted r" "current_epoch r = 0" "it_ordinal d \<notin> set (completed r)"
    and "sorted (map (\<lambda>f. (fr_epoch f, fr_iteration f)) (trace r))"
  shows "ready r ((EpochManifest_new 0 0)\<lparr>iterations := [writer 0 j, writer 1 k]\<rparr>) [d]"
  using assms by (auto simp: ready_def find_iteration_def two_writers_epoch current_manifest_def)

lemma execute_both_writers:
  assumes "x = writer 0 j \<and> y = writer 1 k \<or> x = writer 1 k \<and> y = writer 0 j"
  shows "\<exists>fs r. execute_epoch (client_op write_ordinal) [it_ordinal x, it_ordinal y] s (writers_runtime j k) = (Inr fs, r, s)
    \<and> bank r = (effect (snd (outcome write_ordinal y Map.empty)) (effect (snd (outcome write_ordinal x Map.empty)) Map.empty))"
proof -
  let ?r = "writers_runtime j k" and ?e = "(EpochManifest_new 0 0)\<lparr>iterations := [writer 0 j, writer 1 k]\<rparr>"
  have xy: "x = writer 0 j \<or> x = writer 1 k" "y = writer 0 j \<or> y = writer 1 k" "it_ordinal x \<noteq> it_ordinal y" using assms by auto
  have ok: "\<exists>tx. outcome write_ordinal d b = (Inr (), tx)" if "d = writer 0 j \<or> d = writer 1 k" for d b
    using that by (auto simp: write_ordinal_outcome)
  have r1: "ready ?r ?e [x]" by (rule writers_single [OF xy(1)]) (simp_all add: writers_runtime_def)
  let ?r1 = "advanced ?e write_ordinal (bank ?r) [x] ?r"
  have "sorted (map epoch_order (trace ?r1))" by (simp add: advanced_def)
  then have "sorted (map (\<lambda>f. (fr_epoch f, fr_iteration f)) (trace ?r1))" unfolding epoch_order_def .
  then have r2: "ready ?r1 ?e [y]"
    using xy(3) by (intro writers_single [OF xy(2)]) (simp_all add: advanced_def writers_runtime_def)
  let ?r2 = "advanced ?e write_ordinal (bank ?r1) [y] ?r1"
  have all: "execute_all (client_op write_ordinal) [it_ordinal x, it_ordinal y] s ?r = (Inr (), ?r2, s)"
    using execute_step [OF r1, of write_ordinal "[it_ordinal y]" s] execute_step [OF r2, of write_ordinal "[]" s] ok [OF xy(1)] ok [OF xy(2)]
    by (metis (no_types, lifting) case_prod_conv execute_all.simps(1) old.sum.simps(6))
  have fin: "\<not> aborted ?r2" "active ?r2 = []" "current_manifest ?r2 = Inr ?e" "set (completed ?r2) = {0, 1}"
    using assms by (auto simp: advanced_def writers_runtime_def current_manifest_def two_writers_epoch)
  have "first_incomplete (completed ?r2) (iterations ?e) = None" by (simp add: first_incomplete_None fin(4))
  then have "\<exists>fs. finish_epoch ?r2 = (Inr fs, ?r2\<lparr>current_epoch := current_epoch ?r2 + 1\<rparr>)"
    using fin(1-3) by (simp add: finish_epoch_def abind_def reads_def ensure_live_def)
  moreover have "rbind (ensure_live ?r) (\<lambda>_. current_manifest ?r) = Inr ?e"
    by (simp add: ensure_live_def writers_runtime_def current_manifest_def two_writers_epoch)
  moreover have "bank ?r2 = effect (snd (outcome write_ordinal y Map.empty)) (effect (snd (outcome write_ordinal x Map.empty)) Map.empty)"
    using assms by (auto simp: advanced_def writers_runtime_def effect_write_ordinal)
  ultimately show ?thesis using all by (auto simp: execute_epoch_def)
qed

text \<open>Storage claims within an epoch are not part of validation: a manifest with two conflicting
  writers in one epoch is accepted, the runtime compares claims of open transactions only, and so
  executing the epoch succeeds in either physical order, with different final banks.\<close>

theorem conflicting_epoch_accepted:
  "runtime_new (two_writers 1 1) Map.empty = Inr (writers_runtime 1 1)
   \<and> conflicts_with (claim_whole (StorageKey 1 0) ClaimWrite) (claim_whole (StorageKey 1 0) ClaimWrite)
   \<and> (\<exists>fs r. execute_epoch (client_op write_ordinal) [0, 1] () (writers_runtime 1 1) = (Inr fs, r, ()) \<and> bank r = [(StorageKey 1 0, 0) \<mapsto> 1])
   \<and> (\<exists>fs r. execute_epoch (client_op write_ordinal) [1, 0] () (writers_runtime 1 1) = (Inr fs, r, ()) \<and> bank r = [(StorageKey 1 0, 0) \<mapsto> 0])"
  using execute_both_writers [of "writer 0 1" 1 "writer 1 1" 1 "()"] execute_both_writers [of "writer 1 1" 1 "writer 0 1" 1 "()"]
  by (auto simp: two_writers_runtime conflicts_with_def claim_whole_def effect_write_ordinal)

section \<open>Witnesses\<close>

theorem completion_order_irrelevant_witness:
  "fst (execute_epoch (client_op write_ordinal) [0, 1] () (writers_runtime 1 2))
     = fst (execute_epoch (client_op write_ordinal) [1, 0] () (writers_runtime 1 2))"
proof -
  let ?r = "writers_runtime 1 2" and ?e = "(EpochManifest_new 0 0)\<lparr>iterations := [writer 0 1, writer 1 2]\<rparr>"
  obtain res r1 u where x: "execute_epoch (client_op write_ordinal) [0, 1] () ?r = (res, r1, u)" by (metis prod_cases3)
  obtain res' r2 v where y: "execute_epoch (client_op write_ordinal) [1, 0] () ?r = (res', r2, v)" by (metis prod_cases3)
  have rd: "ready ?r ?e (iterations ?e)" using writers_ready [of 1 2] by simp
  have s: "serial write_ordinal (iterations ?e) (bank ?r) \<noteq> None" by (simp add: write_ordinal_outcome)
  have "mset [0, 1] = mset (map it_ordinal (iterations ?e))" "mset [1, 0] = mset (map it_ordinal (iterations ?e))" by simp_all
  from completion_order_irrelevant [OF rd this x y] s have "res' = res" by simp
  then show ?thesis by (simp add: x y)
qed

theorem planned_execution_is_serial_witness:
  "\<exists>m r0 r. plan_from_iterations [] [] 3 4 2 sample_iterations = Inr m \<and> runtime_new m (Map.empty :: nat bank) = Inr r0
     \<and> run_epochs (client_op (\<lambda>_. Finished)) (map (\<lambda>e. map it_ordinal (iterations e)) (epochs m)) () r0 = (Inr (), r, ()) \<and> is_complete r"
proof -
  have len: "length sample_iterations = 4" by (simp add: sample_iterations_def)
  obtain m where m: "plan_from_iterations [] [] 3 4 2 sample_iterations = Inr m"
    using planning_accepts [of 4 2 sample_iterations "[]" "[]" 3] sample_plannable len by auto
  have n: "length sample_iterations < 2 ^ 64" by (simp add: len)
  obtain r0 where r0: "runtime_new m (Map.empty :: nat bank) = Inr r0" using planned_facts [OF m n] by (simp add: runtime_new_def)
  let ?orders = "map (\<lambda>e. map it_ordinal (iterations e)) (epochs m)"
  have s: "serial (\<lambda>_. Finished) ds b \<noteq> None" for ds and b :: "nat bank"
    by (induction ds arbitrary: b) (simp_all add: outcome_def)
  have "length ?orders = length (epochs m)" "\<forall>k < length ?orders. mset (?orders ! k) = mset (map it_ordinal (iterations (epochs m ! k)))"
    by simp_all
  from planned_execution_is_serial [OF m n r0 this, of "\<lambda>_. Finished" "()"] s [of "placed 2 sample_iterations" Map.empty] m r0
  show ?thesis by (auto split: option.splits)
qed

theorem interleavings_serialise_witness:
  "\<exists>s. run (initial_system (writers_runtime 1 2)) [LBegin 0, LBegin 1, LOp 1 (OpWrite (StorageKey 2 0, 0) 9), LCommit 1] s
     \<and> bank (rt s) = [(StorageKey 2 0, 0) \<mapsto> 9]"
proof -
  let ?r = "writers_runtime 1 2" and ?e = "(EpochManifest_new 0 0)\<lparr>iterations := [writer 0 1, writer 1 2]\<rparr>"
  let ?r2 = "?r\<lparr>active := [0, 1]\<rparr>" and ?t0 = "fresh_transaction (writer 0 1)" and ?t1 = "fresh_transaction (writer 1 2)"
  let ?s1 = "\<lparr>rt = ?r\<lparr>active := [0]\<rparr>, opened = Map.empty(0 \<mapsto> ?t0)\<rparr>" and ?s2 = "\<lparr>rt = ?r2, opened = [0 \<mapsto> ?t0, 1 \<mapsto> ?t1]\<rparr>"
  have rd: "ready ?r ?e [writer 0 1, writer 1 2]" using writers_ready [of 1 2] by simp
  have step1: "sys_step (initial_system ?r) (LBegin 0) ?s1"
    using sys_step.begins [of 0 "initial_system ?r"] ready_begin [OF rd] by (simp add: initial_system_def)
  have "free_of (writer 1 2) (?r\<lparr>active := [0]\<rparr>) 0" unfolding free_of_def using writers_find [of 1 2] writers_disjoint [of 1 2] by simp
  moreover have "find_iteration 1 (?r\<lparr>active := [0]\<rparr>) = Inr (?e, writer 1 2)" using writers_find(2) [of 1 2] by simp
  moreover have "ep_ordinal ?e = 0" by (simp add: EpochManifest_new_def)
  ultimately have "begin_transaction 1 (?r\<lparr>active := [0]\<rparr>) = (Inr ?t1, ?r2)"
    unfolding begin_Inr by (intro exI [of _ ?e] exI [of _ "writer 1 2"]) simp
  then have step2: "sys_step ?s1 (LBegin 1) ?s2" using sys_step.begins [of 1 ?s1] by simp
  have "\<exists>t1. write_cell ?t1 (StorageKey 2 0) 0 9 ?r2 = Inr t1"
    unfolding write_Inr by (simp add: fresh_transaction_def covers_write_def claim_whole_def)
  then obtain t1 where t1: "write_cell ?t1 (StorageKey 2 0) 0 9 ?r2 = Inr t1" by blast
  then have tx: "tx_closed t1 = False" "tx_iteration t1 = 1" by (simp_all add: write_Inr fresh_transaction_def)
  let ?s3 = "\<lparr>rt = ?r2, opened = (opened ?s2)(1 \<mapsto> t1)\<rparr>"
  have step3: "sys_step ?s2 (LOp 1 (OpWrite (StorageKey 2 0, 0) 9)) ?s3"
    using sys_step.writes [of ?s2 1 ?t1 "StorageKey 2 0" 0 9 t1] t1 by simp
  have "current_epoch_id ?r2 = Inr 0" "1 \<in> set (active ?r2)" "\<not> aborted ?r2"
    by simp_all
  then have "\<exists>f r'. commit t1 ?r2 = Inr (f, r')" using tx unfolding commit_Inr by simp
  then obtain f r' where "commit t1 ?r2 = Inr (f, r')" by blast
  then have step4: "sys_step ?s3 (LCommit 1) \<lparr>rt = r', opened = (opened ?s3)(1 := None)\<rparr>" using sys_step.commits [of ?s3 1 t1] by simp
  let ?ls = "[LBegin 0, LBegin 1, LOp 1 (OpWrite (StorageKey 2 0, 0) 9), LCommit 1]"
  have rn: "run (initial_system ?r) ?ls \<lparr>rt = r', opened = (opened ?s3)(1 := None)\<rparr>"
    using run.step [OF run.step [OF run.step [OF run.step [OF run.start step1] step2] step3] step4] by simp
  from interleavings_serialise [OF two_writers_runtime rn] have "bank r' = [(StorageKey 2 0, 0) \<mapsto> 9]"
    by (simp add: serial_ops_def apply_ops_def)
  then show ?thesis using rn by (intro exI [of _ "\<lparr>rt = r', opened = (opened ?s3)(1 := None)\<rparr>"]) simp
qed

end
