(* ===== verification/ScheduleExtract.thy ===== *)
theory ScheduleExtract
  imports Boolar Schedule
begin

text \<open>
  Schedule extraction from Boolar circuits (\<open>volar-ir-passes/src/schedule.rs\<close>): the storage claims of a
  block and the one-iteration manifest that carries them. Only definitions; the theorems are in
  \<open>ScheduleExtractProps\<close>. The digest fields of the configuration are byte lists, as in manifests.
\<close>

record ScheduleExtractionConfig =
  ec_program_digest :: "8 word list"
  ec_storage_policy_digest :: "8 word list"
  ec_protocol_profile :: "32 word"
  ec_epoch_size :: "32 word"
  ec_worker_lane_count :: "32 word"

definition ScheduleExtractionConfig_new ::
    "8 word list \<Rightarrow> 8 word list \<Rightarrow> 32 word \<Rightarrow> 32 word \<Rightarrow> 32 word \<Rightarrow> ScheduleExtractionConfig" where
  "ScheduleExtractionConfig_new program policy profile sz lanes =
     \<lparr>ec_program_digest = program, ec_storage_policy_digest = policy, ec_protocol_profile = profile,
      ec_epoch_size = sz, ec_worker_lane_count = lanes\<rparr>"

record StorageAccessSummary =
  sum_claims :: "StorageClaim list"

datatype ScheduleExtractionError =
    EmptyProgram
  | UnsupportedShape nat
  | TableError StorageTableError
  | ManifestRejected ManifestError

fun map_err :: "('e \<Rightarrow> 'f) \<Rightarrow> 'e + 'a \<Rightarrow> 'f + 'a" where
  "map_err f (Inl e) = Inl (f e)"
| "map_err f (Inr x) = Inr x"

section \<open>Claims\<close>

definition lane_type :: "lane_id \<Rightarrow> 32 word" where
  "lane_type lane = of_nat lane"

definition classify ::
    "StorageKey \<Rightarrow> bool \<Rightarrow> storage_table \<Rightarrow> ScheduleExtractionError + StorageClaim" where
  "classify key writes t = map_err ManifestRejected (classify_storage_claim key writes t)"

fun join_claim_mode :: "StorageClaimMode \<Rightarrow> StorageClaimMode \<Rightarrow> StorageClaimMode" where
  "join_claim_mode ClaimRead ClaimRead = ClaimRead"
| "join_claim_mode ClaimUnknown _ = ClaimUnknown"
| "join_claim_mode _ ClaimUnknown = ClaimUnknown"
| "join_claim_mode _ _ = ClaimWrite"

fun coalesce_claims :: "StorageClaim list \<Rightarrow> StorageClaim list \<Rightarrow> StorageClaim list" where
  "coalesce_claims canonical [] = canonical"
| "coalesce_claims canonical (claim # cs) =
     (if canonical \<noteq> [] \<and> cl_key (last canonical) = cl_key claim \<and> cl_scope (last canonical) = cl_scope claim
      then coalesce_claims (canonical[length canonical - 1 :=
             StorageClaim (cl_key (last canonical)) (cl_scope (last canonical))
               (join_claim_mode (cl_mode (last canonical)) (cl_mode claim))]) cs
      else coalesce_claims (canonical @ [claim]) cs)"

definition canonicalize_claims :: "StorageClaim list \<Rightarrow> StorageClaim list" where
  "canonicalize_claims cs = coalesce_claims [] (sort cs)"

text \<open>The key a statement accesses and whether it writes; the other statements push no claim.\<close>

fun storage_access :: "bstmt \<Rightarrow> (StorageKey \<times> bool) option" where
  "storage_access (StorageRead s lane _) = Some (StorageKey (of_nat s) (lane_type lane), False)"
| "storage_access (StorageWrite s lane _ _) = Some (StorageKey (of_nat s) (lane_type lane), True)"
| "storage_access (ActionStoreBit _ _ _ _ s lane _ _ _) = Some (StorageKey (of_nat s) (lane_type lane), True)"
| "storage_access _ = None"

fun push_claims ::
    "storage_table \<Rightarrow> 'p node list \<Rightarrow> StorageClaim list \<Rightarrow> ScheduleExtractionError + StorageClaim list" where
  "push_claims t [] cs = Inr cs"
| "push_claims t (n # ns) cs =
     (case storage_access (kind n) of
        None \<Rightarrow> push_claims t ns cs
      | Some (key, writes) \<Rightarrow> rbind (classify key writes t) (\<lambda>c. push_claims t ns (cs @ [c])))"

definition from_biir_block :: "'p BIrBlock \<Rightarrow> storage_table \<Rightarrow> ScheduleExtractionError + StorageAccessSummary" where
  "from_biir_block b t =
     rbind (push_claims t (stmts b) []) (\<lambda>cs. Inr \<lparr>sum_claims = canonicalize_claims cs\<rparr>)"

section \<open>The manifest\<close>

definition one_iteration_manifest ::
    "StorageAccessSummary \<Rightarrow> ScheduleExtractionConfig \<Rightarrow> ScheduleExtractionError + ScheduleManifest" where
  "one_iteration_manifest summary cfg =
     (let manifest = ScheduleManifest_new (ec_program_digest cfg) (ec_storage_policy_digest cfg)
            (ec_protocol_profile cfg) (ec_epoch_size cfg) (ec_worker_lane_count cfg);
          epoch = EpochManifest_new 0 0;
          iteration = (IterationManifest_new 0 0 0)\<lparr>claims := sum_claims summary\<rparr>;
          epoch = epoch\<lparr>iterations := iterations epoch @ [iteration]\<rparr>;
          manifest = canonicalize_manifest (manifest\<lparr>epochs := epochs manifest @ [epoch]\<rparr>)
      in rbind (map_err ManifestRejected (validate_manifest manifest default_limits)) (\<lambda>_. Inr manifest))"

definition extract_biir_circuit_schedule ::
    "'p BIrBlocks \<Rightarrow> storage_table \<Rightarrow> ScheduleExtractionConfig \<Rightarrow> ScheduleExtractionError + ScheduleManifest" where
  "extract_biir_circuit_schedule circuit t cfg =
     (if blocks circuit = [] then Inl EmptyProgram
      else if \<not> is_circuit circuit then Inl (UnsupportedShape (length (blocks circuit)))
      else rbind (map_err TableError (validate_table t)) (\<lambda>_.
           rbind (from_biir_block (blocks circuit ! 0) t) (\<lambda>summary.
             one_iteration_manifest summary cfg)))"

end
