(* ===== verification/ScheduleExtractProps.thy ===== *)
theory ScheduleExtractProps
  imports ScheduleExtract SchedulePlan Dispatch
begin

text \<open>
  What the claims of a circuit mean: the storage a block's evaluation depends on and changes lies in the
  claimed keys, so circuits whose claims do not conflict commute, and the circuits of a conflict-free
  epoch have one outcome in every order.
\<close>

section \<open>The claims of a block\<close>

lemma join_claim_mode_same [simp]: "join_claim_mode = join_mode"
proof (intro ext)
  show "join_claim_mode a b = join_mode a b" for a b by (cases a; cases b) simp_all
qed

lemma coalesce_claims_same [simp]: "coalesce_claims = coalesce"
proof (intro ext)
  show "coalesce_claims canonical cs = coalesce canonical cs" for canonical cs
  proof (induction canonical cs rule: coalesce.induct)
    case (2 canonical c cs)
    have "canonical[length canonical - 1 := x] = butlast canonical @ [x]" if "canonical \<noteq> []" for x
      using that by (cases canonical rule: rev_cases) simp_all
    then show ?case using 2 by auto
  qed simp
qed

definition block_claims :: "storage_table \<Rightarrow> 'p node list \<Rightarrow> StorageClaim set" where
  "block_claims t ns = {c. \<exists>n \<in> set ns. \<exists>key writes. storage_access (kind n) = Some (key, writes) \<and> classify key writes t = Inr c}"

lemma rbind_map_err: "rbind (map_err f m) g = Inr y \<longleftrightarrow> (\<exists>x. m = Inr x \<and> g x = Inr y)"
  by (cases m) simp_all

lemma map_err_Inr [simp]: "map_err f m = Inr x \<longleftrightarrow> m = Inr x"
  by (cases m) simp_all

lemma push_claims_Inr:
  "push_claims t ns cs = Inr ds \<Longrightarrow> set ds = set cs \<union> block_claims t ns
     \<and> (\<forall>n \<in> set ns. \<forall>key writes. storage_access (kind n) = Some (key, writes) \<longrightarrow> (\<exists>c. classify key writes t = Inr c))"
proof (induction ns arbitrary: cs)
  case Nil
  then show ?case by (simp add: block_claims_def)
next
  case (Cons n ns)
  show ?case
  proof (cases "storage_access (kind n)")
    case None
    then show ?thesis using Cons by (auto simp: block_claims_def)
  next
    case (Some a)
    obtain key writes where a: "a = (key, writes)" by (cases a)
    obtain c where c: "classify key writes t = Inr c" "push_claims t ns (cs @ [c]) = Inr ds"
      using Cons.prems Some a by (cases "classify key writes t") auto
    show ?thesis using Cons.IH [OF c(2)] Some a c(1) by (auto simp: block_claims_def)
  qed
qed

lemma push_claims_Inl:
  "push_claims t ns cs = Inl e \<Longrightarrow> \<exists>n \<in> set ns. \<exists>key writes. storage_access (kind n) = Some (key, writes) \<and> classify key writes t = Inl e"
proof (induction ns arbitrary: cs)
  case (Cons n ns)
  show ?case
  proof (cases "storage_access (kind n)")
    case (Some a)
    obtain key writes where a: "a = (key, writes)" by (cases a)
    show ?thesis using Cons Some a by (cases "classify key writes t") auto
  qed (use Cons in auto)
qed simp

text \<open>The only rejected access is a write to a storage declared read-only.\<close>

lemma classify_cases:
  "classify key writes t =
     (if writes \<and> access_of t (unat (key_storage key)) = ReadOnly then Inl (ManifestRejected (ReadOnlyViolation key))
      else Inr (claim_whole key (if writes then ClaimWrite
        else if access_of t (unat (key_storage key)) = ReadOnly then ClaimRead else ClaimUnknown)))"
  by (auto simp: classify_def classify_storage_claim_def split: StorageAccess.splits)

text \<open>A canonical iteration's claims are those of the block, joined per key.\<close>

definition iteration_of :: "StorageClaim list \<Rightarrow> IterationManifest" where
  "iteration_of cs = canonicalize_iteration ((IterationManifest_new 0 0 0)\<lparr>claims := canonicalize_claims cs\<rparr>)"

lemma claims_iteration_of [simp]: "set (claims (iteration_of cs)) = joined cs"
  by (simp add: iteration_of_def canonicalize_claims_def coalesce_sort joined_joined)

lemma one_iteration_Inr:
  "one_iteration_manifest \<lparr>sum_claims = canonicalize_claims cs\<rparr> cfg = Inr m \<Longrightarrow>
   epochs m = [\<lparr>ep_ordinal = 0, iterations = [iteration_of cs], communication_group = 0\<rparr>]
   \<and> validate_manifest m default_limits = Inr ()"
  unfolding one_iteration_manifest_def Let_def rbind_map_err
  by (auto simp: canonicalize_manifest_def ScheduleManifest_new_def EpochManifest_new_def iteration_of_def)

lemma extracted:
  assumes "extract_biir_circuit_schedule p t cfg = Inr m"
  obtains b cs where "blocks p = [b]" and "is_circuit p" and "push_claims t (stmts b) [] = Inr cs"
    and "epochs m = [\<lparr>ep_ordinal = 0, iterations = [iteration_of cs], communication_group = 0\<rparr>]"
    and "validate_manifest m default_limits = Inr ()"
proof -
  have circ: "is_circuit p" using assms by (auto simp: extract_biir_circuit_schedule_def split: if_split_asm)
  then obtain b where b: "blocks p = [b]" by (cases "blocks p") (auto simp: is_circuit_def is_movfuscated_def)
  obtain cs where "push_claims t (stmts b) [] = Inr cs" "one_iteration_manifest \<lparr>sum_claims = canonicalize_claims cs\<rparr> cfg = Inr m"
    using assms circ by (cases "push_claims t (stmts b) []") (auto simp: extract_biir_circuit_schedule_def b from_biir_block_def rbind_map_err)
  then show thesis using that b circ one_iteration_Inr by blast
qed

section \<open>What a block touches\<close>

fun read_keys :: "bstmt \<Rightarrow> (storage_id \<times> lane_id) set" where
  "read_keys (StorageRead s l _) = {(s, l)}"
| "read_keys _ = {}"

fun written_keys :: "bstmt \<Rightarrow> (storage_id \<times> lane_id) set" where
  "written_keys (StorageWrite s l _ _) = {(s, l)}"
| "written_keys (ActionStoreBit _ _ _ _ s l _ _ _) = {(s, l)}"
| "written_keys _ = {}"

definition reads :: "'p node list \<Rightarrow> (storage_id \<times> lane_id) set" where
  "reads ns = (\<Union>n \<in> set ns. read_keys (kind n))"

definition writes :: "'p node list \<Rightarrow> (storage_id \<times> lane_id) set" where
  "writes ns = (\<Union>n \<in> set ns. written_keys (kind n))"

definition agree :: "(storage_id \<times> lane_id) set \<Rightarrow> bstorage \<Rightarrow> bstorage \<Rightarrow> bool" where
  "agree K st tt \<longleftrightarrow> (\<forall>c. fst c \<in> K \<longrightarrow> tt c = st c)"

lemma agree_subset: "agree K st tt \<Longrightarrow> L \<subseteq> K \<Longrightarrow> agree L st tt"
  by (auto simp: agree_def)

lemma agree_add: "agree K st tt \<Longrightarrow> agree K (st ++ u) (tt ++ u)"
  by (auto simp: agree_def map_add_def split: option.split)

text \<open>One statement: an update of the written keys, the same wherever the read keys agree.\<close>

lemma stmt_update:
  assumes "stmt_out E k vs ag st = Some (x, bits, st')"
  shows "\<exists>u. fst ` dom u \<subseteq> written_keys k
    \<and> (\<forall>tt. agree (read_keys k) st tt \<longrightarrow> stmt_out E k vs ag tt = Some (x, bits, tt ++ u))"
proof (cases k)
  case (StorageRead s l addr)
  then show ?thesis using assms
    by (intro exI [of _ Map.empty]) (auto simp: bind_eq_Some_conv agree_def sread_def)
next
  case (StorageWrite s l v addr)
  then obtain y xs where "nth_opt vs v = Some y" "nths_opt vs addr = Some xs" "\<not> x" "bits = None"
    using assms by (auto simp: bind_eq_Some_conv)
  then show ?thesis using StorageWrite
    by (intro exI [of _ "[((s, l), xs) \<mapsto> y]"]) (auto simp: map_add_def fun_eq_iff split: option.split)
next
  case (ActionStoreBit name g args fallback s l addr b occ)
  obtain gv ys fv xs where look: "ext_effects E" "nth_opt vs g = Some gv" "nths_opt vs args = Some ys"
      "nth_opt vs fallback = Some fv" "nths_opt vs addr = Some xs" "\<not> x" "bits = None"
    using assms ActionStoreBit by (cases "ext_effects E") (auto simp: bind_eq_Some_conv simp del: fun_upd_apply)
  then show ?thesis using ActionStoreBit
    by (intro exI [of _ "[((s, l), xs) \<mapsto> (if gv then action_bit_fn (ext_registry E) name ys b occ else fv)]"])
      (auto simp: map_add_def fun_eq_iff split: option.split)
next
  case (ActionCall name g args fallback n)
  then show ?thesis using assms
    by (intro exI [of _ Map.empty]) (cases "ext_effects E"; cases "nth_opt vs g"; auto simp: bind_eq_Some_conv split: if_split_asm)
qed (insert assms, (rule exI [of _ Map.empty], auto simp: bind_eq_Some_conv split: if_split_asm)+)

lemma stmts_update:
  "eval_stmts E ns rv (vs, ag, st) = Some (vs', ag', st') \<Longrightarrow>
   \<exists>u. fst ` dom u \<subseteq> writes ns
     \<and> (\<forall>tt. agree (reads ns) st tt \<longrightarrow> eval_stmts E ns rv (vs, ag, tt) = Some (vs', ag', tt ++ u))"
proof (induction ns arbitrary: rv vs ag st)
  case Nil
  then show ?case by (intro exI [of _ Map.empty]) simp
next
  case (Cons n ns)
  then obtain x bits st1 where out: "stmt_out E (kind n) vs ag st = Some (x, bits, st1)"
    and rest: "eval_stmts E ns (Suc rv) (vs @ [x], put_call rv bits ag, st1) = Some (vs', ag', st')"
    by (auto simp: eval_stmts_out bind_eq_Some_conv simp del: eval_stmts.simps)
  obtain u1 where u1: "fst ` dom u1 \<subseteq> written_keys (kind n)"
      "\<And>tt. agree (read_keys (kind n)) st tt \<Longrightarrow> stmt_out E (kind n) vs ag tt = Some (x, bits, tt ++ u1)"
    using stmt_update [OF out] by blast
  have st1: "st1 = st ++ u1" using u1(2) [of st] out by (simp add: agree_def)
  obtain u2 where u2: "fst ` dom u2 \<subseteq> writes ns"
      "\<And>tt. agree (reads ns) st1 tt \<Longrightarrow> eval_stmts E ns (Suc rv) (vs @ [x], put_call rv bits ag, tt) = Some (vs', ag', tt ++ u2)"
    using Cons.IH [OF rest] by blast
  have step: "eval_stmts E (n # ns) rv (vs, ag, tt) = Some (vs', ag', tt ++ (u1 ++ u2))" if tt: "agree (reads (n # ns)) st tt" for tt
  proof -
    have "agree (read_keys (kind n)) st tt" "agree (reads ns) st1 (tt ++ u1)"
      using tt agree_add [of "reads ns" st tt u1] by (auto simp: st1 reads_def agree_def)
    then show ?thesis using u1(2) u2(2) by (simp add: eval_stmts_out map_add_assoc del: eval_stmts.simps)
  qed
  have "fst ` dom (u1 ++ u2) = fst ` dom u2 \<union> fst ` dom u1" by (simp only: dom_map_add image_Un)
  also have "\<dots> \<subseteq> writes ns \<union> written_keys (kind n)" by (rule Un_mono [OF u2(1) u1(1)])
  also have "\<dots> = writes (n # ns)" by (simp only: writes_def list.set UN_insert Un_commute)
  finally have dom: "fst ` dom (u1 ++ u2) \<subseteq> writes (n # ns)" .
  show ?case by (intro exI [of _ "u1 ++ u2"] conjI allI impI dom step)
qed

text \<open>A whole block: an update of the written keys that depends on the read keys only.\<close>

lemma block_update:
  assumes "eval_block E b ins st = Some (r, st')"
  shows "\<exists>u. fst ` dom u \<subseteq> writes (stmts b)
    \<and> (\<forall>tt. agree (reads (stmts b)) st tt \<longrightarrow> eval_block E b ins tt = Some (r, tt ++ u))"
proof -
  obtain vs ag where ev: "eval_stmts E (stmts b) (params b) (ins, Map.empty, st) = Some (vs, ag, st')"
      "eval_terminator (terminator b) vs = Some r" "length ins = params b"
    using assms by (auto simp: eval_block_def bind_eq_Some_conv split: if_split_asm)
  obtain u where u: "fst ` dom u \<subseteq> writes (stmts b)"
      "\<And>tt. agree (reads (stmts b)) st tt \<Longrightarrow> eval_stmts E (stmts b) (params b) (ins, Map.empty, tt) = Some (vs, ag, tt ++ u)"
    using stmts_update [OF ev(1)] by blast
  have "eval_block E b ins tt = Some (r, tt ++ u)" if "agree (reads (stmts b)) st tt" for tt
    using u(2) [OF that] ev(2,3) by (simp add: eval_block_def)
  then show ?thesis using u(1) by (intro exI [of _ u] conjI allI impI)
qed

section \<open>Claims cover what is touched\<close>

definition key_of :: "storage_id \<times> lane_id \<Rightarrow> StorageKey" where
  "key_of c = StorageKey (of_nat (fst c)) (lane_type (snd c))"

lemma read_access: "c \<in> read_keys k \<Longrightarrow> storage_access k = Some (key_of c, False)"
  by (cases k) (auto simp: key_of_def)

lemma write_access: "c \<in> written_keys k \<Longrightarrow> storage_access k = Some (key_of c, True)"
  by (cases k) (auto simp: key_of_def)

lemma written_claim:
  assumes "push_claims t ns [] = Inr cs" and "c \<in> writes ns"
  shows "StorageClaim (key_of c) Whole ClaimWrite \<in> set cs"
proof -
  obtain n where n: "n \<in> set ns" "c \<in> written_keys (kind n)" using assms(2) by (auto simp: writes_def)
  have acc: "storage_access (kind n) = Some (key_of c, True)" by (rule write_access [OF n(2)])
  obtain d where d: "classify (key_of c) True t = Inr d" using push_claims_Inr [OF assms(1)] n(1) acc by blast
  then have "d = StorageClaim (key_of c) Whole ClaimWrite" by (auto simp: classify_cases claim_whole_def split: if_split_asm)
  moreover have "d \<in> block_claims t ns" using n(1) acc d by (auto simp: block_claims_def)
  ultimately show ?thesis using push_claims_Inr [OF assms(1)] by blast
qed

lemma read_claim:
  assumes "push_claims t ns [] = Inr cs" and "c \<in> reads ns"
  shows "\<exists>m. StorageClaim (key_of c) Whole m \<in> set cs"
proof -
  obtain n where n: "n \<in> set ns" "c \<in> read_keys (kind n)" using assms(2) by (auto simp: reads_def)
  have acc: "storage_access (kind n) = Some (key_of c, False)" by (rule read_access [OF n(2)])
  then obtain d where d: "classify (key_of c) False t = Inr d" using push_claims_Inr [OF assms(1)] n(1) by blast
  then have "d \<in> block_claims t ns" using n(1) acc by (auto simp: block_claims_def)
  then show ?thesis using d push_claims_Inr [OF assms(1)] by (auto simp: classify_cases claim_whole_def)
qed

definition conflict_free :: "StorageClaim set \<Rightarrow> StorageClaim set \<Rightarrow> bool" where
  "conflict_free A B \<longleftrightarrow> (\<forall>c \<in> A. \<forall>d \<in> B. \<not> conflicts_with c d)"

lemma conflict_free_joined: "conflict_free (joined cs) (joined ds) \<longleftrightarrow> conflict_free (set cs) (set ds)"
proof -
  have "conflict_free (joined cs) B \<longleftrightarrow> conflict_free (set cs) B" for cs B
    using joined_conflicts [of cs] by (simp add: conflict_free_def) metis
  moreover have "conflict_free A B \<longleftrightarrow> conflict_free B A" for A B
    unfolding conflict_free_def using conflicts_sym by metis
  ultimately show ?thesis by metis
qed

lemma untouched:
  assumes "push_claims t ns [] = Inr cs" and "push_claims t' ms [] = Inr ds" and "conflict_free (set cs) (set ds)"
  shows "writes ns \<inter> (reads ms \<union> writes ms) = {}"
proof (rule equals0I)
  fix c assume "c \<in> writes ns \<inter> (reads ms \<union> writes ms)"
  then have c: "c \<in> writes ns" "c \<in> reads ms \<union> writes ms" by simp_all
  then obtain m where m: "StorageClaim (key_of c) Whole m \<in> set ds"
    using written_claim [OF assms(2)] read_claim [OF assms(2)] by blast
  have w: "StorageClaim (key_of c) Whole ClaimWrite \<in> set cs" by (rule written_claim [OF assms(1) c(1)])
  have "\<not> conflicts_with (StorageClaim (key_of c) Whole ClaimWrite) (StorageClaim (key_of c) Whole m)"
    by (rule assms(3) [unfolded conflict_free_def, rule_format, OF w m])
  then show False by (simp add: conflicts_place)
qed

section \<open>Orders of independent updates\<close>

lemma sorted_wrt_permuted:
  assumes "mset ys = mset xs" and "sorted_wrt P xs" and "\<And>x y. P x y \<Longrightarrow> P y x"
  shows "sorted_wrt P ys"
  using assms(1,2)
proof (induction xs arbitrary: ys)
  case (Cons x xs)
  then obtain l r where ys: "ys = l @ x # r" by (metis list.set_intros(1) mset_eq_setD split_list)
  then have rest: "mset (l @ r) = mset xs" using Cons.prems(1) by simp
  then have "set (l @ r) = set xs" by (rule mset_eq_setD)
  then have "\<forall>y \<in> set l \<union> set r. P x y" using Cons.prems(2) by auto
  then have "\<forall>y \<in> set l. P y x" "\<forall>y \<in> set r. P x y" using assms(3) by blast+
  moreover have "sorted_wrt P (l @ r)" using Cons.IH [OF rest] Cons.prems(2) by simp
  ultimately show ?case by (simp add: ys sorted_wrt_append)
qed simp

lemma reordered_image: "mset zs = image_mset f (mset xs) \<Longrightarrow> \<exists>ys. mset ys = mset xs \<and> map f ys = zs"
proof (induction zs arbitrary: xs)
  case (Cons z zs)
  then have "z \<in> f ` set xs" by (metis image_set list.set_intros(1) mset_eq_setD mset_map)
  then obtain x l r where x: "z = f x" "xs = l @ x # r" by (metis imageE split_list)
  then have "mset zs = image_mset f (mset (l @ r))" using Cons.prems by simp
  from Cons.IH [OF this] obtain ys where "mset ys = mset (l @ r)" "map f ys = zs" by blast
  then show ?case by (intro exI [of _ "x # ys"]) (simp add: x)
qed simp

definition apart :: "bstorage \<Rightarrow> bstorage \<Rightarrow> bool" where
  "apart u v \<longleftrightarrow> dom u \<inter> dom v = {}"

lemma foldl_add_last: "\<forall>v \<in> set us. apart u v \<Longrightarrow> foldl (++) st us ++ u = foldl (++) (st ++ u) us"
proof (induction us arbitrary: st)
  case (Cons v us)
  have "v ++ u = u ++ v" by (rule map_add_comm) (use Cons.prems in \<open>auto simp: apart_def\<close>)
  then have "st ++ v ++ u = st ++ u ++ v" by (metis map_add_assoc)
  then show ?case using Cons by simp
qed simp

lemma foldl_add_permuted:
  "mset vs = mset us \<Longrightarrow> sorted_wrt apart us \<Longrightarrow> foldl (++) st vs = foldl (++) st us"
proof (induction us arbitrary: vs st)
  case (Cons u us)
  then obtain l r where vs: "vs = l @ u # r" by (metis list.set_intros(1) mset_eq_setD split_list)
  then have rest: "mset (l @ r) = mset us" using Cons.prems(1) by simp
  then have "set (l @ r) = set us" by (rule mset_eq_setD)
  then have "\<forall>v \<in> set l. apart u v" using Cons.prems(2) by auto
  then have "foldl (++) st vs = foldl (++) (st ++ u) (l @ r)" by (simp add: vs foldl_add_last)
  then show ?case using Cons.IH [OF rest] Cons.prems(2) by simp
qed simp

section \<open>Running circuits over a shared storage\<close>

text \<open>A job is a circuit with its manifest and inputs.\<close>

type_synonym 'p job = "'p BIrBlocks \<times> ScheduleManifest \<times> bool list"

abbreviation job_stmts :: "'p job \<Rightarrow> 'p node list" where
  "job_stmts j \<equiv> stmts (blocks (fst j) ! 0)"

definition run_job :: "externals \<Rightarrow> 'p job \<Rightarrow> bstorage \<Rightarrow> (block_result \<times> bstorage) option" where
  "run_job E j st = eval_block E (blocks (fst j) ! 0) (snd (snd j)) st"

fun run_jobs :: "externals \<Rightarrow> 'p job list \<Rightarrow> bstorage \<Rightarrow> (block_result list \<times> bstorage) option" where
  "run_jobs E [] st = Some ([], st)"
| "run_jobs E (j # js) st =
     do { (r, st1) \<leftarrow> run_job E j st; (rs, st2) \<leftarrow> run_jobs E js st1; Some (r # rs, st2) }"

definition manifest_claims :: "ScheduleManifest \<Rightarrow> StorageClaim set" where
  "manifest_claims m = (\<Union>it \<in> set (all_iterations (epochs m)). set (claims it))"

definition extracted_job :: "'p job \<Rightarrow> bool" where
  "extracted_job j \<longleftrightarrow> (\<exists>t cfg. extract_biir_circuit_schedule (fst j) t cfg = Inr (fst (snd j)))"

definition independent_jobs :: "'p job \<Rightarrow> 'p job \<Rightarrow> bool" where
  "independent_jobs i j \<longleftrightarrow> conflict_free (manifest_claims (fst (snd i))) (manifest_claims (fst (snd j)))"

lemma independent_jobs_sym: "independent_jobs i j \<Longrightarrow> independent_jobs j i"
  unfolding independent_jobs_def conflict_free_def using conflicts_sym by blast

lemma independent_untouched:
  assumes "extracted_job i" and "extracted_job j" and "independent_jobs i j"
  shows "writes (job_stmts i) \<inter> (reads (job_stmts j) \<union> writes (job_stmts j)) = {}"
proof -
  obtain t cfg t' cfg' where ex: "extract_biir_circuit_schedule (fst i) t cfg = Inr (fst (snd i))"
      "extract_biir_circuit_schedule (fst j) t' cfg' = Inr (fst (snd j))"
    using assms(1,2) by (auto simp: extracted_job_def)
  obtain b cs where i: "blocks (fst i) = [b]" "push_claims t (stmts b) [] = Inr cs"
      "epochs (fst (snd i)) = [\<lparr>ep_ordinal = 0, iterations = [iteration_of cs], communication_group = 0\<rparr>]"
    by (rule extracted [OF ex(1)])
  obtain b' ds where j: "blocks (fst j) = [b']" "push_claims t' (stmts b') [] = Inr ds"
      "epochs (fst (snd j)) = [\<lparr>ep_ordinal = 0, iterations = [iteration_of ds], communication_group = 0\<rparr>]"
    by (rule extracted [OF ex(2)])
  have "conflict_free (set cs) (set ds)"
    using assms(3) by (simp add: independent_jobs_def manifest_claims_def i(3) j(3) conflict_free_joined)
  from untouched [OF i(2) j(2) this] show ?thesis by (simp add: i(1) j(1))
qed

text \<open>\<open>effect\<close>: what a job does from every storage that agrees with \<open>st\<close> on what it reads.\<close>

definition effect :: "externals \<Rightarrow> bstorage \<Rightarrow> 'p job \<Rightarrow> block_result \<times> bstorage \<Rightarrow> bool" where
  "effect E st j e \<longleftrightarrow> fst ` dom (snd e) \<subseteq> writes (job_stmts j)
     \<and> (\<forall>tt. agree (reads (job_stmts j)) st tt \<longrightarrow> run_job E j tt = Some (fst e, tt ++ snd e))"

lemma agree_untouched: "K \<inter> fst ` dom u = {} \<Longrightarrow> agree K st (st ++ u)"
  by (force simp: agree_def map_add_def split: option.split)

lemma effect_moved:
  assumes "effect E st j e" and "reads (job_stmts j) \<inter> fst ` dom u = {}"
  shows "effect E (st ++ u) j e"
proof -
  have "agree K st tt" if "agree K st (st ++ u)" "agree K (st ++ u) tt" for K tt
    using that by (simp add: agree_def)
  then show ?thesis using assms(1) agree_untouched [OF assms(2)] unfolding effect_def by blast
qed

lemma effect_moved_back:
  assumes "effect E (st ++ u) j e" and "reads (job_stmts j) \<inter> fst ` dom u = {}"
  shows "effect E st j e"
proof -
  have "agree K (st ++ u) tt" if "agree K st (st ++ u)" "agree K st tt" for K tt
    using that by (simp add: agree_def)
  then show ?thesis using assms(1) agree_untouched [OF assms(2)] unfolding effect_def by blast
qed

lemma run_effects:
  assumes "\<forall>j \<in> set js. extracted_job j" and "sorted_wrt independent_jobs js" and "run_jobs E js st = Some (rs, st')"
  shows "\<exists>us. length us = length js \<and> length rs = length js \<and> st' = foldl (++) st us
    \<and> (\<forall>i < length js. effect E st (js ! i) (rs ! i, us ! i))"
  using assms
proof (induction js arbitrary: st rs)
  case (Cons j js)
  obtain r st1 rs' where run: "run_job E j st = Some (r, st1)" "run_jobs E js st1 = Some (rs', st')" "rs = r # rs'"
    using Cons.prems(3) by (auto simp: bind_eq_Some_conv)
  from block_update [OF run(1) [unfolded run_job_def]] obtain u where u: "effect E st j (r, u)"
    by (auto simp: effect_def run_job_def)
  then have st1: "st1 = st ++ u" using run(1) by (auto simp: effect_def agree_def)
  have js: "\<forall>j \<in> set js. extracted_job j" "sorted_wrt independent_jobs js" using Cons.prems by simp_all
  from Cons.IH [OF js run(2)] obtain us where us: "length us = length js" "length rs' = length js" "st' = foldl (++) st1 us"
      "\<forall>i < length js. effect E st1 (js ! i) (rs' ! i, us ! i)" by blast
  have "effect E st (js ! i) (rs' ! i, us ! i)" if i: "i < length js" for i
  proof (rule effect_moved_back)
    show "effect E (st ++ u) (js ! i) (rs' ! i, us ! i)" using us(4) i by (simp add: st1)
    have "writes (job_stmts j) \<inter> reads (job_stmts (js ! i)) = {}"
      using independent_untouched [of j "js ! i"] Cons.prems(1,2) i by auto
    then show "reads (job_stmts (js ! i)) \<inter> fst ` dom u = {}" using u by (auto simp: effect_def)
  qed
  then have "effect E st ((j # js) ! i) (rs ! i, (u # us) ! i)" if "i < length (j # js)" for i
    using u that by (cases i) (simp_all add: run(3))
  then show ?case using us(1-3) st1 by (intro exI [of _ "u # us"]) (simp add: run(3))
qed simp

lemma effects_run:
  assumes "\<forall>z \<in> set zs. extracted_job (fst z)" and "sorted_wrt (\<lambda>x y. independent_jobs (fst x) (fst y)) zs"
    and "\<forall>z \<in> set zs. effect E st (fst z) (snd z)"
  shows "run_jobs E (map fst zs) st = Some (map (fst \<circ> snd) zs, foldl (++) st (map (snd \<circ> snd) zs))"
  using assms
proof (induction zs arbitrary: st)
  case (Cons z zs)
  obtain j r u where z: "z = (j, r, u)" by (cases z)
  have run: "run_job E j st = Some (r, st ++ u)" using Cons.prems(3) by (auto simp: z effect_def agree_def)
  have "effect E (st ++ u) (fst y) (snd y)" if y: "y \<in> set zs" for y
  proof (rule effect_moved)
    show "effect E st (fst y) (snd y)" using Cons.prems(3) y by simp
    have "writes (job_stmts j) \<inter> reads (job_stmts (fst y)) = {}"
      using independent_untouched [of j "fst y"] Cons.prems(1,2) y by (auto simp: z)
    then show "reads (job_stmts (fst y)) \<inter> fst ` dom u = {}" using Cons.prems(3) by (auto simp: z effect_def)
  qed
  then show ?case using Cons run by (simp add: z)
qed simp

lemma effects_apart:
  assumes "extracted_job i" and "extracted_job j" and "independent_jobs i j" and "effect E st i e" and "effect E st j f"
  shows "apart (snd e) (snd f)"
  using independent_untouched [OF assms(1-3)] assms(4,5) by (force simp: apart_def effect_def)

section \<open>Which circuits have a schedule\<close>

lemma claims_card: "length (claims (iteration_of cs)) = card (joined cs)"
proof -
  have "sorted_wrt (<) (claims (iteration_of cs))"
    using canonicalize_canonical by (simp add: iteration_of_def canonical_iteration_def places_ascending)
  then have "distinct (claims (iteration_of cs))" by (simp add: strict_sorted_iff)
  then show ?thesis using distinct_card claims_iteration_of by metis
qed

lemma joined_whole:
  assumes "\<forall>c \<in> set cs. cl_scope c = Whole"
  shows "card (joined cs) = card (cl_key ` set cs)"
proof -
  have "joined cs = (\<lambda>k. StorageClaim k Whole (join_all (modes_at cs (k, Whole)))) ` cl_key ` set cs"
    using assms by (force simp: joined_def claim_place_def image_image)
  then show ?thesis by (simp add: card_image inj_on_def)
qed

text \<open>The canonical one-iteration manifest is valid whenever its sizes are.\<close>

lemma one_iteration_valid:
  assumes "\<forall>c \<in> set cs. cl_scope c = Whole"
  shows "(\<exists>m. one_iteration_manifest \<lparr>sum_claims = canonicalize_claims cs\<rparr> cfg = Inr m) \<longleftrightarrow>
    ec_epoch_size cfg \<noteq> 0 \<and> ec_worker_lane_count cfg \<noteq> 0 \<and> card (cl_key ` set cs) \<le> 2 ^ 16"
proof -
  let ?m = "\<lparr>format_version = SCHEDULE_MANIFEST_VERSION, program_digest = ec_program_digest cfg,
    storage_policy_digest = ec_storage_policy_digest cfg, protocol_profile = ec_protocol_profile cfg,
    epoch_size = ec_epoch_size cfg, worker_lane_count = ec_worker_lane_count cfg,
    epochs = [\<lparr>ep_ordinal = 0, iterations = [iteration_of cs], communication_group = 0\<rparr>]\<rparr>"
  have one: "(\<exists>m. one_iteration_manifest \<lparr>sum_claims = canonicalize_claims cs\<rparr> cfg = Inr m)
      \<longleftrightarrow> validate_manifest ?m default_limits = Inr ()"
    by (simp add: one_iteration_manifest_def Let_def rbind_map_err canonicalize_manifest_def ScheduleManifest_new_def
        EpochManifest_new_def iteration_of_def)
  have it: "it_ordinal (iteration_of cs) = 0" "worker_lane (iteration_of cs) = 0" "dependencies (iteration_of cs) = []"
      "correlation_range (iteration_of cs) = empty_range" "communication_range (iteration_of cs) = empty_range"
    by (simp_all add: iteration_of_def canonicalize_iteration_def IterationManifest_new_def)
  have len: "length (claims (iteration_of cs)) = card (cl_key ` set cs)" using claims_card joined_whole [OF assms] by metis
  have good: "\<forall>c \<in> set (claims (iteration_of cs)). claim_validate c = Inr ()"
    using assms by (auto simp: joined_iff claim_validate_def)
  have asc: "sorted_wrt (<) (claims (iteration_of cs))"
    using canonicalize_canonical by (simp add: iteration_of_def canonical_iteration_def places_ascending)
  have size: "Suc 0 \<le> unat (ec_epoch_size cfg) \<longleftrightarrow> ec_epoch_size cfg \<noteq> 0"
    using unat_eq_zero [of "ec_epoch_size cfg"] by linarith
  have lane: "0 < ec_worker_lane_count cfg \<longleftrightarrow> ec_worker_lane_count cfg \<noteq> 0" by (rule word_neq_0_conv [symmetric])
  have ok: "iteration_ok ?m default_limits (iteration_of cs) \<longleftrightarrow> ec_worker_lane_count cfg \<noteq> 0 \<and> card (cl_key ` set cs) \<le> 2 ^ 16"
    using good asc by (simp add: iteration_ok_def it len lane default_limits_def del: claims_iteration_of)
  have "iterations_ok ?m default_limits [iteration_of cs] \<longleftrightarrow> ec_worker_lane_count cfg \<noteq> 0 \<and> card (cl_key ` set cs) \<le> 2 ^ 16"
    by (simp add: iterations_ok_def ok it) (simp add: default_limits_def ranges_ok_def range_fits_def empty_range_def)
  moreover have "epochs_ok ?m (epochs ?m) \<longleftrightarrow> ec_epoch_size cfg \<noteq> 0" by (simp add: epochs_ok_def size)
  ultimately show ?thesis unfolding one validation_exact valid_manifest_def
    by (simp add: default_limits_def) blast
qed

lemma push_claims_whole: "push_claims t ns [] = Inr cs \<Longrightarrow> \<forall>c \<in> set cs. cl_scope c = Whole"
  using push_claims_Inr [of t ns "[]" cs] by (auto simp: block_claims_def classify_cases claim_whole_def split: if_split_asm)

lemma push_claims_accepts:
  "(\<exists>cs. push_claims t ns [] = Inr cs) \<longleftrightarrow>
     (\<forall>n \<in> set ns. \<forall>key. storage_access (kind n) = Some (key, True) \<longrightarrow> access_of t (unat (key_storage key)) = ReadWrite)"
proof (cases "push_claims t ns []")
  case (Inl e)
  then obtain n key writes where n: "n \<in> set ns" "storage_access (kind n) = Some (key, writes)" "classify key writes t = Inl e"
    using push_claims_Inl by blast
  then have "writes" "access_of t (unat (key_storage key)) \<noteq> ReadWrite" by (auto simp: classify_cases split: if_split_asm)
  then show ?thesis using Inl n by auto
next
  case (Inr cs)
  have "access_of t (unat (key_storage key)) = ReadWrite" if n: "n \<in> set ns" "storage_access (kind n) = Some (key, True)" for n key
  proof -
    obtain c where "classify key True t = Inr c" using push_claims_Inr [OF Inr] n by blast
    then show ?thesis by (cases "access_of t (unat (key_storage key))") (auto simp: classify_cases)
  qed
  then show ?thesis using Inr by blast
qed

lemma push_claims_keys:
  "push_claims t ns [] = Inr cs \<Longrightarrow> cl_key ` set cs = {key. \<exists>n \<in> set ns. \<exists>w. storage_access (kind n) = Some (key, w)}"
proof -
  assume cs: "push_claims t ns [] = Inr cs"
  have key: "classify key w t = Inr c \<Longrightarrow> cl_key c = key" for key w c
    by (auto simp: classify_cases claim_whole_def split: if_split_asm)
  show ?thesis
  proof (intro set_eqI iffI)
    fix k assume "k \<in> cl_key ` set cs"
    then obtain c where "c \<in> block_claims t ns" "k = cl_key c" using push_claims_Inr [OF cs] by auto
    then obtain n w where "n \<in> set ns" "storage_access (kind n) = Some (k, w)"
      unfolding block_claims_def using key by blast
    then show "k \<in> {key. \<exists>n \<in> set ns. \<exists>w. storage_access (kind n) = Some (key, w)}" by blast
  next
    fix k assume "k \<in> {key. \<exists>n \<in> set ns. \<exists>w. storage_access (kind n) = Some (key, w)}"
    then obtain n w where n: "n \<in> set ns" "storage_access (kind n) = Some (k, w)" by blast
    then obtain c where "classify k w t = Inr c" using push_claims_Inr [OF cs] by blast
    then have "c \<in> block_claims t ns" "cl_key c = k" using n key by (auto simp: block_claims_def)
    then show "k \<in> cl_key ` set cs" using push_claims_Inr [OF cs] by auto
  qed
qed

text \<open>Extraction succeeds exactly on circuits with a well-formed storage table, no write to read-only
  storage, positive epoch size and lane count, and at most \<open>2 ^ 16\<close> storage keys.\<close>

lemma extraction_accepts:
  "(\<exists>m. extract_biir_circuit_schedule p t cfg = Inr m) \<longleftrightarrow>
     is_circuit p \<and> validate_table t = Inr ()
     \<and> (\<forall>n \<in> set (stmts (blocks p ! 0)). \<forall>key. storage_access (kind n) = Some (key, True)
          \<longrightarrow> access_of t (unat (key_storage key)) = ReadWrite)
     \<and> ec_epoch_size cfg \<noteq> 0 \<and> ec_worker_lane_count cfg \<noteq> 0
     \<and> card {key. \<exists>n \<in> set (stmts (blocks p ! 0)). \<exists>w. storage_access (kind n) = Some (key, w)} \<le> 2 ^ 16"
proof (cases "is_circuit p \<and> validate_table t = Inr ()")
  case True
  then have ne: "blocks p \<noteq> []" by (auto simp: is_circuit_def is_movfuscated_def)
  have ex: "extract_biir_circuit_schedule p t cfg = rbind (push_claims t (stmts (blocks p ! 0)) [])
      (\<lambda>cs. one_iteration_manifest \<lparr>sum_claims = canonicalize_claims cs\<rparr> cfg)"
    using True ne by (cases "push_claims t (stmts (blocks p ! 0)) []")
      (simp_all add: extract_biir_circuit_schedule_def from_biir_block_def)
  show ?thesis
  proof (cases "push_claims t (stmts (blocks p ! 0)) []")
    case (Inl e)
    then show ?thesis using push_claims_accepts [of t "stmts (blocks p ! 0)"] ex by auto
  next
    case (Inr cs)
    have "\<exists>cs. push_claims t (stmts (blocks p ! 0)) [] = Inr cs" using Inr by blast
    then show ?thesis
      using True ex push_claims_accepts [of t "stmts (blocks p ! 0)"] one_iteration_valid [OF push_claims_whole [OF Inr], of cfg]
      by (simp add: Inr push_claims_keys [OF Inr])
  qed
next
  case False
  then show ?thesis by (auto simp: extract_biir_circuit_schedule_def rbind_map_err split: if_split_asm)
qed

section \<open>Theorems\<close>

text \<open>C24. The extracted claims cover what the circuit does to the storage: evaluating its block changes only
  cells whose storage and lane carry a claim that is not a read, and from every storage that agrees on
  the claimed keys it gives the same result and the same changes.\<close>

theorem extracted_claims_cover:
  assumes "extract_biir_circuit_schedule p t cfg = Inr m" and "eval_block E (blocks p ! 0) ins st = Some (r, st')"
  shows "\<exists>u. st' = st ++ u
    \<and> (\<forall>c \<in> dom u. \<exists>mode. mode \<noteq> ClaimRead \<and> StorageClaim (key_of (fst c)) Whole mode \<in> manifest_claims m)
    \<and> (\<forall>tt. (\<forall>c. key_of (fst c) \<in> cl_key ` manifest_claims m \<longrightarrow> tt c = st c) \<longrightarrow>
          eval_block E (blocks p ! 0) ins tt = Some (r, tt ++ u))"
proof -
  obtain b cs where b: "blocks p = [b]" "push_claims t (stmts b) [] = Inr cs"
    and m: "epochs m = [\<lparr>ep_ordinal = 0, iterations = [iteration_of cs], communication_group = 0\<rparr>]"
    by (rule extracted [OF assms(1)])
  have claims: "manifest_claims m = joined cs" by (simp add: manifest_claims_def m)
  obtain u where u: "fst ` dom u \<subseteq> writes (stmts b)"
      "\<And>tt. agree (reads (stmts b)) st tt \<Longrightarrow> eval_block E b ins tt = Some (r, tt ++ u)"
    using block_update [of E b ins st r st'] assms(2) by (auto simp: b(1))
  have "st' = st ++ u" using u(2) [of st] assms(2) by (simp add: agree_def b(1))
  moreover have "\<exists>mode. mode \<noteq> ClaimRead \<and> StorageClaim (key_of (fst c)) Whole mode \<in> joined cs" if "c \<in> dom u" for c
  proof -
    have "fst c \<in> writes (stmts b)" using u(1) that by blast
    then have w: "StorageClaim (key_of (fst c)) Whole ClaimWrite \<in> set cs" by (rule written_claim [OF b(2)])
    then have "ClaimWrite \<in> modes_at cs (claim_place (StorageClaim (key_of (fst c)) Whole ClaimWrite))"
      by (force simp: modes_at_def)
    then have "join_all (modes_at cs (claim_place (StorageClaim (key_of (fst c)) Whole ClaimWrite))) \<noteq> ClaimRead"
      by (auto simp: join_all_read)
    moreover have "StorageClaim (key_of (fst c)) Whole (join_all (modes_at cs (claim_place (StorageClaim (key_of (fst c)) Whole ClaimWrite)))) \<in> joined cs"
      using w unfolding joined_iff by force
    ultimately show ?thesis by blast
  qed
  moreover have "eval_block E b ins tt = Some (r, tt ++ u)" if tt: "\<forall>c. key_of (fst c) \<in> cl_key ` joined cs \<longrightarrow> tt c = st c" for tt
  proof (rule u(2))
    have "key_of k \<in> cl_key ` joined cs" if k: "k \<in> reads (stmts b)" for k
    proof -
      obtain mode where "StorageClaim (key_of k) Whole mode \<in> set cs" using read_claim [OF b(2) k] by blast
      then have "StorageClaim (key_of k) Whole (join_all (modes_at cs (claim_place (StorageClaim (key_of k) Whole mode)))) \<in> joined cs"
        unfolding joined_iff by force
      then show ?thesis by force
    qed
    then show "agree (reads (stmts b)) st tt" using tt by (simp add: agree_def)
  qed
  ultimately show ?thesis unfolding claims b(1) by (intro exI [of _ u]) simp
qed

text \<open>A circuit that reads one storage and writes another, and one that writes a third.\<close>

definition copies_bit :: "storage_id \<Rightarrow> storage_id \<Rightarrow> unit BIrBlocks" where
  "copies_bit a b = \<lparr>blocks =
     [\<lparr>params = 1, stmts = [Node_new (StorageRead a 0 [0]) () None, Node_new (StorageWrite b 0 1 [0]) () None],
       terminator = Jmp \<lparr>tgt_block = Return, tgt_args = [1]\<rparr>\<rparr>],
     pre_init = []\<rparr>"

definition extraction_config :: ScheduleExtractionConfig where
  "extraction_config = ScheduleExtractionConfig_new [1] [2] 9 4 2"

lemma copies_claims: "push_claims [] (stmts (blocks (copies_bit a b) ! 0)) [] =
  Inr [StorageClaim (StorageKey (of_nat a) 0) Whole ClaimUnknown, StorageClaim (StorageKey (of_nat b) 0) Whole ClaimWrite]"
  by (simp add: copies_bit_def Node_new_def lane_type_def classify_cases access_of_def find_decl_def binary_search_by_def claim_whole_def)

lemma copies_schedule:
  assumes "(of_nat a :: 32 word) \<noteq> of_nat b"
  shows "\<exists>m. extract_biir_circuit_schedule (copies_bit a b) [] extraction_config = Inr m \<and> manifest_claims m =
    {StorageClaim (StorageKey (of_nat a) 0) Whole ClaimUnknown, StorageClaim (StorageKey (of_nat b) 0) Whole ClaimWrite}"
proof -
  have "card {key. \<exists>n \<in> set (stmts (blocks (copies_bit a b) ! 0)). \<exists>w. storage_access (kind n) = Some (key, w)} \<le> 2"
    unfolding push_claims_keys [OF copies_claims, symmetric] by (simp add: card_insert_if)
  moreover have "\<exists>cs. push_claims [] (stmts (blocks (copies_bit a b) ! 0)) [] = Inr cs" using copies_claims by blast
  moreover have "is_circuit (copies_bit a b)" by (simp add: copies_bit_def is_circuit_def is_movfuscated_def)
  ultimately obtain m where m: "extract_biir_circuit_schedule (copies_bit a b) [] extraction_config = Inr m"
    using extraction_accepts [of "copies_bit a b" "[]" extraction_config] unfolding push_claims_accepts
    by (auto simp: extraction_config_def ScheduleExtractionConfig_new_def)
  obtain b' cs where b': "blocks (copies_bit a b) = [b']" "push_claims [] (stmts b') [] = Inr cs"
      "epochs m = [\<lparr>ep_ordinal = 0, iterations = [iteration_of cs], communication_group = 0\<rparr>]"
    by (rule extracted [OF m])
  then have "cs = [StorageClaim (StorageKey (of_nat a) 0) Whole ClaimUnknown, StorageClaim (StorageKey (of_nat b) 0) Whole ClaimWrite]"
    using copies_claims [of a b] by simp
  then have "manifest_claims m = {StorageClaim (StorageKey (of_nat a) 0) Whole ClaimUnknown, StorageClaim (StorageKey (of_nat b) 0) Whole ClaimWrite}"
    using assms by (simp add: manifest_claims_def b'(3) joined_def modes_at_Cons claim_place_def join_all_def) (simp add: modes_at_def)
  then show ?thesis using m by blast
qed

lemma copies_run:
  "eval_block E (blocks (copies_bit a b) ! 0) [x] st
    = Some (BReturn [sread st ((a, 0), [x])], st(((b, 0), [x]) \<mapsto> sread st ((a, 0), [x])))"
  by (simp add: copies_bit_def eval_block_def Node_new_def resolve_target_def nths_opt_def nth_opt_def)

theorem extracted_claims_cover_witness:
  "\<exists>m u. extract_biir_circuit_schedule (copies_bit 3 4) [] extraction_config = Inr m
    \<and> (\<forall>c \<in> dom u. \<exists>mode. mode \<noteq> ClaimRead \<and> StorageClaim (key_of (fst c)) Whole mode \<in> manifest_claims m)
    \<and> [((4, 0), [True]) \<mapsto> False] = (Map.empty :: bstorage) ++ u"
proof -
  obtain m where m: "extract_biir_circuit_schedule (copies_bit 3 4) [] extraction_config = Inr m"
    using copies_schedule [of 3 4] by auto
  show ?thesis using extracted_claims_cover [OF m copies_run [of hash_externals 3 4 True Map.empty]] m by (fastforce simp: sread_def)
qed

text \<open>C23. Circuits whose extracted claims are pairwise free of conflicts can be run over one storage in any
  order: if they run in one order, then in every other order each gives the same result and the
  storage is the same in the end.\<close>

theorem independent_circuits_commute:
  assumes "\<forall>j \<in> set js. \<exists>t cfg. extract_biir_circuit_schedule (fst j) t cfg = Inr (fst (snd j))"
    and "sorted_wrt (\<lambda>i j. conflict_free (manifest_claims (fst (snd i))) (manifest_claims (fst (snd j)))) js"
    and "run_jobs E js st = Some (rs, st')" and "mset zs = mset (zip js rs)"
  shows "run_jobs E (map fst zs) st = Some (map snd zs, st')"
proof -
  have ex: "\<forall>j \<in> set js. extracted_job j" and ind: "sorted_wrt independent_jobs js"
    using assms(1,2) by (simp_all add: extracted_job_def independent_jobs_def [abs_def])
  obtain us where us: "length us = length js" "length rs = length js" "st' = foldl (++) st us"
      "\<forall>i < length js. effect E st (js ! i) (rs ! i, us ! i)"
    using run_effects [OF ex ind assms(3)] by blast
  let ?xs = "zip js (zip rs us)" and ?drop = "\<lambda>(j, r, u). (j, r)"
  have drop: "map ?drop ?xs = zip js rs" using us(1,2) by (auto intro!: nth_equalityI)
  obtain ys where ys: "mset ys = mset ?xs" "map ?drop ys = zs"
  proof -
    have "mset zs = image_mset ?drop (mset ?xs)" by (simp only: assms(4) drop [symmetric] mset_map)
    from reordered_image [OF this] show thesis using that by blast
  qed
  have set: "set ys = set ?xs" using ys(1) by (rule mset_eq_setD)
  have effs: "\<forall>z \<in> set ys. effect E st (fst z) (snd z)" and exs: "\<forall>z \<in> set ys. extracted_job (fst z)"
    unfolding set using us(1,2,4) ex by (auto simp: set_zip)
  have "sorted_wrt (\<lambda>x y. independent_jobs (fst x) (fst y)) ?xs"
    using ind us(1,2) by (auto simp: sorted_wrt_iff_nth_less)
  then have inds: "sorted_wrt (\<lambda>x y. independent_jobs (fst x) (fst y)) ys"
    using sorted_wrt_permuted [OF ys(1)] independent_jobs_sym by metis
  have "run_jobs E (map fst ys) st = Some (map (fst \<circ> snd) ys, foldl (++) st (map (snd \<circ> snd) ys))"
    by (rule effects_run [OF exs inds effs])
  moreover have "map fst ys = map fst zs" "map (fst \<circ> snd) ys = map snd zs" using ys(2) by auto
  moreover have "foldl (++) st (map (snd \<circ> snd) ys) = foldl (++) st us"
  proof (rule foldl_add_permuted)
    have "mset (map (snd \<circ> snd) ys) = mset (map (snd \<circ> snd) ?xs)" using ys(1) by (simp only: mset_map)
    also have "map (snd \<circ> snd) ?xs = us" using us(1,2) by (auto intro!: nth_equalityI)
    finally show "mset (map (snd \<circ> snd) ys) = mset us" .
    have "apart (us ! i) (us ! k)" if "i < k" "k < length us" for i k
    proof -
      have "extracted_job (js ! i)" "extracted_job (js ! k)" using ex that us(1) by simp_all
      moreover have "independent_jobs (js ! i) (js ! k)" using ind that us(1) by (simp add: sorted_wrt_iff_nth_less)
      ultimately show ?thesis using effects_apart [of "js ! i" "js ! k" E st "(rs ! i, us ! i)" "(rs ! k, us ! k)"] us that by simp
    qed
    then show "sorted_wrt apart us" by (simp add: sorted_wrt_iff_nth_less)
  qed
  ultimately show ?thesis by (simp add: us(3))
qed

theorem independent_circuits_commute_witness:
  "\<exists>m n. extract_biir_circuit_schedule (copies_bit 3 4) [] extraction_config = Inr m
    \<and> extract_biir_circuit_schedule (copies_bit 5 6) [] extraction_config = Inr n
    \<and> run_jobs hash_externals [(copies_bit 5 6, n, [True]), (copies_bit 3 4, m, [False])] Map.empty
      = Some ([BReturn [False], BReturn [False]], [((4, 0), [False]) \<mapsto> False, ((6, 0), [True]) \<mapsto> False])"
proof -
  obtain m where m: "extract_biir_circuit_schedule (copies_bit 3 4) [] extraction_config = Inr m"
    "manifest_claims m = {StorageClaim (StorageKey 3 0) Whole ClaimUnknown, StorageClaim (StorageKey 4 0) Whole ClaimWrite}"
    using copies_schedule [of 3 4] by auto
  obtain n where n: "extract_biir_circuit_schedule (copies_bit 5 6) [] extraction_config = Inr n"
    "manifest_claims n = {StorageClaim (StorageKey 5 0) Whole ClaimUnknown, StorageClaim (StorageKey 6 0) Whole ClaimWrite}"
    using copies_schedule [of 5 6] by auto
  let ?a = "(copies_bit 3 4, m, [False])" and ?b = "(copies_bit 5 6, n, [True])"
  have "\<forall>j \<in> set [?a, ?b]. \<exists>t cfg. extract_biir_circuit_schedule (fst j) t cfg = Inr (fst (snd j))"
    using m(1) n(1) by auto
  moreover have "sorted_wrt (\<lambda>i j. conflict_free (manifest_claims (fst (snd i))) (manifest_claims (fst (snd j)))) [?a, ?b]"
    by (simp add: m(2) n(2) conflict_free_def conflicts_place)
  moreover have "run_jobs hash_externals [?a, ?b] Map.empty
      = Some ([BReturn [False], BReturn [False]], [((4, 0), [False]) \<mapsto> False, ((6, 0), [True]) \<mapsto> False])"
    by (simp add: run_job_def copies_run sread_def)
  moreover have "mset [(?b, BReturn [False]), (?a, BReturn [False])] = mset (zip [?a, ?b] [BReturn [False], BReturn [False]])"
    by simp
  ultimately show ?thesis
    using independent_circuits_commute [of "[?a, ?b]" hash_externals Map.empty _ _ "[(?b, BReturn [False]), (?a, BReturn [False])]"] m(1) n(1)
    by fastforce
qed

end
