(* ===== verification/Spec2Isabelle.thy ===== *)
theory Spec2Isabelle
  imports Hardened BoolarProps RCircuitProps ReversibleRoundTrip OptProps ReadonlyFold Pipeline StorageMuxProps PolyCoeffs ScheduleBytes SchedulerProps ScheduleExtractProps
begin

text \<open>
  \<^bold>\<open>Volar IR: Boolar circuits, their optimiser and reversible embeddings, and the scheduler.\<close>

  Volar compiles programs to Boolar IR, a block-structured single-assignment IR of single bits with
  external oracles and bit-addressed storage. A one-block program fuses into a circuit; a circuit is
  embedded into a reversible circuit (for zero-knowledge and quantum back ends) and can be lowered back.
  Around the IR stand an optimiser, the tables that classify storage, the polynomial statements'
  coefficient collections, and a scheduler that executes the iterations of a program over shared
  storage. Paths below are relative to \<open>src/crates\<close>.

  \<^bold>\<open>Which theory models what.\<close>
  \<^item> \<open>Prelude\<close>: outcomes of fallible functions, checked indexing, lemmas on lists and maps.
  \<^item> \<open>Boolar\<close>: \<open>ir/volar-ir/src/boolar.rs\<close> and \<open>circuit.rs\<close> (Boolar half): statements, terminators,
    blocks, pre-initialised segments (\<open>BIrStmt\<close>, \<open>BIrTerminator\<close>, \<open>BIrBlock\<close>, \<open>BIrBlocks\<close>), circuits
    (\<open>BCircuit\<close>), the fallible maps, \<open>try_from_ir\<close> and \<open>to_bir_blocks\<close>.
  \<^item> \<open>BoolarEval\<close>: \<open>fuzz/volar-fuzz/src/interpreter/biir.rs\<close> and \<open>generators/oracle.rs\<close>, the reference
    evaluator (\<open>eval_stmt\<close>, \<open>eval_block\<close>, \<open>eval_biir_with_limit\<close>) that gives every pass its meaning.
  \<^item> \<open>BoolarProps\<close>: fusion round trip, evaluation of fused programs, which programs the block loop
    leaves, address arithmetic, storage initialisation, the oracle stream.
  \<^item> \<open>RCircuit\<close>, \<open>AncillaPool\<close>: \<open>ir/volar-ir/src/rcircuit.rs\<close> and \<open>rcircuit/ancilla.rs\<close>: gates,
    validation, the three evaluators, inverse and composition; borrowing of ancilla wires.
    \<open>RCircuitProps\<close> has their theorems.
  \<^item> \<open>ToReversible\<close>: \<open>ir/volar-ir-passes/src/to_reversible.rs\<close> whole. \<open>SynthCorrect\<close> proves the
    invariant of one statement's synthesis, \<open>NaiveEmbedding\<close> the loop, compaction and the naive
    embedding, \<open>Hardened\<close> the hardened one.
  \<^item> \<open>FromReversible\<close>: \<open>ir/volar-ir-passes/src/from_reversible.rs\<close>; \<open>FromReversibleProps\<close> and \<open>Hardcode\<close>
    prove it, \<open>ReversibleRoundTrip\<close> composes the two lowerings.
  \<^item> \<open>BoolarOpt\<close>: \<open>ir/volar-ir-opt/src/biir.rs\<close> and \<open>canon_alias\<close> of \<open>common.rs\<close>. \<open>Renaming\<close> and
    \<open>OptSweep\<close> hold what the passes share; \<open>FoldCorrect\<close>, \<open>CseCorrect\<close>, \<open>DceCorrect\<close> prove one pass
    each, \<open>OptProps\<close> their composition, \<open>ReadonlyFold\<close> the folding of read-only storage.
  \<^item> \<open>Dispatch\<close>: \<open>ir/volar-ir-passes/src/dispatch_accumulator.rs\<close> and the calculus of emitting passes.
    \<open>Movfuscate\<close>: the Boolar instance of \<open>movfuscate.rs\<close> there, which combines the blocks of a program
    into one self-looping block. \<open>MovfuscateCorrect\<close> proves what one round computes; \<open>BlockSteps\<close> is the
    step semantics \<open>run_for\<close> of a program and what the evaluator's limit bounds; \<open>MovfuscateProps\<close> the refinement between the two.
  \<^item> \<open>LowerCircuit\<close>: the Boolar half of \<open>lower_to_circuit.rs\<close> and \<open>fuse_to_circuit.rs\<close> there, the unrolling
    of a self-looping block into a circuit. \<open>LowerCircuitCorrect\<close> proves the cache of pure gates, the
    iterations and the cascades; \<open>LowerCircuitProps\<close> the theorems.
  \<^item> \<open>Pipeline\<close>: movfuscation, lowering, fusion and the naive reversible embedding composed, from a program
    of several blocks to a reversible circuit.
  \<^item> \<open>StorageMux\<close>: \<open>ir/volar-ir-passes/src/storage_to_mux_boolar.rs\<close>, which replaces a small storage by
    multiplexed variables. \<open>StorageMuxCorrect\<close> proves the gates and the walk, \<open>StorageMuxProps\<close> the theorems.
  \<^item> \<open>OrderedTable\<close>, \<open>StorageTable\<close>, \<open>PolyCoeffs\<close>: the sorted vectors of \<open>ir/volar-ir-common/src/lib.rs\<close>.
  \<^item> \<open>Schedule\<close>: \<open>ir/volar-ir-common/src/schedule.rs\<close>; \<open>ScheduleCanonical\<close>, \<open>ScheduleValid\<close>,
    \<open>SchedulePlan\<close>, \<open>ScheduleBytes\<close> prove canonical form, validator, planner and byte encoding.
  \<^item> \<open>Scheduler\<close>: \<open>ir/volar-ir-common/src/scheduler.rs\<close>; \<open>SchedulerSerial\<close>, \<open>SchedulerRun\<close>,
    \<open>SchedulerEpoch\<close>, \<open>SchedulerProps\<close> prove serialisability of transactions and of epochs.
  \<^item> \<open>ScheduleExtract\<close>: the Boolar half of \<open>ir/volar-ir-passes/src/schedule.rs\<close>, the storage claims of a
    circuit and their one-iteration manifest; \<open>ScheduleExtractProps\<close> proves that the claims cover what
    evaluation touches, and that circuits without conflicting claims commute.
  \<^item> \<open>Samples\<close>: the concrete circuits at which theorems are instantiated.

  \<^bold>\<open>Interfaces.\<close> \<open>stable_pass\<close> and \<open>program_pass\<close> (a pass run to its fixpoint) and \<open>sweep\<close> (a pass
  that walks a block once) are interpreted on folding, common subexpressions and dead code;
  \<open>appender\<close> (an emitter that appends statements) on the contexts of movfuscation and of lowering
  and on the block storage promotion builds,
  \<open>copier\<close> (one that re-emits a block's statements, possibly reusing gates; every appender is one) on
  lowering's cached emission, \<open>bit_emitter\<close> (the trait of bit primitives) on the movfuscation context;
  \<open>ordered_search\<close> and \<open>ordered_table\<close> on storage declarations and polynomial coefficients;
  \<open>wire_code\<close> (an encoding that determines the value and what follows it) on every part of the
  manifest's bytes.

  \<^bold>\<open>What the lemma groups show.\<close> The evaluator is the specification: lowering to a reversible
  circuit refines it on every wire vector (naive: on clean scratch), lowering back simulates the
  reversible evaluator, the optimiser's passes keep the results of well-formed programs (common
  subexpressions: of those that call each oracle at one width), control flow is compiled away step for
  step (movfuscation, of programs of pure statements that do not write storage) and up to a limit (loop
  lowering), and the round trip is the identity on behaviour. For the scheduler the specification is the serial program:
  a planned schedule, in any completion order, ends in the bank of the serial run, and arbitrary
  interleavings serialise in commit order. What the claims of a circuit promise the scheduler is proved
  against the evaluator: it depends on and changes claimed keys only. Every theorem states its side
  conditions, and where the code misses one without checking it there is a theorem that shows the
  consequence on a concrete program (\<open>movfuscation_leaks_writes\<close>, \<open>storage_promotion_misses_actions\<close>,
  \<open>conflicting_epoch_accepted\<close>, \<open>inner_cycle_never_returns\<close>). Panics and errors are values: for every public operation
  there is a theorem that says when it succeeds, or that it does.

  \<^bold>\<open>Bounds, fuel and termination.\<close> The block loop and the optimiser's fixpoint loops are
  \<open>partial_function\<close>s whose \<open>None\<close> includes not returning; \<open>limited_evaluation_returns\<close>
  and the pass theorems say when they return, \<open>evaluator_diverges_exactly\<close> when the evaluator does not. \<open>canon_hops\<close> has the source's
  own bound on alias chains. Every other loop is structurally recursive or has a measure; there is no
  other fuel.

  \<^bold>\<open>Modelling choices.\<close> Variable, block and storage identifiers (\<open>u32\<close>) are natural numbers, and
  where the code computes with them and checks the range the check is written out; identifiers of the
  scheduler, hashes and truth tables are words. \<open>usize\<close> is a natural number on a 64-bit target.
  Storage is a finite map in which an absent cell reads false. The standard library's binary search and
  sorts are modelled, its allocator never fails. Provenance is a type parameter. External oracles,
  actions and random sources are parameters of the evaluators.

  \<^bold>\<open>Not modelled.\<close> The word-level IR with its optimiser and passes, the word-level
  instances of movfuscation, loop lowering and schedule extraction, virtualisation, the Vaffle target,
  the front ends and the back ends. Of the modelled files: display strings of errors, serialisation
  derives, borrowing iterators and views that compute nothing.
\<close>

end
